(* ===== verification/Prelude.thy ===== *)
theory Prelude
  imports Main "HOL-Library.Word"
begin

text \<open>
  The vocabulary shared by every theory of the development: machine types, results as
  sums (\<open>Inl\<close> is Rust's \<open>Err\<close>, \<open>Inr\<close> its \<open>Ok\<close>), fallible actions on a state (a
  function from the state to a result and the next state, so that an operation that
  fails half way keeps the effects it had), the \<open>?\<close> operator as a bind, loops over lists
  with an early return, and big-endian byte codecs. The collections \<open>act_simps\<close> and
  \<open>pres_intros\<close> carry the proofs about actions.
\<close>

named_theorems act_simps
named_theorems pres_intros

type_synonym byte = "8 word"
type_synonym bytes = "8 word list"
type_synonym u16 = "16 word"
type_synonym u32 = "32 word"
type_synonym u64 = "64 word"
type_synonym hash = "256 word"

section \<open>Results\<close>

definition res_bind :: "'e + 'a \<Rightarrow> ('a \<Rightarrow> 'e + 'b) \<Rightarrow> 'e + 'b" where
  "res_bind r f = (case r of Inl e \<Rightarrow> Inl e | Inr a \<Rightarrow> f a)"

definition map_err :: "('e \<Rightarrow> 'f) \<Rightarrow> 'e + 'a \<Rightarrow> 'f + 'a" where
  "map_err g r = (case r of Inl e \<Rightarrow> Inl (g e) | Inr a \<Rightarrow> Inr a)"

definition ok_or :: "'e \<Rightarrow> 'a option \<Rightarrow> 'e + 'a" where
  "ok_or e x = (case x of None \<Rightarrow> Inl e | Some a \<Rightarrow> Inr a)"

definition ensure :: "bool \<Rightarrow> 'e \<Rightarrow> 'e + unit" where
  "ensure b e = (if b then Inr () else Inl e)"

fun try_map :: "('x \<Rightarrow> 'e + 'a) \<Rightarrow> 'x list \<Rightarrow> 'e + 'a list" where
  "try_map f [] = Inr []"
| "try_map f (x # xs) = res_bind (f x) (\<lambda>a. res_bind (try_map f xs) (\<lambda>as. Inr (a # as)))"

lemma res_bind_simps [simp]:
  "res_bind (Inl e) f = Inl e" "res_bind (Inr a) f = f a"
  by (simp_all add: res_bind_def)

lemma res_bind_Inr_iff: "res_bind r f = Inr b \<longleftrightarrow> (\<exists>a. r = Inr a \<and> f a = Inr b)"
  by (cases r) auto

lemma map_err_simps [simp]: "map_err g (Inl e) = Inl (g e)" "map_err g (Inr a) = Inr a"
  by (simp_all add: map_err_def)

lemma map_err_Inr_iff [simp]: "map_err g r = Inr a \<longleftrightarrow> r = Inr a"
  by (cases r) auto

lemma ok_or_simps [simp]: "ok_or e None = Inl e" "ok_or e (Some a) = Inr a"
  by (simp_all add: ok_or_def)

lemma ok_or_Inr_iff [simp]: "ok_or e x = Inr a \<longleftrightarrow> x = Some a"
  by (cases x) auto

lemma ensure_simps [simp]: "ensure True e = Inr ()" "ensure False e = Inl e"
  by (simp_all add: ensure_def)

lemma ensure_Inr_iff [simp]: "ensure b e = Inr u \<longleftrightarrow> b"
  by (simp add: ensure_def)

lemma try_map_Inr_length: "try_map f xs = Inr ys \<Longrightarrow> length ys = length xs"
  by (induction xs arbitrary: ys) (auto simp: res_bind_Inr_iff)

lemma try_map_Inr_set: "try_map f xs = Inr ys \<Longrightarrow> y \<in> set ys \<Longrightarrow> \<exists>x\<in>set xs. f x = Inr y"
  by (induction xs arbitrary: ys) (auto simp: res_bind_Inr_iff)

lemma try_map_all_ok: "(\<And>x. x \<in> set xs \<Longrightarrow> f x = Inr (g x)) \<Longrightarrow> try_map f xs = Inr (map g xs)"
  by (induction xs) auto

section \<open>Actions\<close>

type_synonym ('s, 'e, 'a) act = "'s \<Rightarrow> ('e + 'a) \<times> 's"

definition ret :: "'a \<Rightarrow> ('s, 'e, 'a) act" where
  "ret a = (\<lambda>s. (Inr a, s))"

definition fail :: "'e \<Rightarrow> ('s, 'e, 'a) act" where
  "fail e = (\<lambda>s. (Inl e, s))"

definition lift_res :: "'e + 'a \<Rightarrow> ('s, 'e, 'a) act" where
  "lift_res r = (\<lambda>s. (r, s))"

definition bindA :: "('s, 'e, 'a) act \<Rightarrow> ('a \<Rightarrow> ('s, 'e, 'b) act) \<Rightarrow> ('s, 'e, 'b) act" where
  "bindA m f = (\<lambda>s. case m s of (Inl e, s') \<Rightarrow> (Inl e, s') | (Inr a, s') \<Rightarrow> f a s')"

definition map_errA :: "('e \<Rightarrow> 'f) \<Rightarrow> ('s, 'e, 'a) act \<Rightarrow> ('s, 'f, 'a) act" where
  "map_errA g m = (\<lambda>s. case m s of (r, s') \<Rightarrow> (map_err g r, s'))"

fun mapA :: "('x \<Rightarrow> ('s, 'e, 'a) act) \<Rightarrow> 'x list \<Rightarrow> ('s, 'e, 'a list) act" where
  "mapA f [] = ret []"
| "mapA f (x # xs) = bindA (f x) (\<lambda>a. bindA (mapA f xs) (\<lambda>as. ret (a # as)))"

lemma ret_apply [simp, act_simps]: "ret a s = (Inr a, s)"
  by (simp add: ret_def)

lemma fail_apply [simp, act_simps]: "fail e s = (Inl e, s)"
  by (simp add: fail_def)

lemma lift_res_apply [simp, act_simps]: "lift_res r s = (r, s)"
  by (simp add: lift_res_def)

lemma bindA_Inl [simp]: "m s = (Inl e, s') \<Longrightarrow> bindA m f s = (Inl e, s')"
  by (simp add: bindA_def)

lemma bindA_Inr [simp]: "m s = (Inr a, s') \<Longrightarrow> bindA m f s = f a s'"
  by (simp add: bindA_def)

lemma bindA_ok_iff:
  "bindA m f s = (Inr b, u) \<longleftrightarrow> (\<exists>a t. m s = (Inr a, t) \<and> f a t = (Inr b, u))"
  by (auto simp: bindA_def split: prod.splits sum.splits)

lemma bindA_okE:
  assumes "bindA m f s = (Inr b, u)"
  obtains a t where "m s = (Inr a, t)" "f a t = (Inr b, u)"
  using assms by (auto simp: bindA_ok_iff)

lemma map_errA_ok_iff [simp]: "map_errA g m s = (Inr a, t) \<longleftrightarrow> m s = (Inr a, t)"
  by (auto simp: map_errA_def split: prod.splits)

lemma snd_map_errA [simp]: "snd (map_errA g m s) = snd (m s)"
  by (simp add: map_errA_def split: prod.splits)

lemma not_isl_obtain:
  assumes "\<not> isl (fst p)"
  obtains a t where "p = (Inr a, t)"
  using assms by (cases p; cases "fst p") auto

text \<open>A loop whose body leaves this state alone.\<close>

lemma mapA_pure:
  "(\<And>x. x \<in> set xs \<Longrightarrow> \<exists>y. f x s = (Inr y, s) \<and> P x y) \<Longrightarrow>
     \<exists>ys. mapA f xs s = (Inr ys, s) \<and> list_all2 P xs ys"
proof (induction xs)
  case (Cons x xs)
  then obtain y ys where "f x s = (Inr y, s)" "P x y" "mapA f xs s = (Inr ys, s)" "list_all2 P xs ys"
    by (meson list.set_intros)
  then show ?case by (intro exI [of _ "y # ys"]) simp
qed simp

section \<open>What an action keeps\<close>

text \<open>
  \<open>preserves I m\<close>: whatever \<open>m\<close> returns, error or not, \<open>I\<close> still holds of the state it
  leaves. \<open>keeps R m\<close>: the state it leaves is related to the one it started from.
\<close>

definition preserves :: "('s \<Rightarrow> bool) \<Rightarrow> ('s, 'e, 'a) act \<Rightarrow> bool" where
  "preserves I m \<longleftrightarrow> (\<forall>s. I s \<longrightarrow> I (snd (m s)))"

definition keeps :: "('s \<Rightarrow> 's \<Rightarrow> bool) \<Rightarrow> ('s, 'e, 'a) act \<Rightarrow> bool" where
  "keeps R m \<longleftrightarrow> (\<forall>s. R s (snd (m s)))"

lemma preservesD: "preserves I m \<Longrightarrow> I s \<Longrightarrow> m s = (r, t) \<Longrightarrow> I t"
  by (auto simp: preserves_def dest: spec [of _ s])

lemma preserves_basic [pres_intros]:
  "preserves I (ret a)" "preserves I (fail e)" "preserves I (lift_res r)"
  by (simp_all add: preserves_def)

lemma preserves_bindA [pres_intros]:
  "preserves I m \<Longrightarrow> (\<And>a. preserves I (f a)) \<Longrightarrow> preserves I (bindA m f)"
  by (auto simp: preserves_def bindA_def split: prod.splits sum.splits)

lemma preserves_map_errA [pres_intros]: "preserves I m \<Longrightarrow> preserves I (map_errA g m)"
  by (simp add: preserves_def)

lemma preserves_mapA [pres_intros]: "(\<And>x. preserves I (f x)) \<Longrightarrow> preserves I (mapA f xs)"
  by (induction xs) (auto intro!: pres_intros)

lemma keepsD: "keeps R m \<Longrightarrow> m s = (r, t) \<Longrightarrow> R s t"
  by (auto simp: keeps_def dest: spec [of _ s])

lemma keeps_basic:
  "reflp R \<Longrightarrow> keeps R (ret a)" "reflp R \<Longrightarrow> keeps R (fail e)" "reflp R \<Longrightarrow> keeps R (lift_res r)"
  by (simp_all add: keeps_def reflp_def)

lemma keeps_bindA:
  "transp R \<Longrightarrow> keeps R m \<Longrightarrow> (\<And>a. keeps R (f a)) \<Longrightarrow> keeps R (bindA m f)"
  unfolding keeps_def bindA_def
  by (auto split: prod.splits sum.splits) (metis snd_conv transpE)+

lemma keeps_map_errA: "keeps R m \<Longrightarrow> keeps R (map_errA g m)"
  by (simp add: keeps_def)

lemma keeps_mapA:
  "reflp R \<Longrightarrow> transp R \<Longrightarrow> (\<And>x. keeps R (f x)) \<Longrightarrow> keeps R (mapA f xs)"
  by (induction xs) (auto intro!: keeps_bindA keeps_basic)

lemmas keeps_rules = keeps_basic keeps_bindA keeps_map_errA keeps_mapA

section \<open>Big-endian bytes\<close>

fun be_bytes :: "nat \<Rightarrow> nat \<Rightarrow> bytes" where
  "be_bytes 0 n = []"
| "be_bytes (Suc k) n = be_bytes k (n div 256) @ [of_nat (n mod 256)]"

definition be_nat :: "bytes \<Rightarrow> nat" where
  "be_nat bs = foldl (\<lambda>a b. a * 256 + unat b) 0 bs"

lemma length_be_bytes [simp]: "length (be_bytes k n) = k"
  by (induction k arbitrary: n) auto

lemma be_nat_simps [simp]: "be_nat [] = 0" "be_nat (bs @ [b]) = be_nat bs * 256 + unat b"
  by (simp_all add: be_nat_def)

lemma unat_byte_lt: "unat (b :: byte) < 256"
  using unsigned_less [of b] by simp

lemma unat_of_nat_byte [simp]: "unat (of_nat (n mod 256) :: byte) = n mod 256"
  by (simp add: unat_of_nat take_bit_eq_mod)

lemma of_nat_unat_mod_byte [simp]: "of_nat (unat (b :: byte) mod 256) = b"
proof -
  have "unat b < 256" by (rule unat_byte_lt)
  then show ?thesis by simp
qed

lemma be_nat_be_bytes: "be_nat (be_bytes k n) = n mod 256 ^ k"
proof (induction k arbitrary: n)
  case (Suc k)
  have "n mod 256 ^ Suc k = (n div 256) mod 256 ^ k * 256 + n mod 256"
    using mod_mult2_eq [of n 256 "256 ^ k"] by simp
  with Suc show ?case by simp
qed simp

lemma be_nat_lt: "be_nat bs < 256 ^ length bs"
proof (induction bs rule: rev_induct)
  case (snoc b bs)
  have b: "unat b < 256" by (rule unat_byte_lt)
  have "be_nat bs + 1 \<le> 256 ^ length bs" using snoc by simp
  then have "(be_nat bs + 1) * 256 \<le> 256 ^ length bs * 256" by (rule mult_right_mono) simp
  with b show ?case by simp
qed simp

lemma be_bytes_be_nat: "be_bytes (length bs) (be_nat bs) = bs"
proof (induction bs rule: rev_induct)
  case (snoc b bs)
  have b: "unat b < 256" by (rule unat_byte_lt)
  then have "(be_nat bs * 256 + unat b) div 256 = be_nat bs"
    and "(be_nat bs * 256 + unat b) mod 256 = unat b" by simp_all
  with snoc show ?case by simp
qed simp

section \<open>Lists and maps\<close>

lemma map_of_filter_key:
  "map_of (filter (\<lambda>p. P (fst p)) kvs) k = (if P k then map_of kvs k else None)"
  by (induction kvs) auto

text \<open>A \<open>BTreeMap\<close> is its entries in key order: an association list with strictly
  increasing keys. Lookup is \<open>map_of\<close>; insertion overwrites in place.\<close>

fun bt_insert :: "'k::linorder \<Rightarrow> 'v \<Rightarrow> ('k \<times> 'v) list \<Rightarrow> ('k \<times> 'v) list" where
  "bt_insert k v [] = [(k, v)]"
| "bt_insert k v ((k', v') # kvs) =
     (if k < k' then (k, v) # (k', v') # kvs
      else if k = k' then (k, v) # kvs
      else (k', v') # bt_insert k v kvs)"

definition bt_ok :: "('k::linorder \<times> 'v) list \<Rightarrow> bool" where
  "bt_ok kvs \<longleftrightarrow> sorted_wrt (<) (map fst kvs)"

definition bt_of_list :: "('k::linorder \<times> 'v) list \<Rightarrow> ('k \<times> 'v) list" where
  "bt_of_list kvs = foldl (\<lambda>m (k, v). bt_insert k v m) [] kvs"

lemma map_of_bt_insert [simp]: "map_of (bt_insert k v kvs) = (map_of kvs)(k \<mapsto> v)"
  by (induction k v kvs rule: bt_insert.induct) (auto simp: fun_eq_iff)

lemma set_fst_bt_insert [simp]: "fst ` set (bt_insert k v kvs) = insert k (fst ` set kvs)"
  by (induction k v kvs rule: bt_insert.induct) auto

lemma bt_insert_ok: "bt_ok kvs \<Longrightarrow> bt_ok (bt_insert k v kvs)"
  unfolding bt_ok_def
proof (induction k v kvs rule: bt_insert.induct)
  case (2 k v k' v' kvs)
  show ?case
  proof (cases "k \<le> k'")
    case True
    with "2.prems" show ?thesis by (auto intro: less_trans)
  next
    case False
    have "\<forall>x\<in>fst ` set (bt_insert k v kvs). k' < x"
      using False "2.prems" by (auto simp: set_fst_bt_insert)
    with False "2.IH" "2.prems" show ?thesis by auto
  qed
qed simp

lemma bt_ok_Nil [simp]: "bt_ok []"
  by (simp add: bt_ok_def)

lemma bt_of_list_snoc [simp]: "bt_of_list (kvs @ [(k, v)]) = bt_insert k v (bt_of_list kvs)"
  by (simp add: bt_of_list_def)

lemma bt_of_list_Nil [simp]: "bt_of_list [] = []"
  by (simp add: bt_of_list_def)

lemma bt_of_list_ok: "bt_ok (bt_of_list kvs)"
proof (induction kvs rule: rev_induct)
  case (snoc x xs)
  then show ?case by (cases x) (simp add: bt_insert_ok)
qed simp

lemma bt_ok_distinct: "bt_ok kvs \<Longrightarrow> distinct (map fst kvs)"
  by (auto simp: bt_ok_def strict_sorted_iff)

lemma bt_ok_map_of: "bt_ok kvs \<Longrightarrow> map_of kvs k = Some v \<longleftrightarrow> (k, v) \<in> set kvs"
  using bt_ok_distinct [of kvs] by (simp add: map_of_eq_Some_iff)

lemma bt_ok_unique:
  assumes "bt_ok xs" "bt_ok ys" "map_of xs = map_of ys"
  shows "xs = ys"
proof (rule map_sorted_distinct_set_unique)
  have eq: "set xs = set ys"
    using assms by (metis bt_ok_map_of subrelI subset_antisym)
  show "set xs = set ys" by (fact eq)
  show "inj_on fst (set xs \<union> set ys)"
    using bt_ok_distinct [OF assms(1)] unfolding eq [symmetric] by (simp add: distinct_map)
qed (use assms in \<open>simp_all add: bt_ok_def strict_sorted_iff\<close>)

lemma bt_of_list_set: "(k, v) \<in> set (bt_of_list xs) \<Longrightarrow> (k, v) \<in> set xs"
proof -
  have "map_of (bt_of_list xs) k = Some v \<Longrightarrow> (k, v) \<in> set xs"
    by (induction xs rule: rev_induct) (auto split: if_splits)
  then show "(k, v) \<in> set (bt_of_list xs) \<Longrightarrow> (k, v) \<in> set xs"
    using bt_ok_map_of [OF bt_of_list_ok] by metis
qed

lemma bt_of_list_map_of: "distinct (map fst xs) \<Longrightarrow> map_of (bt_of_list xs) = map_of xs"
proof (induction xs rule: rev_induct)
  case (snoc x xs)
  obtain k v where x: "x = (k, v)" by (cases x)
  have "map_of xs k = None" using snoc.prems by (auto simp: x map_of_eq_None_iff)
  then show ?case using snoc by (auto simp: x map_add_def fun_eq_iff split: option.splits)
qed simp

end
