(* ===== verification/Rust_Std.thy ===== *)
theory Rust_Std
  imports Prelude
begin

text \<open>
  The part of Rust's standard library the sources use on strings. A Rust \<open>String\<close> is the
  list of its UTF-8 bytes, as Isabelle characters: \<open>len\<close> is the length of the list, and an
  ASCII pattern matches a byte exactly when it matches a character. What depends on
  characters beyond ASCII (Unicode white space, control characters) is written on the
  byte sequences that encode them.
\<close>

section \<open>Bytes and characters\<close>

definition byte_of :: "char \<Rightarrow> byte" where
  "byte_of c = of_nat (of_char c)"

definition char_byte :: "byte \<Rightarrow> char" where
  "char_byte b = char_of (unat b)"

definition str_bytes :: "string \<Rightarrow> bytes" where
  "str_bytes s = map byte_of s"

definition bytes_str :: "bytes \<Rightarrow> string" where
  "bytes_str bs = map char_byte bs"

lemma of_char_lt_256 [simp]: "(of_char c :: nat) < 256"
  by (cases c) (simp add: of_char_def horner_sum_simps)

lemma byte_of_char_byte [simp]: "byte_of (char_byte b) = b"
  using unat_byte_lt [of b] by (simp add: byte_of_def char_byte_def)

lemma char_byte_byte_of [simp]: "char_byte (byte_of c) = c"
proof -
  have "unat (of_nat (of_char c) :: byte) = of_char c"
    using unat_of_nat_byte [of "of_char c"] of_char_lt_256 [of c] by (simp del: unat_of_nat_byte)
  then show ?thesis by (simp add: byte_of_def char_byte_def)
qed

lemma str_bytes_bytes_str [simp]: "str_bytes (bytes_str bs) = bs"
  by (simp add: str_bytes_def bytes_str_def comp_def)

lemma bytes_str_str_bytes [simp]: "bytes_str (str_bytes s) = s"
  by (simp add: str_bytes_def bytes_str_def comp_def)

lemma length_str_bytes [simp]: "length (str_bytes s) = length s"
  by (simp add: str_bytes_def)

lemma str_bytes_inj [simp]: "str_bytes s = str_bytes t \<longleftrightarrow> s = t"
  by (metis bytes_str_str_bytes)

lemma str_bytes_append [simp]: "str_bytes (s @ t) = str_bytes s @ str_bytes t"
  by (simp add: str_bytes_def)

section \<open>Searching and splitting\<close>

text \<open>\<open>s.starts_with(p)\<close>, \<open>s.ends_with(p)\<close>, \<open>s.strip_prefix(p)\<close>, \<open>s.contains(p)\<close>.\<close>

definition starts_with :: "'a list \<Rightarrow> 'a list \<Rightarrow> bool" where
  "starts_with p s \<longleftrightarrow> take (length p) s = p"

definition ends_with :: "'a list \<Rightarrow> 'a list \<Rightarrow> bool" where
  "ends_with p s \<longleftrightarrow> length p \<le> length s \<and> drop (length s - length p) s = p"

definition strip_prefix :: "'a list \<Rightarrow> 'a list \<Rightarrow> 'a list option" where
  "strip_prefix p s = (if starts_with p s then Some (drop (length p) s) else None)"

fun contains_sub :: "'a list \<Rightarrow> 'a list \<Rightarrow> bool" where
  "contains_sub p [] \<longleftrightarrow> p = []"
| "contains_sub p (x # xs) \<longleftrightarrow> starts_with p (x # xs) \<or> contains_sub p xs"

text \<open>\<open>s.split(c)\<close>, \<open>s.split_once(c)\<close>, \<open>s.rsplit_once(c)\<close> and \<open>join\<close>.\<close>

fun split_on :: "'a \<Rightarrow> 'a list \<Rightarrow> 'a list list" where
  "split_on c [] = [[]]"
| "split_on c (x # xs) =
     (if x = c then [] # split_on c xs
      else case split_on c xs of [] \<Rightarrow> [[x]] | y # ys \<Rightarrow> (x # y) # ys)"

fun split_once :: "'a \<Rightarrow> 'a list \<Rightarrow> ('a list \<times> 'a list) option" where
  "split_once c [] = None"
| "split_once c (x # xs) =
     (if x = c then Some ([], xs)
      else case split_once c xs of None \<Rightarrow> None | Some (a, b) \<Rightarrow> Some (x # a, b))"

definition rsplit_once :: "'a \<Rightarrow> 'a list \<Rightarrow> ('a list \<times> 'a list) option" where
  "rsplit_once c s =
     (case split_once c (rev s) of None \<Rightarrow> None | Some (a, b) \<Rightarrow> Some (rev b, rev a))"

fun join_with :: "'a list \<Rightarrow> 'a list list \<Rightarrow> 'a list" where
  "join_with sep [] = []"
| "join_with sep [x] = x"
| "join_with sep (x # y # ys) = x @ sep @ join_with sep (y # ys)"

lemma starts_with_append [simp]: "starts_with p (p @ s)"
  by (simp add: starts_with_def)

lemma starts_withE:
  assumes "starts_with p s"
  obtains t where "s = p @ t"
  using assms by (metis append_take_drop_id starts_with_def)

lemma starts_with_iff: "starts_with p s \<longleftrightarrow> (\<exists>t. s = p @ t)"
  by (auto elim: starts_withE)

lemma strip_prefix_append [simp]: "strip_prefix p (p @ s) = Some s"
  by (simp add: strip_prefix_def)

lemma strip_prefix_Some_iff: "strip_prefix p s = Some t \<longleftrightarrow> s = p @ t"
  by (auto simp: strip_prefix_def starts_with_iff split: if_splits)

lemma ends_with_append [simp]: "ends_with p (s @ p)"
  by (simp add: ends_with_def)

lemma ends_with_iff: "ends_with p s \<longleftrightarrow> (\<exists>t. s = t @ p)"
  by (auto simp: ends_with_def) (metis append_take_drop_id)

lemma contains_sub_iff: "contains_sub p s \<longleftrightarrow> (\<exists>a b. s = a @ p @ b)"
proof (induction s)
  case (Cons x xs)
  have "(\<exists>a b. x # xs = a @ p @ b) \<longleftrightarrow> (\<exists>b. x # xs = p @ b) \<or> (\<exists>a b. xs = a @ p @ b)"
    by (metis append_Cons append_Nil append_eq_Cons_conv)
  with Cons show ?case by (simp add: starts_with_iff)
qed auto

lemma split_on_not_Nil [simp]: "split_on c s \<noteq> []"
  by (induction s) (auto split: list.splits)

lemma join_split_on: "join_with [c] (split_on c s) = s"
proof (induction s)
  case (Cons x xs)
  then show ?case by (cases "split_on c xs"; cases "tl (split_on c xs)") auto
qed simp

lemma split_on_no_sep: "p \<in> set (split_on c s) \<Longrightarrow> c \<notin> set p"
proof (induction s arbitrary: p)
  case (Cons x xs)
  then show ?case by (cases "split_on c xs") (auto split: if_splits)
qed simp

lemma split_on_single: "c \<notin> set s \<Longrightarrow> split_on c s = [s]"
  by (induction s) auto

lemma split_on_append_sep: "c \<notin> set a \<Longrightarrow> split_on c (a @ c # b) = a # split_on c b"
  by (induction a) auto

lemma split_on_join:
  "xs \<noteq> [] \<Longrightarrow> (\<And>x. x \<in> set xs \<Longrightarrow> c \<notin> set x) \<Longrightarrow> split_on c (join_with [c] xs) = xs"
  by (induction "[c]" xs rule: join_with.induct) (auto simp: split_on_single split_on_append_sep)

lemma set_split_on: "p \<in> set (split_on c s) \<Longrightarrow> set p \<subseteq> set s"
proof (induction s arbitrary: p)
  case (Cons x xs)
  then show ?case by (cases "split_on c xs") (force split: if_splits)+
qed simp

lemma split_once_sound: "split_once c s = Some (a, b) \<Longrightarrow> s = a @ c # b \<and> c \<notin> set a"
proof (induction s arbitrary: a b)
  case (Cons x xs)
  then show ?case by (auto split: if_splits option.splits)
qed simp

lemma split_once_first [simp]: "c \<notin> set a \<Longrightarrow> split_once c (a @ c # b) = Some (a, b)"
  by (induction a) auto

lemma split_once_Some_iff:
  "split_once c s = Some (a, b) \<longleftrightarrow> s = a @ c # b \<and> c \<notin> set a"
  by (auto dest: split_once_sound)

lemma split_once_None_iff: "split_once c s = None \<longleftrightarrow> c \<notin> set s"
  by (induction s) (auto split: option.splits)

section \<open>White space, digits, control characters\<close>

text \<open>The encodings of the characters with the Unicode property \<open>White_Space\<close>.\<close>

definition white_space :: "byte list list" where
  "white_space =
     map (\<lambda>n. [n]) [0x09, 0x0a, 0x0b, 0x0c, 0x0d, 0x20] @
     [[0xc2, 0x85], [0xc2, 0xa0], [0xe1, 0x9a, 0x80]] @
     map (\<lambda>n. [0xe2, 0x80, n])
       [0x80, 0x81, 0x82, 0x83, 0x84, 0x85, 0x86, 0x87, 0x88, 0x89, 0x8a, 0xa8, 0xa9, 0xaf] @
     [[0xe2, 0x81, 0x9f], [0xe3, 0x80, 0x80]]"

definition white_chars :: "string list" where
  "white_chars = map bytes_str white_space"

fun strip_any :: "'a list list \<Rightarrow> 'a list \<Rightarrow> 'a list option" where
  "strip_any [] s = None"
| "strip_any (p # ps) s =
     (case strip_prefix p s of Some t \<Rightarrow> if p = [] then strip_any ps s else Some t
      | None \<Rightarrow> strip_any ps s)"

lemma strip_any_shorter: "strip_any ps s = Some t \<Longrightarrow> length t < length s"
  by (induction ps) (auto simp: strip_prefix_Some_iff split: option.splits if_splits)

function trim_start_of :: "'a list list \<Rightarrow> 'a list \<Rightarrow> 'a list" where
  "trim_start_of ps s = (case strip_any ps s of None \<Rightarrow> s | Some t \<Rightarrow> trim_start_of ps t)"
  by pat_completeness auto
termination
  by (relation "measure (\<lambda>(ps, s). length s)") (auto dest: strip_any_shorter)

declare trim_start_of.simps [simp del]

definition trim_start :: "string \<Rightarrow> string" where
  "trim_start s = trim_start_of white_chars s"

definition trim_end :: "string \<Rightarrow> string" where
  "trim_end s = rev (trim_start_of (map rev white_chars) (rev s))"

definition str_trim :: "string \<Rightarrow> string" where
  "str_trim s = trim_end (trim_start s)"

definition is_digit :: "char \<Rightarrow> bool" where
  "is_digit c \<longleftrightarrow> 48 \<le> (of_char c :: nat) \<and> (of_char c :: nat) \<le> 57"

definition is_lower :: "char \<Rightarrow> bool" where
  "is_lower c \<longleftrightarrow> 97 \<le> (of_char c :: nat) \<and> (of_char c :: nat) \<le> 122"

definition is_upper :: "char \<Rightarrow> bool" where
  "is_upper c \<longleftrightarrow> 65 \<le> (of_char c :: nat) \<and> (of_char c :: nat) \<le> 90"

definition is_alpha :: "char \<Rightarrow> bool" where
  "is_alpha c \<longleftrightarrow> is_lower c \<or> is_upper c"

definition is_alnum :: "char \<Rightarrow> bool" where
  "is_alnum c \<longleftrightarrow> is_alpha c \<or> is_digit c"

text \<open>\<open>s.chars().any(char::is_control)\<close>: U+0000 to U+001F, U+007F, U+0080 to U+009F.\<close>

fun has_control :: "string \<Rightarrow> bool" where
  "has_control [] \<longleftrightarrow> False"
| "has_control [c] \<longleftrightarrow> (of_char c :: nat) < 32 \<or> (of_char c :: nat) = 127"
| "has_control (c # d # s) \<longleftrightarrow>
     (of_char c :: nat) < 32 \<or> (of_char c :: nat) = 127 \<or>
     ((of_char c :: nat) = 194 \<and> 128 \<le> (of_char d :: nat) \<and> (of_char d :: nat) < 160) \<or>
     has_control (d # s)"

text \<open>\<open>str::parse::<u64>\<close>: an optional \<open>+\<close>, then digits, an error on overflow; and
  \<open>to_string\<close> on an unsigned integer.\<close>

definition digit_val :: "char \<Rightarrow> nat" where
  "digit_val c = of_char c - 48"

definition digits_nat :: "string \<Rightarrow> nat" where
  "digits_nat s = foldl (\<lambda>a c. a * 10 + digit_val c) 0 s"

definition parse_uint :: "nat \<Rightarrow> string \<Rightarrow> nat option" where
  "parse_uint bits s =
     (let d = (case s of c # t \<Rightarrow> if c = CHR ''+'' then t else s | [] \<Rightarrow> [])
      in if d \<noteq> [] \<and> list_all is_digit d \<and> digits_nat d < 2 ^ bits
         then Some (digits_nat d) else None)"

fun show_nat :: "nat \<Rightarrow> string" where
  "show_nat n =
     (if n < 10 then [char_of (48 + n)] else show_nat (n div 10) @ [char_of (48 + n mod 10)])"

declare show_nat.simps [simp del]

section \<open>UTF-8\<close>

text \<open>One well-formed encoded character (RFC 3629) at the head of a byte list, dropped.\<close>

definition cont :: "nat \<Rightarrow> bool" where
  "cont b \<longleftrightarrow> 128 \<le> b \<and> b < 192"

fun utf8_char :: "nat list \<Rightarrow> nat list option" where
  "utf8_char [] = None"
| "utf8_char [a] = (if a < 128 then Some [] else None)"
| "utf8_char [a, b] =
     (if a < 128 then Some [b] else if 194 \<le> a \<and> a < 224 \<and> cont b then Some [] else None)"
| "utf8_char [a, b, c] =
     (if a < 128 then Some [b, c]
      else if 194 \<le> a \<and> a < 224 \<and> cont b then Some [c]
      else if 224 \<le> a \<and> a < 240 \<and> cont b \<and> cont c \<and> (a = 224 \<longrightarrow> 160 \<le> b) \<and> (a = 237 \<longrightarrow> b < 160)
      then Some [] else None)"
| "utf8_char (a # b # c # d # r) =
     (if a < 128 then Some (b # c # d # r)
      else if 194 \<le> a \<and> a < 224 \<and> cont b then Some (c # d # r)
      else if 224 \<le> a \<and> a < 240 \<and> cont b \<and> cont c \<and> (a = 224 \<longrightarrow> 160 \<le> b) \<and> (a = 237 \<longrightarrow> b < 160)
      then Some (d # r)
      else if 240 \<le> a \<and> a < 245 \<and> cont b \<and> cont c \<and> cont d \<and> (a = 240 \<longrightarrow> 144 \<le> b) \<and> (a = 244 \<longrightarrow> b < 144)
      then Some r else None)"

lemma utf8_char_shorter: "utf8_char s = Some t \<Longrightarrow> length t < length s"
  by (induction s rule: utf8_char.induct) (auto split: if_splits)

lemma utf8_char_append: "utf8_char s = Some t \<Longrightarrow> utf8_char (s @ u) = Some (t @ u)"
proof (induction s rule: utf8_char.induct)
  case (2 a) then show ?case by (cases u rule: utf8_char.cases) (auto split: if_splits)
next
  case (3 a b) then show ?case by (cases u rule: utf8_char.cases) (auto split: if_splits)
next
  case (4 a b c) then show ?case by (cases u) (auto split: if_splits)
qed (auto split: if_splits)

function utf8_list :: "nat list \<Rightarrow> bool" where
  "utf8_list s =
     (s = [] \<or> (case utf8_char s of None \<Rightarrow> False | Some t \<Rightarrow> utf8_list t))"
  by pat_completeness auto
termination
  by (relation "measure length") (auto dest: utf8_char_shorter)

declare utf8_list.simps [simp del]

definition utf8_ok :: "bytes \<Rightarrow> bool" where
  "utf8_ok bs = utf8_list (map unat bs)"

lemma utf8_list_append: "utf8_list s \<Longrightarrow> utf8_list u \<Longrightarrow> utf8_list (s @ u)"
proof (induction s rule: utf8_list.induct)
  case (1 s)
  show ?case
  proof (cases "utf8_char s")
    case None
    with "1.prems" have "s = []" by (simp add: utf8_list.simps [of s])
    with "1.prems" show ?thesis by simp
  next
    case (Some t)
    then have s: "s \<noteq> []" by auto
    with "1.prems" Some have "utf8_list t" by (simp add: utf8_list.simps [of s])
    with "1.IH" [OF Some] "1.prems" have "utf8_list (t @ u)" by simp
    with utf8_char_append [OF Some, of u] show ?thesis
      by (simp add: utf8_list.simps [of "s @ u"])
  qed
qed

lemma utf8_ok_append: "utf8_ok a \<Longrightarrow> utf8_ok b \<Longrightarrow> utf8_ok (a @ b)"
  by (simp add: utf8_ok_def utf8_list_append)

lemma utf8_ok_ascii: "(\<And>b. b \<in> set bs \<Longrightarrow> unat b < 128) \<Longrightarrow> utf8_ok bs"
proof (induction bs)
  case Nil
  then show ?case by (simp add: utf8_ok_def utf8_list.simps)
next
  case (Cons b bs)
  have "utf8_char [unat b] = Some []" using Cons.prems by simp
  then have "utf8_ok [b]" by (simp add: utf8_ok_def utf8_list.simps)
  with Cons utf8_ok_append [of "[b]" bs] show ?case by simp
qed

text \<open>\<open>to_string_lossy\<close>: every maximal ill-formed subpart becomes U+FFFD.\<close>

definition bad_len :: "nat list \<Rightarrow> nat" where
  "bad_len s =
     (case s of
        a # b # r \<Rightarrow>
          (if 224 \<le> a \<and> a < 240 \<and> cont b \<and> (a = 224 \<longrightarrow> 160 \<le> b) \<and> (a = 237 \<longrightarrow> b < 160) then 2
           else if 240 \<le> a \<and> a < 245 \<and> cont b \<and> (a = 240 \<longrightarrow> 144 \<le> b) \<and> (a = 244 \<longrightarrow> b < 144)
           then (case r of c # _ \<Rightarrow> if cont c then 3 else 2 | [] \<Rightarrow> 2)
           else 1)
      | _ \<Rightarrow> 1)"

lemma bad_len_pos: "0 < bad_len s"
  by (auto simp: bad_len_def split: list.splits)

function lossy_list :: "nat list \<Rightarrow> nat list" where
  "lossy_list s =
     (if s = [] then []
      else case utf8_char s of
        Some t \<Rightarrow> take (length s - length t) s @ lossy_list t
      | None \<Rightarrow> [239, 191, 189] @ lossy_list (drop (bad_len s) s))"
  by pat_completeness auto
termination
  by (relation "measure length") (auto dest: utf8_char_shorter simp: bad_len_pos)

declare lossy_list.simps [simp del]

definition utf8_lossy :: "string \<Rightarrow> string" where
  "utf8_lossy s = map char_of (lossy_list (map of_char s))"

lemma utf8_char_suffix: "utf8_char s = Some t \<Longrightarrow> s = take (length s - length t) s @ t"
proof (induction s rule: utf8_char.induct)
  case (5 a b c d r)
  then show ?case by (auto simp: Suc_diff_le numeral_eq_Suc split: if_splits)
qed (auto simp: numeral_eq_Suc split: if_splits)

lemma lossy_valid: "utf8_list s \<Longrightarrow> lossy_list s = s"
proof (induction s rule: lossy_list.induct)
  case (1 s)
  show ?case
  proof (cases "s = []")
    case False
    with "1.prems" obtain t where t: "utf8_char s = Some t" "utf8_list t"
      by (auto simp: utf8_list.simps [of s] split: option.splits)
    then have "lossy_list t = t" using "1.IH" False by blast
    with False t(1) have "lossy_list s = take (length s - length t) s @ t"
      by (simp add: lossy_list.simps [of s])
    also have "\<dots> = s" using utf8_char_suffix [OF t(1)] by (rule sym)
    finally show ?thesis .
  qed (simp add: lossy_list.simps)
qed

lemma utf8_lossy_valid: "utf8_ok (str_bytes s) \<Longrightarrow> utf8_lossy s = s"
proof -
  assume "utf8_ok (str_bytes s)"
  moreover have "map unat (str_bytes s) = map of_char s"
  proof -
    have "unat (byte_of c) = of_char c" for c
      unfolding byte_of_def using unat_of_nat_byte [of "of_char c"] of_char_lt_256 [of c]
      by (simp del: unat_of_nat_byte)
    then show ?thesis by (simp add: str_bytes_def)
  qed
  ultimately have "utf8_list (map of_char s)" by (simp add: utf8_ok_def)
  then show ?thesis by (simp add: utf8_lossy_def lossy_valid comp_def)
qed

section \<open>Trimming a line\<close>

lemma strip_any_hd: "(\<And>p. p \<in> set ps \<Longrightarrow> p \<noteq> [] \<and> hd p \<noteq> c) \<Longrightarrow> strip_any ps (c # s) = None"
proof (induction ps)
  case (Cons p ps)
  from Cons.prems [of p] have "\<not> starts_with p (c # s)"
    by (cases p) (auto simp: starts_with_def)
  with Cons show ?case by (simp add: strip_prefix_def)
qed simp

definition white_ends :: "char list" where
  "white_ends = map hd white_chars @ map last white_chars"

lemma white_chars_not_Nil: "p \<in> set white_chars \<Longrightarrow> p \<noteq> []"
  by (auto simp: white_chars_def white_space_def bytes_str_def)

lemma trim_start_hd: "c \<notin> set white_ends \<Longrightarrow> trim_start (c # s) = c # s"
proof -
  assume "c \<notin> set white_ends"
  then have "strip_any white_chars (c # s) = None"
    by (intro strip_any_hd) (auto simp: white_ends_def white_chars_not_Nil)
  then show ?thesis by (simp add: trim_start_def trim_start_of.simps)
qed

lemma white_chars_first: "white_chars = [CHR 0x09] # [CHR 0x0A] # drop 2 white_chars"
proof -
  have "take 2 white_chars = [[CHR 0x09], [CHR 0x0A]]" by code_simp
  then show ?thesis by (metis append_Cons append_Nil append_take_drop_id)
qed

lemma trim_end_newline: "trim_end (s @ [CHR 0x0A]) = trim_end s"
proof -
  have "strip_any (map rev white_chars) (CHR 0x0A # rev s) = Some (rev s)"
    by (subst white_chars_first) (simp add: strip_prefix_def starts_with_def)
  then show ?thesis by (simp add: trim_end_def trim_start_of.simps [of _ "CHR 0x0A # rev s"])
qed

lemma trim_end_last: "c \<notin> set white_ends \<Longrightarrow> trim_end (s @ [c]) = s @ [c]"
proof -
  assume "c \<notin> set white_ends"
  then have "strip_any (map rev white_chars) (c # rev s) = None"
    by (intro strip_any_hd) (auto simp: white_ends_def hd_rev dest: white_chars_not_Nil)
  then show ?thesis by (simp add: trim_end_def trim_start_of.simps)
qed

lemma str_trim_line: "c \<notin> set white_ends \<Longrightarrow> str_trim ((c # s) @ [CHR 0x0A]) = trim_end (c # s)"
  using trim_end_newline [of "c # s"] by (simp add: str_trim_def trim_start_hd)

lemma white_ends_ascii: "c \<in> set white_ends \<Longrightarrow> of_char c < (33::nat) \<or> 128 \<le> (of_char c :: nat)"
  by (auto simp: white_ends_def white_chars_def white_space_def bytes_str_def char_byte_def)

end
