(* ===== verification/Json.thy ===== *)
theory Json
  imports Rust_Std "HOL-Library.List_Lexorder" "HOL-Library.Char_ord"
begin

text \<open>
  JSON documents and what serde's derived implementations make of them. A document keeps
  the members of an object in the order of the text, because a derived struct writes its
  fields in declaration order; a \<open>serde_json::Value\<close> (whose map is a \<open>BTreeMap\<close>) is a document
  whose objects are sorted. The text layer and the other third-party code is the record
  \<open>lib\<close>; what the sources rely on of it is stated as predicates, used as hypotheses.
\<close>

datatype jnum = PosInt u64 | NegInt u64 | Float u64

datatype json =
    JNull
  | JBool bool
  | JNum jnum
  | JStr string
  | JArr "json list"
  | JObj "(string \<times> json) list"

fun json_depth_doc :: "json \<Rightarrow> nat" where
  "json_depth_doc (JArr xs) = Suc (foldr max (map json_depth_doc xs) 0)"
| "json_depth_doc (JObj kvs) = Suc (foldr max (map (\<lambda>(k, v). json_depth_doc v) kvs) 0)"
| "json_depth_doc _ = 0"

text \<open>Documents whose text reads back exactly: no floating-point numbers, negative
  integers negative, nesting within the parser's recursion limit of 128.\<close>

fun json_plain :: "json \<Rightarrow> bool" where
  "json_plain (JNum n) \<longleftrightarrow> (case n of PosInt _ \<Rightarrow> True | NegInt w \<Rightarrow> sint w < 0 | Float _ \<Rightarrow> False)"
| "json_plain (JArr xs) \<longleftrightarrow> list_all json_plain xs"
| "json_plain (JObj kvs) \<longleftrightarrow> list_all (\<lambda>(k, v). json_plain v) kvs"
| "json_plain _ \<longleftrightarrow> True"

definition json_exact :: "json \<Rightarrow> bool" where
  "json_exact j \<longleftrightarrow> json_plain j \<and> json_depth_doc j < 128"

type_synonym timestamp = int

record lib =
  blake3 :: "bytes \<Rightarrow> hash"
  hex_enc :: "bytes \<Rightarrow> string"
  hex_dec :: "string \<Rightarrow> bytes option"
  json_print :: "json \<Rightarrow> bytes"
  json_parse :: "bytes \<Rightarrow> json option"
  ts_print :: "timestamp \<Rightarrow> string"
  ts_parse :: "string \<Rightarrow> timestamp option"
  zstd :: "bytes \<Rightarrow> bytes"
  unzstd :: "bytes \<Rightarrow> bytes option"
  re_find :: "string \<Rightarrow> bytes \<Rightarrow> (nat \<times> nat) list"
  hmac_sha256 :: "bytes \<Rightarrow> bytes \<Rightarrow> bytes"
  f32_num :: "u32 \<Rightarrow> json"
  num_f32 :: "json \<Rightarrow> u32 option"
  f64_of_u64 :: "u64 \<Rightarrow> u64"

section \<open>What the sources rely on of the libraries\<close>

text \<open>\<open>hex::encode\<close> writes two lower-case digits per byte; \<open>hex::decode\<close> reads them back and
  accepts exactly the strings of hexadecimal digits of even length.\<close>

definition is_hexdigit :: "char \<Rightarrow> bool" where
  "is_hexdigit c \<longleftrightarrow> is_digit c \<or>
     (97 \<le> (of_char c :: nat) \<and> (of_char c :: nat) \<le> 102) \<or>
     (65 \<le> (of_char c :: nat) \<and> (of_char c :: nat) \<le> 70)"

definition is_lower_hex :: "char \<Rightarrow> bool" where
  "is_lower_hex c \<longleftrightarrow> is_digit c \<or> (97 \<le> (of_char c :: nat) \<and> (of_char c :: nat) \<le> 102)"

definition hex_law :: "lib \<Rightarrow> bool" where
  "hex_law L \<longleftrightarrow>
     (\<forall>bs. hex_dec L (hex_enc L bs) = Some bs \<and> length (hex_enc L bs) = 2 * length bs \<and>
           list_all is_lower_hex (hex_enc L bs)) \<and>
     (\<forall>s. hex_dec L s \<noteq> None \<longleftrightarrow> even (length s) \<and> list_all is_hexdigit s) \<and>
     (\<forall>s bs. hex_dec L s = Some bs \<longrightarrow> length s = 2 * length bs)"

definition json_law :: "lib \<Rightarrow> bool" where
  "json_law L \<longleftrightarrow> (\<forall>j. json_exact j \<longrightarrow> json_parse L (json_print L j) = Some j)"

text \<open>Times are nanoseconds since the epoch; RFC 3339 text reads back for the years
  1970 to 9999.\<close>

definition ts_range :: "timestamp \<Rightarrow> bool" where
  "ts_range t \<longleftrightarrow> 0 \<le> t \<and> t < 253402300800 * 10 ^ 9"

definition ts_law :: "lib \<Rightarrow> bool" where
  "ts_law L \<longleftrightarrow> (\<forall>t. ts_range t \<longrightarrow> ts_parse L (ts_print L t) = Some t)"

definition zstd_law :: "lib \<Rightarrow> bool" where
  "zstd_law L \<longleftrightarrow> (\<forall>bs. unzstd L (zstd L bs) = Some bs)"

definition lib_ok :: "lib \<Rightarrow> bool" where
  "lib_ok L \<longleftrightarrow> hex_law L \<and> json_law L \<and> ts_law L \<and> zstd_law L"

section \<open>Derived serialisation\<close>

definition of_u64 :: "u64 \<Rightarrow> json" where
  "of_u64 n = JNum (PosInt n)"

fun to_u64 :: "json \<Rightarrow> u64 option" where
  "to_u64 (JNum (PosInt n)) = Some n"
| "to_u64 _ = None"

definition of_u32 :: "u32 \<Rightarrow> json" where
  "of_u32 n = JNum (PosInt (ucast n))"

definition to_u32 :: "json \<Rightarrow> u32 option" where
  "to_u32 j = (case to_u64 j of Some n \<Rightarrow> if unat n < 2 ^ 32 then Some (ucast n) else None | None \<Rightarrow> None)"

definition of_u8 :: "byte \<Rightarrow> json" where
  "of_u8 n = JNum (PosInt (ucast n))"

definition to_u8 :: "json \<Rightarrow> byte option" where
  "to_u8 j = (case to_u64 j of Some n \<Rightarrow> if unat n < 256 then Some (ucast n) else None | None \<Rightarrow> None)"

fun to_str :: "json \<Rightarrow> string option" where
  "to_str (JStr s) = Some s"
| "to_str _ = None"

fun to_bool :: "json \<Rightarrow> bool option" where
  "to_bool (JBool b) = Some b"
| "to_bool _ = None"

definition of_opt :: "('a \<Rightarrow> json) \<Rightarrow> 'a option \<Rightarrow> json" where
  "of_opt f x = (case x of None \<Rightarrow> JNull | Some a \<Rightarrow> f a)"

definition to_opt :: "(json \<Rightarrow> 'a option) \<Rightarrow> json \<Rightarrow> 'a option option" where
  "to_opt f j = (if j = JNull then Some None else map_option Some (f j))"

fun all_some :: "'a option list \<Rightarrow> 'a list option" where
  "all_some [] = Some []"
| "all_some (x # xs) =
     (case x of None \<Rightarrow> None | Some a \<Rightarrow> (case all_some xs of None \<Rightarrow> None | Some as \<Rightarrow> Some (a # as)))"

definition of_vec :: "('a \<Rightarrow> json) \<Rightarrow> 'a list \<Rightarrow> json" where
  "of_vec f xs = JArr (map f xs)"

fun to_vec :: "(json \<Rightarrow> 'a option) \<Rightarrow> json \<Rightarrow> 'a list option" where
  "to_vec f (JArr xs) = all_some (map f xs)"
| "to_vec f _ = None"

text \<open>A \<open>BTreeMap<String, T>\<close>: later members of the text overwrite earlier ones.\<close>

definition of_map :: "('a \<Rightarrow> json) \<Rightarrow> (string \<times> 'a) list \<Rightarrow> json" where
  "of_map f kvs = JObj (map (\<lambda>(k, v). (k, f v)) kvs)"

definition to_map :: "(json \<Rightarrow> 'a option) \<Rightarrow> json \<Rightarrow> (string \<times> 'a) list option" where
  "to_map f j =
     (case j of
        JObj kvs \<Rightarrow>
          (case all_some (map (\<lambda>(k, v). map_option (Pair k) (f v)) kvs) of
             None \<Rightarrow> None | Some ps \<Rightarrow> Some (bt_of_list ps))
      | _ \<Rightarrow> None)"

text \<open>The fields of a derived struct, from an object (known names at most once, unknown
  names ignored) or from an array by position. \<open>from_seq\<close> records which: a missing
  \<open>Option\<close> field is \<open>None\<close> in an object and an error in an array.\<close>

datatype fields = Fields (from_seq: bool) (field_at: "string \<Rightarrow> json option")

definition de_struct :: "string list \<Rightarrow> json \<Rightarrow> fields option" where
  "de_struct names j =
     (case j of
        JObj kvs \<Rightarrow>
          (let known = filter (\<lambda>(k, v). k \<in> set names) kvs
           in if distinct (map fst known) then Some (Fields False (map_of known)) else None)
      | JArr xs \<Rightarrow>
          (if length xs \<le> length names then Some (Fields True (map_of (zip names xs))) else None)
      | _ \<Rightarrow> None)"

definition field_req :: "(json \<Rightarrow> 'a option) \<Rightarrow> string \<Rightarrow> fields \<Rightarrow> 'a option" where
  "field_req f n fs = (case field_at fs n of None \<Rightarrow> None | Some j \<Rightarrow> f j)"

definition field_opt :: "(json \<Rightarrow> 'a option) \<Rightarrow> string \<Rightarrow> fields \<Rightarrow> 'a option option" where
  "field_opt f n fs =
     (case field_at fs n of
        None \<Rightarrow> if from_seq fs then None else Some None
      | Some j \<Rightarrow> to_opt f j)"

definition field_def :: "'a \<Rightarrow> (json \<Rightarrow> 'a option) \<Rightarrow> string \<Rightarrow> fields \<Rightarrow> 'a option" where
  "field_def d f n fs = (case field_at fs n of None \<Rightarrow> Some d | Some j \<Rightarrow> f j)"

text \<open>A unit variant: its name, or an object from its name to null. An internally tagged
  enum: the tag is a member of the object (exactly once) or the head of the array.\<close>

definition unit_variant :: "json \<Rightarrow> string option" where
  "unit_variant j =
     (case j of JStr s \<Rightarrow> Some s | JObj [(k, v)] \<Rightarrow> if v = JNull then Some k else None | _ \<Rightarrow> None)"

definition de_tagged :: "string \<Rightarrow> json \<Rightarrow> (string \<times> json) option" where
  "de_tagged tag j =
     (case j of
        JObj kvs \<Rightarrow>
          (case filter (\<lambda>(k, v). k = tag) kvs of
             [(_, JStr t)] \<Rightarrow> Some (t, JObj (filter (\<lambda>(k, v). k \<noteq> tag) kvs))
           | _ \<Rightarrow> None)
      | JArr (JStr t # xs) \<Rightarrow> Some (t, JArr xs)
      | _ \<Rightarrow> None)"

text \<open>A document read as a \<open>serde_json::Value\<close>: every object becomes a sorted map.\<close>

fun to_value :: "json \<Rightarrow> json" where
  "to_value (JArr xs) = JArr (map to_value xs)"
| "to_value (JObj kvs) = JObj (bt_of_list (map (\<lambda>(k, v). (k, to_value v)) kvs))"
| "to_value j = j"

text \<open>\<open>Value::get\<close> with a string.\<close>

definition json_get :: "string \<Rightarrow> json \<Rightarrow> json option" where
  "json_get k v = (case v of JObj kvs \<Rightarrow> map_of kvs k | _ \<Rightarrow> None)"

fun is_value :: "json \<Rightarrow> bool" where
  "is_value (JArr xs) \<longleftrightarrow> list_all is_value xs"
| "is_value (JObj kvs) \<longleftrightarrow> bt_ok kvs \<and> list_all (\<lambda>(k, v). is_value v) kvs"
| "is_value j \<longleftrightarrow> True"

section \<open>Reading back what was written\<close>

lemma all_some_map_Some [simp]: "all_some (map (\<lambda>x. Some (f x)) xs) = Some (map f xs)"
  by (induction xs) auto

lemma all_some_map_id: "(\<And>x. x \<in> set xs \<Longrightarrow> f x = Some (g x)) \<Longrightarrow> all_some (map f xs) = Some (map g xs)"
  by (induction xs) auto

lemma to_vec_of_vec: "(\<And>x. x \<in> set xs \<Longrightarrow> g (f x) = Some x) \<Longrightarrow> to_vec g (of_vec f xs) = Some xs"
  using all_some_map_id [of xs "g \<circ> f" "\<lambda>x. x"] by (simp add: of_vec_def)

lemma to_u64_of_u64 [simp]: "to_u64 (of_u64 n) = Some n"
  by (simp add: of_u64_def)

lemma unat_u32_lt: "unat (n :: u32) < 4294967296"
  using unsigned_less [of n] by simp

lemma unat_ucast_u64 [simp]:
  "unat (ucast (n :: u32) :: u64) = unat n" "unat (ucast (b :: byte) :: u64) = unat b"
  by (simp_all add: unsigned_ucast_eq take_bit_nat_eq_self unat_u32_lt [THEN order_less_le_trans]
    unat_byte_lt [THEN order_less_le_trans])

lemma ucast_u64_back [simp]:
  "(ucast (ucast (n :: u32) :: u64) :: u32) = n" "(ucast (ucast (b :: byte) :: u64) :: byte) = b"
  by (simp_all add: word_unat_eq_iff unsigned_ucast_eq take_bit_nat_eq_self unat_u32_lt
    unat_byte_lt take_bit_word_eq_self)

lemma to_u32_of_u32 [simp]: "to_u32 (of_u32 n) = Some n"
  using unat_u32_lt [of n] by (simp add: to_u32_def of_u32_def)

lemma to_u8_of_u8 [simp]: "to_u8 (of_u8 n) = Some n"
  using unat_byte_lt [of n] by (simp add: to_u8_def of_u8_def)

lemma to_opt_of_opt: "(\<And>a. x = Some a \<Longrightarrow> g (f a) = Some a \<and> f a \<noteq> JNull) \<Longrightarrow> to_opt g (of_opt f x) = Some x"
  by (cases x) (auto simp: to_opt_def of_opt_def)

lemma bt_insert_snoc: "bt_ok (kvs @ [(k, v)]) \<Longrightarrow> bt_insert k v kvs = kvs @ [(k, v)]"
proof (induction kvs)
  case (Cons p kvs)
  then show ?case
    by (cases p) (auto simp: bt_ok_def sorted_wrt_append dest: less_not_sym)
qed simp

lemma bt_of_list_id: "bt_ok kvs \<Longrightarrow> bt_of_list kvs = kvs"
proof (induction kvs rule: rev_induct)
  case (snoc p kvs)
  then have "bt_ok kvs" by (simp add: bt_ok_def sorted_wrt_append)
  with snoc show ?case by (cases p) (simp add: bt_insert_snoc)
qed simp

lemma to_map_of_map:
  assumes "bt_ok kvs" "\<And>k v. (k, v) \<in> set kvs \<Longrightarrow> g (f v) = Some v"
  shows "to_map g (of_map f kvs) = Some kvs"
proof -
  have "all_some (map (\<lambda>(k, v). map_option (Pair k) (g v)) (map (\<lambda>(k, v). (k, f v)) kvs)) = Some (map (\<lambda>p. p) kvs)"
    unfolding map_map by (rule all_some_map_id) (use assms(2) in auto)
  then show ?thesis using assms(1) by (simp add: to_map_def of_map_def bt_of_list_id)
qed

lemma json_plain_of_vec: "(\<And>x. x \<in> set xs \<Longrightarrow> json_plain (f x)) \<Longrightarrow> json_plain (of_vec f xs)"
  by (auto simp: of_vec_def list_all_iff)

lemma json_plain_of_opt: "(\<And>a. x = Some a \<Longrightarrow> json_plain (f a)) \<Longrightarrow> json_plain (of_opt f x)"
  by (cases x) (auto simp: of_opt_def)

lemma json_plain_num [simp]: "json_plain (of_u64 n)" "json_plain (of_u32 m)" "json_plain (of_u8 b)"
  by (simp_all add: of_u64_def of_u32_def of_u8_def)

lemma foldr_max_le: "foldr max xs (0::nat) \<le> n \<longleftrightarrow> (\<forall>x\<in>set xs. x \<le> n)"
  by (induction xs) auto

lemma json_depth_num [simp]:
  "json_depth_doc (of_u64 n) = 0" "json_depth_doc (of_u32 m) = 0" "json_depth_doc (of_u8 b) = 0"
  by (simp_all add: of_u64_def of_u32_def of_u8_def)

lemma json_depth_of_vec:
  "(\<And>x. x \<in> set xs \<Longrightarrow> json_depth_doc (f x) \<le> n) \<Longrightarrow> json_depth_doc (of_vec f xs) \<le> Suc n"
  by (simp add: of_vec_def foldr_max_le)

lemma json_depth_of_opt:
  "(\<And>a. x = Some a \<Longrightarrow> json_depth_doc (f a) \<le> n) \<Longrightarrow> json_depth_doc (of_opt f x) \<le> n"
  by (cases x) (auto simp: of_opt_def)

lemma to_value_id: "is_value j \<Longrightarrow> to_value j = j"
proof (induction j)
  case (JArr xs)
  then show ?case by (auto simp: list_all_iff intro: map_idI)
next
  case (JObj kvs)
  have "map (\<lambda>(k, v). (k, to_value v)) kvs = kvs"
    using JObj by (intro map_idI) (fastforce simp: list_all_iff)
  with JObj.prems show ?case by (simp add: bt_of_list_id)
qed simp_all

lemma json_get_value: "distinct (map fst kvs) \<Longrightarrow> json_get k (to_value (JObj kvs)) = map_option to_value (map_of kvs k)"
proof -
  assume d: "distinct (map fst kvs)"
  have f: "map fst (map (\<lambda>(k, v). (k, to_value v)) kvs) = map fst kvs" by (induction kvs) auto
  have "map_of (bt_of_list (map (\<lambda>(k, v). (k, to_value v)) kvs)) = map_of (map (\<lambda>(k, v). (k, to_value v)) kvs)"
    by (rule bt_of_list_map_of) (unfold f, rule d)
  then show ?thesis by (simp add: json_get_def map_of_map)
qed

end
