(* ===== verification/Objects.thy ===== *)
theory Objects
  imports Json
begin

text \<open>
  Content addresses (\<open>hash.rs\<close>) and the object model (\<open>object.rs\<close>) of \<open>agentic-core\<close>. A
  \<open>Hash\<close> is a 256-bit word, its bytes big-endian, so the derived order on the byte array
  is the order of the words. The derived serde implementations are written out as maps
  to and from documents.
\<close>

section \<open>Hash\<close>

definition hash_bytes :: "hash \<Rightarrow> bytes" where
  "hash_bytes h = be_bytes 32 (unat h)"

definition bytes_hash :: "bytes \<Rightarrow> hash" where
  "bytes_hash bs = of_nat (be_nat bs)"

definition hash_of :: "lib \<Rightarrow> bytes \<Rightarrow> hash" where
  "hash_of L bs = blake3 L bs"

definition to_hex :: "lib \<Rightarrow> hash \<Rightarrow> string" where
  "to_hex L h = hex_enc L (hash_bytes h)"

definition hash_short :: "lib \<Rightarrow> hash \<Rightarrow> string" where
  "hash_short L h = take 7 (to_hex L h)"

definition shard :: "lib \<Rightarrow> hash \<Rightarrow> string \<times> string" where
  "shard L h = (let s = to_hex L h in (take 2 s, drop 2 s))"

datatype parse_hash_error = WrongLength nat | InvalidHex

definition hash_from_str :: "lib \<Rightarrow> string \<Rightarrow> parse_hash_error + hash" where
  "hash_from_str L s =
     (if length s \<noteq> 64 then Inl (WrongLength (length s))
      else case hex_dec L s of
        None \<Rightarrow> Inl InvalidHex
      | Some bs \<Rightarrow> if length bs = 32 then Inr (bytes_hash bs) else Inl InvalidHex)"

definition hash_to_json :: "hash \<Rightarrow> json" where
  "hash_to_json h = of_vec of_u8 (hash_bytes h)"

definition hash_of_json :: "json \<Rightarrow> hash option" where
  "hash_of_json j =
     (case to_vec to_u8 j of
        Some bs \<Rightarrow> if length bs = 32 then Some (bytes_hash bs) else None
      | None \<Rightarrow> None)"

section \<open>Object kinds and references\<close>

datatype object_kind = KBlob | KTree | KSegment | KCommit

fun kind_name :: "object_kind \<Rightarrow> string" where
  "kind_name KBlob = ''blob''"
| "kind_name KTree = ''tree''"
| "kind_name KSegment = ''segment''"
| "kind_name KCommit = ''commit''"

definition kind_of_json :: "json \<Rightarrow> object_kind option" where
  "kind_of_json j =
     (case unit_variant j of
        None \<Rightarrow> None
      | Some s \<Rightarrow> find (\<lambda>k. kind_name k = s) [KBlob, KTree, KSegment, KCommit])"

record typed_ref =
  ref_kind :: object_kind
  ref_hash :: hash

definition ref_to_json :: "typed_ref \<Rightarrow> json" where
  "ref_to_json r =
     JObj [(''kind'', JStr (kind_name (ref_kind r))), (''hash'', hash_to_json (ref_hash r))]"

definition ref_of_json :: "json \<Rightarrow> typed_ref option" where
  "ref_of_json j =
     Option.bind (de_struct [''kind'', ''hash''] j) (\<lambda>fs.
     Option.bind (field_req kind_of_json ''kind'' fs) (\<lambda>k.
     Option.bind (field_req hash_of_json ''hash'' fs) (\<lambda>h.
     Some \<lparr>ref_kind = k, ref_hash = h\<rparr>)))"

section \<open>Blob, Tree, Attestation, Commit\<close>

type_synonym blob = bytes

type_synonym tree = "(string \<times> typed_ref) list"

definition tree_insert :: "string \<Rightarrow> typed_ref \<Rightarrow> tree \<Rightarrow> tree" where
  "tree_insert n r t = bt_insert n r t"

record attestation =
  issuer :: string
  signature_bytes :: bytes

record commit =
  c_parent :: "hash option"
  c_author :: string
  c_timestamp :: timestamp
  c_message :: string
  c_code_sha :: "string option"
  c_prompts :: "hash option"
  c_tools :: "hash option"
  c_model :: "hash option"
  c_memory_snapshot :: "hash option"
  c_schema_version :: "string option"
  c_intent :: "hash option"
  c_plan :: "hash option"
  c_transcript :: "hash option"
  c_evals :: "hash option"
  c_cost_cents :: u32
  c_signatures :: "attestation list"
  c_peer_uid :: "u32 option"

definition blob_fields :: "blob \<Rightarrow> (string \<times> json) list" where
  "blob_fields bs = [(''bytes'', of_vec of_u8 bs)]"

definition tree_fields :: "tree \<Rightarrow> (string \<times> json) list" where
  "tree_fields t = [(''entries'', of_map ref_to_json t)]"

definition attestation_to_json :: "attestation \<Rightarrow> json" where
  "attestation_to_json a =
     JObj [(''issuer'', JStr (issuer a)), (''signature'', of_vec of_u8 (signature_bytes a))]"

definition attestation_of_json :: "json \<Rightarrow> attestation option" where
  "attestation_of_json j =
     Option.bind (de_struct [''issuer'', ''signature''] j) (\<lambda>fs.
     Option.bind (field_req to_str ''issuer'' fs) (\<lambda>i.
     Option.bind (field_req (to_vec to_u8) ''signature'' fs) (\<lambda>s.
     Some \<lparr>issuer = i, signature_bytes = s\<rparr>)))"

definition commit_names :: "string list" where
  "commit_names =
     [''parent'', ''author'', ''timestamp'', ''message'', ''code_sha'', ''prompts'', ''tools'',
      ''model'', ''memory_snapshot'', ''schema_version'', ''intent'', ''plan'', ''transcript'',
      ''evals'', ''cost_cents'', ''signatures'', ''peer_uid'']"

definition commit_fields :: "lib \<Rightarrow> commit \<Rightarrow> (string \<times> json) list" where
  "commit_fields L c = zip commit_names
     [of_opt hash_to_json (c_parent c), JStr (c_author c), JStr (ts_print L (c_timestamp c)),
      JStr (c_message c), of_opt JStr (c_code_sha c), of_opt hash_to_json (c_prompts c),
      of_opt hash_to_json (c_tools c), of_opt hash_to_json (c_model c),
      of_opt hash_to_json (c_memory_snapshot c), of_opt JStr (c_schema_version c),
      of_opt hash_to_json (c_intent c), of_opt hash_to_json (c_plan c),
      of_opt hash_to_json (c_transcript c), of_opt hash_to_json (c_evals c), of_u32 (c_cost_cents c),
      of_vec attestation_to_json (c_signatures c), of_opt of_u32 (c_peer_uid c)]"

definition blob_of_json :: "json \<Rightarrow> blob option" where
  "blob_of_json j =
     Option.bind (de_struct [''bytes''] j) (\<lambda>fs. field_req (to_vec to_u8) ''bytes'' fs)"

definition tree_of_json :: "json \<Rightarrow> tree option" where
  "tree_of_json j =
     Option.bind (de_struct [''entries''] j) (\<lambda>fs. field_req (to_map ref_of_json) ''entries'' fs)"

definition ts_of_json :: "lib \<Rightarrow> json \<Rightarrow> timestamp option" where
  "ts_of_json L j = (case j of JStr s \<Rightarrow> ts_parse L s | _ \<Rightarrow> None)"

definition commit_of_json :: "lib \<Rightarrow> json \<Rightarrow> commit option" where
  "commit_of_json L j =
     Option.bind (de_struct commit_names j) (\<lambda>fs.
     let hash_default = (\<lambda>n. field_def None (to_opt hash_of_json) n fs) in
     Option.bind (field_opt hash_of_json ''parent'' fs) (\<lambda>v_parent.
     Option.bind (field_req to_str ''author'' fs) (\<lambda>v_author.
     Option.bind (field_req (ts_of_json L) ''timestamp'' fs) (\<lambda>v_time.
     Option.bind (field_req to_str ''message'' fs) (\<lambda>v_message.
     Option.bind (field_opt to_str ''code_sha'' fs) (\<lambda>v_sha.
     Option.bind (field_opt hash_of_json ''prompts'' fs) (\<lambda>v_prompts.
     Option.bind (field_opt hash_of_json ''tools'' fs) (\<lambda>v_tools.
     Option.bind (field_opt hash_of_json ''model'' fs) (\<lambda>v_model.
     Option.bind (field_opt hash_of_json ''memory_snapshot'' fs) (\<lambda>v_mem.
     Option.bind (field_opt to_str ''schema_version'' fs) (\<lambda>v_schema.
     Option.bind (hash_default ''intent'') (\<lambda>v_intent.
     Option.bind (hash_default ''plan'') (\<lambda>v_plan.
     Option.bind (hash_default ''transcript'') (\<lambda>v_transcript.
     Option.bind (hash_default ''evals'') (\<lambda>v_evals.
     Option.bind (field_def 0 to_u32 ''cost_cents'' fs) (\<lambda>v_cost.
     Option.bind (field_def [] (to_vec attestation_of_json) ''signatures'' fs) (\<lambda>v_sigs.
     Option.bind (field_def None (to_opt to_u32) ''peer_uid'' fs) (\<lambda>v_uid.
     Some \<lparr>c_parent = v_parent, c_author = v_author, c_timestamp = v_time, c_message = v_message,
        c_code_sha = v_sha, c_prompts = v_prompts, c_tools = v_tools, c_model = v_model,
        c_memory_snapshot = v_mem, c_schema_version = v_schema, c_intent = v_intent, c_plan = v_plan,
        c_transcript = v_transcript, c_evals = v_evals, c_cost_cents = v_cost, c_signatures = v_sigs,
        c_peer_uid = v_uid\<rparr>))))))))))))))))))"

section \<open>Object\<close>

datatype obj = OBlob blob | OTree tree | OCommit commit

fun kind_of_obj :: "obj \<Rightarrow> object_kind" where
  "kind_of_obj (OBlob b) = KBlob"
| "kind_of_obj (OTree t) = KTree"
| "kind_of_obj (OCommit c) = KCommit"

definition blob_hash :: "lib \<Rightarrow> blob \<Rightarrow> hash" where
  "blob_hash L bs = hash_of L bs"

definition tree_hash :: "lib \<Rightarrow> tree \<Rightarrow> hash" where
  "tree_hash L t = hash_of L (json_print L (JObj (tree_fields t)))"

definition commit_hash :: "lib \<Rightarrow> commit \<Rightarrow> hash" where
  "commit_hash L c = hash_of L (json_print L (JObj (commit_fields L c)))"

fun object_hash :: "lib \<Rightarrow> obj \<Rightarrow> hash" where
  "object_hash L (OBlob b) = blob_hash L b"
| "object_hash L (OTree t) = tree_hash L t"
| "object_hash L (OCommit c) = commit_hash L c"

fun object_fields :: "lib \<Rightarrow> obj \<Rightarrow> (string \<times> json) list" where
  "object_fields L (OBlob b) = blob_fields b"
| "object_fields L (OTree t) = tree_fields t"
| "object_fields L (OCommit c) = commit_fields L c"

definition object_to_json :: "lib \<Rightarrow> obj \<Rightarrow> json" where
  "object_to_json L x = JObj ((''kind'', JStr (kind_name (kind_of_obj x))) # object_fields L x)"

definition object_of_json :: "lib \<Rightarrow> json \<Rightarrow> obj option" where
  "object_of_json L j =
     (case de_tagged ''kind'' j of
        None \<Rightarrow> None
      | Some (t, body) \<Rightarrow>
          if t = ''blob'' then map_option OBlob (blob_of_json body)
          else if t = ''tree'' then map_option OTree (tree_of_json body)
          else if t = ''commit'' then map_option OCommit (commit_of_json L body)
          else None)"

text \<open>What \<open>serde_json::to_vec\<close> and \<open>from_slice\<close> do to an object.\<close>

definition object_bytes :: "lib \<Rightarrow> obj \<Rightarrow> bytes" where
  "object_bytes L x = json_print L (object_to_json L x)"

definition object_parse :: "lib \<Rightarrow> bytes \<Rightarrow> obj option" where
  "object_parse L bs = (case json_parse L bs of None \<Rightarrow> None | Some j \<Rightarrow> object_of_json L j)"

text \<open>The type invariants of the Rust values: a \<open>BTreeMap\<close> is sorted, a time is one whose
  text reads back.\<close>

fun object_wf :: "obj \<Rightarrow> bool" where
  "object_wf (OBlob b) \<longleftrightarrow> True"
| "object_wf (OTree t) \<longleftrightarrow> bt_ok t"
| "object_wf (OCommit c) \<longleftrightarrow> ts_range (c_timestamp c)"

section \<open>Hashes read back\<close>

lemma length_hash_bytes [simp]: "length (hash_bytes h) = 32"
  by (simp add: hash_bytes_def)

lemma unat_hash_lt: "unat (h :: hash) < 256 ^ 32"
  using unsigned_less [of h] by simp

lemma bytes_hash_hash_bytes [simp]: "bytes_hash (hash_bytes h) = h"
  using unat_hash_lt [of h] by (simp add: bytes_hash_def hash_bytes_def be_nat_be_bytes)

lemma hash_bytes_bytes_hash: "length bs = 32 \<Longrightarrow> hash_bytes (bytes_hash bs) = bs"
proof -
  assume len: "length bs = 32"
  have "be_nat bs < 2 ^ 256" using be_nat_lt [of bs] len by simp
  then have "unat (of_nat (be_nat bs) :: hash) = be_nat bs"
    by (simp add: unat_of_nat take_bit_nat_eq_self)
  then show ?thesis using be_bytes_be_nat [of bs] len by (simp add: hash_bytes_def bytes_hash_def)
qed

lemma hash_bytes_inj [simp]: "hash_bytes h = hash_bytes k \<longleftrightarrow> h = k"
  by (metis bytes_hash_hash_bytes)

lemma hash_of_json_to_json [simp]: "hash_of_json (hash_to_json h) = Some h"
  by (simp add: hash_of_json_def hash_to_json_def to_vec_of_vec)

lemma hash_to_json_not_null [simp]: "hash_to_json h \<noteq> JNull"
  by (simp add: hash_to_json_def of_vec_def)

lemma length_to_hex: "hex_law L \<Longrightarrow> length (to_hex L h) = 64"
  by (simp add: to_hex_def hex_law_def)

lemma hash_from_str_to_hex: "hex_law L \<Longrightarrow> hash_from_str L (to_hex L h) = Inr h"
  by (simp add: hash_from_str_def length_to_hex) (simp add: to_hex_def hex_law_def)

lemma to_hex_inj: "hex_law L \<Longrightarrow> to_hex L h = to_hex L k \<longleftrightarrow> h = k"
  by (metis hash_from_str_to_hex sum.inject(2))

lemma to_hex_lower: "hex_law L \<Longrightarrow> list_all is_lower_hex (to_hex L h)"
  by (simp add: to_hex_def hex_law_def)

lemma hash_from_str_ok_iff:
  "hex_law L \<Longrightarrow> (\<exists>h. hash_from_str L s = Inr h) \<longleftrightarrow> length s = 64 \<and> list_all is_hexdigit s"
  by (auto simp: hash_from_str_def hex_law_def split: option.splits)
    (metis even_numeral option.distinct(1) option.sel)+

section \<open>Objects read back\<close>

lemma unit_variant_str [simp]: "unit_variant (JStr s) = Some s"
  by (simp add: unit_variant_def)

lemma kind_of_json_name [simp]: "kind_of_json (JStr (kind_name k)) = Some k"
  by (cases k) (simp_all add: kind_of_json_def)

lemmas de_defs = de_struct_def field_req_def field_opt_def field_def_def

lemma ref_of_json_to_json [simp]: "ref_of_json (ref_to_json r) = Some r"
  by (cases r) (simp add: ref_of_json_def ref_to_json_def de_defs)

lemma to_vec_u8 [simp]: "to_vec to_u8 (of_vec of_u8 bs) = Some bs"
  by (rule to_vec_of_vec) simp

lemma attestation_of_json_to_json [simp]:
  "attestation_of_json (attestation_to_json a) = Some a"
  by (cases a) (simp add: attestation_of_json_def attestation_to_json_def de_defs)

lemma blob_of_json_fields [simp]: "blob_of_json (JObj (blob_fields b)) = Some b"
  by (simp add: blob_of_json_def blob_fields_def de_defs)

lemma tree_of_json_fields: "bt_ok t \<Longrightarrow> tree_of_json (JObj (tree_fields t)) = Some t"
  by (simp add: tree_of_json_def tree_fields_def de_defs to_map_of_map)

lemma of_num_not_null [simp]: "of_u32 n \<noteq> JNull" "of_vec f xs \<noteq> JNull"
  by (simp_all add: of_u32_def of_vec_def)

lemma to_opt_hash [simp]: "to_opt hash_of_json (of_opt hash_to_json x) = Some x"
  by (rule to_opt_of_opt) simp

lemma to_opt_str [simp]: "to_opt to_str (of_opt JStr x) = Some x"
  by (rule to_opt_of_opt) simp

lemma to_opt_u32 [simp]: "to_opt to_u32 (of_opt of_u32 x) = Some x"
  by (rule to_opt_of_opt) simp

lemma to_vec_attestation [simp]:
  "to_vec attestation_of_json (of_vec attestation_to_json xs) = Some xs"
  by (rule to_vec_of_vec) simp

lemma de_struct_commit [simp]:
  "de_struct commit_names (JObj (commit_fields L c)) =
     Some (Fields False (map_of (commit_fields L c)))"
  by (simp add: de_struct_def commit_fields_def commit_names_def)

lemma commit_of_json_fields:
  assumes "ts_law L" "ts_range (c_timestamp c)"
  shows "commit_of_json L (JObj (commit_fields L c)) = Some c"
proof -
  have "ts_of_json L (JStr (ts_print L (c_timestamp c))) = Some (c_timestamp c)"
    using assms by (simp add: ts_of_json_def ts_law_def)
  then show ?thesis
    unfolding commit_of_json_def de_struct_commit Option.bind.bind_lunit
    by (simp add: Let_def field_req_def field_opt_def field_def_def commit_fields_def commit_names_def)
qed

lemma de_tagged_object:
  "de_tagged ''kind'' (object_to_json L x) =
     Some (kind_name (kind_of_obj x), JObj (object_fields L x))"
  by (cases x) (simp_all add: de_tagged_def object_to_json_def blob_fields_def tree_fields_def
      commit_fields_def commit_names_def)

lemma object_of_json_to_json:
  "ts_law L \<Longrightarrow> object_wf x \<Longrightarrow> object_of_json L (object_to_json L x) = Some x"
  unfolding object_of_json_def de_tagged_object
  by (cases x) (simp_all add: tree_of_json_fields commit_of_json_fields)

lemma json_plain_hash [simp]: "json_plain (hash_to_json h)"
  by (simp add: hash_to_json_def json_plain_of_vec)

lemma json_depth_hash: "json_depth_doc (hash_to_json h) \<le> 1"
  unfolding hash_to_json_def using json_depth_of_vec [of _ of_u8 0] by simp

lemma json_plain_bytes [simp]: "json_plain (of_vec of_u8 bs)"
  by (simp add: json_plain_of_vec)

lemma json_depth_bytes: "json_depth_doc (of_vec of_u8 bs) \<le> 1"
  using json_depth_of_vec [of _ of_u8 0] by simp

lemma json_plain_opt_hash [simp]: "json_plain (of_opt hash_to_json x)"
  by (rule json_plain_of_opt) simp

lemma json_plain_opt [simp]: "json_plain (of_opt JStr x)" "json_plain (of_opt of_u32 y)"
  by (rule json_plain_of_opt, simp)+

lemma json_depth_opt_hash: "json_depth_doc (of_opt hash_to_json x) \<le> 1"
  using json_depth_hash by (rule json_depth_of_opt)

lemma json_depth_opt [simp]:
  "json_depth_doc (of_opt JStr y) = 0" "json_depth_doc (of_opt of_u32 z) = 0"
  using json_depth_of_opt [of y JStr 0] json_depth_of_opt [of z of_u32 0] by simp_all

lemma json_depth_obj:
  "(\<And>v. v \<in> snd ` set kvs \<Longrightarrow> json_depth_doc v \<le> n) \<Longrightarrow> json_depth_doc (JObj kvs) \<le> Suc n"
  by (fastforce simp: foldr_max_le)

lemma json_plain_obj:
  "(\<And>v. v \<in> snd ` set kvs \<Longrightarrow> json_plain v) \<Longrightarrow> json_plain (JObj kvs)"
  by (fastforce simp: list_all_iff)

lemma json_plain_attestations [simp]: "json_plain (of_vec attestation_to_json xs)"
  by (rule json_plain_of_vec) (simp add: attestation_to_json_def)

lemma json_depth_attestations: "json_depth_doc (of_vec attestation_to_json xs) \<le> 3"
  using json_depth_of_vec [of xs attestation_to_json 2] json_depth_bytes
  by (simp add: attestation_to_json_def)

lemma json_tree: "json_plain (of_map ref_to_json t) \<and> json_depth_doc (of_map ref_to_json t) \<le> 3"
  using json_depth_hash
  by (auto simp: of_map_def list_all_iff ref_to_json_def foldr_max_le)

lemma json_exact_object: "json_exact (object_to_json L x)"
proof (cases x)
  case (OBlob b)
  then show ?thesis
    using json_depth_bytes [of b] by (simp add: json_exact_def object_to_json_def blob_fields_def)
next
  case (OTree t)
  then show ?thesis
    using json_tree [of t] by (simp add: json_exact_def object_to_json_def tree_fields_def)
next
  case (OCommit c)
  have *: "json_plain v \<and> json_depth_doc v \<le> 3"
    if "v \<in> snd ` set ((''kind'', JStr (kind_name KCommit)) # commit_fields L c)" for v
  proof -
    have "v \<in> set (JStr (kind_name KCommit) # map snd (commit_fields L c))" using that by force
    moreover have "json_depth_doc (of_opt hash_to_json y) \<le> 3" for y
      using json_depth_opt_hash [of y] by simp
    ultimately show ?thesis
      using json_depth_attestations by (auto simp: commit_fields_def commit_names_def)
  qed
  have "json_plain (object_to_json L x)" "json_depth_doc (object_to_json L x) \<le> Suc 3"
    unfolding object_to_json_def OCommit kind_of_obj.simps object_fields.simps
    by (rule json_plain_obj, use * in blast, rule json_depth_obj, use * in blast)
  then show ?thesis by (simp add: json_exact_def)
qed

lemma object_parse_bytes:
  "json_law L \<Longrightarrow> ts_law L \<Longrightarrow> object_wf x \<Longrightarrow> object_parse L (object_bytes L x) = Some x"
  by (simp add: object_parse_def object_bytes_def json_law_def json_exact_object object_of_json_to_json)

end
