(* ===== verification/File_System.thy ===== *)
theory File_System
  imports Rust_Std
begin

text \<open>
  The file system the daemon and the stores write to. A path is the list of its
  components from the root; a state holds the entries and a script of faults. Every
  primitive that the sources call consumes one element of the script: \<open>None\<close> lets the
  call run, \<open>Some (e, k)\<close> makes it fail with \<open>e\<close> (for a write, after \<open>k\<close> bytes are
  on disk). A crash is a script in which every later call fails, so what is proved for
  every script holds at every crash point. A symbolic link (\<open>FLink\<close>) is one whose target
  does not exist; \<open>FSpecial\<close> stands for FIFOs and sockets.
\<close>

type_synonym path = "string list"

datatype io_kind = IoNotFound | IoExists | IoNotADir | IoIsADir | IoInvalidData | IoUnexpectedEof | IoOther

datatype io_error = IoError io_kind string

fun io_kind_of :: "io_error \<Rightarrow> io_kind" where
  "io_kind_of (IoError k m) = k"

datatype entry = FFile bytes | FDir | FLink | FSpecial

record fs =
  entries :: "(path \<times> entry) list"
  faults :: "(io_error \<times> nat) option list"

section \<open>Paths\<close>

datatype pcomp = RootDir | CurDir | ParentDir | Normal string

text \<open>\<open>Path::components\<close>: a leading slash is the root, empty components and every \<open>.\<close>
  but a leading one vanish.\<close>

definition comp_of :: "string \<Rightarrow> pcomp list" where
  "comp_of c = (if c = [] \<or> c = ''.'' then [] else if c = ''..'' then [ParentDir] else [Normal c])"

definition path_components :: "string \<Rightarrow> pcomp list" where
  "path_components s =
     (let ps = split_on (CHR ''/'') s
      in (if starts_with ''/'' s then [RootDir] else if hd ps = ''.'' then [CurDir] else [])
         @ concat (map comp_of ps))"

text \<open>What the operating system makes of a component, and \<open>base.join(s)\<close> as it sees it.\<close>

fun walk_comp :: "path \<Rightarrow> pcomp \<Rightarrow> path" where
  "walk_comp p RootDir = []"
| "walk_comp p CurDir = p"
| "walk_comp p ParentDir = butlast p"
| "walk_comp p (Normal c) = p @ [c]"

definition path_join :: "path \<Rightarrow> string \<Rightarrow> path" where
  "path_join p s = foldl walk_comp p (path_components s)"

text \<open>\<open>Path::with_extension\<close> on the last component: the text from its last dot on is
  replaced, unless that dot is the first character.\<close>

definition set_extension :: "string \<Rightarrow> string \<Rightarrow> string" where
  "set_extension ext c =
     (case rsplit_once (CHR ''.'') c of
        None \<Rightarrow> c @ ''.'' @ ext
      | Some (stem, _) \<Rightarrow> (if stem = [] then c else stem) @ ''.'' @ ext)"

definition with_extension :: "path \<Rightarrow> string \<Rightarrow> path" where
  "with_extension p ext = (if p = [] then p else butlast p @ [set_extension ext (last p)])"

section \<open>Reading entries\<close>

definition lookup :: "(path \<times> entry) list \<Rightarrow> path \<Rightarrow> entry option" where
  "lookup es p = (if p = [] then Some FDir else map_of es p)"

definition put_entry :: "path \<Rightarrow> entry \<Rightarrow> (path \<times> entry) list \<Rightarrow> (path \<times> entry) list" where
  "put_entry p e es = (p, e) # filter (\<lambda>(q, _). q \<noteq> p) es"

definition del_entry :: "path \<Rightarrow> (path \<times> entry) list \<Rightarrow> (path \<times> entry) list" where
  "del_entry p es = filter (\<lambda>(q, _). q \<noteq> p) es"

definition is_dir :: "(path \<times> entry) list \<Rightarrow> path \<Rightarrow> bool" where
  "is_dir es p \<longleftrightarrow> lookup es p = Some FDir"

definition path_exists :: "fs \<Rightarrow> path \<Rightarrow> bool" where
  "path_exists s p =
     (case lookup (entries s) p of None \<Rightarrow> False | Some FLink \<Rightarrow> False | Some _ \<Rightarrow> True)"

text \<open>A file system is well formed when every entry stands in a directory.\<close>

definition es_ok :: "(path \<times> entry) list \<Rightarrow> bool" where
  "es_ok es \<longleftrightarrow>
     distinct (map fst es) \<and> list_all (\<lambda>(p, e). p \<noteq> [] \<and> is_dir es (butlast p)) es"

definition fs_ok :: "fs \<Rightarrow> bool" where
  "fs_ok s \<longleftrightarrow> es_ok (entries s)"

section \<open>Primitives\<close>

type_synonym 'a fsact = "(fs, io_error, 'a) act"

definition next_fault :: "fs \<Rightarrow> (io_error \<times> nat) option \<times> fs" where
  "next_fault s = (case faults s of [] \<Rightarrow> (None, s) | f # r \<Rightarrow> (f, s\<lparr>faults := r\<rparr>))"

definition nf :: "string \<Rightarrow> io_error" where
  "nf m = IoError IoNotFound m"

text \<open>A primitive: what the call does to the entries when it runs, and what it leaves of
  them when it fails after \<open>k\<close> units of its work.\<close>

type_synonym ents = "(path \<times> entry) list"

definition prim :: "(nat \<Rightarrow> ents \<Rightarrow> ents) \<Rightarrow> (ents \<Rightarrow> (io_error + 'a) \<times> ents) \<Rightarrow> 'a fsact" where
  "prim torn f s =
     (case next_fault s of
        (Some (e, k), s') \<Rightarrow> (Inl e, s'\<lparr>entries := torn k (entries s)\<rparr>)
      | (None, s') \<Rightarrow> (case f (entries s) of (r, es) \<Rightarrow> (r, s'\<lparr>entries := es\<rparr>)))"

definition whole :: "nat \<Rightarrow> ents \<Rightarrow> ents" where
  "whole k es = es"

fun read_e :: "path \<Rightarrow> ents \<Rightarrow> (io_error + bytes) \<times> ents" where
  "read_e p es =
     (case lookup es p of
        Some (FFile bs) \<Rightarrow> Inr bs
      | Some FDir \<Rightarrow> Inl (IoError IoIsADir [])
      | Some FSpecial \<Rightarrow> Inl (IoError IoOther [])
      | _ \<Rightarrow> Inl (nf []), es)"

definition fs_read :: "path \<Rightarrow> bytes fsact" where
  "fs_read p = prim whole (read_e p)"

definition fs_read_to_string :: "path \<Rightarrow> string fsact" where
  "fs_read_to_string p =
     bindA (fs_read p) (\<lambda>bs. if utf8_ok bs then ret (bytes_str bs)
                              else fail (IoError IoInvalidData []))"

definition writable :: "ents \<Rightarrow> path \<Rightarrow> io_error option" where
  "writable es p =
     (if p = [] then Some (IoError IoIsADir [])
      else case lookup es (butlast p) of
        Some FDir \<Rightarrow> (case map_of es p of
                        None \<Rightarrow> None
                      | Some (FFile _) \<Rightarrow> None
                      | Some FDir \<Rightarrow> Some (IoError IoIsADir [])
                      | _ \<Rightarrow> Some (IoError IoOther []))
      | None \<Rightarrow> Some (nf [])
      | _ \<Rightarrow> Some (IoError IoNotADir []))"

fun write_e :: "path \<Rightarrow> bytes \<Rightarrow> ents \<Rightarrow> (io_error + unit) \<times> ents" where
  "write_e p bs es =
     (case writable es p of
        Some e \<Rightarrow> (Inl e, es)
      | None \<Rightarrow> (Inr (), put_entry p (FFile bs) es))"

text \<open>A write that fails may have created or truncated the file (\<open>0 < k\<close>) and written a
  prefix of the bytes.\<close>

definition fs_write :: "path \<Rightarrow> bytes \<Rightarrow> unit fsact" where
  "fs_write p bs =
     prim (\<lambda>k es. if k = 0 then es else snd (write_e p (take (k - 1) bs) es)) (write_e p bs)"

text \<open>\<open>rename\<close> moves a file (or link) over a file, a link or nothing. The sources
  rename nothing else; a directory as the source is an error here.\<close>

fun rename_e :: "path \<Rightarrow> path \<Rightarrow> ents \<Rightarrow> (io_error + unit) \<times> ents" where
  "rename_e p q es =
     (case lookup es p of
        None \<Rightarrow> (Inl (nf []), es)
      | Some x \<Rightarrow>
          if x = FDir then (Inl (IoError IoOther []), es)
          else if lookup es q = Some FDir then (Inl (IoError IoIsADir []), es)
          else if \<not> is_dir es (butlast q) then (Inl (nf []), es)
          else (Inr (), put_entry q x (if p = q then es else del_entry p es)))"

definition fs_rename :: "path \<Rightarrow> path \<Rightarrow> unit fsact" where
  "fs_rename p q = prim whole (rename_e p q)"

fun mkdirs :: "ents \<Rightarrow> path \<Rightarrow> string list \<Rightarrow> (io_error + unit) \<times> ents" where
  "mkdirs es p [] = (Inr (), es)"
| "mkdirs es p (c # cs) =
     (case map_of es (p @ [c]) of
        None \<Rightarrow> mkdirs (put_entry (p @ [c]) FDir es) (p @ [c]) cs
      | Some FDir \<Rightarrow> mkdirs es (p @ [c]) cs
      | Some _ \<Rightarrow> (Inl (IoError (if cs = [] then IoExists else IoNotADir) []), es))"

definition fs_create_dir_all :: "path \<Rightarrow> unit fsact" where
  "fs_create_dir_all p =
     prim (\<lambda>k es. snd (mkdirs es [] (take k p))) (\<lambda>es. mkdirs es [] p)"

text \<open>\<open>read_dir\<close>: the names and kinds in a directory, in no particular order (the
  order of the entry list, which nothing below fixes).\<close>

definition children :: "ents \<Rightarrow> path \<Rightarrow> (string \<times> entry) list" where
  "children es p =
     map (\<lambda>(q, e). (last q, e)) (filter (\<lambda>(q, _). q \<noteq> [] \<and> butlast q = p) es)"

fun read_dir_e :: "path \<Rightarrow> ents \<Rightarrow> (io_error + (string \<times> entry) list) \<times> ents" where
  "read_dir_e p es =
     (case lookup es p of
        None \<Rightarrow> Inl (nf [])
      | Some x \<Rightarrow> if x = FDir then Inr (children es p) else Inl (IoError IoNotADir []), es)"

definition fs_read_dir :: "path \<Rightarrow> (string \<times> entry) list fsact" where
  "fs_read_dir p = prim whole (read_dir_e p)"

fun remove_file_e :: "path \<Rightarrow> ents \<Rightarrow> (io_error + unit) \<times> ents" where
  "remove_file_e p es =
     (case lookup es p of
        None \<Rightarrow> (Inl (nf []), es)
      | Some x \<Rightarrow> if x = FDir then (Inl (IoError IoIsADir []), es)
                  else (Inr (), del_entry p es))"

definition fs_remove_file :: "path \<Rightarrow> unit fsact" where
  "fs_remove_file p = prim whole (remove_file_e p)"

fun remove_dir_e :: "path \<Rightarrow> ents \<Rightarrow> (io_error + unit) \<times> ents" where
  "remove_dir_e p es =
     (case lookup es p of
        None \<Rightarrow> (Inl (nf []), es)
      | Some x \<Rightarrow> if x \<noteq> FDir then (Inl (IoError IoNotADir []), es)
                  else if p = [] \<or> children es p \<noteq> [] then (Inl (IoError IoOther []), es)
                  else (Inr (), del_entry p es))"

definition fs_remove_dir :: "path \<Rightarrow> unit fsact" where
  "fs_remove_dir p = prim whole (remove_dir_e p)"

fun remove_dir_all_e :: "path \<Rightarrow> ents \<Rightarrow> (io_error + unit) \<times> ents" where
  "remove_dir_all_e p es =
     (case lookup es p of
        None \<Rightarrow> (Inl (nf []), es)
      | Some x \<Rightarrow> if x \<noteq> FDir then (Inl (IoError IoNotADir []), es)
                  else (Inr (), filter (\<lambda>(q, _). \<not> starts_with p q) es))"

definition fs_remove_dir_all :: "path \<Rightarrow> unit fsact" where
  "fs_remove_dir_all p = prim (\<lambda>k es. es) (remove_dir_all_e p)"

section \<open>What the primitives do to the entries\<close>

lemma map_of_put_entry [simp]: "map_of (put_entry p e es) = (map_of es)(p \<mapsto> e)"
  by (auto simp: put_entry_def fun_eq_iff map_of_filter_key [where P = "\<lambda>q. q \<noteq> p"] case_prod_unfold)

lemma map_of_del_entry [simp]: "map_of (del_entry p es) = (map_of es)(p := None)"
  by (auto simp: del_entry_def fun_eq_iff map_of_filter_key [where P = "\<lambda>q. q \<noteq> p"] case_prod_unfold)

lemma lookup_Nil [simp]: "lookup es [] = Some FDir"
  by (simp add: lookup_def)

lemma lookup_map_of: "p \<noteq> [] \<Longrightarrow> lookup es p = map_of es p"
  by (simp add: lookup_def)

lemma distinct_put_entry: "distinct (map fst es) \<Longrightarrow> distinct (map fst (put_entry p e es))"
  by (auto simp: put_entry_def distinct_map_filter)

lemma distinct_del_entry: "distinct (map fst es) \<Longrightarrow> distinct (map fst (del_entry p es))"
  by (simp add: del_entry_def distinct_map_filter)

lemma es_ok_iff:
  "es_ok es \<longleftrightarrow> distinct (map fst es) \<and>
     (\<forall>p e. map_of es p = Some e \<longrightarrow> p \<noteq> [] \<and> is_dir es (butlast p))"
  unfolding es_ok_def list_all_iff by (intro conj_cong refl) (simp, blast)

lemma es_ok_parent: "es_ok es \<Longrightarrow> map_of es p = Some e \<Longrightarrow> p \<noteq> [] \<and> is_dir es (butlast p)"
  by (simp add: es_ok_iff)

lemma is_dir_put_entry:
  "is_dir es q \<Longrightarrow> (q = p \<Longrightarrow> e = FDir) \<Longrightarrow> is_dir (put_entry p e es) q"
  by (auto simp: is_dir_def lookup_def)

lemma es_ok_put_entry:
  assumes "es_ok es" "p \<noteq> []" "is_dir es (butlast p)" "map_of es p = Some FDir \<Longrightarrow> e = FDir"
  shows "es_ok (put_entry p e es)"
  unfolding es_ok_iff
proof (intro conjI allI impI)
  show "distinct (map fst (put_entry p e es))"
    using assms(1) by (simp add: es_ok_iff distinct_put_entry)
next
  fix q x assume q: "map_of (put_entry p e es) q = Some x"
  then show "q \<noteq> []"
    using assms(1, 2) by (auto simp: es_ok_iff split: if_splits)
  have "is_dir es (butlast q)"
    using q assms(1, 3) by (auto simp: es_ok_iff split: if_splits)
  moreover have "butlast q = p \<Longrightarrow> e = FDir"
    using calculation assms(2, 4) by (auto simp: is_dir_def lookup_def)
  ultimately show "is_dir (put_entry p e es) (butlast q)"
    by (rule is_dir_put_entry)
qed

lemma es_ok_del_entry:
  assumes "es_ok es" "\<And>q e. map_of es q = Some e \<Longrightarrow> butlast q \<noteq> p"
  shows "es_ok (del_entry p es)"
  unfolding es_ok_iff
proof (intro conjI allI impI)
  show "distinct (map fst (del_entry p es))"
    using assms(1) by (simp add: es_ok_iff distinct_del_entry)
next
  fix q x assume "map_of (del_entry p es) q = Some x"
  then have q: "map_of es q = Some x" by (auto split: if_splits)
  then show "q \<noteq> []" using assms(1) es_ok_parent by blast
  show "is_dir (del_entry p es) (butlast q)"
    using es_ok_parent [OF assms(1) q] assms(2) [OF q] by (auto simp: is_dir_def lookup_def)
qed

lemma es_ok_not_parent:
  assumes "es_ok es" "map_of es p = Some x" "x \<noteq> FDir" "map_of es q = Some e"
  shows "butlast q \<noteq> p"
  using es_ok_parent [OF assms(1, 4)] es_ok_parent [OF assms(1, 2)] assms(2, 3)
  by (auto simp: is_dir_def lookup_def)

lemma mkdirs_entries:
  "mkdirs es p cs = (r, es') \<Longrightarrow>
     map_of es' q = map_of es q \<or> (map_of es q = None \<and> map_of es' q = Some FDir)"
  by (induction es p cs arbitrary: r es' rule: mkdirs.induct)
    (fastforce split: option.splits entry.splits if_splits)+

lemma mkdirs_keeps_dir:
  assumes "mkdirs es p cs = (r, es')" "is_dir es q"
  shows "is_dir es' q"
  using mkdirs_entries [OF assms(1), of q] assms(2) by (auto simp: is_dir_def lookup_def)

lemma mkdirs_ok:
  "mkdirs es p cs = (r, es') \<Longrightarrow> es_ok es \<Longrightarrow> is_dir es p \<Longrightarrow> es_ok es'"
proof (induction es p cs arbitrary: r es' rule: mkdirs.induct)
  case (2 es p c cs)
  show ?case
  proof (cases "map_of es (p @ [c])")
    case None
    have "es_ok (put_entry (p @ [c]) FDir es)"
      using 2 None by (intro es_ok_put_entry) auto
    with 2 None show ?thesis by (auto simp: is_dir_def lookup_def)
  next
    case (Some x)
    with 2 show ?thesis by (auto simp: is_dir_def lookup_def split: entry.splits)
  qed
qed simp

lemma mkdirs_dir:
  "mkdirs es p cs = (Inr u, es') \<Longrightarrow> is_dir es p \<Longrightarrow> is_dir es' (p @ cs)"
proof (induction es p cs arbitrary: es' rule: mkdirs.induct)
  case (2 es p c cs)
  have "is_dir (put_entry (p @ [c]) FDir es) (p @ [c])"
    by (simp add: is_dir_def lookup_def)
  with 2 show ?case
    by (auto simp: is_dir_def lookup_def split: option.splits entry.splits)
qed simp

lemma mkdirs_total:
  "(\<And>n. n < length cs \<Longrightarrow> map_of es (p @ take (Suc n) cs) \<in> {None, Some FDir}) \<Longrightarrow>
     fst (mkdirs es p cs) = Inr ()"
proof (induction es p cs rule: mkdirs.induct)
  case (2 es p c cs)
  have c: "map_of es (p @ [c]) \<in> {None, Some FDir}" using "2.prems" [of 0] by simp
  have cs: "n < length cs \<Longrightarrow> map_of es (p @ c # take (Suc n) cs) \<in> {None, Some FDir}" for n
    using "2.prems" [of "Suc n"] by simp
  show ?case
  proof (cases "map_of es (p @ [c])")
    case None
    then show ?thesis using "2.IH"(1) cs by simp
  next
    case (Some x)
    with c have "x = FDir" by simp
    with Some show ?thesis using "2.IH"(2) cs by simp
  qed
qed simp

section \<open>What an operation may touch\<close>

text \<open>\<open>frame P s t\<close>: outside the paths \<open>P\<close>, an entry of \<open>s\<close> is an entry of \<open>t\<close>, and nothing
  is new in \<open>t\<close> but directories.\<close>

definition eframe :: "(path \<Rightarrow> bool) \<Rightarrow> ents \<Rightarrow> ents \<Rightarrow> bool" where
  "eframe P es fs \<longleftrightarrow>
     (\<forall>q. P q \<or> map_of fs q = map_of es q \<or> (map_of es q = None \<and> map_of fs q = Some FDir))"

definition frame :: "(path \<Rightarrow> bool) \<Rightarrow> fs \<Rightarrow> fs \<Rightarrow> bool" where
  "frame P s t \<longleftrightarrow> eframe P (entries s) (entries t)"

lemma eframe_refl [simp]: "eframe P es es"
  by (simp add: eframe_def)

lemma reflp_frame [simp]: "reflp (frame P)"
  by (simp add: reflp_def frame_def)

lemma transp_frame [simp]: "transp (frame P)"
  unfolding transp_def frame_def eframe_def by (metis option.distinct(1))

lemma frame_file:
  assumes "frame P s t" "\<not> P q" "map_of (entries s) q = Some e"
  shows "map_of (entries t) q = Some e"
  using assms by (auto simp: frame_def eframe_def dest: spec [of _ q])

lemma frame_new:
  assumes "frame P s t" "\<not> P q" "map_of (entries t) q = Some e" "e \<noteq> FDir"
  shows "map_of (entries s) q = Some e"
  using assms by (auto simp: frame_def eframe_def dest: spec [of _ q])

lemma frame_mono: "frame P s t \<Longrightarrow> (\<And>q. P q \<Longrightarrow> Q q) \<Longrightarrow> frame Q s t"
  by (auto simp: frame_def eframe_def)

lemma next_fault_entries: "entries (snd (next_fault s)) = entries s"
  by (simp add: next_fault_def split: list.splits)

lemma prim_cases:
  obtains (run) "faults (snd (prim torn f s)) = tl (faults s)"
      "fst (prim torn f s) = fst (f (entries s))"
      "entries (snd (prim torn f s)) = snd (f (entries s))"
    | (fault) e k where "faults (snd (prim torn f s)) = tl (faults s)"
      "fst (prim torn f s) = Inl e" "entries (snd (prim torn f s)) = torn k (entries s)"
  by (cases "faults s"; cases "hd (faults s)")
    (auto simp: prim_def next_fault_def split: prod.splits)

lemma prim_quiet:
  "faults s = [] \<Longrightarrow>
     prim torn f s = (fst (f (entries s)), s\<lparr>entries := snd (f (entries s))\<rparr>)"
  by (simp add: prim_def next_fault_def split: prod.splits)

lemma keeps_prim:
  "(\<And>k es. eframe P es (torn k es)) \<Longrightarrow> (\<And>es. eframe P es (snd (f es))) \<Longrightarrow>
     keeps (frame P) (prim torn f)"
  unfolding keeps_def frame_def by (metis prim_cases)

lemma preserves_prim:
  "(\<And>k es. es_ok es \<Longrightarrow> es_ok (torn k es)) \<Longrightarrow> (\<And>es. es_ok es \<Longrightarrow> es_ok (snd (f es))) \<Longrightarrow>
     preserves fs_ok (prim torn f)"
  unfolding preserves_def fs_ok_def by (metis prim_cases)

lemma eframe_put: "P p \<Longrightarrow> eframe P es (put_entry p e es)"
  by (auto simp: eframe_def)

lemma eframe_write: "P p \<Longrightarrow> eframe P es (snd (write_e p bs es))"
  by (auto simp: eframe_put split: option.splits)

lemma eframe_rename: "P p \<Longrightarrow> P q \<Longrightarrow> eframe P es (snd (rename_e p q es))"
  by (auto simp: eframe_def split: option.splits)

lemma eframe_remove_file: "P p \<Longrightarrow> eframe P es (snd (remove_file_e p es))"
  by (auto simp: eframe_def split: option.splits)

lemma eframe_remove_dir: "P p \<Longrightarrow> eframe P es (snd (remove_dir_e p es))"
  by (auto simp: eframe_def split: option.splits)

lemma eframe_mkdirs: "eframe P es (snd (mkdirs es p cs))"
  unfolding eframe_def by (metis mkdirs_entries prod.collapse)

lemma keeps_fs_read: "keeps (frame P) (fs_read p)"
  unfolding fs_read_def by (rule keeps_prim) (simp_all add: whole_def)

lemma keeps_fs_read_dir: "keeps (frame P) (fs_read_dir p)"
  unfolding fs_read_dir_def by (rule keeps_prim) (simp_all add: whole_def)

lemma keeps_fs_read_to_string: "keeps (frame P) (fs_read_to_string p)"
  unfolding fs_read_to_string_def
  by (intro keeps_bindA keeps_fs_read) (auto intro: keeps_basic)

lemma keeps_fs_write: "P p \<Longrightarrow> keeps (frame P) (fs_write p bs)"
  unfolding fs_write_def by (rule keeps_prim) (auto simp del: write_e.simps intro: eframe_write)

lemma keeps_fs_rename: "P p \<Longrightarrow> P q \<Longrightarrow> keeps (frame P) (fs_rename p q)"
  unfolding fs_rename_def
  by (rule keeps_prim) (auto simp: whole_def simp del: rename_e.simps intro: eframe_rename)

lemma keeps_fs_create_dir_all: "keeps (frame P) (fs_create_dir_all p)"
  unfolding fs_create_dir_all_def by (rule keeps_prim) (rule eframe_mkdirs)+

lemma keeps_fs_remove_file: "P p \<Longrightarrow> keeps (frame P) (fs_remove_file p)"
  unfolding fs_remove_file_def
  by (rule keeps_prim) (auto simp: whole_def simp del: remove_file_e.simps intro: eframe_remove_file)

lemma keeps_fs_remove_dir: "P p \<Longrightarrow> keeps (frame P) (fs_remove_dir p)"
  unfolding fs_remove_dir_def
  by (rule keeps_prim) (auto simp: whole_def simp del: remove_dir_e.simps intro: eframe_remove_dir)

lemmas keeps_fs =
  keeps_fs_read keeps_fs_read_dir keeps_fs_read_to_string keeps_fs_write keeps_fs_rename
  keeps_fs_create_dir_all keeps_fs_remove_file keeps_fs_remove_dir

section \<open>Well-formedness\<close>

lemma es_ok_write: "es_ok es \<Longrightarrow> es_ok (snd (write_e p bs es))"
  by (auto simp: writable_def is_dir_def split: option.splits entry.splits if_splits
    intro!: es_ok_put_entry)

lemma es_ok_remove_file: "es_ok es \<Longrightarrow> es_ok (snd (remove_file_e p es))"
  by (auto simp: lookup_def split: option.splits if_splits
    intro!: es_ok_del_entry dest: es_ok_not_parent)

lemma es_ok_rename: "es_ok es \<Longrightarrow> es_ok (snd (rename_e p q es))"
proof -
  assume ok: "es_ok es"
  show ?thesis
  proof (cases "fst (rename_e p q es)")
    case (Inl e)
    then show ?thesis using ok by (auto split: option.splits if_splits)
  next
    case (Inr u)
    then obtain x where x: "lookup es p = Some x" "x \<noteq> FDir" and q: "lookup es q \<noteq> Some FDir"
      "is_dir es (butlast q)" and r: "snd (rename_e p q es) = put_entry q x (if p = q then es else del_entry p es)"
      by (auto split: option.splits if_splits)
    have p: "p \<noteq> []" "map_of es p = Some x" using x by (auto simp: lookup_def split: if_splits)
    have qn: "q \<noteq> []" "map_of es q \<noteq> Some FDir" using q by (auto simp: lookup_def split: if_splits)
    have del: "es_ok (del_entry p es)"
      using ok p x es_ok_not_parent by (intro es_ok_del_entry) auto
    have "is_dir (del_entry p es) (butlast q)"
      using q(2) p x by (auto simp: is_dir_def lookup_def)
    with r del ok q qn show ?thesis
      by (auto intro!: es_ok_put_entry split: if_splits)
  qed
qed

lemma children_Nil: "children es p = [] \<Longrightarrow> map_of es q = Some e \<Longrightarrow> q \<noteq> [] \<Longrightarrow> butlast q \<noteq> p"
  by (auto simp: children_def filter_empty_conv dest: map_of_SomeD)

lemma es_ok_remove_dir: "es_ok es \<Longrightarrow> es_ok (snd (remove_dir_e p es))"
  by (auto split: option.splits intro!: es_ok_del_entry dest: children_Nil es_ok_parent)

lemma es_ok_mkdirs: "es_ok es \<Longrightarrow> es_ok (snd (mkdirs es [] cs))"
  by (metis is_dir_def lookup_Nil mkdirs_ok prod.collapse)

lemma preserves_fs_read [pres_intros]: "preserves fs_ok (fs_read p)"
  unfolding fs_read_def by (rule preserves_prim) (simp_all add: whole_def)

lemma preserves_fs_read_dir [pres_intros]: "preserves fs_ok (fs_read_dir p)"
  unfolding fs_read_dir_def by (rule preserves_prim) (simp_all add: whole_def)

lemma preserves_fs_read_to_string [pres_intros]: "preserves fs_ok (fs_read_to_string p)"
  unfolding fs_read_to_string_def by (auto intro!: pres_intros)

lemma preserves_fs_write [pres_intros]: "preserves fs_ok (fs_write p bs)"
  unfolding fs_write_def
  by (rule preserves_prim) (auto simp del: write_e.simps intro: es_ok_write)

lemma preserves_fs_rename [pres_intros]: "preserves fs_ok (fs_rename p q)"
  unfolding fs_rename_def
  by (rule preserves_prim) (auto simp: whole_def simp del: rename_e.simps intro: es_ok_rename)

lemma preserves_fs_create_dir_all [pres_intros]: "preserves fs_ok (fs_create_dir_all p)"
  unfolding fs_create_dir_all_def by (rule preserves_prim) (erule es_ok_mkdirs)+

lemma preserves_fs_remove_file [pres_intros]: "preserves fs_ok (fs_remove_file p)"
  unfolding fs_remove_file_def
  by (rule preserves_prim) (auto simp: whole_def simp del: remove_file_e.simps intro: es_ok_remove_file)

lemma preserves_fs_remove_dir [pres_intros]: "preserves fs_ok (fs_remove_dir p)"
  unfolding fs_remove_dir_def
  by (rule preserves_prim) (auto simp: whole_def simp del: remove_dir_e.simps intro: es_ok_remove_dir)

text \<open>Without faults left, a state stays without faults.\<close>

definition quiet :: "fs \<Rightarrow> bool" where
  "quiet s \<longleftrightarrow> faults s = []"

lemma preserves_quiet_prim: "preserves quiet (prim torn f)"
  by (simp add: preserves_def quiet_def prim_quiet)

lemma preserves_quiet [pres_intros]:
  "preserves quiet (fs_read p)" "preserves quiet (fs_read_dir p)" "preserves quiet (fs_write p bs)"
  "preserves quiet (fs_rename p q)" "preserves quiet (fs_create_dir_all p)"
  "preserves quiet (fs_remove_file p)" "preserves quiet (fs_remove_dir p)"
  "preserves quiet (fs_remove_dir_all p)"
  by (simp_all add: fs_read_def fs_read_dir_def fs_write_def fs_rename_def fs_create_dir_all_def
      fs_remove_file_def fs_remove_dir_def fs_remove_dir_all_def preserves_quiet_prim)

lemma preserves_quiet_read_to_string [pres_intros]: "preserves quiet (fs_read_to_string p)"
  unfolding fs_read_to_string_def by (auto intro!: pres_intros)

section \<open>Writing through a temporary file\<close>

text \<open>The shape every durable write of the sources has: create the parent, write the
  bytes to a sibling, rename it over the target. The compression or formatting of the
  bytes differs between the callers.\<close>

definition replace_file :: "path \<Rightarrow> bytes \<Rightarrow> unit fsact" where
  "replace_file p bs =
     bindA (fs_create_dir_all (butlast p)) (\<lambda>_.
     bindA (fs_write (with_extension p ''tmp'') bs) (\<lambda>_.
     fs_rename (with_extension p ''tmp'') p))"

lemma preserves_replace_file [pres_intros]: "preserves fs_ok (replace_file p bs)"
  unfolding replace_file_def by (intro pres_intros)

lemma preserves_quiet_replace_file [pres_intros]: "preserves quiet (replace_file p bs)"
  unfolding replace_file_def by (intro pres_intros)

lemma keeps_replace_file:
  "P p \<Longrightarrow> P (with_extension p ''tmp'') \<Longrightarrow> keeps (frame P) (replace_file p bs)"
  unfolding replace_file_def by (intro keeps_bindA keeps_fs transp_frame)

lemma fs_write_ok:
  assumes "fs_write p bs s = (Inr u, t)"
  shows "entries t = put_entry p (FFile bs) (entries s)"
  using assms unfolding fs_write_def
  by (cases rule: prim_cases [of "\<lambda>k es. if k = 0 then es else snd (write_e p (take (k - 1) bs) es)"
      "write_e p bs" s]) (auto split: option.splits)

lemma fs_rename_ok:
  assumes "fs_rename p q s = (Inr u, t)" "map_of (entries s) p = Some x" "p \<noteq> []" "p \<noteq> q"
  shows "entries t = put_entry q x (del_entry p (entries s))"
  using assms unfolding fs_rename_def
  by (cases rule: prim_cases [of whole "rename_e p q" s])
    (auto simp: lookup_def split: option.splits if_splits)

lemma fs_rename_fail:
  assumes "fs_rename p q s = (Inl e, t)"
  shows "entries t = entries s"
  using assms unfolding fs_rename_def
  by (cases rule: prim_cases [of whole "rename_e p q" s])
    (auto simp: whole_def split: option.splits if_splits)

lemma frame_keepsD: "keeps (frame P) m \<Longrightarrow> m s = (r, t) \<Longrightarrow> frame P s t"
  by (rule keepsD)

text \<open>Whatever fails and wherever it stops, the target holds its old entry or all of the new
  bytes, and the new bytes exactly when the call returned.\<close>

lemma replace_file_atomic:
  assumes "replace_file p bs s = (r, t)" "p \<noteq> []" "with_extension p ''tmp'' \<noteq> p"
  shows "(r = Inr () \<and> map_of (entries t) p = Some (FFile bs)) \<or>
         ((\<exists>e. r = Inl e) \<and>
          (map_of (entries t) p = map_of (entries s) p \<or>
           (map_of (entries s) p = None \<and> map_of (entries t) p = Some FDir)))"
proof -
  let ?tmp = "with_extension p ''tmp''"
  have tmp: "?tmp \<noteq> []" using assms(2) by (simp add: with_extension_def)
  obtain r1 s1 where 1: "fs_create_dir_all (butlast p) s = (r1, s1)" by fastforce
  obtain r2 s2 where 2: "fs_write ?tmp bs s1 = (r2, s2)" by fastforce
  obtain r3 s3 where 3: "fs_rename ?tmp p s2 = (r3, s3)" by fastforce
  have f1: "frame (\<lambda>q. q = ?tmp) s s1"
    using 1 by (rule frame_keepsD [OF keeps_fs_create_dir_all])
  have f2: "frame (\<lambda>q. q = ?tmp) s1 s2"
    using frame_keepsD [OF keeps_fs_write 2, of "\<lambda>q. q = ?tmp"] by simp
  have f12: "frame (\<lambda>q. q = ?tmp) s s2"
    using transp_frame f1 f2 by (rule transpE)
  consider (a) e where "r1 = Inl e" | (b) u e where "r1 = Inr u" "r2 = Inl e"
    | (c) u v where "r1 = Inr u" "r2 = Inr v"
    by (cases r1; cases r2) auto
  then show ?thesis
  proof cases
    case a
    with 1 assms(1) have "r = Inl e" "t = s1" by (auto simp: replace_file_def)
    with f1 assms(3) show ?thesis by (auto simp: frame_def eframe_def dest!: spec [of _ p])
  next
    case b
    with 1 2 assms(1) have "r = Inl e" "t = s2" by (auto simp: replace_file_def)
    with f12 assms(3) show ?thesis by (auto simp: frame_def eframe_def dest!: spec [of _ p])
  next
    case c
    with 1 2 3 assms(1) have rt: "r = r3" "t = s3" by (auto simp: replace_file_def)
    show ?thesis
    proof (cases r3)
      case (Inl e)
      with 3 have "entries s3 = entries s2" by (simp add: fs_rename_fail)
      with rt Inl f12 assms(3) show ?thesis
        by (auto simp: frame_def eframe_def dest!: spec [of _ p])
    next
      case (Inr u)
      have "map_of (entries s2) ?tmp = Some (FFile bs)"
        using 2 c(2) by (simp add: fs_write_ok)
      with 3 Inr tmp assms(3) have "map_of (entries s3) p = Some (FFile bs)"
        by (simp add: fs_rename_ok)
      with rt Inr show ?thesis by simp
    qed
  qed
qed

lemma mkdirs_long:
  "mkdirs es p cs = (r, es') \<Longrightarrow> length p + length cs < length q \<Longrightarrow> map_of es' q = map_of es q"
  by (induction es p cs arbitrary: r es' rule: mkdirs.induct)
    (fastforce split: option.splits entry.splits if_splits)+

text \<open>The target can be replaced: its ancestors are directories or missing, and neither it
  nor the temporary file is a directory or a special file.\<close>

definition replaceable :: "ents \<Rightarrow> path \<Rightarrow> bool" where
  "replaceable es p \<longleftrightarrow>
     p \<noteq> [] \<and> with_extension p ''tmp'' \<noteq> p \<and> map_of es p \<noteq> Some FDir \<and>
     (\<forall>x. map_of es (with_extension p ''tmp'') = Some x \<longrightarrow> (\<exists>b. x = FFile b)) \<and>
     (\<forall>n<length (butlast p). map_of es (take (Suc n) (butlast p)) \<in> {None, Some FDir})"

lemma with_extension_butlast [simp]: "butlast (with_extension p e) = butlast p"
  by (simp add: with_extension_def)

lemma length_with_extension [simp]: "length (with_extension p e) = length p"
  by (cases p rule: rev_cases) (simp_all add: with_extension_def)

lemma replace_file_runs:
  assumes "quiet s" "replaceable (entries s) p"
  obtains t where "replace_file p bs s = (Inr (), t)" "quiet t"
    "\<And>q. length p \<le> length q \<Longrightarrow> q \<noteq> p \<Longrightarrow> q \<noteq> with_extension p ''tmp'' \<Longrightarrow>
       map_of (entries t) q = map_of (entries s) q"
proof -
  let ?tmp = "with_extension p ''tmp''" and ?es = "entries s"
  have p: "p \<noteq> []" "?tmp \<noteq> []" "?tmp \<noteq> p" "lookup ?es p \<noteq> Some FDir"
    using assms(2) by (auto simp: replaceable_def with_extension_def lookup_def)
  obtain es1 where es1: "mkdirs ?es [] (butlast p) = (Inr (), es1)"
    using mkdirs_total [of "butlast p" ?es "[]"] assms(2) by (cases "mkdirs ?es [] (butlast p)")
      (simp add: replaceable_def)
  have d: "is_dir es1 (butlast p)" using mkdirs_dir [OF es1] by (simp add: is_dir_def)
  have same: "length q = length p \<Longrightarrow> map_of es1 q = map_of ?es q" for q
    using mkdirs_long [OF es1, of q] p(1) by (cases p rule: rev_cases) simp_all
  have w: "writable es1 ?tmp = None"
    using d p(2) same [of ?tmp] assms(2)
    by (auto simp: writable_def is_dir_def replaceable_def split: option.splits entry.splits)
  let ?es2 = "put_entry ?tmp (FFile bs) es1"
  have "lookup ?es2 p \<noteq> Some FDir" "is_dir ?es2 (butlast p)"
    using p same [of p] d by (auto simp: lookup_def is_dir_def)
      (metis butlast.simps(1) length_butlast length_with_extension lessI nat_neq_iff list.size(3)
        append_butlast_last_id length_append_singleton)
  then have "rename_e ?tmp p ?es2 = (Inr (), put_entry p (FFile bs) (del_entry ?tmp ?es2))"
    using p by (simp add: lookup_def)
  then have "replace_file p bs s = (Inr (), s\<lparr>entries := put_entry p (FFile bs) (del_entry ?tmp ?es2)\<rparr>)"
    using assms(1) es1 w
    by (simp add: replace_file_def bindA_def fs_create_dir_all_def fs_write_def fs_rename_def
        quiet_def prim_quiet del: rename_e.simps)
  moreover have "map_of (put_entry p (FFile bs) (del_entry ?tmp ?es2)) q = map_of ?es q"
    if "length p \<le> length q" "q \<noteq> p" "q \<noteq> ?tmp" for q
    using that mkdirs_long [OF es1, of q] p(1) by (cases p rule: rev_cases) simp_all
  ultimately show thesis using assms(1) that by (simp add: quiet_def)
qed

lemma replace_file_quiet:
  assumes "quiet s" "replaceable (entries s) p"
  obtains t where "replace_file p bs s = (Inr (), t)" "quiet t"
  using replace_file_runs [OF assms, of bs] by metis

lemma create_dir_all_runs:
  assumes "quiet s" "\<And>n. n < length p \<Longrightarrow> map_of (entries s) (take (Suc n) p) \<in> {None, Some FDir}"
  obtains t where "fs_create_dir_all p s = (Inr (), t)" "quiet t"
    "\<And>q. length p < length q \<Longrightarrow> map_of (entries t) q = map_of (entries s) q"
proof -
  obtain es where es: "mkdirs (entries s) [] p = (Inr (), es)"
    using mkdirs_total [of p "entries s" "[]"] assms(2) by (cases "mkdirs (entries s) [] p") auto
  then have "fs_create_dir_all p s = (Inr (), s\<lparr>entries := es\<rparr>)"
    using assms(1) by (simp add: fs_create_dir_all_def prim_quiet quiet_def)
  with that mkdirs_long [OF es] assms(1) show thesis by (simp add: quiet_def)
qed

lemma set_children:
  "distinct (map fst es) \<Longrightarrow> (x, e) \<in> set (children es p) \<longleftrightarrow> map_of es (p @ [x]) = Some e"
  by (force simp: children_def image_iff)

lemma es_ok_prefix_dir:
  assumes "es_ok es" "map_of es (p @ c # cs) = Some e"
  shows "if cs = [] then map_of es (p @ [c]) = Some e else map_of es (p @ [c]) = Some FDir"
  using assms(2)
proof (induction cs arbitrary: e rule: rev_induct)
  case (snoc d ds)
  have "is_dir es (p @ c # ds)"
    using es_ok_parent [OF assms(1) snoc.prems] by (simp add: butlast_append)
  then have "map_of es (p @ c # ds) = Some FDir" by (simp add: is_dir_def lookup_def)
  with snoc.IH [OF this] show ?case by (auto split: if_splits)
qed simp

text \<open>Reading leaves the entries as they are.\<close>

lemma fs_read_entries: "fs_read p s = (r, t) \<Longrightarrow> entries t = entries s"
  unfolding fs_read_def by (cases rule: prim_cases [of whole "read_e p" s]) (auto simp: whole_def)

end
