(* ===== verification/Secret_Scanner.thy ===== *)
theory Secret_Scanner
  imports Objects File_System Complex_Main
begin

text \<open>
  The secret scanner of \<open>scanner.rs\<close> and \<open>scanner_patterns.rs\<close>, its allowlist, and the
  error type of the crate, whose \<open>SecretDetected\<close> variant carries the scanner's hits. The
  regex engine is \<open>re_find\<close> of \<open>lib\<close>: the start and end of every match of a pattern;
  a \<open>RegexSet\<close> reports, in order, the patterns that match at all. Entropy is computed in
  the reals where the code uses \<open>f64\<close>.
\<close>

section \<open>Patterns\<close>

record token_pattern =
  pat_name :: string
  pat_regex :: string

definition patterns :: "token_pattern list" where
  "patterns =
    [\<lparr>pat_name = ''github_pat'', pat_regex = ''gh[posur]_[A-Za-z0-9_]{36,}''\<rparr>,
     \<lparr>pat_name = ''aws_access_key_id'', pat_regex = ''AKIA[0-9A-Z]{16}''\<rparr>,
     \<lparr>pat_name = ''anthropic_api_key'', pat_regex = ''sk-ant-(api|admin)-[A-Za-z0-9_-]{40,}''\<rparr>,
     \<lparr>pat_name = ''openai_api_key'', pat_regex = ''sk-(proj-)?[A-Za-z0-9]{48,}''\<rparr>,
     \<lparr>pat_name = ''stripe_live_key'', pat_regex = ''(sk|pk)_live_[A-Za-z0-9]{24,}''\<rparr>,
     \<lparr>pat_name = ''private_key_pem_header'',
      pat_regex = ''-----BEGIN (RSA |EC |OPENSSH |DSA |)PRIVATE KEY-----''\<rparr>]"

section \<open>Hits\<close>

datatype hit_kind = Pattern string | HighEntropy

record hit =
  hit_kind :: hit_kind
  hit_offset :: nat
  hit_length :: nat

record scan_policy =
  skip_entropy :: bool

definition default_policy :: scan_policy where
  "default_policy = \<lparr>skip_entropy = False\<rparr>"

definition is_base64ish :: "byte \<Rightarrow> bool" where
  "is_base64ish b \<longleftrightarrow> is_alnum (char_byte b) \<or> char_byte b \<in> set ''+/=_-''"

definition min_run_length :: nat where
  "min_run_length = 20"

definition entropy_threshold :: real where
  "entropy_threshold = 4.5"

definition byte_count :: "bytes \<Rightarrow> nat \<Rightarrow> nat" where
  "byte_count bs v = length (filter (\<lambda>b. unat b = v) bs)"

definition shannon_entropy :: "bytes \<Rightarrow> real" where
  "shannon_entropy bs =
     (if bs = [] then 0
      else foldl (\<lambda>h c. if c > 0
                        then (let p = real c / real (length bs) in h - p * log 2 p) else h)
             0 (map (byte_count bs) [0..<256]))"

definition high_entropy :: "bytes \<Rightarrow> bool" where
  "high_entropy bs \<longleftrightarrow> shannon_entropy bs > entropy_threshold"

definition maybe_emit_entropy_hit :: "bytes \<Rightarrow> nat \<Rightarrow> nat \<Rightarrow> hit list" where
  "maybe_emit_entropy_hit bs start fin =
     (let len = fin - start
      in if len < min_run_length then []
         else if high_entropy (take len (drop start bs))
         then [\<lparr>hit_kind = HighEntropy, hit_offset = start, hit_length = len\<rparr>]
         else [])"

text \<open>The single pass over the bytes: \<open>run\<close> is the start of the current run.\<close>

fun entropy_pass :: "bytes \<Rightarrow> nat \<Rightarrow> bytes \<Rightarrow> nat option \<Rightarrow> hit list" where
  "entropy_pass all i [] run =
     (case run of Some start \<Rightarrow> maybe_emit_entropy_hit all start (length all) | None \<Rightarrow> [])"
| "entropy_pass all i (b # bs) run =
     (if is_base64ish b
      then entropy_pass all (Suc i) bs (case run of None \<Rightarrow> Some i | Some st \<Rightarrow> Some st)
      else (case run of Some start \<Rightarrow> maybe_emit_entropy_hit all start i | None \<Rightarrow> [])
           @ entropy_pass all (Suc i) bs None)"

definition pattern_hits :: "lib \<Rightarrow> bytes \<Rightarrow> token_pattern \<Rightarrow> hit list" where
  "pattern_hits L bs p =
     map (\<lambda>(s, e). \<lparr>hit_kind = Pattern (pat_name p), hit_offset = s, hit_length = e - s\<rparr>)
       (re_find L (pat_regex p) bs)"

definition scan_impl :: "lib \<Rightarrow> bytes \<Rightarrow> hit list" where
  "scan_impl L bs =
     concat (map (pattern_hits L bs) (filter (\<lambda>p. re_find L (pat_regex p) bs \<noteq> []) patterns))
     @ entropy_pass bs 0 bs None"

definition scan_with :: "lib \<Rightarrow> bytes \<Rightarrow> scan_policy \<Rightarrow> hit list" where
  "scan_with L bs policy =
     (if skip_entropy policy then filter (\<lambda>h. hit_kind h \<noteq> HighEntropy) (scan_impl L bs)
      else scan_impl L bs)"

definition scan :: "lib \<Rightarrow> bytes \<Rightarrow> hit list" where
  "scan L bs = scan_with L bs default_policy"

section \<open>Allowlist\<close>

type_synonym allowlist = "hash list"

definition allowlist_contains :: "allowlist \<Rightarrow> hash \<Rightarrow> bool" where
  "allowlist_contains al h \<longleftrightarrow> h \<in> set al"

datatype allowlist_error = AlIo io_error | AlToml string | AlHash parse_hash_error

text \<open>\<open>from_toml\<close>, given what the TOML parser makes of the text: an error, or the \<open>blob_hash\<close>
  strings of the \<open>ignore\<close> entries in order.\<close>

definition allowlist_from_toml ::
    "lib \<Rightarrow> (string \<Rightarrow> string + string list) \<Rightarrow> string \<Rightarrow> allowlist_error + allowlist" where
  "allowlist_from_toml L toml s =
     res_bind (map_err AlToml (toml s)) (\<lambda>es.
     res_bind (try_map (\<lambda>e. map_err AlHash (hash_from_str L e)) es) (\<lambda>hs. Inr (remdups hs)))"

definition allowlist_load ::
    "lib \<Rightarrow> (string \<Rightarrow> string + string list) \<Rightarrow> path \<Rightarrow> (fs, allowlist_error, allowlist) act" where
  "allowlist_load L toml p s =
     (case fs_read_to_string p s of
        (Inr txt, t) \<Rightarrow> (allowlist_from_toml L toml txt, t)
      | (Inl e, t) \<Rightarrow> (if io_kind_of e = IoNotFound then Inr [] else Inl (AlIo e), t))"

section \<open>The error type of agentic-core\<close>

datatype core_error =
    Io io_error
  | Serialize
  | NotFound hash
  | KindMismatch object_kind object_kind
  | IntegrityError hash hash
  | SecretDetected "hit list"
  | InvalidBranchName string string
  | Other string

section \<open>Entropy hits are long runs, pattern hits ignore the policy\<close>

lemma scan_with_skip: "skip_entropy p \<Longrightarrow> scan_with L bs p = filter (\<lambda>h. hit_kind h \<noteq> HighEntropy) (scan L bs)"
  by (simp add: scan_with_def scan_def default_policy_def)

definition run_hit :: "bytes \<Rightarrow> nat \<Rightarrow> nat \<Rightarrow> hit \<Rightarrow> bool" where
  "run_hit bs st e h \<longleftrightarrow>
     st < e \<and> e \<le> length bs \<and> (\<forall>i\<in>{st..<e}. is_base64ish (bs ! i)) \<and>
     (e < length bs \<longrightarrow> \<not> is_base64ish (bs ! e)) \<and> (0 < st \<longrightarrow> \<not> is_base64ish (bs ! (st - 1))) \<and>
     h \<in> set (maybe_emit_entropy_hit bs st e)"

lemma run_hit_long:
  "run_hit bs st e h \<Longrightarrow>
     hit_kind h = HighEntropy \<and> hit_offset h = st \<and> hit_length h = e - st \<and> 20 \<le> e - st \<and>
     high_entropy (take (e - st) (drop st bs))"
  by (auto simp: run_hit_def maybe_emit_entropy_hit_def Let_def min_run_length_def split: if_splits)

definition pass_state :: "bytes \<Rightarrow> nat \<Rightarrow> nat option \<Rightarrow> bool" where
  "pass_state bs i run \<longleftrightarrow>
     (case run of
        None \<Rightarrow> 0 < i \<longrightarrow> \<not> is_base64ish (bs ! (i - 1))
      | Some st \<Rightarrow> st < i \<and> (\<forall>k\<in>{st..<i}. is_base64ish (bs ! k)) \<and>
                   (0 < st \<longrightarrow> \<not> is_base64ish (bs ! (st - 1))))"

lemma entropy_pass_sound:
  assumes "h \<in> set (entropy_pass all i bs run)" "drop i all = bs" "i \<le> length all"
    "pass_state all i run"
  shows "\<exists>st e. run_hit all st e h"
  using assms
proof (induction all i bs run rule: entropy_pass.induct)
  case (1 all i run)
  then have i: "i = length all" by simp
  with 1 obtain st where "run = Some st" "h \<in> set (maybe_emit_entropy_hit all st (length all))"
    by (auto split: option.splits)
  with 1 i have "run_hit all st (length all) h" by (auto simp: pass_state_def run_hit_def)
  then show ?case by blast
next
  case (2 all i b bs run)
  have b: "b = all ! i" "i < length all" "drop (Suc i) all = bs"
    using "2.prems"(2) by (metis nth_via_drop, metis drop_eq_Nil list.simps(3) not_le,
      metis Cons_nth_drop_Suc drop_eq_Nil list.inject list.simps(3) not_le)
  show ?case
  proof (cases "is_base64ish b")
    case True
    let ?run = "case run of None \<Rightarrow> Some i | Some st \<Rightarrow> Some st"
    have "pass_state all (Suc i) ?run"
      using True b "2.prems"(4) by (auto simp: pass_state_def less_Suc_eq split: option.splits)
    with True b 2 show ?thesis by simp
  next
    case False
    have ps: "pass_state all (Suc i) None" using False b by (simp add: pass_state_def)
    show ?thesis
    proof (cases "h \<in> set (entropy_pass all (Suc i) bs None)")
      case True
      with False b ps "2.IH"(2) show ?thesis by simp
    next
      case False': False
      with False "2.prems"(1) obtain st where st: "run = Some st" "h \<in> set (maybe_emit_entropy_hit all st i)"
        by (auto split: option.splits)
      with False b "2.prems"(4) have "run_hit all st i h" by (auto simp: run_hit_def pass_state_def)
      then show ?thesis by blast
    qed
  qed
qed

lemma entropy_pass_complete:
  assumes "run_hit all st e h" "drop i all = bs" "i \<le> e" "i = st \<Longrightarrow> run = None" "st < i \<Longrightarrow> run = Some st"
  shows "h \<in> set (entropy_pass all i bs run)"
  using assms
proof (induction all i bs run rule: entropy_pass.induct)
  case (1 all i run)
  then have "e = length all" by (auto simp: run_hit_def)
  with 1 show ?case by (auto simp: run_hit_def)
next
  case (2 all i b bs run)
  have b: "all ! i = b" "i < length all" "drop (Suc i) all = bs"
    using "2.prems"(2) by (metis nth_via_drop, metis drop_eq_Nil list.simps(3) not_le,
      metis Cons_nth_drop_Suc drop_eq_Nil list.inject list.simps(3) not_le)
  show ?case
  proof (cases "is_base64ish b")
    case True
    have "i \<noteq> e" using True b "2.prems"(1) by (auto simp: run_hit_def)
    moreover have "Suc i \<noteq> st" using True b "2.prems"(1) by (auto simp: run_hit_def)
    moreover have "st < Suc i \<Longrightarrow> (case run of None \<Rightarrow> Some i | Some st \<Rightarrow> Some st) = Some st"
      using "2.prems"(4, 5) by (cases "st = i") auto
    ultimately show ?thesis
      using True "2.IH"(1) "2.prems"(1, 3) b by simp
  next
    case False
    have "i < st \<or> i = e" using False b "2.prems"(1, 3) by (auto simp: run_hit_def)
    then show ?thesis
    proof
      assume "i < st"
      then show ?thesis using False "2.IH"(2) "2.prems" b by (auto simp: run_hit_def)
    next
      assume "i = e"
      then show ?thesis using False "2.prems" by (auto simp: run_hit_def)
    qed
  qed
qed

lemma entropy_pass_iff:
  "h \<in> set (entropy_pass bs 0 bs None) \<longleftrightarrow> (\<exists>st e. run_hit bs st e h)"
  using entropy_pass_sound [of h bs 0 bs None] entropy_pass_complete [of bs _ _ h 0 bs None]
  by (auto simp: pass_state_def)

section \<open>The largest entropy of a run\<close>

lemma byte_count_pos: "0 < byte_count bs v \<longleftrightarrow> v \<in> unat ` set bs"
  by (force simp: byte_count_def filter_empty_conv)

lemma sum_byte_count: "(\<Sum>v<256. byte_count bs v) = length bs"
proof (induction bs)
  case (Cons b bs)
  have "byte_count (b # bs) v = (if v = unat b then 1 else 0) + byte_count bs v" for v
    by (simp add: byte_count_def)
  then show ?case using Cons unat_byte_lt [of b] by (simp add: sum.distrib)
qed (simp add: byte_count_def)

definition freq :: "bytes \<Rightarrow> nat \<Rightarrow> real" where
  "freq bs v = real (byte_count bs v) / real (length bs)"

lemma foldl_sum_list: "foldl (\<lambda>h c. h + f c) (a::real) xs = a + sum_list (map f xs)"
  by (induction xs arbitrary: a) auto

lemma shannon_entropy_sum:
  assumes "bs \<noteq> []"
  shows "shannon_entropy bs = (\<Sum>v\<in>unat ` set bs. - (freq bs v * log 2 (freq bs v)))"
proof -
  let ?t = "\<lambda>c. if 0 < c then - (real c / real (length bs) * log 2 (real c / real (length bs))) else 0"
  have "shannon_entropy bs = foldl (\<lambda>h c. h + ?t c) 0 (map (byte_count bs) [0..<256])"
    using assms unfolding shannon_entropy_def by (simp add: Let_def if_distrib cong: if_cong)
  also have "\<dots> = sum_list (map (?t \<circ> byte_count bs) [0..<256])"
    unfolding foldl_sum_list by simp
  also have "\<dots> = (\<Sum>v<256. ?t (byte_count bs v))"
    by (simp only: sum_list_distinct_conv_sum_set distinct_upt set_upt comp_def atLeast0LessThan)
  also have "\<dots> = (\<Sum>v\<in>unat ` set bs. ?t (byte_count bs v))"
    by (rule sum.mono_neutral_right) (auto simp: unat_byte_lt byte_count_pos)
  also have "\<dots> = (\<Sum>v\<in>unat ` set bs. - (freq bs v * log 2 (freq bs v)))"
    by (rule sum.cong) (auto simp: freq_def byte_count_pos)
  finally show ?thesis .
qed

lemma sum_freq: "bs \<noteq> [] \<Longrightarrow> (\<Sum>v\<in>unat ` set bs. freq bs v) = 1"
proof -
  assume ne: "bs \<noteq> []"
  have "(\<Sum>v\<in>unat ` set bs. byte_count bs v) = (\<Sum>v<256. byte_count bs v)"
    by (rule sum.mono_neutral_left) (auto simp: unat_byte_lt byte_count_pos [symmetric])
  then show ?thesis
    using ne unfolding freq_def sum_divide_distrib [symmetric]
    by (simp add: sum_byte_count flip: of_nat_sum)
qed

text \<open>Gibbs' inequality against the uniform distribution on \<open>n\<close> symbols.\<close>

lemma shannon_entropy_le:
  assumes "bs \<noteq> []" "card (set bs) \<le> n" "0 < n"
  shows "shannon_entropy bs \<le> log 2 n"
proof -
  let ?V = "unat ` set bs"
  have card: "card ?V = card (set bs)"
    by (rule card_image) (simp add: inj_on_def word_unat_eq_iff)
  have gibbs: "- (freq bs v * ln (freq bs v)) - freq bs v * ln n \<le> 1 / n - freq bs v"
    if v: "v \<in> ?V" for v
  proof -
    have pos: "0 < freq bs v" using v assms(1) by (simp add: freq_def byte_count_pos)
    have "ln (1 / (n * freq bs v)) \<le> 1 / (n * freq bs v) - 1"
      using pos assms(3) by (intro ln_le_minus_one) simp
    then have "freq bs v * ln (1 / (n * freq bs v)) \<le> freq bs v * (1 / (n * freq bs v) - 1)"
      using pos by (intro mult_left_mono) auto
    moreover have "ln (1 / (n * freq bs v)) = - ln n - ln (freq bs v)"
      using pos assms(3) by (simp add: ln_div ln_mult)
    moreover have "freq bs v * (1 / (n * freq bs v) - 1) = 1 / n - freq bs v"
      using pos assms(3) by (simp add: field_simps)
    ultimately show ?thesis by (simp add: algebra_simps)
  qed
  have "(\<Sum>v\<in>?V. - (freq bs v * ln (freq bs v))) - ln n
      = (\<Sum>v\<in>?V. - (freq bs v * ln (freq bs v)) - freq bs v * ln n)"
    using sum_freq [OF assms(1)] by (simp add: sum_subtractf flip: sum_distrib_right)
  also have "\<dots> \<le> (\<Sum>v\<in>?V. 1 / n - freq bs v)"
    by (rule sum_mono) (rule gibbs)
  also have "\<dots> = real (card (set bs)) / n - 1"
    using sum_freq [OF assms(1)] card by (simp add: sum_subtractf)
  also have "\<dots> \<le> 0" using assms(2, 3) by (simp add: divide_le_eq)
  finally have "(\<Sum>v\<in>?V. - (freq bs v * ln (freq bs v))) \<le> ln n" by simp
  then have "(\<Sum>v\<in>?V. - (freq bs v * ln (freq bs v))) / ln 2 \<le> ln n / ln 2"
    by (intro divide_right_mono) auto
  then show ?thesis
    unfolding shannon_entropy_sum [OF assms(1)] log_def sum_divide_distrib by simp
qed

lemma log2_22: "log 2 22 \<le> 4.5"
proof -
  have "2 * log 2 22 = log 2 (22 ^ 2)" by (subst log_nat_power) auto
  also have "\<dots> \<le> log 2 (2 ^ 9)" by simp
  also have "\<dots> = 9" by (subst log_nat_power) auto
  finally show ?thesis by simp
qed

lemma few_symbols_low_entropy:
  "card (set bs) \<le> 22 \<Longrightarrow> shannon_entropy bs \<le> entropy_threshold"
proof (cases "bs = []")
  case True
  then show ?thesis by (simp add: shannon_entropy_def entropy_threshold_def)
next
  case False
  moreover assume "card (set bs) \<le> 22"
  ultimately have "shannon_entropy bs \<le> log 2 (22::nat)" using shannon_entropy_le [of bs 22] by simp
  with log2_22 show ?thesis by (simp add: entropy_threshold_def)
qed

section \<open>The threshold in integers\<close>

text \<open>The comparison with the threshold, decided without logarithms: it is how the kernel
  evaluates the scanner.\<close>

lemma ln_prod_pow:
  "finite V \<Longrightarrow> (\<And>v. v \<in> V \<Longrightarrow> 0 < c v) \<Longrightarrow> ln (\<Prod>v\<in>V. real (c v) ^ (2 * c v)) = (\<Sum>v\<in>V. 2 * real (c v) * ln (real (c v)))"
  by (subst ln_prod) (auto simp: ln_realpow)

definition entropy_test :: "bytes \<Rightarrow> bool" where
  "entropy_test bs \<longleftrightarrow>
     (let n = length bs
      in bs \<noteq> [] \<and>
         2 ^ (9 * n) * prod_list (map (\<lambda>b. let c = byte_count bs (unat b) in c ^ (2 * c)) (remdups bs))
           < n ^ (2 * n))"

lemma entropy_sum_counts:
  assumes "bs \<noteq> []"
  shows "shannon_entropy bs * ln 2 * real (length bs) =
     real (length bs) * ln (length bs)
       - (\<Sum>v\<in>unat ` set bs. real (byte_count bs v) * ln (byte_count bs v))"
proof -
  let ?V = "unat ` set bs" and ?n = "real (length bs)" and ?c = "\<lambda>v. real (byte_count bs v)"
  have n: "?n > 0" using assms by simp
  have t: "- (freq bs v * log 2 (freq bs v)) * ln 2 * ?n = ?c v * ln ?n - ?c v * ln (?c v)" if "v \<in> ?V" for v
  proof -
    have "?c v > 0" using that by (simp add: byte_count_pos)
    then have l: "ln (freq bs v) = ln (?c v) - ln ?n" using n by (simp add: freq_def ln_div)
    have "- (freq bs v * log 2 (freq bs v)) * ln 2 * ?n = - (freq bs v * ?n) * ln (freq bs v)"
      by (simp add: log_def)
    also have "freq bs v * ?n = ?c v" using n by (simp add: freq_def)
    finally show ?thesis unfolding l by (simp add: algebra_simps)
  qed
  have "shannon_entropy bs * ln 2 * ?n = (\<Sum>v\<in>?V. - (freq bs v * log 2 (freq bs v)) * ln 2 * ?n)"
    unfolding shannon_entropy_sum [OF assms] sum_distrib_right ..
  also have "\<dots> = (\<Sum>v\<in>?V. ?c v * ln ?n - ?c v * ln (?c v))"
    by (rule sum.cong) (use t in auto)
  also have "\<dots> = (\<Sum>v\<in>?V. ?c v) * ln ?n - (\<Sum>v\<in>?V. ?c v * ln (?c v))"
    by (simp add: sum_subtractf sum_distrib_right)
  also have "(\<Sum>v\<in>?V. ?c v) = ?n"
  proof -
    have "(\<Sum>v\<in>?V. byte_count bs v) = (\<Sum>v<256. byte_count bs v)"
      by (rule sum.mono_neutral_left) (auto simp: unat_byte_lt byte_count_pos [symmetric])
    then show ?thesis by (simp add: sum_byte_count flip: of_nat_sum)
  qed
  finally show ?thesis by simp
qed

lemma real_pow_less: "2 ^ k * real m < real n ^ j \<longleftrightarrow> 2 ^ k * m < n ^ j"
proof -
  have "real (2 ^ k * m) < real (n ^ j) \<longleftrightarrow> 2 ^ k * m < n ^ j" by (rule of_nat_less_iff)
  then show ?thesis by (simp only: of_nat_mult of_nat_power of_nat_numeral)
qed

lemma high_entropy_test [code]: "high_entropy bs \<longleftrightarrow> entropy_test bs"
proof (cases "bs = []")
  case True
  then show ?thesis
    by (simp add: high_entropy_def entropy_test_def shannon_entropy_def entropy_threshold_def)
next
  case False
  let ?V = "unat ` set bs" and ?n = "length bs" and ?c = "byte_count bs"
  have n: "0 < ?n" using False by simp
  let ?P = "\<Prod>v\<in>?V. real (?c v) ^ (2 * ?c v)"
  have P: "0 < ?P" by (rule prod_pos) (auto simp: byte_count_pos)
  have "high_entropy bs \<longleftrightarrow> 9 * (ln 2 * real ?n) < 2 * (shannon_entropy bs * ln 2 * real ?n)"
    using n by (simp add: high_entropy_def entropy_threshold_def field_simps)
  also have "\<dots> \<longleftrightarrow> 9 * real ?n * ln 2 + (\<Sum>v\<in>?V. 2 * real (?c v) * ln (real (?c v))) < 2 * real ?n * ln ?n"
    unfolding entropy_sum_counts [OF False] by (simp add: algebra_simps sum_distrib_left)
  also have "\<dots> \<longleftrightarrow> ln (2 ^ (9 * ?n) * ?P) < ln (real ?n ^ (2 * ?n))"
    using P n ln_prod_pow [of ?V ?c] by (simp add: ln_mult ln_realpow byte_count_pos algebra_simps)
  also have "\<dots> \<longleftrightarrow> 2 ^ (9 * ?n) * ?P < real ?n ^ (2 * ?n)"
    using P n by (subst ln_less_cancel_iff) auto
  also have "?P = real (\<Prod>v\<in>?V. ?c v ^ (2 * ?c v))" by simp
  also have "(2 ^ (9 * ?n) * real (\<Prod>v\<in>?V. ?c v ^ (2 * ?c v)) < real ?n ^ (2 * ?n)) \<longleftrightarrow>
      2 ^ (9 * ?n) * (\<Prod>v\<in>?V. ?c v ^ (2 * ?c v)) < ?n ^ (2 * ?n)"
    by (rule real_pow_less)
  also have "(\<Prod>v\<in>?V. ?c v ^ (2 * ?c v)) = prod_list (map (\<lambda>b. ?c (unat b) ^ (2 * ?c (unat b))) (remdups bs))"
  proof -
    have "(\<Prod>v\<in>?V. ?c v ^ (2 * ?c v)) = (\<Prod>b\<in>set (remdups bs). ?c (unat b) ^ (2 * ?c (unat b)))"
      by (subst prod.reindex) (simp_all add: inj_on_def word_unat_eq_iff)
    then show ?thesis by (simp only: prod.distinct_set_conv_list distinct_remdups)
  qed
  finally show ?thesis using False by (simp add: entropy_test_def Let_def)
qed

section \<open>Properties\<close>

text \<open>\<open>st\<close> to \<open>e\<close> is a longest run of base64-like bytes.\<close>

definition maximal_run :: "bytes \<Rightarrow> nat \<Rightarrow> nat \<Rightarrow> bool" where
  "maximal_run bs st e \<longleftrightarrow>
     st < e \<and> e \<le> length bs \<and> list_all is_base64ish (take (e - st) (drop st bs)) \<and>
     (e < length bs \<longrightarrow> \<not> is_base64ish (bs ! e)) \<and> (0 < st \<longrightarrow> \<not> is_base64ish (bs ! (st - 1)))"

lemma run_hit_iff:
  "run_hit bs st e h \<longleftrightarrow>
     maximal_run bs st e \<and> 20 \<le> e - st \<and> high_entropy (take (e - st) (drop st bs)) \<and>
     h = \<lparr>hit_kind = HighEntropy, hit_offset = st, hit_length = e - st\<rparr>"
proof -
  have "list_all is_base64ish (take (e - st) (drop st bs)) \<longleftrightarrow> (\<forall>i\<in>{st..<e}. is_base64ish (bs ! i))"
    if "st < e" "e \<le> length bs"
  proof -
    have "list_all is_base64ish (take (e - st) (drop st bs)) \<longleftrightarrow> (\<forall>k<e - st. is_base64ish (bs ! (st + k)))"
      using that by (auto simp: list_all_length)
    also have "\<dots> \<longleftrightarrow> (\<forall>i\<in>{st..<e}. is_base64ish (bs ! i))"
      by (auto simp: Ball_def) (metis add_diff_inverse_nat diff_less_mono linorder_not_less)
    finally show ?thesis .
  qed
  then show ?thesis
    by (auto simp: run_hit_def maximal_run_def maybe_emit_entropy_hit_def Let_def min_run_length_def
        split: if_splits)
qed

lemma pattern_hits_kind: "h \<in> set (pattern_hits L bs p) \<Longrightarrow> hit_kind h \<noteq> HighEntropy"
  by (auto simp: pattern_hits_def)

lemma scan_entropy_iff:
  "h \<in> set (scan L bs) \<and> hit_kind h = HighEntropy \<longleftrightarrow> (\<exists>st e. run_hit bs st e h)"
  unfolding entropy_pass_iff [symmetric] scan_def scan_with_def default_policy_def scan_impl_def
  by (auto dest: pattern_hits_kind run_hit_long simp: entropy_pass_iff)

text \<open>
  The single pass over a blob reports exactly the longest base64-like runs of at least 20
  bytes whose Shannon entropy exceeds 4.5 bits, each with its offset and length; under
  \<open>skip_entropy\<close> it reports none of them and every pattern hit is kept.
\<close>

theorem scan_reports_runs:
  "(h \<in> set (scan L bs) \<and> hit_kind h = HighEntropy) =
     (\<exists>st e. maximal_run bs st e \<and> 20 \<le> e - st \<and>
        shannon_entropy (take (e - st) (drop st bs)) > entropy_threshold \<and>
        h = \<lparr>hit_kind = HighEntropy, hit_offset = st, hit_length = e - st\<rparr>) \<and>
   set (scan_with L bs \<lparr>skip_entropy = True\<rparr>) = {g \<in> set (scan L bs). hit_kind g \<noteq> HighEntropy}"
  unfolding scan_entropy_iff run_hit_iff high_entropy_def by (auto simp: scan_with_skip)

text \<open>
  The threshold is out of reach for small alphabets: a run the scanner flags has at least 23
  different bytes, so hexadecimal and decimal secrets of any length, and every run of 20 to 22
  bytes, pass the entropy rule.
\<close>

theorem entropy_hit_needs_symbols:
  assumes "h \<in> set (scan L bs)" "hit_kind h = HighEntropy"
  shows "23 \<le> card (set (take (hit_length h) (drop (hit_offset h) bs))) \<and> 23 \<le> hit_length h"
proof -
  obtain st e where r: "run_hit bs st e h" using assms scan_entropy_iff by blast
  let ?run = "take (hit_length h) (drop (hit_offset h) bs)"
  have "high_entropy ?run" using run_hit_long [OF r] by simp
  then have "\<not> card (set ?run) \<le> 22"
    using few_symbols_low_entropy [of ?run] by (auto simp: high_entropy_def)
  moreover have "card (set ?run) \<le> hit_length h"
    using card_length [of ?run] by simp
  ultimately show ?thesis by simp
qed

definition alphabet_run :: bytes where
  "alphabet_run = [97, 98, 99, 100, 101, 102, 103, 104, 105, 106, 107, 108, 109,
     110, 111, 112, 113, 114, 115, 116, 117, 118, 119, 120, 121, 122]"

lemma byte_count_distinct: "distinct bs \<Longrightarrow> b \<in> set bs \<Longrightarrow> byte_count bs (unat b) = 1"
proof (induction bs)
  case (Cons a bs)
  have "byte_count bs (unat c) = 0" if "c \<notin> set bs" for c
    using that by (auto simp: byte_count_def filter_empty_conv simp flip: word_unat_eq_iff)
  moreover have "byte_count (a # bs) (unat b) = (if unat a = unat b then 1 else 0) + byte_count bs (unat b)"
    by (simp add: byte_count_def)
  ultimately show ?case
    using Cons by (auto simp flip: word_unat_eq_iff)
qed simp

lemma entropy_test_distinct:
  "distinct bs \<Longrightarrow> entropy_test bs \<longleftrightarrow> bs \<noteq> [] \<and> 2 ^ (9 * length bs) < length bs ^ (2 * length bs)"
proof -
  assume d: "distinct bs"
  have "map (\<lambda>b. let c = byte_count bs (unat b) in c ^ (2 * c)) bs = map (\<lambda>_. 1) bs"
    using byte_count_distinct [OF d] by simp
  then show ?thesis by (simp only: entropy_test_def Let_def distinct_remdups_id [OF d]) (simp add: map_replicate_const)
qed

lemma alphabet_flagged:
  "\<lparr>hit_kind = HighEntropy, hit_offset = 0, hit_length = 26\<rparr> \<in> set (scan L alphabet_run)"
proof -
  have 1: "maximal_run alphabet_run 0 26" by code_simp
  have d: "distinct alphabet_run" by (simp add: alphabet_run_def)
  have "length alphabet_run = 26" "alphabet_run \<noteq> []" by (simp_all add: alphabet_run_def)
  with d have 2: "high_entropy (take (26 - 0) (drop 0 alphabet_run))"
    by (simp add: high_entropy_test entropy_test_distinct)
  have "run_hit alphabet_run 0 26 \<lparr>hit_kind = HighEntropy, hit_offset = 0, hit_length = 26\<rparr>"
    unfolding run_hit_iff using 1 2 by simp
  then show ?thesis using scan_entropy_iff by blast
qed

theorem entropy_hit_needs_symbols_witness:
  "23 \<le> card (set (take 26 alphabet_run))"
  using entropy_hit_needs_symbols [OF alphabet_flagged] by simp

end
