(* ===== verification/Sample_Lib.thy ===== *)
theory Sample_Lib
  imports Json
begin

text \<open>
  A concrete \<open>lib\<close> that satisfies every law the development assumes of the third-party
  code: hexadecimal as the crate documents it, a self-delimiting encoding of JSON
  documents, no compression, decimal times, a polynomial digest and no regex matches. It
  shows that the laws can hold together and is where the witnesses of the properties are
  evaluated; no property is about it.
\<close>

section \<open>Hexadecimal\<close>

definition nibble_char :: "nat \<Rightarrow> char" where
  "nibble_char n = char_of (if n < 10 then 48 + n else 87 + n)"

definition char_nibble :: "char \<Rightarrow> nat option" where
  "char_nibble c =
     (let n = (of_char c :: nat)
      in if 48 \<le> n \<and> n \<le> 57 then Some (n - 48)
         else if 97 \<le> n \<and> n \<le> 102 then Some (n - 87)
         else if 65 \<le> n \<and> n \<le> 70 then Some (n - 55) else None)"

fun s_hex_enc :: "bytes \<Rightarrow> string" where
  "s_hex_enc [] = []"
| "s_hex_enc (b # bs) = nibble_char (unat b div 16) # nibble_char (unat b mod 16) # s_hex_enc bs"

fun s_hex_dec :: "string \<Rightarrow> bytes option" where
  "s_hex_dec [] = Some []"
| "s_hex_dec [c] = None"
| "s_hex_dec (c # d # s) =
     (case (char_nibble c, char_nibble d, s_hex_dec s) of
        (Some x, Some y, Some bs) \<Rightarrow> Some (of_nat (x * 16 + y) # bs) | _ \<Rightarrow> None)"

lemma of_char_nibble: "n < 16 \<Longrightarrow> (of_char (nibble_char n) :: nat) = (if n < 10 then 48 + n else 87 + n)"
  by (simp add: nibble_char_def)

lemma char_nibble_nibble [simp]: "n < 16 \<Longrightarrow> char_nibble (nibble_char n) = Some n"
  by (auto simp: char_nibble_def of_char_nibble Let_def)

lemma s_hex_roundtrip: "s_hex_dec (s_hex_enc bs) = Some bs"
proof (induction bs)
  case (Cons b bs)
  have "unat b div 16 < 16" using unat_byte_lt [of b] by simp
  with Cons show ?case by simp
qed simp

lemma char_nibble_None: "char_nibble c \<noteq> None \<longleftrightarrow> is_hexdigit c"
  by (auto simp: char_nibble_def is_hexdigit_def is_digit_def Let_def)

lemma s_hex_dec_None: "s_hex_dec s \<noteq> None \<longleftrightarrow> even (length s) \<and> list_all is_hexdigit s"
  by (induction s rule: s_hex_dec.induct)
    (auto simp: char_nibble_None [symmetric] split: option.splits)

lemma s_hex_dec_length: "s_hex_dec s = Some bs \<Longrightarrow> length s = 2 * length bs"
  by (induction s arbitrary: bs rule: s_hex_dec.induct) (auto split: option.splits)

lemma s_hex_enc_lower: "list_all is_lower_hex (s_hex_enc bs)"
proof (induction bs)
  case (Cons b bs)
  have "unat b div 16 < 16" using unat_byte_lt [of b] by simp
  with Cons show ?case by (auto simp: is_lower_hex_def is_digit_def of_char_nibble)
qed simp

section \<open>Documents\<close>

fun enc_str :: "string \<Rightarrow> bytes" where
  "enc_str [] = [0]"
| "enc_str (c # s) = 1 # byte_of c # enc_str s"

fun dec_str :: "bytes \<Rightarrow> (string \<times> bytes) option" where
  "dec_str (t # bs) =
     (if t = 0 then Some ([], bs)
      else case bs of [] \<Rightarrow> None
           | b # r \<Rightarrow> (case dec_str r of None \<Rightarrow> None | Some (s, u) \<Rightarrow> Some (char_byte b # s, u)))"
| "dec_str [] = None"

lemma dec_enc_str [simp]: "dec_str (enc_str s @ r) = Some (s, r)"
  by (induction s) auto

fun enc_num :: "jnum \<Rightarrow> bytes" where
  "enc_num (PosInt w) = 0 # be_bytes 8 (unat w)"
| "enc_num (NegInt w) = 1 # be_bytes 8 (unat w)"
| "enc_num (Float w) = 2 # be_bytes 8 (unat w)"

fun dec_num :: "bytes \<Rightarrow> (jnum \<times> bytes) option" where
  "dec_num [] = None"
| "dec_num (t # bs) =
     (let w = of_nat (be_nat (take 8 bs)) :: u64
      in Some (if t = 0 then PosInt w else if t = 1 then NegInt w else Float w, drop 8 bs))"

lemma unat_u64_lt: "unat (w :: u64) < 18446744073709551616"
  using unsigned_less [of w] by simp

lemma dec_enc_num [simp]: "dec_num (enc_num n @ r) = Some (n, r)"
proof -
  have "be_nat (be_bytes 8 (unat w)) = unat w" for w :: u64
    using unat_u64_lt [of w] by (simp add: be_nat_be_bytes del: be_bytes.simps)
  then show ?thesis by (cases n) (simp_all add: Let_def del: be_bytes.simps)
qed

fun enc_json :: "json \<Rightarrow> bytes" where
  "enc_json JNull = [0]"
| "enc_json (JBool b) = [if b then 1 else 2]"
| "enc_json (JNum n) = 3 # enc_num n"
| "enc_json (JStr s) = 4 # enc_str s"
| "enc_json (JArr xs) = 5 # concat (map (\<lambda>x. 1 # enc_json x) xs) @ [0]"
| "enc_json (JObj kvs) = 6 # concat (map (\<lambda>(k, v). 1 # enc_str k @ enc_json v) kvs) @ [0]"

fun dec_json :: "nat \<Rightarrow> bytes \<Rightarrow> (json \<times> bytes) option"
  and dec_arr :: "nat \<Rightarrow> bytes \<Rightarrow> (json list \<times> bytes) option"
  and dec_obj :: "nat \<Rightarrow> bytes \<Rightarrow> ((string \<times> json) list \<times> bytes) option" where
  "dec_json 0 bs = None"
| "dec_json (Suc f) [] = None"
| "dec_json (Suc f) (t # bs) =
     (if t = 0 then Some (JNull, bs)
      else if t = 1 then Some (JBool True, bs)
      else if t = 2 then Some (JBool False, bs)
      else if t = 3 then map_option (\<lambda>(n, r). (JNum n, r)) (dec_num bs)
      else if t = 4 then map_option (\<lambda>(s, r). (JStr s, r)) (dec_str bs)
      else if t = 5 then map_option (\<lambda>(xs, r). (JArr xs, r)) (dec_arr f bs)
      else map_option (\<lambda>(xs, r). (JObj xs, r)) (dec_obj f bs))"
| "dec_arr 0 bs = None"
| "dec_arr (Suc f) [] = None"
| "dec_arr (Suc f) (t # bs) =
     (if t = 0 then Some ([], bs)
      else case dec_json f bs of None \<Rightarrow> None
           | Some (x, r) \<Rightarrow> map_option (\<lambda>(xs, u). (x # xs, u)) (dec_arr f r))"
| "dec_obj 0 bs = None"
| "dec_obj (Suc f) [] = None"
| "dec_obj (Suc f) (t # bs) =
     (if t = 0 then Some ([], bs)
      else case dec_str bs of None \<Rightarrow> None
           | Some (k, r) \<Rightarrow>
               (case dec_json f r of None \<Rightarrow> None
                | Some (x, u) \<Rightarrow> map_option (\<lambda>(xs, w). ((k, x) # xs, w)) (dec_obj f u)))"

lemma dec_enc_arr:
  assumes "\<And>x f r. x \<in> set xs \<Longrightarrow> length (enc_json x) \<le> f \<Longrightarrow> dec_json f (enc_json x @ r) = Some (x, r)"
    "length (concat (map (\<lambda>x. 1 # enc_json x) xs)) < f"
  shows "dec_arr f (concat (map (\<lambda>x. 1 # enc_json x) xs) @ 0 # r) = Some (xs, r)"
  using assms
proof (induction xs arbitrary: f)
  case Nil
  then show ?case by (cases f) auto
next
  case (Cons x xs)
  then obtain g where "f = Suc g" by (cases f) auto
  with Cons show ?case by simp
qed

lemma dec_enc_obj:
  assumes "\<And>k x f r. (k, x) \<in> set xs \<Longrightarrow> length (enc_json x) \<le> f \<Longrightarrow> dec_json f (enc_json x @ r) = Some (x, r)"
    "length (concat (map (\<lambda>(k, v). 1 # enc_str k @ enc_json v) xs)) < f"
  shows "dec_obj f (concat (map (\<lambda>(k, v). 1 # enc_str k @ enc_json v) xs) @ 0 # r) = Some (xs, r)"
  using assms
proof (induction xs arbitrary: f)
  case Nil
  then show ?case by (cases f) auto
next
  case (Cons kv xs)
  obtain k v where "kv = (k, v)" by (cases kv)
  moreover obtain g where "f = Suc g" using Cons.prems by (cases f) auto
  ultimately show ?case using Cons by fastforce
qed

lemma dec_enc_json: "length (enc_json j) \<le> f \<Longrightarrow> dec_json f (enc_json j @ r) = Some (j, r)"
proof (induction j arbitrary: f r)
  case (JArr xs)
  then obtain g where f: "f = Suc g" by (cases f) auto
  with JArr dec_enc_arr [of xs g r] show ?case by simp
next
  case (JObj xs)
  then obtain g where f: "f = Suc g" by (cases f) auto
  have "dec_json h (enc_json x @ u) = Some (x, u)"
    if "(k, x) \<in> set xs" "length (enc_json x) \<le> h" for k x h u
    using JObj.IH that by (metis snds.intros snd_conv)
  with f JObj.prems dec_enc_obj [of xs g r] show ?case by simp
next
  case (JNum n)
  then show ?case by (cases f) auto
next
  case (JStr s)
  then show ?case by (cases f) auto
next
  case (JBool b)
  then show ?case by (cases f) auto
next
  case JNull
  then show ?case by (cases f) auto
qed

section \<open>The instance\<close>

definition s_json_parse :: "bytes \<Rightarrow> json option" where
  "s_json_parse bs = (case dec_json (length bs) bs of Some (j, []) \<Rightarrow> Some j | _ \<Rightarrow> None)"

definition s_blake3 :: "bytes \<Rightarrow> hash" where
  "s_blake3 bs = foldl (\<lambda>h b. h * 257 + ucast b + 1) 0 bs"

definition s_ts_print :: "timestamp \<Rightarrow> string" where
  "s_ts_print t = bytes_str (be_bytes 16 (nat t))"

definition s_ts_parse :: "string \<Rightarrow> timestamp option" where
  "s_ts_parse s = Some (int (be_nat (str_bytes s)))"

definition sample_lib :: lib where
  "sample_lib =
     \<lparr>blake3 = s_blake3, hex_enc = s_hex_enc, hex_dec = s_hex_dec, json_print = enc_json,
      json_parse = s_json_parse, ts_print = s_ts_print, ts_parse = s_ts_parse,
      zstd = (\<lambda>bs. bs), unzstd = Some, re_find = (\<lambda>r bs. []),
      hmac_sha256 = (\<lambda>k m. be_bytes 32 (unat (s_blake3 (k @ 0 # m)))),
      f32_num = of_u32, num_f32 = to_u32, f64_of_u64 = (\<lambda>n. n)\<rparr>"

lemma length_s_hex_enc [simp]: "length (s_hex_enc bs) = 2 * length bs"
  by (induction bs) auto

lemma sample_hex: "hex_law sample_lib"
proof -
  have "hex_dec sample_lib s \<noteq> None \<longleftrightarrow> even (length s) \<and> list_all is_hexdigit s" for s
    using s_hex_dec_None [of s] by (simp add: sample_lib_def)
  then show ?thesis
    unfolding hex_law_def
    by (simp add: sample_lib_def s_hex_roundtrip s_hex_enc_lower s_hex_dec_length del: not_None_eq)
qed

lemma sample_json: "json_law sample_lib"
  using dec_enc_json [of _ _ "[]"] by (simp add: json_law_def sample_lib_def s_json_parse_def)

lemma sample_ts: "ts_law sample_lib"
  by (auto simp: ts_law_def sample_lib_def s_ts_print_def s_ts_parse_def be_nat_be_bytes ts_range_def
      simp del: be_bytes.simps)

lemma sample_zstd: "zstd_law sample_lib"
  by (simp add: zstd_law_def sample_lib_def)

section \<open>The laws as an interface\<close>

locale lib_laws =
  fixes L :: lib
  assumes hex: "hex_law L" and json: "json_law L" and ts: "ts_law L" and zstd: "zstd_law L"

lemma lib_laws_iff: "lib_laws L \<longleftrightarrow> lib_ok L"
  by (simp add: lib_laws_def lib_ok_def)

interpretation sample: lib_laws sample_lib
  by unfold_locales (rule sample_hex sample_json sample_ts sample_zstd)+

lemma sample_ok: "lib_ok sample_lib"
  using sample.lib_laws_axioms by (simp add: lib_laws_iff)

end
