(* ===== verification/Object_Store.thy ===== *)
theory Object_Store
  imports Secret_Scanner Sample_Lib
begin

text \<open>
  The store contract and the local store of \<open>store.rs\<close>. The trait \<open>ObjectStore\<close> is a record
  of operations over a state; \<open>FsObjectStore\<close> provides one over the file system. The locale
  \<open>object_store\<close> states what a client may rely on, and is interpreted here for the local
  store.
\<close>

section \<open>The contract\<close>

definition check_integrity :: "hash \<Rightarrow> hash \<Rightarrow> core_error + unit" where
  "check_integrity declared computed =
     (if computed \<noteq> declared then Inl (IntegrityError declared computed) else Inr ())"

record 's store_ops =
  st_put :: "obj \<Rightarrow> scan_policy \<Rightarrow> ('s, core_error, hash) act"
  st_put_raw :: "object_kind \<Rightarrow> bytes \<Rightarrow> ('s, core_error, hash) act"
  st_get :: "hash \<Rightarrow> ('s, core_error, obj) act"
  st_get_raw :: "hash \<Rightarrow> ('s, core_error, bytes) act"
  st_has :: "hash \<Rightarrow> 's \<Rightarrow> bool \<times> 's"

locale object_store =
  fixes L :: lib
    and S :: "'s store_ops"
    and inv :: "'s \<Rightarrow> bool"
    and calm :: "'s \<Rightarrow> bool"
    and held :: "'s \<Rightarrow> hash \<Rightarrow> bytes \<Rightarrow> bool"
  assumes put_inv: "preserves inv (st_put S x p)"
    and put_raw_inv: "preserves inv (st_put_raw S k bs)"
    and get_inv: "preserves inv (st_get S h)"
    and get_raw_inv: "preserves inv (st_get_raw S h)"
    and put_calm: "preserves calm (st_put S x p)"
    and put_raw_calm: "preserves calm (st_put_raw S k bs)"
    and put_holds: "inv s \<Longrightarrow> held s h bs \<Longrightarrow> held (snd (st_put S x p s)) h bs"
    and put_raw_holds: "inv s \<Longrightarrow> held s h bs \<Longrightarrow> held (snd (st_put_raw S k b s)) h bs"
    and get_holds: "inv s \<Longrightarrow> held s h bs \<Longrightarrow> held (snd (st_get S g s)) h bs"
    and get_raw_holds: "inv s \<Longrightarrow> held s h bs \<Longrightarrow> held (snd (st_get_raw S g s)) h bs"
    and put_result: "inv s \<Longrightarrow> st_put S x p s = (Inr h, t) \<Longrightarrow>
          h = object_hash L x \<and> (fst (st_has S h s) \<or> held t h (object_bytes L x))"
    and put_raw_result: "inv s \<Longrightarrow> st_put_raw S k bs s = (Inr h, t) \<Longrightarrow>
          h = hash_of L bs \<and> (fst (st_has S h s) \<or> held t h bs)"
    and get_sound: "inv s \<Longrightarrow> st_get S h s = (Inr x, t) \<Longrightarrow> object_hash L x = h"
    and get_raw_sound: "inv s \<Longrightarrow> st_get_raw S h s = (Inr bs, t) \<Longrightarrow> hash_of L bs = h"
    and get_held: "inv s \<Longrightarrow> calm s \<Longrightarrow> held s h bs \<Longrightarrow> object_parse L bs = Some x \<Longrightarrow>
          object_hash L x = h \<Longrightarrow> \<exists>t. st_get S h s = (Inr x, t) \<and> calm t"
    and get_raw_held: "inv s \<Longrightarrow> calm s \<Longrightarrow> held s h bs \<Longrightarrow> hash_of L bs = h \<Longrightarrow>
          \<exists>t. st_get_raw S h s = (Inr bs, t) \<and> calm t"
begin

lemma put_then_get:
  assumes "inv s" "calm s" "\<not> fst (st_has S h s)" "st_put S x p s = (Inr h, t)"
    "json_law L" "ts_law L" "object_wf x"
  shows "\<exists>u. st_get S h t = (Inr x, u)"
proof -
  have "inv t" "calm t"
    using put_inv put_calm assms(1, 2, 4) by (blast intro: preservesD)+
  moreover have "h = object_hash L x" "held t h (object_bytes L x)"
    using put_result [OF assms(1, 4)] assms(3) by auto
  moreover have "object_parse L (object_bytes L x) = Some x"
    using assms(5-7) by (rule object_parse_bytes)
  ultimately show ?thesis using get_held by blast
qed

lemma put_raw_then_get_raw:
  assumes "inv s" "calm s" "\<not> fst (st_has S h s)" "st_put_raw S k bs s = (Inr h, t)"
  shows "\<exists>u. st_get_raw S h t = (Inr bs, u)"
proof -
  have "inv t" "calm t"
    using put_raw_inv put_raw_calm assms(1, 2, 4) by (blast intro: preservesD)+
  moreover have "h = hash_of L bs" "held t h bs"
    using put_raw_result [OF assms(1, 4)] assms(3) by auto
  ultimately show ?thesis using get_raw_held by blast
qed

text \<open>An object stays readable through any later put.\<close>

lemma get_after_put:
  assumes "inv s" "calm s" "held s h bs" "object_parse L bs = Some x" "object_hash L x = h"
    "st_put S y p s = (r, t)"
  shows "\<exists>u. st_get S h t = (Inr x, u)"
proof -
  have "inv t" "calm t" using put_inv put_calm assms(1, 2, 6) by (blast intro: preservesD)+
  moreover have "held t h bs" using put_holds [OF assms(1, 3)] assms(6) by (metis snd_conv)
  ultimately show ?thesis using get_held assms(4, 5) by blast
qed

end

definition put_default :: "'s store_ops \<Rightarrow> obj \<Rightarrow> ('s, core_error, hash) act" where
  "put_default S x = st_put S x default_policy"

section \<open>FsObjectStore\<close>

record fs_store =
  st_root :: path
  st_allow :: allowlist

definition store_open :: "path \<Rightarrow> (fs, core_error, fs_store) act" where
  "store_open dir =
     bindA (map_errA Io (fs_create_dir_all dir)) (\<lambda>_. ret \<lparr>st_root = dir, st_allow = []\<rparr>)"

definition with_allowlist :: "allowlist \<Rightarrow> fs_store \<Rightarrow> fs_store" where
  "with_allowlist al st = st\<lparr>st_allow := al\<rparr>"

definition path_for :: "lib \<Rightarrow> fs_store \<Rightarrow> hash \<Rightarrow> path" where
  "path_for L st h = (case shard L h of (prefix, rest) \<Rightarrow> st_root st @ [prefix, rest @ ''.zst''])"

definition write_at :: "lib \<Rightarrow> path \<Rightarrow> bytes \<Rightarrow> (fs, core_error, unit) act" where
  "write_at L p bs = map_errA Io (replace_file p (zstd L bs))"

definition read_at :: "lib \<Rightarrow> path \<Rightarrow> (fs, core_error, bytes) act" where
  "read_at L p =
     bindA (map_errA Io (fs_read p)) (\<lambda>c.
     case unzstd L c of Some bs \<Rightarrow> ret bs | None \<Rightarrow> fail (Io (IoError IoOther [])))"

text \<open>The pre-hook of both puts: the hits, unless the content is allowlisted.\<close>

definition scan_gate :: "fs_store \<Rightarrow> hash \<Rightarrow> hit list \<Rightarrow> core_error + unit" where
  "scan_gate st h hits =
     (if hits \<noteq> [] \<and> \<not> allowlist_contains (st_allow st) h then Inl (SecretDetected hits) else Inr ())"

definition scan_object :: "lib \<Rightarrow> fs_store \<Rightarrow> obj \<Rightarrow> scan_policy \<Rightarrow> core_error + unit" where
  "scan_object L st x policy =
     (case x of
        OBlob bs \<Rightarrow> scan_gate st (object_hash L x) (scan_with L bs policy)
      | _ \<Rightarrow> Inr ())"

definition write_if_absent :: "lib \<Rightarrow> path \<Rightarrow> bytes \<Rightarrow> (fs, core_error, unit) act" where
  "write_if_absent L p bs s = (if path_exists s p then (Inr (), s) else write_at L p bs s)"

definition put_with_policy :: "lib \<Rightarrow> fs_store \<Rightarrow> obj \<Rightarrow> scan_policy \<Rightarrow> (fs, core_error, hash) act" where
  "put_with_policy L st x policy =
     bindA (lift_res (scan_object L st x policy)) (\<lambda>_.
     let bs = object_bytes L x; h = object_hash L x in
     bindA (write_if_absent L (path_for L st h) bs) (\<lambda>_. ret h))"

definition put_raw :: "lib \<Rightarrow> fs_store \<Rightarrow> object_kind \<Rightarrow> bytes \<Rightarrow> (fs, core_error, hash) act" where
  "put_raw L st kind bs =
     bindA (lift_res (scan_gate st (hash_of L bs) (scan L bs))) (\<lambda>_.
     let h = hash_of L bs in
     bindA (write_if_absent L (path_for L st h) bs) (\<lambda>_. ret h))"

definition read_present :: "lib \<Rightarrow> fs_store \<Rightarrow> hash \<Rightarrow> (fs, core_error, bytes) act" where
  "read_present L st h s =
     (if \<not> path_exists s (path_for L st h) then (Inl (NotFound h), s)
      else read_at L (path_for L st h) s)"

definition store_get :: "lib \<Rightarrow> fs_store \<Rightarrow> hash \<Rightarrow> (fs, core_error, obj) act" where
  "store_get L st h =
     bindA (read_present L st h) (\<lambda>bs.
     bindA (lift_res (ok_or Serialize (object_parse L bs))) (\<lambda>x.
     bindA (lift_res (check_integrity h (object_hash L x))) (\<lambda>_. ret x)))"

definition get_raw :: "lib \<Rightarrow> fs_store \<Rightarrow> hash \<Rightarrow> (fs, core_error, bytes) act" where
  "get_raw L st h =
     bindA (read_present L st h) (\<lambda>bs.
     bindA (lift_res (check_integrity h (hash_of L bs))) (\<lambda>_. ret bs))"

definition store_has :: "lib \<Rightarrow> fs_store \<Rightarrow> hash \<Rightarrow> fs \<Rightarrow> bool \<times> fs" where
  "store_has L st h s = (path_exists s (path_for L st h), s)"

definition fs_store_ops :: "lib \<Rightarrow> fs_store \<Rightarrow> fs store_ops" where
  "fs_store_ops L st =
     \<lparr>st_put = put_with_policy L st, st_put_raw = put_raw L st, st_get = store_get L st,
      st_get_raw = get_raw L st, st_has = store_has L st\<rparr>"

section \<open>Paths of objects\<close>

lemma lower_hex_not: "is_lower_hex c \<Longrightarrow> c \<noteq> CHR ''.'' \<and> c \<noteq> CHR ''/''"
  by (auto simp: is_lower_hex_def is_digit_def)

lemma to_hex_no_dot: "hex_law L \<Longrightarrow> CHR ''.'' \<notin> set (to_hex L h)"
  using to_hex_lower [of L h] lower_hex_not by (auto simp: list_all_iff)

lemma path_for_eq:
  "path_for L st h = st_root st @ [take 2 (to_hex L h), drop 2 (to_hex L h) @ ''.zst'']"
  by (simp add: path_for_def shard_def Let_def)

lemma path_for_not_Nil [simp]: "path_for L st h \<noteq> []"
  by (simp add: path_for_eq)

lemma path_for_inj: "hex_law L \<Longrightarrow> path_for L st h = path_for L st k \<longleftrightarrow> h = k"
  by (auto simp: path_for_eq) (metis append_take_drop_id to_hex_inj)

lemma set_extension_dotless:
  "CHR ''.'' \<notin> set a \<Longrightarrow> a \<noteq> [] \<Longrightarrow> CHR ''.'' \<notin> set b \<Longrightarrow>
     set_extension ext (a @ CHR ''.'' # b) = a @ ''.'' @ ext"
proof -
  assume *: "CHR ''.'' \<notin> set a" "a \<noteq> []" "CHR ''.'' \<notin> set b"
  have "split_once (CHR ''.'') (rev b @ CHR ''.'' # rev a) = Some (rev b, rev a)"
    using * by (intro split_once_first) simp
  with * show ?thesis by (simp add: set_extension_def rsplit_once_def)
qed

lemma tmp_path_for:
  assumes "hex_law L"
  shows "with_extension (path_for L st h) ''tmp'' =
     st_root st @ [take 2 (to_hex L h), drop 2 (to_hex L h) @ ''.tmp'']"
proof -
  have "CHR ''.'' \<notin> set (drop 2 (to_hex L h))"
    using to_hex_no_dot [OF assms] set_drop_subset by fastforce
  then have "set_extension ''tmp'' (drop 2 (to_hex L h) @ ''.zst'') = drop 2 (to_hex L h) @ ''.tmp''"
    using set_extension_dotless [of "drop 2 (to_hex L h)" "''zst''" "''tmp''"] length_to_hex [OF assms, of h]
    by auto
  then show ?thesis by (simp add: with_extension_def path_for_eq butlast_append)
qed

lemma tmp_not_path_for:
  "hex_law L \<Longrightarrow> with_extension (path_for L st h) ''tmp'' \<noteq> path_for L st k"
  by (simp add: tmp_path_for) (simp add: path_for_eq)

section \<open>What is stored\<close>

definition stored :: "lib \<Rightarrow> fs_store \<Rightarrow> fs \<Rightarrow> hash \<Rightarrow> bytes \<Rightarrow> bool" where
  "stored L st s h bs \<longleftrightarrow>
     (\<exists>c. map_of (entries s) (path_for L st h) = Some (FFile c) \<and> unzstd L c = Some bs)"

definition keeps_stored :: "lib \<Rightarrow> fs_store \<Rightarrow> fs \<Rightarrow> fs \<Rightarrow> bool" where
  "keeps_stored L st s t \<longleftrightarrow>
     (\<forall>h c. map_of (entries s) (path_for L st h) = Some (FFile c) \<longrightarrow>
            map_of (entries t) (path_for L st h) = Some (FFile c))"

definition address_of :: "lib \<Rightarrow> fs_store \<Rightarrow> hash \<Rightarrow> path \<Rightarrow> bool" where
  "address_of L st h p \<longleftrightarrow> p = path_for L st h \<or> p = with_extension (path_for L st h) ''tmp''"

lemma keeps_stored_refl [simp]: "reflp (keeps_stored L st)" "keeps_stored L st s s"
  by (simp_all add: reflp_def keeps_stored_def)

lemma keeps_stored_trans [simp]: "transp (keeps_stored L st)"
  by (simp add: transp_def keeps_stored_def)

lemma keeps_storedD: "keeps_stored L st s t \<Longrightarrow> stored L st s h bs \<Longrightarrow> stored L st t h bs"
  unfolding keeps_stored_def stored_def by blast

lemma stored_exists: "stored L st s h bs \<Longrightarrow> path_exists s (path_for L st h)"
  by (auto simp: stored_def path_exists_def lookup_map_of)

lemma file_exists:
  "map_of (entries s) p = Some (FFile c) \<Longrightarrow> p \<noteq> [] \<Longrightarrow> path_exists s p"
  by (simp add: path_exists_def lookup_map_of)

lemma write_at_frame: "keeps (frame (address_of L st h)) (write_at L (path_for L st h) bs)"
  unfolding write_at_def
  by (intro keeps_map_errA keeps_replace_file) (simp_all add: address_of_def)

lemma write_if_absent_frame: "keeps (frame (address_of L st h)) (write_if_absent L (path_for L st h) bs)"
  using write_at_frame by (auto simp: keeps_def write_if_absent_def frame_def)

lemma write_if_absent_keeps_stored:
  assumes "hex_law L"
  shows "keeps (keeps_stored L st) (write_if_absent L (path_for L st h) bs)"
  unfolding keeps_def keeps_stored_def
proof (intro allI impI)
  fix s :: fs and k c assume s: "map_of (entries s) (path_for L st k) = Some (FFile c)"
  let ?m = "write_if_absent L (path_for L st h) bs"
  show "map_of (entries (snd (?m s))) (path_for L st k) = Some (FFile c)"
  proof (cases "k = h")
    case True
    with s show ?thesis by (simp add: write_if_absent_def file_exists)
  next
    case False
    have "frame (address_of L st h) s (snd (?m s))"
      using write_if_absent_frame by (simp add: keeps_def)
    moreover have "\<not> address_of L st h (path_for L st k)"
      using False assms tmp_not_path_for [OF assms, of st h k] by (auto simp: address_of_def path_for_inj)
    ultimately show ?thesis using s by (rule frame_file)
  qed
qed

lemma keeps_stored_frame:
  "hex_law L \<Longrightarrow> (\<And>h. \<not> P (path_for L st h)) \<Longrightarrow> frame P s t \<Longrightarrow> keeps_stored L st s t"
  unfolding keeps_stored_def by (auto dest: frame_file)

lemma read_present_frame: "keeps (frame P) (read_present L st h)"
proof -
  have "keeps (frame P) (read_at L p)" for p
    unfolding read_at_def
    by (intro keeps_bindA keeps_map_errA keeps_fs transp_frame)
      (auto intro: keeps_basic split: option.splits)
  then show ?thesis by (auto simp: keeps_def read_present_def frame_def)
qed

lemma store_get_frame: "keeps (frame P) (store_get L st h)"
  unfolding store_get_def
  by (intro keeps_bindA read_present_frame transp_frame) (auto intro: keeps_basic)

lemma get_raw_frame: "keeps (frame P) (get_raw L st h)"
  unfolding get_raw_def
  by (intro keeps_bindA read_present_frame transp_frame) (auto intro: keeps_basic)

lemma frame_nothing: "frame (\<lambda>_. False) s t \<Longrightarrow> frame P s t"
  by (erule frame_mono) simp

lemma put_with_policy_keeps:
  "hex_law L \<Longrightarrow> keeps (keeps_stored L st) (put_with_policy L st x policy)"
  unfolding put_with_policy_def Let_def
  by (intro keeps_bindA keeps_basic write_if_absent_keeps_stored) simp_all

lemma put_raw_keeps: "hex_law L \<Longrightarrow> keeps (keeps_stored L st) (put_raw L st kind bs)"
  unfolding put_raw_def Let_def
  by (intro keeps_bindA keeps_basic write_if_absent_keeps_stored) simp_all

lemma store_get_keeps: "hex_law L \<Longrightarrow> keeps (keeps_stored L st) (store_get L st h)"
  using store_get_frame keeps_stored_frame [of L "\<lambda>_. False"] by (auto simp: keeps_def)

lemma get_raw_keeps: "hex_law L \<Longrightarrow> keeps (keeps_stored L st) (get_raw L st h)"
  using get_raw_frame keeps_stored_frame [of L "\<lambda>_. False"] by (auto simp: keeps_def)

lemma write_if_absent_ok:
  assumes "hex_law L" "zstd_law L" "write_if_absent L (path_for L st h) bs s = (Inr u, t)"
    "\<not> path_exists s (path_for L st h)"
  shows "stored L st t h bs"
proof -
  have "replace_file (path_for L st h) (zstd L bs) s = (Inr u, t)"
    using assms(3, 4) by (simp add: write_if_absent_def write_at_def)
  from replace_file_atomic [OF this] assms(2) tmp_not_path_for [OF assms(1), of st h h] show ?thesis
    by (auto simp: stored_def zstd_law_def)
qed

lemma put_with_policy_okE:
  assumes "put_with_policy L st x policy s = (Inr h, t)"
  obtains "h = object_hash L x"
    "write_if_absent L (path_for L st h) (object_bytes L x) s = (Inr (), t)"
    "scan_object L st x policy = Inr ()"
  using assms by (auto simp: put_with_policy_def Let_def bindA_ok_iff)

lemma put_raw_okE:
  assumes "put_raw L st kind bs s = (Inr h, t)"
  obtains "h = hash_of L bs" "write_if_absent L (path_for L st h) bs s = (Inr (), t)"
    "scan_gate st h (scan L bs) = Inr ()"
  using assms by (auto simp: put_raw_def Let_def bindA_ok_iff)

lemma store_get_okE:
  assumes "store_get L st h s = (Inr x, t)"
  obtains bs where "read_present L st h s = (Inr bs, t)" "object_parse L bs = Some x"
    "object_hash L x = h"
  using assms by (auto simp: store_get_def bindA_ok_iff check_integrity_def split: if_splits)

lemma get_raw_okE:
  assumes "get_raw L st h s = (Inr bs, t)"
  obtains "read_present L st h s = (Inr bs, t)" "hash_of L bs = h"
  using assms by (auto simp: get_raw_def bindA_ok_iff check_integrity_def split: if_splits)

lemma read_present_stored:
  assumes "stored L st s h bs" "faults s = []"
  shows "read_present L st h s = (Inr bs, s)"
  using assms stored_exists [OF assms(1)]
  by (auto simp: read_present_def stored_def read_at_def bindA_def map_errA_def fs_read_def
      prim_quiet lookup_map_of)

lemma read_present_ok:
  assumes "read_present L st h s = (Inr bs, t)"
  shows "stored L st s h bs"
proof -
  obtain c where "fs_read (path_for L st h) s = (Inr c, t)" "unzstd L c = Some bs"
    using assms by (auto simp: read_present_def read_at_def bindA_ok_iff split: if_splits option.splits)
  then show ?thesis
    unfolding fs_read_def stored_def
    by (cases rule: prim_cases [of whole "read_e (path_for L st h)" s])
      (auto simp: lookup_map_of split: option.splits entry.splits)
qed

section \<open>The local store keeps the contract\<close>

lemma preserves_const [pres_intros]: "preserves (\<lambda>_. True) m"
  by (simp add: preserves_def)

lemma quiet_write_if_absent [pres_intros]: "preserves quiet (write_if_absent L p bs)"
proof -
  have "preserves quiet (write_at L p bs)" unfolding write_at_def by (intro pres_intros)
  then show ?thesis by (simp add: preserves_def write_if_absent_def)
qed

lemma quiet_put [pres_intros]: "preserves quiet (put_with_policy L st x p)"
  unfolding put_with_policy_def Let_def by (intro pres_intros)

lemma quiet_put_raw [pres_intros]: "preserves quiet (put_raw L st k bs)"
  unfolding put_raw_def Let_def by (intro pres_intros)

lemma keeps_stored_snd:
  "keeps (keeps_stored L st) m \<Longrightarrow> stored L st s h bs \<Longrightarrow> stored L st (snd (m s)) h bs"
  by (auto simp: keeps_def intro: keeps_storedD)

lemma store_get_held:
  assumes "stored L st s h bs" "faults s = []" "object_parse L bs = Some x" "object_hash L x = h"
  shows "store_get L st h s = (Inr x, s)"
  using read_present_stored [OF assms(1, 2)] assms(3, 4)
  by (simp add: store_get_def check_integrity_def)

lemma get_raw_held:
  assumes "stored L st s h bs" "faults s = []" "hash_of L bs = h"
  shows "get_raw L st h s = (Inr bs, s)"
  using read_present_stored [OF assms(1, 2)] assms(3) by (simp add: get_raw_def check_integrity_def)

lemma fs_store_contract:
  assumes "hex_law L" "zstd_law L"
  shows "object_store L (fs_store_ops L st) (\<lambda>_. True) quiet (stored L st)"
proof
  fix s h t and x :: obj and p
  assume "st_put (fs_store_ops L st) x p s = (Inr h, t)"
  then have "put_with_policy L st x p s = (Inr h, t)" by (simp add: fs_store_ops_def)
  then show "h = object_hash L x \<and> (fst (st_has (fs_store_ops L st) h s) \<or> stored L st t h (object_bytes L x))"
    by (rule put_with_policy_okE)
      (auto simp: fs_store_ops_def store_has_def dest: write_if_absent_ok [OF assms])
next
  fix s h t k bs
  assume "st_put_raw (fs_store_ops L st) k bs s = (Inr h, t)"
  then have "put_raw L st k bs s = (Inr h, t)" by (simp add: fs_store_ops_def)
  then show "h = hash_of L bs \<and> (fst (st_has (fs_store_ops L st) h s) \<or> stored L st t h bs)"
    by (rule put_raw_okE)
      (auto simp: fs_store_ops_def store_has_def dest: write_if_absent_ok [OF assms])
qed (auto simp: fs_store_ops_def quiet_def store_get_held get_raw_held assms
      intro!: pres_intros keeps_stored_snd put_with_policy_keeps put_raw_keeps store_get_keeps get_raw_keeps
      elim!: store_get_okE get_raw_okE)

sublocale lib_laws < local_store: object_store L "fs_store_ops L st" "\<lambda>_. True" quiet "stored L st" for st
  by (rule fs_store_contract) (rule hex zstd)+

context lib_laws
begin

lemma local_put_get:
  assumes "quiet s" "object_wf x" "\<not> path_exists s (path_for L st (object_hash L x))"
    "put_with_policy L st x policy s = (Inr h, t)"
  shows "\<exists>u. store_get L st h t = (Inr x, u)"
proof -
  have "h = object_hash L x" using assms(4) by (rule put_with_policy_okE)
  with local_store.put_then_get [where st = st and s = s and x = x and p = policy and h = h and t = t]
    assms json ts show ?thesis by (simp add: fs_store_ops_def store_has_def)
qed

end

section \<open>Properties\<close>

lemma write_if_absent_content:
  assumes "zstd_law L" "hex_law L" "write_if_absent L (path_for L st h) bs s = (r, t)" "stored L st t k c"
  shows "stored L st s k c \<or> (k = h \<and> c = bs)"
proof (cases "k = h")
  case True
  show ?thesis
  proof (cases "path_exists s (path_for L st h)")
    case True
    with assms show ?thesis by (simp add: write_if_absent_def)
  next
    case False
    then obtain q where q: "replace_file (path_for L st h) (zstd L bs) s = (q, t)"
      using assms(3) by (cases "replace_file (path_for L st h) (zstd L bs) s")
        (auto simp: write_if_absent_def write_at_def map_errA_def)
    have "with_extension (path_for L st h) ''tmp'' \<noteq> path_for L st h"
      using assms(2) by (rule tmp_not_path_for)
    from replace_file_atomic [OF q path_for_not_Nil this] assms(1, 4) \<open>k = h\<close>
    show ?thesis by (auto simp: stored_def zstd_law_def)
  qed
next
  case False
  have "frame (address_of L st h) s t"
    using write_if_absent_frame assms(3) by (rule keepsD)
  moreover have "\<not> address_of L st h (path_for L st k)"
    using False assms(2) tmp_not_path_for [OF assms(2), of st h k] by (auto simp: address_of_def path_for_inj)
  ultimately show ?thesis
    using assms(4) by (auto simp: stored_def dest: frame_new)
qed

lemma put_with_policy_cases:
  assumes "put_with_policy L st x policy s = (r, t)"
  shows "t = s \<or> (\<exists>q. write_if_absent L (path_for L st (object_hash L x)) (object_bytes L x) s = (q, t))"
  using assms
  by (auto simp: put_with_policy_def Let_def bindA_def split: prod.splits sum.splits)

lemma write_if_absent_quiet:
  assumes "quiet s" "replaceable (entries s) p"
  obtains t where "write_if_absent L p bs s = (Inr (), t)" "quiet t"
proof (cases "path_exists s p")
  case True
  with assms(1) that show thesis by (simp add: write_if_absent_def)
next
  case False
  obtain t where "replace_file p (zstd L bs) s = (Inr (), t)" "quiet t"
    by (rule replace_file_quiet [OF assms])
  with False that show thesis by (simp add: write_if_absent_def write_at_def map_errA_def)
qed

lemma put_with_policy_quiet:
  assumes "quiet s" "replaceable (entries s) (path_for L st (object_hash L x))"
    "scan_object L st x policy = Inr ()"
  obtains t where "put_with_policy L st x policy s = (Inr (object_hash L x), t)" "quiet t"
proof -
  obtain t where "write_if_absent L (path_for L st (object_hash L x)) (object_bytes L x) s = (Inr (), t)" "quiet t"
    by (rule write_if_absent_quiet [OF assms(1, 2)])
  with assms(3) that show thesis by (simp add: put_with_policy_def Let_def)
qed

lemma put_raw_quiet:
  assumes "quiet s" "replaceable (entries s) (path_for L st (hash_of L bs))"
    "scan_gate st (hash_of L bs) (scan L bs) = Inr ()"
  obtains t where "put_raw L st k bs s = (Inr (hash_of L bs), t)" "quiet t"
proof -
  obtain t where "write_if_absent L (path_for L st (hash_of L bs)) bs s = (Inr (), t)" "quiet t"
    by (rule write_if_absent_quiet [OF assms(1, 2)])
  with assms(3) that show thesis by (simp add: put_raw_def Let_def)
qed

text \<open>The empty store that the witnesses start from.\<close>

definition empty_fs :: fs where
  "empty_fs = \<lparr>entries = [], faults = []\<rparr>"

definition sample_store :: fs_store where
  "sample_store = \<lparr>st_root = [''objects''], st_allow = []\<rparr>"

lemma quiet_empty [simp]: "quiet empty_fs"
  by (simp add: quiet_def empty_fs_def)

lemma empty_absent [simp]: "p \<noteq> [] \<Longrightarrow> \<not> path_exists empty_fs p"
  by (simp add: path_exists_def empty_fs_def lookup_map_of)

lemma empty_replaceable [simp]: "hex_law L \<Longrightarrow> replaceable (entries empty_fs) (path_for L st h)"
  using tmp_not_path_for by (simp add: replaceable_def empty_fs_def)

lemma scan_sample: "length bs < 20 \<Longrightarrow> scan sample_lib bs = []"
proof -
  assume len: "length bs < 20"
  have "h \<notin> set (entropy_pass bs 0 bs None)" for h
    using len run_hit_long [of bs _ _ h] by (fastforce simp: entropy_pass_iff run_hit_def)
  then have "entropy_pass bs 0 bs None = []" by (metis last_in_set)
  then show ?thesis
    by (simp add: scan_def scan_with_def default_policy_def scan_impl_def sample_lib_def)
qed

text \<open>
  C1. What a put returns with success reads back: an object put at an address that was
  free is what a later get of that address returns.
\<close>

theorem store_put_get:
  assumes "lib_ok L" "quiet s" "object_wf x"
    and "\<not> path_exists s (path_for L st (object_hash L x))"
    and "put_with_policy L st x policy s = (Inr h, t)"
  shows "h = object_hash L x \<and> (\<exists>u. store_get L st h t = (Inr x, u))"
  using assms lib_laws.local_put_get [of L s x st policy h t]
  by (auto simp: lib_laws_iff elim!: put_with_policy_okE)

theorem store_put_get_witness:
  "\<exists>h t u. put_with_policy sample_lib sample_store (OBlob [1, 2]) default_policy empty_fs = (Inr h, t) \<and>
     store_get sample_lib sample_store h t = (Inr (OBlob [1, 2]), u)"
proof -
  have "scan_object sample_lib sample_store (OBlob [1, 2]) default_policy = Inr ()"
    using scan_sample [of "[1, 2]"] by (simp add: scan_object_def scan_gate_def scan_def)
  then obtain t where
    "put_with_policy sample_lib sample_store (OBlob [1, 2]) default_policy empty_fs =
       (Inr (object_hash sample_lib (OBlob [1, 2])), t)"
    using put_with_policy_quiet [OF quiet_empty empty_replaceable [OF sample_hex]] by blast
  with store_put_get [OF sample_ok quiet_empty _ _ this] show ?thesis by auto
qed

text \<open>
  C3. Integrity of reads: whatever is on disk and whatever fails, a typed read returns only
  an object whose own hash is the address asked for, and a raw read only bytes that hash to
  it; a failed or successful read changes no stored object.
\<close>

theorem store_reads_verified:
  assumes "hex_law L"
  shows "(store_get L st h s = (Inr x, t) \<longrightarrow> object_hash L x = h) \<and>
         (get_raw L st h s = (Inr bs, t) \<longrightarrow> hash_of L bs = h) \<and>
         keeps_stored L st s (snd (store_get L st h s)) \<and> keeps_stored L st s (snd (get_raw L st h s))"
  using store_get_keeps [OF assms] get_raw_keeps [OF assms]
  by (auto simp: keeps_def elim: store_get_okE get_raw_okE)

theorem store_reads_verified_witness:
  "store_get sample_lib sample_store 7 empty_fs \<noteq> (Inr (OBlob []), empty_fs) \<and>
   keeps_stored sample_lib sample_store empty_fs (snd (get_raw sample_lib sample_store 7 empty_fs))"
  using store_reads_verified [OF sample_hex, of sample_store 7 empty_fs "OBlob []" empty_fs "[]"]
  by (simp add: blob_hash_def hash_of_def sample_lib_def s_blake3_def)

text \<open>
  C2. A put is atomic at every point where it can fail or the process can stop: under every
  script of faults, what was stored stays stored, and the only thing that can be new is the
  complete object at its own address.
\<close>

theorem store_put_atomic:
  assumes "hex_law L" "zstd_law L" "put_with_policy L st x policy s = (r, t)"
  shows "(stored L st s k c \<longrightarrow> stored L st t k c) \<and>
         (stored L st t k c \<longrightarrow> stored L st s k c \<or> (k = object_hash L x \<and> c = object_bytes L x))"
proof (intro conjI impI)
  assume "stored L st s k c"
  then show "stored L st t k c"
    using keepsD [OF put_with_policy_keeps [OF assms(1)] assms(3)] by (auto intro: keeps_storedD)
next
  assume "stored L st t k c"
  then show "stored L st s k c \<or> (k = object_hash L x \<and> c = object_bytes L x)"
    using put_with_policy_cases [OF assms(3)] write_if_absent_content [OF assms(2, 1)] by blast
qed

theorem store_put_atomic_witness:
  "let s = \<lparr>entries = [], faults = [None, Some (IoError IoOther ''disk full'', 2)]\<rparr>;
       t = snd (put_with_policy sample_lib sample_store (OTree []) default_policy s)
   in \<forall>k c. stored sample_lib sample_store t k c \<longrightarrow>
        k = object_hash sample_lib (OTree []) \<and> c = object_bytes sample_lib (OTree [])"
  using store_put_atomic [OF sample_hex sample_zstd prod.collapse [symmetric],
      where st = sample_store and x = "OTree []" and policy = default_policy
        and s = "\<lparr>entries = [], faults = [None, Some (IoError IoOther ''disk full'', 2)]\<rparr>"]
  by (fastforce simp: Let_def stored_def)



text \<open>
  Typed and raw objects share one address space. When raw bytes sit at an address that a
  blob of the same bytes also has, putting the blob succeeds without writing it and the
  blob cannot be read back: the get fails.
\<close>

theorem raw_shadows_blob:
  assumes "quiet s" "stored L st s (hash_of L bs) bs" "hash_of L bs = h"
    and "scan_object L st (OBlob bs) policy = Inr ()"
    and "\<forall>y. object_parse L bs = Some y \<longrightarrow> object_hash L y \<noteq> h"
  shows "put_with_policy L st (OBlob bs) policy s = (Inr h, s) \<and>
         (\<exists>e. store_get L st h s = (Inl e, s))"
proof -
  have ex: "path_exists s (path_for L st h)" using assms(2, 3) stored_exists by blast
  have "read_present L st h s = (Inr bs, s)"
    using assms(1-3) by (auto simp: quiet_def intro: read_present_stored)
  then have "\<exists>e. store_get L st h s = (Inl e, s)"
    using assms(5) by (cases "object_parse L bs") (auto simp: store_get_def check_integrity_def bindA_def)
  moreover have "put_with_policy L st (OBlob bs) policy s = (Inr h, s)"
    using ex assms(3, 4) by (simp add: put_with_policy_def write_if_absent_def Let_def blob_hash_def)
  ultimately show ?thesis by simp
qed

theorem raw_shadows_blob_witness:
  "\<exists>s e. put_raw sample_lib sample_store KSegment [9] empty_fs = (Inr (hash_of sample_lib [9]), s) \<and>
     put_with_policy sample_lib sample_store (OBlob [9]) default_policy s = (Inr (hash_of sample_lib [9]), s) \<and>
     store_get sample_lib sample_store (hash_of sample_lib [9]) s = (Inl e, s)"
proof -
  have clean: "scan sample_lib [9] = []" by (rule scan_sample) simp
  have "scan_gate sample_store (hash_of sample_lib [9]) (scan sample_lib [9]) = Inr ()"
    by (simp add: clean scan_gate_def)
  then obtain s where s: "put_raw sample_lib sample_store KSegment [9] empty_fs = (Inr (hash_of sample_lib [9]), s)"
    "quiet s"
    using put_raw_quiet [OF quiet_empty empty_replaceable [OF sample_hex]] by blast
  from s(1) have st: "stored sample_lib sample_store s (hash_of sample_lib [9]) [9]"
    by (rule put_raw_okE) (auto intro: write_if_absent_ok sample_hex sample_zstd)
  have "object_parse sample_lib [9] = None"
    by (simp add: object_parse_def sample_lib_def s_json_parse_def)
  then have p: "\<forall>y. object_parse sample_lib [9] = Some y \<longrightarrow> object_hash sample_lib y \<noteq> hash_of sample_lib [9]"
    by simp
  have "scan_with sample_lib [9] default_policy = []" using clean by (simp add: scan_def)
  then have "scan_object sample_lib sample_store (OBlob [9]) default_policy = Inr ()"
    by (simp add: scan_object_def scan_gate_def)
  from s(1) raw_shadows_blob [OF s(2) st refl this p] show ?thesis by blast
qed

end
