(* ===== verification/Refs.thy ===== *)
theory Refs
  imports Object_Store
begin

text \<open>
  Branch refs and \<open>HEAD\<close> (\<open>refs.rs\<close> of \<open>agentic-core\<close>) over the file-system model: name
  validation, atomic writes, reads, the recursive listing, resolution of names and the
  frozen snapshot. A \<open>Refs\<close> value is the path of its \<open>.agentic\<close> directory.
\<close>

section \<open>Names\<close>

definition reject :: "string \<Rightarrow> string \<Rightarrow> core_error + unit" where
  "reject name reason = Inl (InvalidBranchName name reason)"

fun check_components :: "string \<Rightarrow> string list \<Rightarrow> core_error + unit" where
  "check_components name [] = Inr ()"
| "check_components name (c # cs) =
     (if c = [] then reject name ''empty path component''
      else if c = ''.'' \<or> c = ''..'' then reject name ''dot components are not allowed''
      else if ends_with ''.tmp'' c then reject name ''components ending in .tmp''
      else check_components name cs)"

definition is_normal :: "pcomp \<Rightarrow> bool" where
  "is_normal c = (case c of Normal _ \<Rightarrow> True | _ \<Rightarrow> False)"

definition validate_branch_name :: "string \<Rightarrow> core_error + unit" where
  "validate_branch_name name =
     (if name = [] then reject name ''name is empty''
      else if name = ''HEAD'' then reject name ''HEAD is reserved''
      else if CHR 0x5C \<in> set name then reject name ''backslashes are not allowed''
      else if has_control name then reject name ''control characters are not allowed''
      else res_bind (check_components name (split_on (CHR ''/'') name)) (\<lambda>_.
        if list_ex (\<lambda>c. \<not> is_normal c) (path_components name)
        then reject name ''not a plain relative path'' else Inr ()))"

section \<open>Refs\<close>

type_synonym refs = path

datatype head_ref = Branch string | Detached hash

type_synonym 'a refact = "(fs, core_error, 'a) act"

definition refs_open :: "path \<Rightarrow> refs refact" where
  "refs_open dir =
     bindA (map_errA Io (fs_create_dir_all (dir @ [''refs'', ''heads'']))) (\<lambda>_. ret dir)"

definition head_path :: "refs \<Rightarrow> path" where
  "head_path R = R @ [''HEAD'']"

definition heads_dir :: "refs \<Rightarrow> path" where
  "heads_dir R = R @ [''refs'', ''heads'']"

definition branch_path :: "refs \<Rightarrow> string \<Rightarrow> core_error + path" where
  "branch_path R name =
     res_bind (validate_branch_name name) (\<lambda>_. Inr (path_join (heads_dir R) name))"

definition write_atomic :: "path \<Rightarrow> string \<Rightarrow> unit refact" where
  "write_atomic p s = map_errA Io (replace_file p (str_bytes s))"

definition newline :: string where
  "newline = [CHR 0x0A]"

definition head_prefix :: string where
  "head_prefix = ''ref: refs/heads/''"

definition write_head_symbolic :: "refs \<Rightarrow> string \<Rightarrow> unit refact" where
  "write_head_symbolic R branch =
     bindA (lift_res (validate_branch_name branch)) (\<lambda>_.
     write_atomic (head_path R) (head_prefix @ branch @ newline))"

fun parse_error_text :: "parse_hash_error \<Rightarrow> string" where
  "parse_error_text (WrongLength n) = ''hash must be 64 hex characters, got '' @ show_nat n"
| "parse_error_text InvalidHex = ''hash contains non-hex characters''"

definition parse_hash :: "lib \<Rightarrow> string \<Rightarrow> core_error + hash" where
  "parse_hash L s = map_err (\<lambda>e. Other (parse_error_text e)) (hash_from_str L s)"

definition read_head :: "lib \<Rightarrow> refs \<Rightarrow> head_ref option refact" where
  "read_head L R s =
     (if \<not> path_exists s (head_path R) then (Inr None, s)
      else bindA (map_errA Io (fs_read_to_string (head_path R))) (\<lambda>raw.
        let trimmed = str_trim raw in
        case strip_prefix head_prefix trimmed of
          Some rest \<Rightarrow> ret (Some (Branch rest))
        | None \<Rightarrow> bindA (lift_res (parse_hash L trimmed)) (\<lambda>h. ret (Some (Detached h)))) s)"

definition write_branch :: "lib \<Rightarrow> refs \<Rightarrow> string \<Rightarrow> hash \<Rightarrow> unit refact" where
  "write_branch L R branch h =
     bindA (lift_res (branch_path R branch)) (\<lambda>p.
     bindA (map_errA Io (fs_create_dir_all (butlast p))) (\<lambda>_.
     write_atomic p (to_hex L h @ newline)))"

definition read_ref_file :: "lib \<Rightarrow> path \<Rightarrow> hash option refact" where
  "read_ref_file L p s =
     (if \<not> path_exists s p then (Inr None, s)
      else bindA (map_errA Io (fs_read_to_string p)) (\<lambda>raw.
        bindA (lift_res (parse_hash L (str_trim raw))) (\<lambda>h. ret (Some h))) s)"

definition read_branch :: "lib \<Rightarrow> refs \<Rightarrow> string \<Rightarrow> hash option refact" where
  "read_branch L R branch = bindA (lift_res (branch_path R branch)) (read_ref_file L)"

text \<open>The recursive walk. Its depth is bounded by the longest path there is, which is the
  fuel \<open>list_branches\<close> starts it with.\<close>

definition slashes :: "string \<Rightarrow> string" where
  "slashes s = map (\<lambda>c. if c = CHR 0x5C then CHR ''/'' else c) s"

definition rel_name :: "path \<Rightarrow> path \<Rightarrow> string" where
  "rel_name dir p = slashes (utf8_lossy (join_with ''/'' (drop (length dir) p)))"

fun collect_branch_files :: "nat \<Rightarrow> path \<Rightarrow> path \<Rightarrow> string list refact" where
  "collect_branch_files 0 base dir = fail (Other ''too deep'')"
| "collect_branch_files (Suc n) base dir =
     bindA (map_errA Io (fs_read_dir dir)) (\<lambda>kids.
     bindA (mapA (\<lambda>(name, e).
         case e of
           FDir \<Rightarrow> collect_branch_files n base (dir @ [name])
         | FFile _ \<Rightarrow>
             ret (if utf8_ok (str_bytes name) \<and> \<not> ends_with ''.tmp'' name
                  then [rel_name base (dir @ [name])] else [])
         | _ \<Rightarrow> ret []) kids) (\<lambda>nss.
     ret (concat nss)))"

definition max_depth :: "ents \<Rightarrow> nat" where
  "max_depth es = Max (insert 0 (set (map (length \<circ> fst) es)))"

definition list_branches :: "refs \<Rightarrow> string list refact" where
  "list_branches R s =
     (if \<not> path_exists s (heads_dir R) then (Inr [], s)
      else collect_branch_files (Suc (max_depth (entries s))) (heads_dir R) (heads_dir R) s)"

definition is_hash_name :: "string \<Rightarrow> bool" where
  "is_hash_name name \<longleftrightarrow> length name = 64 \<and> list_all is_hexdigit name"

definition resolve :: "lib \<Rightarrow> refs \<Rightarrow> string \<Rightarrow> hash option refact" where
  "resolve L R name =
     (if name = ''HEAD'' then
        bindA (read_head L R) (\<lambda>hd.
        case hd of
          None \<Rightarrow> ret None
        | Some (Detached h) \<Rightarrow> ret (Some h)
        | Some (Branch b) \<Rightarrow> read_branch L R b)
      else if is_hash_name name then bindA (lift_res (parse_hash L name)) (\<lambda>h. ret (Some h))
      else read_branch L R name)"

section \<open>Snapshot\<close>

record refs_snapshot =
  snap_head :: "head_ref option"
  snap_branches :: "(string \<times> hash) list"

fun snapshot_branches :: "lib \<Rightarrow> refs \<Rightarrow> string list \<Rightarrow> (string \<times> hash) list \<Rightarrow> (string \<times> hash) list refact" where
  "snapshot_branches L R [] acc = ret acc"
| "snapshot_branches L R (n # ns) acc =
     bindA (read_branch L R n) (\<lambda>x.
     snapshot_branches L R ns (case x of Some h \<Rightarrow> bt_insert n h acc | None \<Rightarrow> acc))"

definition snapshot :: "lib \<Rightarrow> refs \<Rightarrow> refs_snapshot refact" where
  "snapshot L R =
     bindA (read_head L R) (\<lambda>hd.
     bindA (list_branches R) (\<lambda>names.
     bindA (snapshot_branches L R names []) (\<lambda>bs.
     ret \<lparr>snap_head = hd, snap_branches = bs\<rparr>)))"

definition snap_resolve :: "lib \<Rightarrow> refs_snapshot \<Rightarrow> string \<Rightarrow> core_error + hash option" where
  "snap_resolve L S name =
     (if name = ''HEAD'' then
        Inr (case snap_head S of
               None \<Rightarrow> None
             | Some (Detached h) \<Rightarrow> Some h
             | Some (Branch b) \<Rightarrow> map_of (snap_branches S) b)
      else if is_hash_name name then res_bind (parse_hash L name) (\<lambda>h. Inr (Some h))
      else Inr (map_of (snap_branches S) name))"

definition branch_count :: "refs_snapshot \<Rightarrow> nat" where
  "branch_count S = length (snap_branches S)"

section \<open>Valid names stay below refs/heads\<close>

definition good_component :: "string \<Rightarrow> bool" where
  "good_component c \<longleftrightarrow> c \<noteq> [] \<and> c \<noteq> ''.'' \<and> c \<noteq> ''..'' \<and> \<not> ends_with ''.tmp'' c \<and> CHR ''/'' \<notin> set c"

lemma check_components_ok:
  "check_components name cs = Inr () \<longleftrightarrow>
     list_all (\<lambda>c. c \<noteq> [] \<and> c \<noteq> ''.'' \<and> c \<noteq> ''..'' \<and> \<not> ends_with ''.tmp'' c) cs"
  by (induction cs) (simp_all add: reject_def)

lemma foldl_walk_normal: "foldl walk_comp p (map Normal cs) = p @ cs"
  by (induction cs arbitrary: p) simp_all

lemma path_components_normal:
  assumes "list_all (\<lambda>c. c \<noteq> [] \<and> c \<noteq> ''.'' \<and> c \<noteq> ''..'') (split_on (CHR ''/'') name)"
  shows "path_components name = map Normal (split_on (CHR ''/'') name)"
proof -
  have "\<not> starts_with ''/'' name"
  proof
    assume "starts_with ''/'' name"
    then obtain t where "name = CHR ''/'' # t" by (auto simp: starts_with_iff)
    with assms show False by simp
  qed
  moreover have "concat (map comp_of cs) = map Normal cs"
    if "list_all (\<lambda>c. c \<noteq> [] \<and> c \<noteq> ''.'' \<and> c \<noteq> ''..'') cs" for cs
    using that by (induction cs) (auto simp: comp_of_def)
  moreover have "hd (split_on (CHR ''/'') name) \<noteq> ''.''"
    using assms by (cases "split_on (CHR ''/'') name") auto
  ultimately show ?thesis using assms by (simp add: path_components_def Let_def)
qed

lemma validate_ok:
  assumes "validate_branch_name name = Inr u"
  shows "list_all good_component (split_on (CHR ''/'') name)" "name \<noteq> ''HEAD''" "name \<noteq> []"
    "CHR 0x5C \<notin> set name" "path_join p name = p @ split_on (CHR ''/'') name"
proof -
  have c: "check_components name (split_on (CHR ''/'') name) = Inr ()"
    using assms by (auto simp: validate_branch_name_def reject_def res_bind_Inr_iff split: if_splits)
  then show "list_all good_component (split_on (CHR ''/'') name)"
    by (auto simp: check_components_ok list_all_iff good_component_def dest: split_on_no_sep)
  show "name \<noteq> ''HEAD''" "name \<noteq> []" "CHR 0x5C \<notin> set name"
    using assms by (auto simp: validate_branch_name_def reject_def split: if_splits)
  show "path_join p name = p @ split_on (CHR ''/'') name"
    using c unfolding path_join_def check_components_ok
    by (subst path_components_normal) (auto simp: list_all_iff foldl_walk_normal)
qed

lemma branch_path_ok:
  assumes "branch_path R name = Inr p"
  shows "p = heads_dir R @ split_on (CHR ''/'') name"
    "list_all good_component (split_on (CHR ''/'') name)"
  using assms validate_ok [of name "()"] by (auto simp: branch_path_def res_bind_Inr_iff)

lemma branch_path_inj:
  "branch_path R a = Inr p \<Longrightarrow> branch_path R b = Inr p \<Longrightarrow> a = b"
  by (auto dest!: branch_path_ok(1)) (metis join_split_on)

lemma set_extension_ends: "ends_with (''.'' @ ext) (set_extension ext c)"
  unfolding set_extension_def
  by (auto simp: ends_with_iff split: option.splits)

lemma branch_path_last:
  assumes "branch_path R b = Inr p"
  shows "p \<noteq> []" "\<not> ends_with ''.tmp'' (last p)"
proof -
  let ?cs = "split_on (CHR ''/'') b"
  have "last ?cs \<in> set ?cs" by simp
  then show "p \<noteq> []" "\<not> ends_with ''.tmp'' (last p)"
    using branch_path_ok [OF assms] by (auto simp: list_all_iff good_component_def)
qed

lemma tmp_not_branch:
  assumes "branch_path R b = Inr p'" "p \<noteq> []"
  shows "with_extension p ''tmp'' \<noteq> p'"
  using branch_path_last [OF assms(1)] set_extension_ends [of "''tmp''" "last p"] assms(2)
  by (auto simp: with_extension_def)

lemma branch_not_head: "branch_path R b = Inr p \<Longrightarrow> p \<noteq> head_path R \<and> with_extension p ''tmp'' \<noteq> head_path R"
  by (auto dest!: branch_path_ok(1) arg_cong [where f = length] simp: head_path_def heads_dir_def)

lemma head_tmp: "with_extension (head_path R) ''tmp'' = R @ [''HEAD.tmp'']"
  by (simp add: with_extension_def head_path_def set_extension_def rsplit_once_def)

section \<open>Atomic updates\<close>

lemma write_atomic_frame:
  "P p \<Longrightarrow> P (with_extension p ''tmp'') \<Longrightarrow> keeps (frame P) (write_atomic p s)"
  unfolding write_atomic_def by (intro keeps_map_errA keeps_replace_file)

definition ref_paths :: "path \<Rightarrow> path \<Rightarrow> bool" where
  "ref_paths p q \<longleftrightarrow> q = p \<or> q = with_extension p ''tmp''"

lemma write_branch_frame:
  "branch_path R b = Inr p \<Longrightarrow> keeps (frame (ref_paths p)) (write_branch L R b h)"
  unfolding write_branch_def
  by (simp add: bindA_def)
    (intro keeps_bindA [unfolded bindA_def] keeps_map_errA keeps_fs write_atomic_frame transp_frame;
      simp add: ref_paths_def)

lemma write_branch_step:
  assumes "branch_path R b = Inr p" "write_branch L R b h s = (r, t)"
  obtains (early) e where "frame (\<lambda>_. False) s t" "r = Inl e"
    | (late) s1 q where "frame (\<lambda>_. False) s s1" "replace_file p (str_bytes (to_hex L h @ newline)) s1 = (q, t)"
        "r = map_err Io q"
proof -
  obtain r1 s1 where 1: "fs_create_dir_all (butlast p) s = (r1, s1)" by fastforce
  have f: "frame (\<lambda>_. False) s s1" using keeps_fs_create_dir_all 1 by (rule keepsD)
  show thesis
  proof (cases r1)
    case (Inl e)
    with 1 assms have "r = Inl (Io e)" "t = s1"
      by (auto simp: write_branch_def bindA_def map_errA_def)
    with f early show thesis by blast
  next
    case (Inr u)
    obtain q s2 where "replace_file p (str_bytes (to_hex L h @ newline)) s1 = (q, s2)" by fastforce
    with 1 Inr assms f late show thesis
      by (auto simp: write_branch_def bindA_def map_errA_def write_atomic_def)
  qed
qed

lemma frame_False: "frame (\<lambda>_. False) s t \<Longrightarrow> map_of (entries t) q = map_of (entries s) q \<or>
    (map_of (entries s) q = None \<and> map_of (entries t) q = Some FDir)"
  by (auto simp: frame_def eframe_def)

lemma write_branch_target:
  assumes "branch_path R b = Inr p" "write_branch L R b h s = (r, t)"
  shows "(r = Inr () \<and> map_of (entries t) p = Some (FFile (str_bytes (to_hex L h @ newline)))) \<or>
         ((\<exists>e. r = Inl e) \<and>
          (map_of (entries t) p = map_of (entries s) p \<or>
           (map_of (entries s) p = None \<and> map_of (entries t) p = Some FDir)))"
  using assms
proof (cases rule: write_branch_step)
  case (early e)
  then show ?thesis using frame_False [of s t p] by blast
next
  case (late s1 q)
  have "with_extension p ''tmp'' \<noteq> p" using tmp_not_branch [OF assms(1)] branch_path_last [OF assms(1)] by simp
  from replace_file_atomic [OF late(2) _ this] branch_path_last [OF assms(1)] late(3) frame_False [OF late(1), of p]
  show ?thesis by auto
qed

section \<open>Reading back\<close>

lemma utf8_ok_str_ascii:
  assumes "\<And>c. c \<in> set s \<Longrightarrow> (of_char c :: nat) < 128"
  shows "utf8_ok (str_bytes s)"
proof (rule utf8_ok_ascii)
  fix b assume "b \<in> set (str_bytes s)"
  then obtain c where c: "c \<in> set s" "b = byte_of c" by (auto simp: str_bytes_def)
  have "unat (byte_of c) = of_char c"
    unfolding byte_of_def using unat_of_nat_byte [of "of_char c"] of_char_lt_256 [of c]
    by (simp del: unat_of_nat_byte)
  with c assms show "unat b < 128" by simp
qed

lemma lower_hex_range: "is_lower_hex c \<Longrightarrow> 48 \<le> (of_char c :: nat) \<and> (of_char c :: nat) < 103"
  by (auto simp: is_lower_hex_def is_digit_def)

lemma hex_line:
  assumes "hex_law L"
  shows "utf8_ok (str_bytes (to_hex L h @ newline))" "str_trim (to_hex L h @ newline) = to_hex L h"
proof -
  have lo: "48 \<le> (of_char c :: nat) \<and> (of_char c :: nat) < 103" if "c \<in> set (to_hex L h)" for c
    using to_hex_lower [OF assms, of h] that lower_hex_range by (auto simp: list_all_iff)
  show "utf8_ok (str_bytes (to_hex L h @ newline))"
    by (rule utf8_ok_str_ascii) (use lo in \<open>fastforce simp: newline_def\<close>)
  have end_ok: "c \<notin> set white_ends" if "c \<in> set (to_hex L h)" for c
    using lo [OF that] white_ends_ascii [of c] by auto
  obtain c s where hex: "to_hex L h = c # s" using length_to_hex [OF assms, of h] by (cases "to_hex L h") auto
  obtain s' d where last: "c # s = s' @ [d]" by (metis rev_exhaust list.distinct(1))
  have "trim_end (c # s) = c # s" unfolding last by (rule trim_end_last) (use end_ok hex last in simp)
  then show "str_trim (to_hex L h @ newline) = to_hex L h"
    using str_trim_line [of c s] end_ok hex by (simp add: newline_def)
qed

lemma fs_read_file:
  "faults s = [] \<Longrightarrow> map_of (entries s) p = Some (FFile bs) \<Longrightarrow> p \<noteq> [] \<Longrightarrow> fs_read p s = (Inr bs, s)"
  by (simp add: fs_read_def prim_quiet lookup_map_of)

lemma fs_read_to_string_file:
  "faults s = [] \<Longrightarrow> map_of (entries s) p = Some (FFile (str_bytes x)) \<Longrightarrow> p \<noteq> [] \<Longrightarrow>
     utf8_ok (str_bytes x) \<Longrightarrow> fs_read_to_string p s = (Inr x, s)"
  by (simp add: fs_read_to_string_def fs_read_file)

lemma read_ref_file_hex:
  assumes "hex_law L" "faults s = []" "p \<noteq> []"
    "map_of (entries s) p = Some (FFile (str_bytes (to_hex L h @ newline)))"
  shows "read_ref_file L p s = (Inr (Some h), s)"
proof -
  have "fs_read_to_string p s = (Inr (to_hex L h @ newline), s)"
    using assms hex_line(1) [OF assms(1)] by (intro fs_read_to_string_file) auto
  moreover have "path_exists s p" using assms(3, 4) by (rule file_exists [rotated])
  ultimately show ?thesis
    using hex_line(2) [OF assms(1)] hash_from_str_to_hex [OF assms(1)]
    by (simp add: read_ref_file_def bindA_def map_errA_def parse_hash_def)
qed

lemma read_branch_apply:
  "branch_path R b = Inr p \<Longrightarrow> read_branch L R b s = read_ref_file L p s"
  by (simp add: read_branch_def bindA_def)

lemma preserves_quiet_write_branch: "preserves quiet (write_branch L R b h)"
  unfolding write_branch_def write_atomic_def by (intro pres_intros)

section \<open>The listing is complete\<close>

definition listed :: "ents \<Rightarrow> path \<Rightarrow> path \<Rightarrow> bool" where
  "listed es dir q \<longleftrightarrow>
     (\<exists>c cs. q = dir @ c # cs) \<and> (\<exists>b. map_of es q = Some (FFile b)) \<and>
     utf8_ok (str_bytes (last q)) \<and> \<not> ends_with ''.tmp'' (last q)"

lemma listed_child:
  assumes "es_ok es"
  shows "listed es dir q \<longleftrightarrow>
     (\<exists>x e. map_of es (dir @ [x]) = Some e \<and>
        (case e of
           FDir \<Rightarrow> listed es (dir @ [x]) q
         | FFile _ \<Rightarrow> q = dir @ [x] \<and> utf8_ok (str_bytes x) \<and> \<not> ends_with ''.tmp'' x
         | _ \<Rightarrow> False))" (is "_ = ?R")
proof
  assume "listed es dir q"
  then obtain c cs b where q: "q = dir @ c # cs" "map_of es q = Some (FFile b)"
    "utf8_ok (str_bytes (last q))" "\<not> ends_with ''.tmp'' (last q)" by (auto simp: listed_def)
  show ?R
  proof (cases cs)
    case Nil
    with q show ?thesis by (intro exI [of _ c] exI [of _ "FFile b"]) simp
  next
    case (Cons d ds)
    have "map_of es (dir @ [c]) = Some FDir"
      using es_ok_prefix_dir [OF assms, of dir c cs] q Cons by auto
    with q Cons show ?thesis by (intro exI [of _ c] exI [of _ FDir]) (simp add: listed_def)
  qed
next
  assume ?R
  then obtain x e where x: "map_of es (dir @ [x]) = Some e"
    "case e of FDir \<Rightarrow> listed es (dir @ [x]) q
       | FFile _ \<Rightarrow> q = dir @ [x] \<and> utf8_ok (str_bytes x) \<and> \<not> ends_with ''.tmp'' x | _ \<Rightarrow> False"
    by blast
  then show "listed es dir q" by (cases e) (auto simp: listed_def)
qed

lemma collect_complete:
  "faults s = [] \<Longrightarrow> es_ok (entries s) \<Longrightarrow> map_of (entries s) dir = Some FDir \<Longrightarrow>
     (\<And>q e. map_of (entries s) q = Some e \<Longrightarrow> length q < length dir + n) \<Longrightarrow>
     \<exists>ns. collect_branch_files n base dir s = (Inr ns, s) \<and>
          set ns = rel_name base ` {q. listed (entries s) dir q}"
proof (induction n arbitrary: dir)
  case 0
  then show ?case by fastforce
next
  case (Suc n)
  let ?es = "entries s" and ?kids = "children (entries s) dir"
  let ?f = "\<lambda>(name, e). case e of
           FDir \<Rightarrow> collect_branch_files n base (dir @ [name])
         | FFile _ \<Rightarrow>
             ret (if utf8_ok (str_bytes name) \<and> \<not> ends_with ''.tmp'' name
                  then [rel_name base (dir @ [name])] else [])
         | _ \<Rightarrow> ret []"
  let ?P = "\<lambda>(x, e) ns. set ns = rel_name base ` {q. case e of
           FDir \<Rightarrow> listed ?es (dir @ [x]) q
         | FFile _ \<Rightarrow> q = dir @ [x] \<and> utf8_ok (str_bytes x) \<and> \<not> ends_with ''.tmp'' x
         | _ \<Rightarrow> False}"
  have dist: "distinct (map fst ?es)" using Suc.prems(2) by (simp add: es_ok_iff)
  have dir: "lookup ?es dir = Some FDir" using Suc.prems(3) by (simp add: lookup_def)
  have step: "\<exists>ns. ?f k s = (Inr ns, s) \<and> ?P k ns" if k: "k \<in> set ?kids" for k
  proof -
    obtain x e where xe: "k = (x, e)" by (cases k)
    with k dist have m: "map_of ?es (dir @ [x]) = Some e" by (simp add: set_children)
    show ?thesis
    proof (cases e)
      case FDir
      have "\<exists>ns. collect_branch_files n base (dir @ [x]) s = (Inr ns, s) \<and>
          set ns = rel_name base ` {q. listed ?es (dir @ [x]) q}"
        using Suc.prems m FDir by (intro Suc.IH) auto
      with xe FDir show ?thesis by auto
    qed (use xe in auto)
  qed
  then obtain yss where yss: "mapA ?f ?kids s = (Inr yss, s)" "list_all2 ?P ?kids yss"
    using mapA_pure [of ?kids ?f s ?P] by blast
  have "set (concat yss) = (\<Union>k\<in>set ?kids. rel_name base ` {q. case k of (x, e) \<Rightarrow> (case e of
           FDir \<Rightarrow> listed ?es (dir @ [x]) q
         | FFile _ \<Rightarrow> q = dir @ [x] \<and> utf8_ok (str_bytes x) \<and> \<not> ends_with ''.tmp'' x
         | _ \<Rightarrow> False)})"
    using yss(2) by (induction rule: list_all2_induct) auto
  also have "\<dots> = rel_name base ` {q. listed ?es dir q}"
    unfolding listed_child [OF Suc.prems(2), of dir] image_UN [symmetric]
    by (rule arg_cong [where f = "image (rel_name base)"]) (force simp: set_children [OF dist])
  finally have "set (concat yss) = rel_name base ` {q. listed ?es dir q}" .
  moreover have "collect_branch_files (Suc n) base dir s = (Inr (concat yss), s)"
    using Suc.prems(1) dir yss(1)
    by (simp add: bindA_def map_errA_def fs_read_dir_def prim_quiet)
  ultimately show ?case by blast
qed

lemma length_le_max_depth: "map_of es q = Some e \<Longrightarrow> length q \<le> max_depth es"
  unfolding max_depth_def by (rule Max_ge) (auto dest!: map_of_SomeD intro: rev_image_eqI)

lemma list_branches_complete:
  assumes "quiet s" "fs_ok s" "map_of (entries s) (heads_dir R) = Some FDir"
  shows "\<exists>ns. list_branches R s = (Inr ns, s) \<and>
     set ns = rel_name (heads_dir R) ` {q. listed (entries s) (heads_dir R) q}"
proof -
  have "path_exists s (heads_dir R)"
    using assms(3) by (simp add: path_exists_def lookup_def)
  then show ?thesis
    using collect_complete [of s "heads_dir R" "Suc (max_depth (entries s))" "heads_dir R"] assms
      length_le_max_depth [of "entries s"]
    by (fastforce simp: list_branches_def quiet_def fs_ok_def)
qed

lemma write_branch_runs:
  assumes "quiet s" "branch_path R b = Inr p" "replaceable (entries s) p"
  obtains t where "write_branch L R b h s = (Inr (), t)" "quiet t"
proof -
  have pre: "map_of (entries s) (take (Suc n) (butlast p)) \<in> {None, Some FDir}"
    if "n < length (butlast p)" for n
    using assms(3) that by (simp add: replaceable_def)
  from create_dir_all_runs [OF assms(1) pre] obtain u where u: "fs_create_dir_all (butlast p) s = (Inr (), u)" "quiet u"
    "\<And>q. length (butlast p) < length q \<Longrightarrow> map_of (entries u) q = map_of (entries s) q"
    by blast
  have f: "frame (\<lambda>_. False) s u" using keeps_fs_create_dir_all u(1) by (rule keepsD)
  have p: "p \<noteq> []" using assms(3) by (simp add: replaceable_def)
  then have len: "length (butlast p) < length p" by (cases p rule: rev_cases) simp_all
  have "replaceable (entries u) p"
    using assms(3) u(3) [of p] u(3) [of "with_extension p ''tmp''"] len frame_False [OF f]
    unfolding replaceable_def by simp (metis option.distinct(1))
  with u(2) obtain t where "replace_file p (str_bytes (to_hex L h @ newline)) u = (Inr (), t)" "quiet t"
    by (rule replace_file_quiet)
  with u(1) assms(2) that show thesis
    by (simp add: write_branch_def bindA_def map_errA_def write_atomic_def)
qed

section \<open>The parts of a UTF-8 name\<close>

lemma utf8_char_ascii_cut:
  "utf8_char (a @ 47 # b) = Some t \<Longrightarrow> (a = [] \<and> t = b) \<or> (\<exists>a'. t = a' @ 47 # b)"
proof (cases a rule: utf8_char.cases)
  case (5 w x y z r)
  then show "utf8_char (a @ 47 # b) = Some t \<Longrightarrow> ?thesis"
    by (auto split: if_splits)
qed (cases b rule: utf8_char.cases; auto simp: cont_def split: if_splits)+

lemma utf8_list_cut: "utf8_list (a @ 47 # b) \<Longrightarrow> utf8_list b"
proof (induction "a @ 47 # b" arbitrary: a rule: utf8_list.induct)
  case 1
  from "1.prems" obtain t where t: "utf8_char (a @ 47 # b) = Some t" "utf8_list t"
    by (auto simp: utf8_list.simps [of "a @ 47 # b"] split: option.splits)
  from utf8_char_ascii_cut [OF t(1)] show ?case
  proof
    assume "\<exists>a'. t = a' @ 47 # b"
    then obtain a' where "t = a' @ 47 # b" by blast
    with "1.hyps" t show ?thesis by auto
  qed (use t in simp)
qed

lemma unat_byte_of: "unat (byte_of c) = of_char c"
  unfolding byte_of_def using unat_of_nat_byte [of "of_char c"] of_char_lt_256 [of c]
  by (simp del: unat_of_nat_byte)

lemma utf8_last_component:
  "utf8_ok (str_bytes s) \<Longrightarrow> utf8_ok (str_bytes (last (split_on (CHR ''/'') s)))"
proof (induction "length s" arbitrary: s rule: less_induct)
  case less
  show ?case
  proof (cases "CHR ''/'' \<in> set s")
    case True
    then obtain a b where s: "s = a @ CHR ''/'' # b" "CHR ''/'' \<notin> set a" by (metis split_list_first)
    have "utf8_ok (str_bytes b)"
      using less.prems s(1) utf8_list_cut [of "map unat (str_bytes a)" "map unat (str_bytes b)"]
      by (simp add: utf8_ok_def str_bytes_def unat_byte_of)
    with less.hyps [of b] s show ?thesis by (simp add: split_on_append_sep)
  next
    case False
    with less.prems show ?thesis by (simp add: split_on_single)
  qed
qed

section \<open>A snapshot agrees with the refs it was taken from\<close>

lemma read_ref_file_pure: "quiet s \<Longrightarrow> snd (read_ref_file L p s) = s"
  by (auto simp: read_ref_file_def bindA_def map_errA_def fs_read_to_string_def fs_read_def quiet_def
      prim_quiet split: prod.splits sum.splits)

lemma read_branch_pure: "quiet s \<Longrightarrow> read_branch L R n s = (fst (read_branch L R n s), s)"
  using read_ref_file_pure [of s L]
  by (cases "branch_path R n") (auto simp: read_branch_def bindA_def prod_eq_iff)

lemma read_head_pure: "quiet s \<Longrightarrow> snd (read_head L R s) = s"
  by (auto simp: read_head_def bindA_def map_errA_def fs_read_to_string_def fs_read_def quiet_def
      prim_quiet Let_def split: prod.splits sum.splits option.splits)

lemma snapshot_branches_spec:
  "quiet s \<Longrightarrow> snapshot_branches L R ns acc s = (Inr bs, t) \<Longrightarrow>
     t = s \<and> (\<forall>n\<in>set ns. \<exists>x. read_branch L R n s = (Inr x, s)) \<and>
     (\<forall>n. map_of bs n =
        (if n \<in> set ns then (case fst (read_branch L R n s) of Inr (Some h) \<Rightarrow> Some h | _ \<Rightarrow> map_of acc n)
         else map_of acc n))"
proof (induction ns arbitrary: acc)
  case (Cons n ns)
  obtain x where x: "read_branch L R n s = (Inr x, s)"
    using Cons.prems read_branch_pure [OF Cons.prems(1), of L R n]
    by (cases "fst (read_branch L R n s)") (auto simp: bindA_def)
  with Cons.prems have "snapshot_branches L R ns (case x of Some h \<Rightarrow> bt_insert n h acc | None \<Rightarrow> acc) s = (Inr bs, t)"
    by (simp add: bindA_def)
  from Cons.IH [OF Cons.prems(1) this] x show ?case
    by (auto split: option.splits sum.splits)
qed simp

lemma snapshotE:
  assumes "quiet s" "fs_ok s" "map_of (entries s) (heads_dir R) = Some FDir" "snapshot L R s = (Inr S, t)"
  obtains ns where "t = s" "list_branches R s = (Inr ns, s)"
    "set ns = rel_name (heads_dir R) ` {q. listed (entries s) (heads_dir R) q}"
    "read_head L R s = (Inr (snap_head S), s)"
    "\<And>n. n \<in> set ns \<Longrightarrow> read_branch L R n s = (Inr (map_of (snap_branches S) n), s)"
    "\<And>n. n \<notin> set ns \<Longrightarrow> map_of (snap_branches S) n = None"
proof -
  obtain ns where ns: "list_branches R s = (Inr ns, s)"
    "set ns = rel_name (heads_dir R) ` {q. listed (entries s) (heads_dir R) q}"
    using list_branches_complete [OF assms(1-3)] by blast
  obtain h where h: "read_head L R s = (Inr h, s)"
    using assms(4) read_head_pure [OF assms(1), of L R]
    by (cases "read_head L R s"; cases "fst (read_head L R s)") (auto simp: snapshot_def bindA_def)
  from assms(4) ns(1) h obtain bs where bs: "snapshot_branches L R ns [] s = (Inr bs, t)"
    "S = \<lparr>snap_head = h, snap_branches = bs\<rparr>"
    by (auto simp: snapshot_def bindA_ok_iff)
  note spec = snapshot_branches_spec [OF assms(1) bs(1)]
  have "read_branch L R n s = (Inr (map_of bs n), s)" if n: "n \<in> set ns" for n
  proof -
    obtain x where "read_branch L R n s = (Inr x, s)" using spec n by blast
    with spec n show ?thesis by (auto split: option.splits)
  qed
  moreover have "map_of bs n = None" if "n \<notin> set ns" for n using spec that by simp
  ultimately show thesis using that ns h bs spec by simp
qed

lemma rel_name_branch:
  assumes "validate_branch_name name = Inr ()" "utf8_ok (str_bytes name)"
  shows "rel_name base (base @ split_on (CHR ''/'') name) = name"
proof -
  have "slashes name = name"
    using validate_ok(4) [OF assms(1)] by (auto simp: slashes_def intro: map_idI)
  then show ?thesis using assms(2) by (simp add: rel_name_def join_split_on utf8_lossy_valid)
qed

lemma branch_file_listed:
  assumes "validate_branch_name name = Inr ()" "utf8_ok (str_bytes name)"
    "map_of es (base @ split_on (CHR ''/'') name) = Some (FFile b)"
  shows "listed es base (base @ split_on (CHR ''/'') name)"
proof -
  let ?cs = "split_on (CHR ''/'') name"
  have "\<not> ends_with ''.tmp'' (last ?cs)"
    using validate_ok(1) [OF assms(1)] last_in_set [of ?cs] by (auto simp: list_all_iff good_component_def)
  moreover obtain c cs where "?cs = c # cs" by (cases ?cs) auto
  ultimately show ?thesis
    using assms(3) utf8_last_component [OF assms(2)] by (auto simp: listed_def)
qed

section \<open>Properties\<close>

text \<open>
  C30. No accepted branch name leaves the ref directory: the path built from it is
  \<open>refs/heads\<close> followed by the components of the name, none of them empty, a dot or a double
  dot, containing a slash, or a temporary file of an atomic write; and different names
  give different paths.
\<close>

theorem branch_path_contained:
  assumes "branch_path R name = Inr p"
  shows "p = heads_dir R @ split_on (CHR ''/'') name \<and>
         list_all good_component (split_on (CHR ''/'') name) \<and>
         (branch_path R name' = Inr p \<longrightarrow> name' = name) \<and> p \<noteq> head_path R"
  using branch_path_ok [OF assms] branch_path_inj [OF assms] branch_not_head [OF assms] by auto

theorem branch_path_contained_witness:
  "branch_path [''.agentic''] ''feature/foo'' =
     Inr [''.agentic'', ''refs'', ''heads'', ''feature'', ''foo''] \<and>
   list_all good_component [''feature'', ''foo'']"
proof -
  have split: "split_on (CHR ''/'') ''feature/foo'' = [''feature'', ''foo'']" by code_simp
  have path: "branch_path [''.agentic''] ''feature/foo'' =
     Inr [''.agentic'', ''refs'', ''heads'', ''feature'', ''foo'']"
    by (simp add: branch_path_def validate_branch_name_def split path_join_def path_components_def
        starts_with_def comp_of_def is_normal_def ends_with_def heads_dir_def)
  from branch_path_contained [OF path, THEN conjunct2, THEN conjunct1] path split show ?thesis by simp
qed

lemma branch_path_main: "branch_path R ''main'' = Inr (R @ [''refs'', ''heads'', ''main''])"
proof -
  have "split_on (CHR ''/'') ''main'' = [''main'']" by code_simp
  then show ?thesis
    by (simp add: branch_path_def validate_branch_name_def path_join_def path_components_def
        starts_with_def comp_of_def is_normal_def ends_with_def heads_dir_def)
qed

lemma write_branch_atomic_lemma:
  assumes "branch_path R b = Inr p" "write_branch L R b h s = (r, t)"
  shows "(r = Inr () \<longrightarrow> map_of (entries t) p = Some (FFile (str_bytes (to_hex L h @ newline)))) \<and>
         (map_of (entries t) p = Some (FFile c) \<longrightarrow>
            map_of (entries s) p = Some (FFile c) \<or> c = str_bytes (to_hex L h @ newline)) \<and>
         (b' \<noteq> b \<longrightarrow> branch_path R b' = Inr p' \<longrightarrow>
            (map_of (entries t) p' = Some (FFile c) \<longleftrightarrow> map_of (entries s) p' = Some (FFile c))) \<and>
         (map_of (entries t) (head_path R) = Some (FFile c) \<longleftrightarrow>
            map_of (entries s) (head_path R) = Some (FFile c))"
proof -
  have f: "frame (ref_paths p) s t" using write_branch_frame [OF assms(1)] assms(2) by (rule keepsD)
  have keep: "map_of (entries t) q = Some (FFile c) \<longleftrightarrow> map_of (entries s) q = Some (FFile c)"
    if "\<not> ref_paths p q" for q
    using frame_file [OF f that] frame_new [OF f that] by blast
  have "\<not> ref_paths p p'" if "b' \<noteq> b" "branch_path R b' = Inr p'"
    using that assms(1) branch_path_inj [of R b' p b] tmp_not_branch [OF that(2), of p] branch_path_last [OF assms(1)]
    by (auto simp: ref_paths_def)
  moreover have "\<not> ref_paths p (head_path R)"
    using branch_not_head [OF assms(1)] by (auto simp: ref_paths_def)
  ultimately show ?thesis
    using write_branch_target [OF assms] keep by auto
qed

text \<open>
  Updating a branch is atomic and touches nothing else: under every script of faults and
  crashes the ref file holds its old bytes or the complete new line, the new line if the
  call returned; every other branch and \<open>HEAD\<close> hold exactly what they held.
\<close>

theorem write_branch_atomic:
  assumes "branch_path R b = Inr p" "write_branch L R b h s = (r, t)"
  shows "(r = Inr () \<longrightarrow> map_of (entries t) p = Some (FFile (str_bytes (to_hex L h @ newline)))) \<and>
         (map_of (entries t) p = Some (FFile c) \<longrightarrow>
            map_of (entries s) p = Some (FFile c) \<or> c = str_bytes (to_hex L h @ newline)) \<and>
         (b' \<noteq> b \<longrightarrow> branch_path R b' = Inr p' \<longrightarrow>
            (map_of (entries t) p' = Some (FFile c) \<longleftrightarrow> map_of (entries s) p' = Some (FFile c))) \<and>
         (map_of (entries t) (head_path R) = Some (FFile c) \<longleftrightarrow>
            map_of (entries s) (head_path R) = Some (FFile c))"
  using write_branch_atomic_lemma [OF assms] .

theorem write_branch_atomic_witness:
  "\<exists>t. write_branch sample_lib [''a''] ''main'' 5
        \<lparr>entries = [], faults = [None, None, Some (IoError IoOther ''crash'', 3)]\<rparr> = (Inl (Io (IoError IoOther ''crash'')), t) \<and>
     (\<forall>c. map_of (entries t) [''a'', ''refs'', ''heads'', ''main''] = Some (FFile c) \<longrightarrow>
        c = str_bytes (to_hex sample_lib 5 @ newline))"
proof -
  let ?s = "\<lparr>entries = [], faults = [None, None, Some (IoError IoOther ''crash'', 3)]\<rparr>"
  let ?w = "write_branch sample_lib [''a''] ''main'' 5 ?s"
  let ?d = "[''a'', ''refs'', ''heads'']" and ?p = "[''a'', ''refs'', ''heads'', ''main'']"
  let ?es = "[(?d, FDir), ([''a'', ''refs''], FDir), ([''a''], FDir)]"
  have p: "branch_path [''a''] ''main'' = Inr ?p" using branch_path_main [of "[''a'']"] by simp
  have 1: "fs_create_dir_all ?d ?s = (Inr (), \<lparr>entries = ?es, faults = [None, Some (IoError IoOther ''crash'', 3)]\<rparr>)"
    by code_simp
  have 2: "fs_create_dir_all ?d \<lparr>entries = ?es, faults = [None, Some (IoError IoOther ''crash'', 3)]\<rparr> =
      (Inr (), \<lparr>entries = ?es, faults = [Some (IoError IoOther ''crash'', 3)]\<rparr>)"
    by code_simp
  have "fst ?w = Inl (Io (IoError IoOther ''crash''))"
    by (simp add: write_branch_def bindA_def p map_errA_def 1 2 write_atomic_def replace_file_def
        fs_write_def prim_def next_fault_def)
  with write_branch_atomic [OF p, of sample_lib 5 ?s "fst ?w" "snd ?w"] show ?thesis
    by (intro exI [of _ "snd ?w"]) (auto simp: prod_eq_iff)
qed

text \<open>
  A branch reads back: after a write that returned, reading or resolving the branch gives
  the hash that was written.
\<close>

theorem branch_roundtrip:
  assumes "hex_law L" "quiet s" "write_branch L R b h s = (Inr (), t)" "\<not> is_hash_name b"
  shows "read_branch L R b t = (Inr (Some h), t) \<and> resolve L R b t = (Inr (Some h), t)"
proof -
  obtain p where p: "branch_path R b = Inr p"
    using assms(3) by (cases "branch_path R b") (auto simp: write_branch_def bindA_def)
  have "quiet t" using preserves_quiet_write_branch assms(2, 3) by (rule preservesD)
  moreover have "map_of (entries t) p = Some (FFile (str_bytes (to_hex L h @ newline)))"
    using write_branch_target [OF p assms(3)] by auto
  ultimately have "read_branch L R b t = (Inr (Some h), t)"
    using branch_path_last [OF p] assms(1) read_ref_file_hex [of L t p h]
    by (simp add: read_branch_apply [OF p] quiet_def)
  moreover have "b \<noteq> ''HEAD''"
    using p validate_ok(2) by (auto simp: branch_path_def res_bind_Inr_iff)
  ultimately show ?thesis using assms(4) by (simp add: resolve_def)
qed

lemma sample_write_main:
  obtains t where "write_branch sample_lib [''a''] ''main'' 5 empty_fs = (Inr (), t)"
proof -
  have p: "branch_path [''a''] ''main'' = Inr [''a'', ''refs'', ''heads'', ''main'']"
    using branch_path_main [of "[''a'']"] by simp
  let ?d = "[''a'', ''refs'', ''heads'']"
  let ?s = "\<lparr>entries = [([''a'', ''refs'', ''heads''], FDir), ([''a'', ''refs''], FDir), ([''a''], FDir)], faults = []\<rparr>"
  have 1: "fs_create_dir_all ?d empty_fs = (Inr (), ?s)" by code_simp
  have x: "with_extension [''a'', ''refs'', ''heads'', ''main''] ''tmp'' = [''a'', ''refs'', ''heads'', ''main.tmp'']"
    by code_simp
  have "replaceable (entries ?s) [''a'', ''refs'', ''heads'', ''main'']"
    by (auto simp: replaceable_def x less_Suc_eq numeral_eq_Suc)
  moreover have "quiet ?s" by (simp add: quiet_def)
  ultimately obtain t where "replace_file [''a'', ''refs'', ''heads'', ''main''] (str_bytes (to_hex sample_lib 5 @ newline)) ?s = (Inr (), t)"
    using replace_file_quiet by blast
  with 1 p that show thesis
    by (simp add: write_branch_def bindA_def map_errA_def write_atomic_def)
qed

theorem branch_roundtrip_witness:
  "\<exists>t. write_branch sample_lib [''a''] ''main'' 5 empty_fs = (Inr (), t) \<and>
     resolve sample_lib [''a''] ''main'' t = (Inr (Some 5), t)"
proof -
  obtain t where t: "write_branch sample_lib [''a''] ''main'' 5 empty_fs = (Inr (), t)"
    by (rule sample_write_main)
  with branch_roundtrip [OF sample_hex quiet_empty t] show ?thesis by (auto simp: is_hash_name_def)
qed

lemma r_not_white: "CHR ''r'' \<notin> set white_ends"
  using white_ends_ascii [of "CHR ''r''"] by auto

lemma write_head_ok:
  assumes "write_head_symbolic R b s = (Inr (), t)"
  shows "map_of (entries t) (head_path R) = Some (FFile (str_bytes (head_prefix @ b @ newline)))"
proof -
  have "replace_file (head_path R) (str_bytes (head_prefix @ b @ newline)) s = (Inr (), t)"
    using assms by (auto simp: write_head_symbolic_def bindA_ok_iff write_atomic_def)
  from replace_file_atomic [OF this] show ?thesis
    by (auto simp: head_tmp) (simp_all add: head_path_def)
qed

text \<open>
  \<open>HEAD\<close> reads back as the name written to it with trailing white space cut off: the same
  branch for a name that ends in none, a different one for a name such as \<open>main\<close> followed by a
  space, which validation accepts.
\<close>

theorem head_reads_back_trimmed:
  assumes "quiet s" "write_head_symbolic R b s = (Inr (), t)" "utf8_ok (str_bytes b)"
    and "trim_end (head_prefix @ b) = head_prefix @ b'"
  shows "read_head L R t = (Inr (Some (Branch b')), t)"
proof -
  have "preserves quiet (write_head_symbolic R b)"
    unfolding write_head_symbolic_def write_atomic_def by (intro pres_intros)
  then have q: "faults t = []" using assms(1, 2) by (auto dest: preservesD simp: quiet_def)
  have m: "map_of (entries t) (head_path R) = Some (FFile (str_bytes (head_prefix @ b @ newline)))"
    using assms(2) by (rule write_head_ok)
  have n: "head_path R \<noteq> []" by (simp add: head_path_def)
  have "utf8_ok (str_bytes head_prefix)" "utf8_ok (str_bytes newline)"
    by (rule utf8_ok_str_ascii, fastforce simp: head_prefix_def newline_def)+
  then have "utf8_ok (str_bytes (head_prefix @ b @ newline))"
    using assms(3) by (simp add: utf8_ok_append)
  with fs_read_to_string_file [OF q m n] have
    "fs_read_to_string (head_path R) t = (Inr (head_prefix @ b @ newline), t)" by blast
  moreover have "str_trim (head_prefix @ b @ newline) = head_prefix @ b'"
    using str_trim_line [OF r_not_white, of "tl head_prefix @ b"] assms(4)
    by (simp add: head_prefix_def newline_def)
  moreover have "path_exists t (head_path R)" using m n by (rule file_exists)
  ultimately show ?thesis
    by (simp add: read_head_def bindA_def map_errA_def)
qed

lemma validate_main_space: "validate_branch_name ''main '' = Inr ()"
proof -
  have "split_on (CHR ''/'') ''main '' = [''main '']" by code_simp
  then show ?thesis
    by (simp add: validate_branch_name_def path_components_def starts_with_def comp_of_def
        is_normal_def ends_with_def)
qed

lemma sample_write_head:
  obtains t where "write_head_symbolic [] ''main '' empty_fs = (Inr (), t)"
proof -
  have "replaceable (entries empty_fs) (head_path [])"
    by (simp add: replaceable_def head_tmp empty_fs_def) (simp add: head_path_def)
  then obtain t where
    "replace_file (head_path []) (str_bytes (head_prefix @ ''main '' @ newline)) empty_fs = (Inr (), t)"
    using replace_file_quiet [OF quiet_empty] by blast
  with that show thesis
    by (simp add: write_head_symbolic_def write_atomic_def validate_main_space map_errA_def)
qed

theorem head_reads_back_trimmed_witness:
  "\<exists>t. write_head_symbolic [] ''main '' empty_fs = (Inr (), t) \<and>
     read_head sample_lib [] t = (Inr (Some (Branch ''main'')), t)"
proof -
  obtain t where t: "write_head_symbolic [] ''main '' empty_fs = (Inr (), t)"
    by (rule sample_write_head)
  have "utf8_ok (str_bytes ''main '')" by (rule utf8_ok_str_ascii) auto
  moreover have "trim_end (head_prefix @ ''main '') = head_prefix @ ''main''" by code_simp
  ultimately have "read_head sample_lib [] t = (Inr (Some (Branch ''main'')), t)"
    using head_reads_back_trimmed [OF quiet_empty t] by blast
  with t show ?thesis by blast
qed

text \<open>
  A snapshot answers as the refs it was taken from: for a valid name, if nothing but a
  regular file can sit at its path, resolving the name in the snapshot gives what resolving
  it in the directory gave. An invalid name, which the directory rejects, the snapshot
  answers with nothing.
\<close>

theorem snapshot_agrees:
  assumes "quiet s" "fs_ok s" "map_of (entries s) (heads_dir R) = Some FDir"
    and "snapshot L R s = (Inr S, t)" "name \<noteq> ''HEAD''" "utf8_ok (str_bytes name)"
    and "\<not> path_exists s (heads_dir R @ split_on (CHR ''/'') name) \<or>
         (\<exists>b. map_of (entries s) (heads_dir R @ split_on (CHR ''/'') name) = Some (FFile b))"
  shows "if validate_branch_name name = Inr () \<or> is_hash_name name
         then resolve L R name s = (snap_resolve L S name, s)
         else (\<exists>e. resolve L R name s = (Inl e, s)) \<and> snap_resolve L S name = Inr None"
proof (cases "is_hash_name name")
  case True
  then show ?thesis
    using assms(5) by (cases "parse_hash L name") (simp_all add: resolve_def snap_resolve_def bindA_def)
next
  case False
  from assms(1-4) obtain ns where ns:
    "set ns = rel_name (heads_dir R) ` {q. listed (entries s) (heads_dir R) q}"
    "\<And>n. n \<in> set ns \<Longrightarrow> read_branch L R n s = (Inr (map_of (snap_branches S) n), s)"
    "\<And>n. n \<notin> set ns \<Longrightarrow> map_of (snap_branches S) n = None"
    by (rule snapshotE) blast
  have res: "resolve L R name s = read_branch L R name s"
    "snap_resolve L S name = Inr (map_of (snap_branches S) name)"
    using False assms(5) by (simp_all add: resolve_def snap_resolve_def)
  show ?thesis
  proof (cases "validate_branch_name name")
    case (Inl e)
    then have "read_branch L R name s = (Inl e, s)" by (simp add: read_branch_def branch_path_def bindA_def)
    moreover from this have "name \<notin> set ns" using ns(2) by fastforce
    ultimately show ?thesis using Inl False ns(3) res by simp
  next
    case (Inr u)
    then have v: "validate_branch_name name = Inr ()" by simp
    let ?p = "heads_dir R @ split_on (CHR ''/'') name"
    have "read_branch L R name s = (Inr (map_of (snap_branches S) name), s)"
    proof (cases "\<exists>b. map_of (entries s) ?p = Some (FFile b)")
      case True
      then have "listed (entries s) (heads_dir R) ?p"
        using branch_file_listed [OF v assms(6)] by blast
      then have "name \<in> set ns"
        using ns(1) rel_name_branch [OF v assms(6), of "heads_dir R"] by (auto intro!: image_eqI [of _ _ ?p])
      then show ?thesis by (rule ns(2))
    next
      case False
      have "branch_path R name = Inr ?p" using v validate_ok(5) [OF v] by (simp add: branch_path_def)
      then have "read_branch L R name s = (Inr None, s)"
        using False assms(7) by (auto simp: read_branch_apply read_ref_file_def)
      with ns(2, 3) [of name] show ?thesis by (cases "name \<in> set ns") auto
    qed
    with v res show ?thesis by simp
  qed
qed

definition bare_refs :: fs where
  "bare_refs = \<lparr>entries = [([''refs'', ''heads''], FDir), ([''refs''], FDir)], faults = []\<rparr>"

theorem snapshot_agrees_witness:
  "\<exists>S. snapshot sample_lib [] bare_refs = (Inr S, bare_refs) \<and>
     resolve sample_lib [] ''main'' bare_refs = (snap_resolve sample_lib S ''main'', bare_refs) \<and>
     snap_resolve sample_lib S ''..'' = Inr None"
proof -
  let ?S = "\<lparr>snap_head = None, snap_branches = []\<rparr>"
  have kids: "children (entries bare_refs) [''refs'', ''heads''] = []"
    by (simp add: children_def bare_refs_def)
  have dir: "lookup (entries bare_refs) [''refs'', ''heads''] = Some FDir"
    by (simp add: lookup_def bare_refs_def)
  have "fs_read_dir [''refs'', ''heads''] bare_refs = (Inr [], bare_refs)"
    by (simp add: fs_read_dir_def prim_quiet bare_refs_def) (use kids dir in \<open>simp add: bare_refs_def\<close>)
  then have "list_branches [] bare_refs = (Inr [], bare_refs)"
    using dir by (simp add: list_branches_def path_exists_def heads_dir_def bindA_def map_errA_def)
  moreover have "read_head sample_lib [] bare_refs = (Inr None, bare_refs)"
    by (simp add: read_head_def path_exists_def head_path_def lookup_def bare_refs_def)
  ultimately have S: "snapshot sample_lib [] bare_refs = (Inr ?S, bare_refs)"
    by (simp add: snapshot_def bindA_def)
  have wf: "quiet bare_refs" "fs_ok bare_refs" "map_of (entries bare_refs) (heads_dir []) = Some FDir"
    by (simp_all add: quiet_def fs_ok_def es_ok_def is_dir_def lookup_def heads_dir_def bare_refs_def)
  have absent: "\<not> path_exists bare_refs (heads_dir [] @ split_on (CHR ''/'') n)" if "n \<in> {''main'', ''..''}" for n
    using that by (auto simp: path_exists_def lookup_def heads_dir_def bare_refs_def)
  have u: "utf8_ok (str_bytes n)" if "n \<in> {''main'', ''..''}" for n
    by (rule utf8_ok_str_ascii) (use that in auto)
  have "validate_branch_name ''main'' = Inr ()"
    using branch_path_main [of "[]"] by (cases "validate_branch_name ''main''") (auto simp: branch_path_def)
  moreover have "validate_branch_name ''..'' \<noteq> Inr ()" by (simp add: validate_branch_name_def reject_def)
  ultimately show ?thesis
    using snapshot_agrees [OF wf S, of "''main''"] snapshot_agrees [OF wf S, of "''..''"] S
      absent [of "''main''"] absent [of "''..''"] u [of "''main''"] u [of "''..''"]
    by (auto simp: is_hash_name_def)
qed

end
