(* ===== verification/Commit_Staging.thy ===== *)
theory Commit_Staging
  imports Refs
begin

text \<open>
  Two-phase commit staging and the log (\<open>commit.rs\<close> of \<open>agentic-core\<close>), over any object
  store that keeps the contract of \<open>Object_Store\<close>. The refs live in a file system that is
  part of the store's world; \<open>fs_view\<close> says which part.
\<close>

section \<open>The world of a store and its refs\<close>

record 'w fs_view =
  view_get :: "'w \<Rightarrow> fs"
  view_put :: "fs \<Rightarrow> 'w \<Rightarrow> 'w"

definition on_fs :: "'w fs_view \<Rightarrow> (fs, 'e, 'a) act \<Rightarrow> ('w, 'e, 'a) act" where
  "on_fs V m w = (case m (view_get V w) of (r, f) \<Rightarrow> (r, view_put V f w))"

definition fs_self :: "fs fs_view" where
  "fs_self = \<lparr>view_get = (\<lambda>s. s), view_put = (\<lambda>f s. f)\<rparr>"

lemma on_fs_self [simp]: "on_fs fs_self m = m"
  by (simp add: on_fs_def fs_self_def fun_eq_iff split: prod.splits)

section \<open>Inputs and outputs\<close>

record commit_inputs =
  in_author :: string
  in_message :: string
  in_parent :: "hash option"
  in_code_sha :: "string option"
  in_prompts :: "(string \<times> bytes) list"
  in_tools :: "(string \<times> bytes) list"
  in_model :: "string option"
  in_memory_snapshot :: "hash option"
  in_schema_version :: "string option"
  in_intent :: "bytes option"
  in_plan :: "bytes option"
  in_transcript :: "bytes option"
  in_evals :: "bytes option"
  in_cost_cents :: u32
  in_peer_uid :: "u32 option"
  in_exempt_prefixes :: "string list"

record commit_outputs =
  out_hash :: hash
  out_branch :: string

section \<open>Staging\<close>

definition entry_policy :: "string list \<Rightarrow> string \<Rightarrow> scan_policy" where
  "entry_policy exempt name =
     (if list_ex (\<lambda>p. starts_with p name) exempt then \<lparr>skip_entropy = True\<rparr> else default_policy)"

fun stage_entries :: "'w store_ops \<Rightarrow> string list \<Rightarrow> (string \<times> bytes) list \<Rightarrow> tree \<Rightarrow> ('w, core_error, tree) act" where
  "stage_entries S exempt [] t = ret t"
| "stage_entries S exempt ((name, bs) # es) t =
     bindA (st_put S (OBlob bs) (entry_policy exempt name)) (\<lambda>h.
     stage_entries S exempt es (tree_insert name \<lparr>ref_kind = KBlob, ref_hash = h\<rparr> t))"

definition stage_blob_tree ::
    "'w store_ops \<Rightarrow> (string \<times> bytes) list \<Rightarrow> string list \<Rightarrow> ('w, core_error, hash option) act" where
  "stage_blob_tree S es exempt =
     (if es = [] then ret None
      else bindA (stage_entries S exempt es []) (\<lambda>t.
           bindA (put_default S (OTree t)) (\<lambda>h. ret (Some h))))"

definition stage_optional_blob :: "'w store_ops \<Rightarrow> bytes option \<Rightarrow> ('w, core_error, hash option) act" where
  "stage_optional_blob S payload =
     (case payload of
        None \<Rightarrow> ret None
      | Some bs \<Rightarrow> bindA (put_default S (OBlob bs)) (\<lambda>h. ret (Some h)))"

text \<open>Steps 1 and 2: every blob in order, then the commit that refers to them.\<close>

definition stage_blobs :: "'w store_ops \<Rightarrow> commit_inputs \<Rightarrow> timestamp \<Rightarrow> ('w, core_error, commit) act" where
  "stage_blobs S i now =
     bindA (stage_blob_tree S (in_prompts i) (in_exempt_prefixes i)) (\<lambda>prompts.
     bindA (stage_blob_tree S (in_tools i) (in_exempt_prefixes i)) (\<lambda>tools.
     bindA (stage_optional_blob S (map_option str_bytes (in_model i))) (\<lambda>model.
     bindA (stage_optional_blob S (in_intent i)) (\<lambda>intent.
     bindA (stage_optional_blob S (in_plan i)) (\<lambda>plan.
     bindA (stage_optional_blob S (in_transcript i)) (\<lambda>transcript.
     bindA (stage_optional_blob S (in_evals i)) (\<lambda>evals.
     ret \<lparr>c_parent = in_parent i, c_author = in_author i, c_timestamp = now,
          c_message = in_message i, c_code_sha = in_code_sha i, c_prompts = prompts,
          c_tools = tools, c_model = model, c_memory_snapshot = in_memory_snapshot i,
          c_schema_version = in_schema_version i, c_intent = intent, c_plan = plan,
          c_transcript = transcript, c_evals = evals, c_cost_cents = in_cost_cents i,
          c_signatures = [], c_peer_uid = in_peer_uid i\<rparr>)))))))"

text \<open>Steps 3 and 5: the commit object, then the branch.\<close>

definition stage_and_commit_with_now ::
    "lib \<Rightarrow> 'w store_ops \<Rightarrow> 'w fs_view \<Rightarrow> refs \<Rightarrow> string \<Rightarrow> commit_inputs \<Rightarrow> timestamp \<Rightarrow>
     ('w, core_error, commit_outputs) act" where
  "stage_and_commit_with_now L S V R branch i now =
     bindA (stage_blobs S i now) (\<lambda>c.
     bindA (put_default S (OCommit c)) (\<lambda>h.
     bindA (on_fs V (write_branch L R branch h)) (\<lambda>_.
     ret \<lparr>out_hash = h, out_branch = branch\<rparr>)))"

definition stage_and_commit ::
    "lib \<Rightarrow> ('w \<Rightarrow> timestamp) \<Rightarrow> 'w store_ops \<Rightarrow> 'w fs_view \<Rightarrow> refs \<Rightarrow> string \<Rightarrow> commit_inputs \<Rightarrow>
     ('w, core_error, commit_outputs) act" where
  "stage_and_commit L clock S V R branch i w =
     stage_and_commit_with_now L S V R branch i (clock w) w"

text \<open>\<open>walk_log\<close>: \<open>n\<close> is the room left below the limit.\<close>

fun walk_from :: "'w store_ops \<Rightarrow> nat \<Rightarrow> hash option \<Rightarrow> ('w, core_error, (hash \<times> commit) list) act" where
  "walk_from S n None = ret []"
| "walk_from S 0 (Some h) = ret []"
| "walk_from S (Suc n) (Some h) =
     bindA (st_get S h) (\<lambda>x.
     case x of
       OCommit c \<Rightarrow> bindA (walk_from S n (c_parent c)) (\<lambda>cs. ret ((h, c) # cs))
     | y \<Rightarrow> fail (KindMismatch KCommit (kind_of_obj y)))"

definition walk_log :: "'w store_ops \<Rightarrow> hash \<Rightarrow> nat \<Rightarrow> ('w, core_error, (hash \<times> commit) list) act" where
  "walk_log S start limit = walk_from S limit (Some start)"

section \<open>What a commit is made of\<close>

text \<open>The tree and the commit that the content of the inputs determines.\<close>

definition blob_ref :: "lib \<Rightarrow> bytes \<Rightarrow> typed_ref" where
  "blob_ref L bs = \<lparr>ref_kind = KBlob, ref_hash = blob_hash L bs\<rparr>"

definition blob_tree :: "lib \<Rightarrow> (string \<times> bytes) list \<Rightarrow> tree" where
  "blob_tree L es = foldl (\<lambda>t (n, bs). tree_insert n (blob_ref L bs) t) [] es"

definition dimension :: "lib \<Rightarrow> (string \<times> bytes) list \<Rightarrow> hash option" where
  "dimension L es = (if es = [] then None else Some (tree_hash L (blob_tree L es)))"

definition commit_of :: "lib \<Rightarrow> commit_inputs \<Rightarrow> timestamp \<Rightarrow> commit" where
  "commit_of L i now =
     \<lparr>c_parent = in_parent i, c_author = in_author i, c_timestamp = now, c_message = in_message i,
      c_code_sha = in_code_sha i, c_prompts = dimension L (in_prompts i),
      c_tools = dimension L (in_tools i),
      c_model = map_option (\<lambda>m. blob_hash L (str_bytes m)) (in_model i),
      c_memory_snapshot = in_memory_snapshot i, c_schema_version = in_schema_version i,
      c_intent = map_option (blob_hash L) (in_intent i),
      c_plan = map_option (blob_hash L) (in_plan i),
      c_transcript = map_option (blob_hash L) (in_transcript i),
      c_evals = map_option (blob_hash L) (in_evals i), c_cost_cents = in_cost_cents i,
      c_signatures = [], c_peer_uid = in_peer_uid i\<rparr>"

context object_store
begin

lemma put_default_ok: "inv s \<Longrightarrow> put_default S x s = (Inr h, u) \<Longrightarrow> inv u \<and> h = object_hash L x"
  using put_inv put_result unfolding put_default_def by (blast intro: preservesD)

lemma put_ok: "inv s \<Longrightarrow> st_put S x p s = (Inr h, u) \<Longrightarrow> inv u \<and> h = object_hash L x"
  using put_inv put_result by (blast intro: preservesD)

lemma stage_entries_ok:
  "inv s \<Longrightarrow> stage_entries S ex es t0 s = (Inr t, u) \<Longrightarrow>
     inv u \<and> t = foldl (\<lambda>t (n, bs). tree_insert n (blob_ref L bs) t) t0 es"
proof (induction es arbitrary: s t0)
  case (Cons e es)
  obtain n bs where e: "e = (n, bs)" by (cases e)
  from Cons.prems e obtain h v where hv: "st_put S (OBlob bs) (entry_policy ex n) s = (Inr h, v)"
    "stage_entries S ex es (tree_insert n \<lparr>ref_kind = KBlob, ref_hash = h\<rparr> t0) v = (Inr t, u)"
    by (auto elim: bindA_okE)
  have "inv v \<and> h = blob_hash L bs" using put_ok [OF Cons.prems(1) hv(1)] by simp
  with Cons.IH [OF _ hv(2)] e show ?case by (simp add: blob_ref_def)
qed simp

lemma stage_blob_tree_ok:
  assumes "inv s" "stage_blob_tree S es ex s = (Inr r, u)"
  shows "inv u \<and> r = dimension L es"
proof (cases "es = []")
  case False
  with assms(2) obtain t v h where *: "stage_entries S ex es [] s = (Inr t, v)"
    "put_default S (OTree t) v = (Inr h, u)" "r = Some h"
    by (auto simp: stage_blob_tree_def elim!: bindA_okE)
  from stage_entries_ok [OF assms(1) *(1)] put_default_ok [OF _ *(2)] False *(3) show ?thesis
    by (simp add: dimension_def blob_tree_def)
qed (use assms in \<open>simp add: stage_blob_tree_def dimension_def\<close>)

lemma stage_optional_blob_ok:
  assumes "inv s" "stage_optional_blob S b s = (Inr r, u)"
  shows "inv u \<and> r = map_option (blob_hash L) b"
proof (cases b)
  case (Some bs)
  with assms(2) obtain h where *: "put_default S (OBlob bs) s = (Inr h, u)" "r = Some h"
    by (auto simp: stage_optional_blob_def elim!: bindA_okE)
  from put_default_ok [OF assms(1) *(1)] Some *(2) show ?thesis by simp
qed (use assms in \<open>simp add: stage_optional_blob_def\<close>)

lemma stage_blobs_ok:
  assumes "inv s" "stage_blobs S i now s = (Inr c, u)"
  shows "inv u \<and> c = commit_of L i now"
proof -
  from assms(2) obtain p1 s1 p2 s2 p3 s3 p4 s4 p5 s5 p6 s6 p7 s7 where
    1: "stage_blob_tree S (in_prompts i) (in_exempt_prefixes i) s = (Inr p1, s1)" and
    2: "stage_blob_tree S (in_tools i) (in_exempt_prefixes i) s1 = (Inr p2, s2)" and
    3: "stage_optional_blob S (map_option str_bytes (in_model i)) s2 = (Inr p3, s3)" and
    4: "stage_optional_blob S (in_intent i) s3 = (Inr p4, s4)" and
    5: "stage_optional_blob S (in_plan i) s4 = (Inr p5, s5)" and
    6: "stage_optional_blob S (in_transcript i) s5 = (Inr p6, s6)" and
    7: "stage_optional_blob S (in_evals i) s6 = (Inr p7, u)" and
    c: "c = \<lparr>c_parent = in_parent i, c_author = in_author i, c_timestamp = now,
          c_message = in_message i, c_code_sha = in_code_sha i, c_prompts = p1,
          c_tools = p2, c_model = p3, c_memory_snapshot = in_memory_snapshot i,
          c_schema_version = in_schema_version i, c_intent = p4, c_plan = p5,
          c_transcript = p6, c_evals = p7, c_cost_cents = in_cost_cents i,
          c_signatures = [], c_peer_uid = in_peer_uid i\<rparr>"
    unfolding stage_blobs_def bindA_ok_iff by auto
  note a = stage_blob_tree_ok [OF assms(1) 1]
  note b = stage_blob_tree_ok [OF conjunct1 [OF a] 2]
  note d = stage_optional_blob_ok [OF conjunct1 [OF b] 3]
  note e = stage_optional_blob_ok [OF conjunct1 [OF d] 4]
  note f = stage_optional_blob_ok [OF conjunct1 [OF e] 5]
  note g = stage_optional_blob_ok [OF conjunct1 [OF f] 6]
  note h = stage_optional_blob_ok [OF conjunct1 [OF g] 7]
  show ?thesis using a b d e f g h c by (simp add: commit_of_def option.map_comp comp_def)
qed

lemma staged_hash:
  assumes "inv s" "stage_and_commit_with_now L S V R branch i now s = (Inr out, t)"
  shows "out_hash out = commit_hash L (commit_of L i now) \<and> out_branch out = branch"
proof -
  from assms(2) obtain c u h v where
    "stage_blobs S i now s = (Inr c, u)" "put_default S (OCommit c) u = (Inr h, v)"
    "out = \<lparr>out_hash = h, out_branch = branch\<rparr>"
    unfolding stage_and_commit_with_now_def bindA_ok_iff by auto
  with stage_blobs_ok [OF assms(1)] put_default_ok show ?thesis by fastforce
qed

end

section \<open>A store whose puts leave the refs alone\<close>

locale refs_store = object_store L S inv calm held
  for L :: lib and S :: "'w store_ops" and inv calm held +
  fixes V :: "'w fs_view" and R :: refs
  assumes view_put: "view_get V (view_put V f w) = f"
    and put_keeps_refs: "inv s \<Longrightarrow> branch_path R b = Inr q \<Longrightarrow> st_put S x p s = (r, t) \<Longrightarrow>
      map_of (entries (view_get V t)) q = Some (FFile c) \<longleftrightarrow>
      map_of (entries (view_get V s)) q = Some (FFile c)"
begin

definition same_refs :: "'w \<Rightarrow> 'w \<Rightarrow> bool" where
  "same_refs s t \<longleftrightarrow> inv s \<longrightarrow> inv t \<and>
     (\<forall>b q c. branch_path R b = Inr q \<longrightarrow>
        (map_of (entries (view_get V t)) q = Some (FFile c) \<longleftrightarrow>
         map_of (entries (view_get V s)) q = Some (FFile c)))"

lemma same_refs_rules [simp]: "reflp same_refs" "transp same_refs"
  by (auto simp: reflp_def transp_def same_refs_def)

lemma same_refs_put: "keeps same_refs (st_put S x p)"
  unfolding keeps_def same_refs_def
proof (intro allI impI conjI)
  fix s assume i: "inv s"
  show "inv (snd (st_put S x p s))" using put_inv i by (simp add: preserves_def)
  fix b q c assume "branch_path R b = Inr q"
  with put_keeps_refs [OF i this, of x p] show
    "map_of (entries (view_get V (snd (st_put S x p s)))) q = Some (FFile c) \<longleftrightarrow>
     map_of (entries (view_get V s)) q = Some (FFile c)"
    by (metis prod.collapse)
qed

lemma same_refs_stage_entries: "keeps same_refs (stage_entries S ex es t)"
  by (induction es arbitrary: t)
    (auto intro!: keeps_bindA same_refs_put keeps_basic split: prod.splits)

lemma same_refs_blob_tree: "keeps same_refs (stage_blob_tree S es ex)"
  unfolding stage_blob_tree_def put_default_def
  by (auto intro!: keeps_bindA same_refs_put keeps_basic same_refs_stage_entries)

lemma same_refs_optional: "keeps same_refs (stage_optional_blob S b)"
  unfolding stage_optional_blob_def put_default_def
  by (cases b) (auto intro!: keeps_bindA same_refs_put keeps_basic)

lemma same_refs_blobs: "keeps same_refs (stage_blobs S i now)"
  unfolding stage_blobs_def
  by (intro keeps_bindA same_refs_blob_tree same_refs_optional keeps_basic same_refs_rules)

text \<open>Either staging stops with the refs as they were, or it writes the branch, with the
  hash of the commit that the inputs determine, after that commit was put.\<close>

lemma staging_cases:
  assumes "inv s" "stage_and_commit_with_now L S V R branch i now s = (r, t)"
  obtains (stopped) e where "r = Inl e" "same_refs s t"
    | (written) u v q where "same_refs s v" "inv u"
        "put_default S (OCommit (commit_of L i now)) u = (Inr (commit_hash L (commit_of L i now)), v)"
        "on_fs V (write_branch L R branch (commit_hash L (commit_of L i now))) v = (q, t)"
        "r = res_bind q (\<lambda>_. Inr \<lparr>out_hash = commit_hash L (commit_of L i now), out_branch = branch\<rparr>)"
proof -
  obtain r1 u where 1: "stage_blobs S i now s = (r1, u)" by fastforce
  have su: "same_refs s u" using same_refs_blobs 1 by (rule keepsD)
  show thesis
  proof (cases r1)
    case (Inl e)
    with 1 assms(2) have "r = Inl e" "t = u" by (auto simp: stage_and_commit_with_now_def)
    with su stopped show thesis by blast
  next
    case (Inr c)
    with 1 stage_blobs_ok [OF assms(1)] have c: "inv u" "c = commit_of L i now" by auto
    obtain r2 v where 2: "put_default S (OCommit c) u = (r2, v)" by fastforce
    have "same_refs u v" using same_refs_put 2 unfolding put_default_def by (rule keepsD)
    with su have sv: "same_refs s v" using same_refs_rules(2) by (blast dest: transpD)
    show thesis
    proof (cases r2)
      case (Inl e)
      with 1 2 \<open>r1 = Inr c\<close> assms(2) have "r = Inl e" "t = v"
        by (auto simp: stage_and_commit_with_now_def)
      with sv stopped show thesis by blast
    next
      case (Inr h)
      with 2 c put_default_ok [OF c(1), of "OCommit c" h v]
      have h: "h = commit_hash L (commit_of L i now)" by simp
      obtain q w where 3: "on_fs V (write_branch L R branch h) v = (q, w)" by fastforce
      have "t = w" "r = res_bind q (\<lambda>_. Inr \<lparr>out_hash = h, out_branch = branch\<rparr>)"
        using 1 2 3 \<open>r1 = Inr c\<close> Inr assms(2)
        by (cases q; simp add: stage_and_commit_with_now_def)+
      with 2 3 Inr c h sv written show thesis by blast
    qed
  qed
qed

lemma staging_refs:
  assumes "inv s" "stage_and_commit_with_now L S V R branch i now s = (r, t)"
    "branch_path R branch = Inr p"
  defines "h \<equiv> commit_hash L (commit_of L i now)"
  shows "(r = Inr out \<longrightarrow> out_hash out = h \<and>
            map_of (entries (view_get V t)) p = Some (FFile (str_bytes (to_hex L h @ newline)))) \<and>
         (map_of (entries (view_get V t)) p = Some (FFile c) \<longrightarrow>
            map_of (entries (view_get V s)) p = Some (FFile c) \<or>
            c = str_bytes (to_hex L h @ newline) \<and>
              (\<exists>u v. inv u \<and> put_default S (OCommit (commit_of L i now)) u = (Inr h, v) \<and>
                 t = snd (on_fs V (write_branch L R branch h) v))) \<and>
         (b \<noteq> branch \<longrightarrow> branch_path R b = Inr q \<longrightarrow>
            (map_of (entries (view_get V t)) q = Some (FFile c) \<longleftrightarrow>
             map_of (entries (view_get V s)) q = Some (FFile c)))"
  using assms(1, 2)
proof (cases rule: staging_cases)
  case (stopped e)
  with assms(1, 3) show ?thesis by (auto simp: same_refs_def)
next
  case (written u v q')
  obtain f where f: "write_branch L R branch h (view_get V v) = (q', f)" "t = view_put V f v"
    using written(4) unfolding h_def on_fs_def by (auto split: prod.splits)
  from f(2) have t: "view_get V t = f" by (simp add: view_put)
  from write_branch_atomic_lemma [OF assms(3) f(1), of c b q] written assms(1, 3) show ?thesis
    unfolding t h_def [symmetric] by (auto simp: same_refs_def res_bind_Inr_iff h_def)
qed

end

section \<open>The local store beside its refs\<close>

text \<open>The daemon's layout: objects in \<open>.agentic/objects\<close>, refs in \<open>.agentic/refs/heads\<close>.\<close>

definition beside :: "refs \<Rightarrow> allowlist \<Rightarrow> fs_store" where
  "beside R al = \<lparr>st_root = R @ [''objects''], st_allow = al\<rparr>"

lemma address_not_branch:
  assumes "hex_law L" "branch_path R b = Inr q"
  shows "\<not> address_of L (beside R al) h q" "\<not> ref_paths q (path_for L (beside R al) h)"
  using branch_path_ok(1) [OF assms(2)] tmp_path_for [OF assms(1), of "beside R al" h]
  by (auto simp: address_of_def ref_paths_def path_for_eq beside_def heads_dir_def with_extension_def
      butlast_append)

lemma put_frame: "keeps (frame (address_of L st (object_hash L x))) (put_with_policy L st x p)"
  unfolding put_with_policy_def Let_def
  by (intro keeps_bindA keeps_basic write_if_absent_frame reflp_frame transp_frame)

lemma local_refs_store:
  assumes "hex_law L" "zstd_law L"
  shows "refs_store L (fs_store_ops L (beside R al)) (\<lambda>_. True) quiet (stored L (beside R al)) fs_self R"
proof -
  have "refs_store_axioms (fs_store_ops L (beside R al)) (\<lambda>_. True) fs_self R"
  proof
    fix s t :: fs and b q x p r c
    assume b: "branch_path R b = Inr q" and put: "st_put (fs_store_ops L (beside R al)) x p s = (r, t)"
    have f: "frame (address_of L (beside R al) (object_hash L x)) s t"
      using put keepsD [OF put_frame] by (simp add: fs_store_ops_def)
    show "map_of (entries (view_get fs_self t)) q = Some (FFile c) \<longleftrightarrow>
        map_of (entries (view_get fs_self s)) q = Some (FFile c)"
      using frame_file [OF f address_not_branch(1) [OF assms(1) b], of "FFile c"]
        frame_new [OF f address_not_branch(1) [OF assms(1) b], of "FFile c"]
      by (simp add: fs_self_def) blast
  qed (simp add: fs_self_def)
  with fs_store_contract [OF assms] show ?thesis by (simp add: refs_store_def)
qed

sublocale lib_laws < local_refs: refs_store L "fs_store_ops L (beside R al)" "\<lambda>_. True" quiet
    "stored L (beside R al)" fs_self R for R al
  by (rule local_refs_store) (rule hex zstd)+

context lib_laws
begin

lemma local_staging:
  assumes "stage_and_commit_with_now L (fs_store_ops L (beside R al)) fs_self R branch i now s = (r, t)"
    "branch_path R branch = Inr p"
  defines "h \<equiv> commit_hash L (commit_of L i now)"
  shows "(r = Inr out \<longrightarrow> out_hash out = h \<and>
            map_of (entries t) p = Some (FFile (str_bytes (to_hex L h @ newline)))) \<and>
         (map_of (entries t) p = Some (FFile c) \<longrightarrow>
            map_of (entries s) p = Some (FFile c) \<or>
            c = str_bytes (to_hex L h @ newline) \<and> path_exists t (path_for L (beside R al) h)) \<and>
         (b \<noteq> branch \<longrightarrow> branch_path R b = Inr q \<longrightarrow>
            (map_of (entries t) q = Some (FFile c) \<longleftrightarrow> map_of (entries s) q = Some (FFile c)))"
proof -
  let ?S = "fs_store_ops L (beside R al)"
  have self: "view_get fs_self w = w" for w by (simp add: fs_self_def)
  have "path_exists t (path_for L (beside R al) h)"
    if put: "put_default ?S (OCommit (commit_of L i now)) u = (Inr h, v)"
      and t: "t = snd (on_fs fs_self (write_branch L R branch h) v)" for u v
  proof -
    have "put_with_policy L (beside R al) (OCommit (commit_of L i now)) default_policy u = (Inr h, v)"
      using put by (simp add: put_default_def fs_store_ops_def)
    then have w: "write_if_absent L (path_for L (beside R al) h) (object_bytes L (OCommit (commit_of L i now))) u = (Inr (), v)"
      by (rule put_with_policy_okE)
    have ex: "path_exists v (path_for L (beside R al) h)"
    proof (cases "path_exists u (path_for L (beside R al) h)")
      case True
      with w show ?thesis by (simp add: write_if_absent_def)
    next
      case False
      from write_if_absent_ok [OF hex zstd w this] show ?thesis by (rule stored_exists)
    qed
    have "frame (ref_paths p) v t"
      using write_branch_frame [OF assms(2)] t by (simp add: keeps_def)
    then have "map_of (entries v) k = Some e \<Longrightarrow> map_of (entries t) k = Some e"
      if "k = path_for L (beside R al) h" for k e
      using that address_not_branch(2) [OF hex assms(2)] by (auto dest: frame_file)
    with ex show ?thesis
      by (auto simp: path_exists_def lookup_map_of split: option.splits)
  qed
  with local_refs.staging_refs [OF TrueI assms(1, 2), of out c b q] show ?thesis
    unfolding self h_def by blast
qed

end

section \<open>The log\<close>

fun linked :: "hash option \<Rightarrow> (hash \<times> commit) list \<Rightarrow> bool" where
  "linked x [] \<longleftrightarrow> True"
| "linked x ((h, c) # cs) \<longleftrightarrow> x = Some h \<and> linked (c_parent c) cs"

context object_store
begin

lemma get_ok_inv: "inv s \<Longrightarrow> st_get S h s = (r, t) \<Longrightarrow> inv t"
  using get_inv by (rule preservesD)

lemma walk_from_chain:
  "inv s \<Longrightarrow> walk_from S n x s = (Inr cs, t) \<Longrightarrow>
     length cs \<le> n \<and> linked x cs \<and> list_all (\<lambda>(h, c). commit_hash L c = h) cs \<and>
     (length cs < n \<longrightarrow> (if cs = [] then x else c_parent (snd (last cs))) = None)"
proof (induction n arbitrary: x s cs)
  case 0
  then show ?case by (cases x) auto
next
  case (Suc n)
  show ?case
  proof (cases x)
    case None
    with Suc.prems show ?thesis by simp
  next
    case (Some h)
    from Suc.prems(2) [unfolded Some walk_from.simps] obtain y v where y: "st_get S h s = (Inr y, v)" and
      r: "(case y of OCommit c \<Rightarrow> bindA (walk_from S n (c_parent c)) (\<lambda>cs. ret ((h, c) # cs))
          | y \<Rightarrow> fail (KindMismatch KCommit (kind_of_obj y))) v = (Inr cs, t)"
      by (rule bindA_okE)
    then obtain c ds where c: "y = OCommit c" "walk_from S n (c_parent c) v = (Inr ds, t)" "cs = (h, c) # ds"
      by (cases y) (auto elim!: bindA_okE)
    have "object_hash L y = h" using get_sound [OF Suc.prems(1) y] .
    moreover have "inv v" using get_ok_inv [OF Suc.prems(1) y] .
    ultimately show ?thesis using Suc.IH [OF _ c(2)] c Some by auto
  qed
qed

end

section \<open>Properties\<close>

text \<open>
  C4. The branch moves last and only to a stored commit. Under every script of faults and
  crashes of the local store: on success the branch file is the line of the returned
  hash; otherwise it is the old file or that line, and then the commit object is in the store;
  no other branch changes.
\<close>

theorem commit_ref_moves_last:
  assumes "lib_ok L" "branch_path R branch = Inr p"
    and "stage_and_commit_with_now L (fs_store_ops L (beside R al)) fs_self R branch i now s = (r, t)"
  shows "(r = Inr out \<longrightarrow> out_hash out = commit_hash L (commit_of L i now) \<and>
            map_of (entries t) p = Some (FFile (str_bytes (to_hex L (out_hash out) @ newline)))) \<and>
         (map_of (entries t) p = Some (FFile c) \<longrightarrow>
            map_of (entries s) p = Some (FFile c) \<or>
            c = str_bytes (to_hex L (commit_hash L (commit_of L i now)) @ newline) \<and>
              path_exists t (path_for L (beside R al) (commit_hash L (commit_of L i now)))) \<and>
         (b \<noteq> branch \<longrightarrow> branch_path R b = Inr q \<longrightarrow>
            (map_of (entries t) q = Some (FFile c) \<longleftrightarrow> map_of (entries s) q = Some (FFile c)))"
  using lib_laws.local_staging [OF _ assms(3, 2), of out c b q] assms(1)
  by (auto simp: lib_laws_iff)

definition sample_inputs :: commit_inputs where
  "sample_inputs =
     \<lparr>in_author = ''alice'', in_message = ''first'', in_parent = None, in_code_sha = None,
      in_prompts = [], in_tools = [], in_model = None, in_memory_snapshot = None,
      in_schema_version = None, in_intent = None, in_plan = None, in_transcript = None,
      in_evals = None, in_cost_cents = 0, in_peer_uid = None, in_exempt_prefixes = []\<rparr>"

lemma sample_commit:
  obtains out t where "stage_and_commit_with_now sample_lib (fs_store_ops sample_lib (beside [] [])) fs_self []
    ''main'' sample_inputs 0 empty_fs = (Inr out, t)"
proof -
  let ?st = "beside [] []" and ?p = "[''refs'', ''heads'', ''main'']"
  have b: "branch_path [] ''main'' = Inr ?p" using branch_path_main [of "[]"] by simp
  define c where "c = commit_of sample_lib sample_inputs 0"
  let ?a = "path_for sample_lib ?st (commit_hash sample_lib c)"
  have blobs: "stage_blobs (fs_store_ops sample_lib ?st) sample_inputs 0 s = (Inr c, s)" for s
    by (simp add: stage_blobs_def c_def commit_of_def sample_inputs_def stage_blob_tree_def
        stage_optional_blob_def dimension_def bindA_def)
  obtain v where v: "replace_file ?a (zstd sample_lib (object_bytes sample_lib (OCommit c))) empty_fs = (Inr (), v)"
    "quiet v" "\<And>q. length ?a \<le> length q \<Longrightarrow> q \<noteq> ?a \<Longrightarrow> q \<noteq> with_extension ?a ''tmp'' \<Longrightarrow>
       map_of (entries v) q = map_of (entries empty_fs) q"
    using replace_file_runs [OF quiet_empty empty_replaceable [OF sample_hex]] by metis
  then have put: "put_default (fs_store_ops sample_lib ?st) (OCommit c) empty_fs = (Inr (commit_hash sample_lib c), v)"
    by (simp add: put_default_def fs_store_ops_def put_with_policy_def scan_object_def
        write_if_absent_def write_at_def map_errA_def Let_def)
  have adr: "\<not> address_of sample_lib ?st h q" if "q = ?p \<or> q = with_extension ?p ''tmp'' \<or> length q < 3" for h q
    using that by (auto simp: address_of_def tmp_path_for [OF sample_hex] with_extension_def)
      (simp_all add: path_for_eq beside_def)
  have "replaceable (entries v) ?p"
  proof -
    have fr: "frame (address_of sample_lib ?st (commit_hash sample_lib c)) empty_fs v"
      using keepsD [OF keeps_replace_file v(1)] by (simp add: address_of_def)
    have none: "map_of (entries v) q = None" if "q = ?p \<or> q = with_extension ?p ''tmp''" for q
      using v(3) [of q] that adr [of q "commit_hash sample_lib c"]
      by (auto simp: address_of_def empty_fs_def path_for_eq beside_def with_extension_def)
    have "map_of (entries v) q \<in> {None, Some FDir}" if "length q < 3" for q
      using fr adr [of q "commit_hash sample_lib c"] that
      by (auto simp: frame_def eframe_def empty_fs_def dest!: spec [of _ q])
    then have "map_of (entries v) (take (Suc n) (butlast ?p)) \<in> {None, Some FDir}" for n
      by simp
    moreover have "with_extension ?p ''tmp'' \<noteq> ?p"
      using tmp_not_branch [OF b] by simp
    ultimately show ?thesis using none by (auto simp: replaceable_def)
  qed
  then obtain t where "write_branch sample_lib [] ''main'' (commit_hash sample_lib c) v = (Inr (), t)"
    using write_branch_runs [OF v(2) b] by blast
  with blobs put that show thesis
    by (simp add: stage_and_commit_with_now_def)
qed

theorem commit_ref_moves_last_witness:
  "\<exists>out t. stage_and_commit_with_now sample_lib (fs_store_ops sample_lib (beside [] [])) fs_self []
      ''main'' sample_inputs 0 empty_fs = (Inr out, t) \<and>
     map_of (entries t) [''refs'', ''heads'', ''main''] =
       Some (FFile (str_bytes (to_hex sample_lib (out_hash out) @ newline)))"
proof -
  obtain out t where s: "stage_and_commit_with_now sample_lib (fs_store_ops sample_lib (beside [] [])) fs_self []
    ''main'' sample_inputs 0 empty_fs = (Inr out, t)" by (rule sample_commit)
  have "branch_path [] ''main'' = Inr [''refs'', ''heads'', ''main'']"
    using branch_path_main [of "[]"] by simp
  from commit_ref_moves_last [OF sample_ok this s] s show ?thesis by blast
qed

text \<open>
  A commit hash is determined by the content: over any store that keeps the contract,
  from any state of it, a commit that succeeds returns the hash of the commit that the inputs
  and the time determine, whatever was stored before. So a retry after a failure gives the
  same hash.
\<close>

theorem commit_hash_determined:
  assumes "object_store L S I calm held" "I s"
    and "stage_and_commit_with_now L S V R branch i now s = (Inr out, t)"
  shows "out_hash out = commit_hash L (commit_of L i now) \<and> out_branch out = branch"
  using object_store.staged_hash [OF assms] .

theorem commit_hash_determined_witness:
  "\<exists>out t. stage_and_commit_with_now sample_lib (fs_store_ops sample_lib (beside [] [])) fs_self []
      ''main'' sample_inputs 0 empty_fs = (Inr out, t) \<and>
     out_hash out = commit_hash sample_lib (commit_of sample_lib sample_inputs 0)"
proof -
  obtain out t where s: "stage_and_commit_with_now sample_lib (fs_store_ops sample_lib (beside [] [])) fs_self []
    ''main'' sample_inputs 0 empty_fs = (Inr out, t)" by (rule sample_commit)
  from commit_hash_determined [OF fs_store_contract [OF sample_hex sample_zstd] TrueI s] s
  show ?thesis by blast
qed

text \<open>
  The log is the parent chain: what \<open>walk_log\<close> returns is at most \<open>limit\<close> commits, the first
  at the start, each the parent of the one before and each hashing to its address; when
  it is shorter than the limit it ends at a root commit.
\<close>

theorem walk_log_is_parent_chain:
  assumes "object_store L S I calm held" "I s" "walk_log S start limit s = (Inr cs, t)"
  shows "length cs \<le> limit \<and> linked (Some start) cs \<and>
         list_all (\<lambda>(h, c). commit_hash L c = h) cs \<and>
         (length cs < limit \<longrightarrow> cs \<noteq> [] \<and> c_parent (snd (last cs)) = None)"
  using object_store.walk_from_chain [OF assms(1, 2), of limit "Some start" cs t] assms(3)
  by (auto simp: walk_log_def split: if_splits)

theorem walk_log_is_parent_chain_witness:
  "\<exists>h c v u. put_default (fs_store_ops sample_lib (beside [] [])) (OCommit c) empty_fs = (Inr h, v) \<and>
     walk_log (fs_store_ops sample_lib (beside [] [])) h 2 v = (Inr [(h, c)], u) \<and>
     linked (Some h) [(h, c)] \<and> c_parent c = None"
proof -
  let ?st = "beside [] []"
  define c where "c = commit_of sample_lib sample_inputs 0"
  have c: "c_parent c = None" "object_wf (OCommit c)"
    by (simp_all add: c_def commit_of_def sample_inputs_def ts_range_def)
  have "scan_object sample_lib ?st (OCommit c) default_policy = Inr ()" by (simp add: scan_object_def)
  then obtain v where v: "put_with_policy sample_lib ?st (OCommit c) default_policy empty_fs =
      (Inr (object_hash sample_lib (OCommit c)), v)"
    using put_with_policy_quiet [OF quiet_empty empty_replaceable [OF sample_hex]] by blast
  then obtain u where "store_get sample_lib ?st (object_hash sample_lib (OCommit c)) v = (Inr (OCommit c), u)"
    using sample.local_put_get [OF quiet_empty c(2) _ v] by auto
  then have w: "walk_log (fs_store_ops sample_lib ?st) (commit_hash sample_lib c) 2 v =
      (Inr [(commit_hash sample_lib c, c)], u)"
    by (simp add: walk_log_def numeral_2_eq_2 bindA_def fs_store_ops_def c(1))
  have "put_default (fs_store_ops sample_lib ?st) (OCommit c) empty_fs = (Inr (commit_hash sample_lib c), v)"
    using v by (simp add: put_default_def fs_store_ops_def)
  with walk_log_is_parent_chain [OF fs_store_contract [OF sample_hex sample_zstd] TrueI w] w c(1)
  show ?thesis by blast
qed

end
