(* ===== verification/Commit_Diff.thy ===== *)
theory Commit_Diff
  imports Commit_Staging
begin

text \<open>
  The per-dimension diff of two commits (\<open>diff.rs\<close> of \<open>agentic-core\<close>), over any object store.
  A store whose reads repeat in the absence of faults is the locale \<open>stable_store\<close>.
\<close>

section \<open>The diff\<close>

record string_change =
  sc_from :: "string option"
  sc_to :: "string option"

record hash_change =
  hc_from :: "hash option"
  hc_to :: "hash option"

record tree_diff =
  td_added :: "(string \<times> hash) list"
  td_removed :: "(string \<times> hash) list"
  td_modified :: "(string \<times> hash \<times> hash) list"

record commit_diff =
  cd_from :: hash
  cd_to :: hash
  cd_code_sha :: "string_change option"
  cd_prompts :: "tree_diff option"
  cd_tools :: "tree_diff option"
  cd_model :: "string_change option"
  cd_memory_snapshot :: "hash_change option"
  cd_schema_version :: "string_change option"

definition diff_is_empty :: "commit_diff \<Rightarrow> bool" where
  "diff_is_empty d \<longleftrightarrow>
     cd_code_sha d = None \<and> cd_prompts d = None \<and> cd_tools d = None \<and> cd_model d = None \<and>
     cd_memory_snapshot d = None \<and> cd_schema_version d = None"

definition tree_diff_is_empty :: "tree_diff \<Rightarrow> bool" where
  "tree_diff_is_empty d \<longleftrightarrow> td_added d = [] \<and> td_removed d = [] \<and> td_modified d = []"

definition load_commit :: "'w store_ops \<Rightarrow> hash \<Rightarrow> ('w, core_error, commit) act" where
  "load_commit S h =
     bindA (st_get S h) (\<lambda>x.
     case x of OCommit c \<Rightarrow> ret c | y \<Rightarrow> fail (KindMismatch KCommit (kind_of_obj y)))"

definition load_tree :: "'w store_ops \<Rightarrow> hash \<Rightarrow> ('w, core_error, tree) act" where
  "load_tree S h =
     bindA (st_get S h) (\<lambda>x.
     case x of OTree t \<Rightarrow> ret t | y \<Rightarrow> fail (KindMismatch KTree (kind_of_obj y)))"

definition load_blob :: "'w store_ops \<Rightarrow> hash \<Rightarrow> ('w, core_error, blob) act" where
  "load_blob S h =
     bindA (st_get S h) (\<lambda>x.
     case x of OBlob b \<Rightarrow> ret b | y \<Rightarrow> fail (KindMismatch KBlob (kind_of_obj y)))"

definition string_change_of :: "string option \<Rightarrow> string option \<Rightarrow> string_change option" where
  "string_change_of a b = (if a = b then None else Some \<lparr>sc_from = a, sc_to = b\<rparr>)"

definition hash_change_of :: "hash option \<Rightarrow> hash option \<Rightarrow> hash_change option" where
  "hash_change_of a b = (if a = b then None else Some \<lparr>hc_from = a, hc_to = b\<rparr>)"

definition all_names :: "tree \<Rightarrow> tree \<Rightarrow> string list" where
  "all_names a b = map fst (bt_of_list (map (\<lambda>(n, _). (n, ())) (a @ b)))"

fun classify :: "tree \<Rightarrow> tree \<Rightarrow> string list \<Rightarrow> tree_diff" where
  "classify a b [] = \<lparr>td_added = [], td_removed = [], td_modified = []\<rparr>"
| "classify a b (n # ns) =
     (let d = classify a b ns in
      case (map_of a n, map_of b n) of
        (None, Some y) \<Rightarrow> d\<lparr>td_added := (n, ref_hash y) # td_added d\<rparr>
      | (Some x, None) \<Rightarrow> d\<lparr>td_removed := (n, ref_hash x) # td_removed d\<rparr>
      | (Some x, Some y) \<Rightarrow>
          (if ref_hash x \<noteq> ref_hash y
           then d\<lparr>td_modified := (n, ref_hash x, ref_hash y) # td_modified d\<rparr> else d)
      | (None, None) \<Rightarrow> d)"

definition load_entries :: "'w store_ops \<Rightarrow> hash option \<Rightarrow> ('w, core_error, tree) act" where
  "load_entries S a = (case a of Some h \<Rightarrow> load_tree S h | None \<Rightarrow> ret [])"

definition diff_tree ::
    "'w store_ops \<Rightarrow> hash option \<Rightarrow> hash option \<Rightarrow> ('w, core_error, tree_diff option) act" where
  "diff_tree S a b =
     (if a = b then ret None
      else bindA (load_entries S a) (\<lambda>ta.
           bindA (load_entries S b) (\<lambda>tb.
           let d = classify ta tb (all_names ta tb) in
           ret (if tree_diff_is_empty d then None else Some d))))"

definition model_string :: "'w store_ops \<Rightarrow> hash option \<Rightarrow> ('w, core_error, string option) act" where
  "model_string S x =
     (case x of None \<Rightarrow> ret None
      | Some h \<Rightarrow> bindA (load_blob S h) (\<lambda>b. ret (Some (utf8_lossy (bytes_str b)))))"

definition diff_model_blob ::
    "'w store_ops \<Rightarrow> hash option \<Rightarrow> hash option \<Rightarrow> ('w, core_error, string_change option) act" where
  "diff_model_blob S a b =
     (if a = b then ret None
      else bindA (model_string S a) (\<lambda>x.
           bindA (model_string S b) (\<lambda>y.
           ret (if x = y then None else Some \<lparr>sc_from = x, sc_to = y\<rparr>))))"

definition diff :: "'w store_ops \<Rightarrow> hash \<Rightarrow> hash \<Rightarrow> ('w, core_error, commit_diff) act" where
  "diff S from to =
     bindA (load_commit S from) (\<lambda>a.
     bindA (load_commit S to) (\<lambda>b.
     bindA (diff_tree S (c_prompts a) (c_prompts b)) (\<lambda>dp.
     bindA (diff_tree S (c_tools a) (c_tools b)) (\<lambda>dt.
     bindA (diff_model_blob S (c_model a) (c_model b)) (\<lambda>dm.
     ret \<lparr>cd_from = from, cd_to = to,
          cd_code_sha = string_change_of (c_code_sha a) (c_code_sha b), cd_prompts = dp,
          cd_tools = dt, cd_model = dm,
          cd_memory_snapshot = hash_change_of (c_memory_snapshot a) (c_memory_snapshot b),
          cd_schema_version = string_change_of (c_schema_version a) (c_schema_version b)\<rparr>)))))"

section \<open>A diff leads from one tree to the other\<close>

text \<open>The names and hashes of a tree, and a diff applied to them.\<close>

definition name_hash :: "tree \<Rightarrow> string \<Rightarrow> hash option" where
  "name_hash t n = map_option ref_hash (map_of t n)"

definition apply_diff :: "tree_diff \<Rightarrow> (string \<Rightarrow> hash option) \<Rightarrow> string \<Rightarrow> hash option" where
  "apply_diff d f n =
     (case map_of (td_added d) n of
        Some h \<Rightarrow> Some h
      | None \<Rightarrow>
          (case map_of (td_modified d) n of
             Some (_, h) \<Rightarrow> Some h
           | None \<Rightarrow> if n \<in> fst ` set (td_removed d) then None else f n))"

lemma fst_bt_of_list: "fst ` set (bt_of_list kvs) = fst ` set kvs"
proof (induction kvs rule: rev_induct)
  case (snoc x xs)
  then show ?case by (cases x) simp
qed simp

lemma set_all_names: "set (all_names a b) = fst ` set a \<union> fst ` set b"
  by (force simp: all_names_def fst_bt_of_list image_image case_prod_unfold)

lemma classify_names:
  "n \<in> fst ` set (td_added (classify a b ns)) \<longleftrightarrow> n \<in> set ns \<and> map_of a n = None \<and> map_of b n \<noteq> None"
  "n \<in> fst ` set (td_removed (classify a b ns)) \<longleftrightarrow> n \<in> set ns \<and> map_of a n \<noteq> None \<and> map_of b n = None"
  by (induction ns) (auto simp: Let_def split: option.splits)

lemma classify_added:
  "map_of (td_added (classify a b ns)) n =
     (if n \<in> set ns \<and> map_of a n = None then name_hash b n else None)"
  by (induction ns) (auto simp: Let_def name_hash_def split: option.splits)

lemma classify_modified:
  "map_of (td_modified (classify a b ns)) n =
     (if n \<in> set ns then (case (map_of a n, map_of b n) of
         (Some x, Some y) \<Rightarrow> if ref_hash x \<noteq> ref_hash y then Some (ref_hash x, ref_hash y) else None
       | _ \<Rightarrow> None) else None)"
  by (induction ns) (auto simp: Let_def split: option.splits)

lemma apply_classify: "apply_diff (classify a b (all_names a b)) (name_hash a) = name_hash b"
proof
  fix n
  have "n \<notin> set (all_names a b) \<Longrightarrow> map_of a n = None \<and> map_of b n = None"
    by (simp add: set_all_names map_of_eq_None_iff)
  then show "apply_diff (classify a b (all_names a b)) (name_hash a) n = name_hash b n"
    unfolding apply_diff_def classify_added classify_modified classify_names
    by (auto simp: name_hash_def split: option.splits)
qed

lemma classify_empty_iff:
  "tree_diff_is_empty (classify a b (all_names a b)) \<longleftrightarrow> name_hash a = name_hash b"
proof
  assume "tree_diff_is_empty (classify a b (all_names a b))"
  then have "apply_diff (classify a b (all_names a b)) (name_hash a) = name_hash a"
    by (simp add: tree_diff_is_empty_def apply_diff_def fun_eq_iff)
  then show "name_hash a = name_hash b" by (simp add: apply_classify)
next
  assume eq: "name_hash a = name_hash b"
  have "tree_diff_is_empty (classify a b ns)" for ns
  proof (induction ns)
    case (Cons n ns)
    have "map_option ref_hash (map_of a n) = map_option ref_hash (map_of b n)"
      using eq by (metis name_hash_def)
    with Cons show ?case by (auto simp: tree_diff_is_empty_def Let_def split: option.splits)
  qed (simp add: tree_diff_is_empty_def)
  then show "tree_diff_is_empty (classify a b (all_names a b))" .
qed

context object_store
begin

lemma load_tree_ok:
  assumes "inv s" "load_tree S h s = (Inr t, u)"
  shows "inv u \<and> tree_hash L t = h"
proof -
  from assms(2) [unfolded load_tree_def] obtain x v where x: "st_get S h s = (Inr x, v)" and
    r: "(case x of OTree t \<Rightarrow> ret t | y \<Rightarrow> fail (KindMismatch KTree (kind_of_obj y))) v = (Inr t, u)"
    by (rule bindA_okE)
  then have "x = OTree t" "v = u" by (cases x; simp)+
  with get_sound [OF assms(1) x] get_ok_inv [OF assms(1) x] show ?thesis by simp
qed

lemma diff_tree_ok:
  assumes "inv s" "diff_tree S (Some a) (Some b) s = (Inr d, u)" "a \<noteq> b"
  shows "\<exists>ta tb. tree_hash L ta = a \<and> tree_hash L tb = b \<and>
     (case d of None \<Rightarrow> name_hash ta = name_hash tb
      | Some x \<Rightarrow> name_hash ta \<noteq> name_hash tb \<and> apply_diff x (name_hash ta) = name_hash tb)"
proof -
  from assms(2, 3) obtain ta v tb where t: "load_tree S a s = (Inr ta, v)" "load_tree S b v = (Inr tb, u)"
    "d = (let d = classify ta tb (all_names ta tb) in if tree_diff_is_empty d then None else Some d)"
    by (auto simp: diff_tree_def load_entries_def bindA_ok_iff Let_def)
  from load_tree_ok [OF assms(1) t(1)] load_tree_ok [OF _ t(2)] t(3) show ?thesis
    by (intro exI [of _ ta] exI [of _ tb])
      (simp add: Let_def classify_empty_iff apply_classify split: option.splits)
qed

end

section \<open>Reads that repeat\<close>

locale stable_store = object_store L S inv calm held
  for L :: lib and S :: "'w store_ops" and inv calm held +
  assumes get_repeats: "inv s \<Longrightarrow> calm s \<Longrightarrow> st_get S h s = (Inr x, t) \<Longrightarrow> fst (st_get S h t) = Inr x"
begin

lemma diff_self:
  assumes "inv s" "calm s" "st_get S h s = (Inr (OCommit c), u)"
  obtains d t where "diff S h h s = (Inr d, t)" "diff_is_empty d" "cd_from d = h" "cd_to d = h"
proof -
  obtain v where v: "st_get S h u = (Inr (OCommit c), v)"
    using get_repeats [OF assms] by (metis prod.collapse)
  let ?d = "\<lparr>cd_from = h, cd_to = h, cd_code_sha = None, cd_prompts = None, cd_tools = None,
    cd_model = None, cd_memory_snapshot = None, cd_schema_version = None\<rparr>"
  have "diff S h h s = (Inr ?d, v)"
    using assms(3) v by (simp add: diff_def load_commit_def bindA_def diff_tree_def
        diff_model_blob_def string_change_of_def hash_change_of_def)
  then show thesis by (rule that) (simp_all add: diff_is_empty_def)
qed

end

lemma store_get_pure: "quiet s \<Longrightarrow> snd (store_get L st h s) = s"
  by (auto simp: store_get_def read_present_def read_at_def bindA_def map_errA_def fs_read_def quiet_def
      prim_quiet split: prod.splits sum.splits option.splits)

lemma local_stable_store:
  assumes "hex_law L" "zstd_law L"
  shows "stable_store L (fs_store_ops L st) (\<lambda>_. True) quiet (stored L st)"
proof -
  have "stable_store_axioms (fs_store_ops L st) (\<lambda>_. True) quiet"
    using store_get_pure by unfold_locales (auto simp: fs_store_ops_def, metis fst_conv snd_conv)
  with fs_store_contract [OF assms] show ?thesis by (simp add: stable_store_def)
qed

sublocale lib_laws < local_stable: stable_store L "fs_store_ops L st" "\<lambda>_. True" quiet "stored L st" for st
  by (rule local_stable_store) (rule hex zstd)+

section \<open>Properties\<close>

text \<open>
  C31. A tree diff is exact: on success, for two different tree hashes, the store held trees with
  these hashes; no diff means they name the same content, and a diff, applied to the names and
  hashes of the first, gives those of the second.
\<close>

theorem diff_tree_exact:
  assumes "object_store L S I calm held" "I s" "a \<noteq> b"
    and "diff_tree S (Some a) (Some b) s = (Inr d, u)"
  shows "\<exists>ta tb. tree_hash L ta = a \<and> tree_hash L tb = b \<and>
     (case d of None \<Rightarrow> name_hash ta = name_hash tb
      | Some x \<Rightarrow> name_hash ta \<noteq> name_hash tb \<and> apply_diff x (name_hash ta) = name_hash tb)"
  using object_store.diff_tree_ok [OF assms(1, 2, 4, 3)] .

text \<open>Two trees in one store, and a digest that tells them apart.\<close>

definition short_lib :: lib where
  "short_lib = sample_lib\<lparr>blake3 := (\<lambda>bs. if length bs < 30 then 0 else 1)\<rparr>"

lemma short_lib_ok: "hex_law short_lib" "json_law short_lib" "ts_law short_lib" "zstd_law short_lib"
  using sample_hex sample_json sample_ts sample_zstd
  by (simp_all add: short_lib_def hex_law_def json_law_def ts_law_def zstd_law_def)

definition one_entry :: tree where
  "one_entry = [(''a.md'', \<lparr>ref_kind = KBlob, ref_hash = 9\<rparr>)]"

definition two_trees :: fs where
  "two_trees =
     \<lparr>entries = [(path_for short_lib (beside [] []) 0, FFile (object_bytes short_lib (OTree []))),
                 (path_for short_lib (beside [] []) 1, FFile (object_bytes short_lib (OTree one_entry)))],
      faults = []\<rparr>"

lemma two_trees_hashes: "tree_hash short_lib [] = 0" "tree_hash short_lib one_entry = 1"
  by (simp_all add: tree_hash_def hash_of_def short_lib_def sample_lib_def tree_fields_def of_map_def
      one_entry_def ref_to_json_def)

lemma two_trees_get:
  "store_get short_lib (beside [] []) 0 two_trees = (Inr (OTree []), two_trees)"
  "store_get short_lib (beside [] []) 1 two_trees = (Inr (OTree one_entry), two_trees)"
proof -
  have z: "unzstd short_lib = Some" by (simp add: short_lib_def sample_lib_def)
  have wf: "object_wf (OTree [])" "object_wf (OTree one_entry)" by (simp_all add: one_entry_def bt_ok_def)
  have "stored short_lib (beside [] []) two_trees 0 (object_bytes short_lib (OTree []))"
    by (simp add: stored_def two_trees_def z)
  then show "store_get short_lib (beside [] []) 0 two_trees = (Inr (OTree []), two_trees)"
    by (rule store_get_held) (simp_all add: two_trees_def two_trees_hashes object_parse_bytes short_lib_ok)
  have "stored short_lib (beside [] []) two_trees 1 (object_bytes short_lib (OTree one_entry))"
    using path_for_inj [OF short_lib_ok(1), of "beside [] []" 1 0] by (simp add: stored_def two_trees_def z)
  then show "store_get short_lib (beside [] []) 1 two_trees = (Inr (OTree one_entry), two_trees)"
    using object_parse_bytes [OF short_lib_ok(2, 3) wf(2)]
    by (intro store_get_held) (simp_all add: two_trees_def two_trees_hashes)
qed

theorem diff_tree_exact_witness:
  "\<exists>x. diff_tree (fs_store_ops short_lib (beside [] [])) (Some 0) (Some 1) two_trees = (Inr (Some x), two_trees) \<and>
     (\<exists>ta tb. tree_hash short_lib ta = 0 \<and> tree_hash short_lib tb = 1 \<and>
        apply_diff x (name_hash ta) = name_hash tb) \<and> td_added x = [(''a.md'', 9)]"
proof -
  let ?x = "\<lparr>td_added = [(''a.md'', 9)], td_removed = [], td_modified = []\<rparr>"
  have d: "diff_tree (fs_store_ops short_lib (beside [] [])) (Some 0) (Some 1) two_trees = (Inr (Some ?x), two_trees)"
    using two_trees_get
    by (simp add: diff_tree_def load_entries_def load_tree_def bindA_def fs_store_ops_def
        all_names_def bt_of_list_def one_entry_def tree_diff_is_empty_def)
  from diff_tree_exact [OF fs_store_contract [OF short_lib_ok(1, 4)] TrueI _ d] d show ?thesis by auto
qed

text \<open>
  A commit differs from itself in nothing: over any store whose reads repeat, when the
  commit can be read its diff with itself succeeds and is empty in every dimension.
\<close>

theorem diff_self_empty:
  assumes "stable_store L S I calm held" "I s" "calm s" "st_get S h s = (Inr (OCommit c), u)"
  shows "\<exists>d t. diff S h h s = (Inr d, t) \<and> diff_is_empty d"
  using stable_store.diff_self [OF assms] by blast

theorem diff_self_empty_witness:
  "\<exists>h v d t. put_default (fs_store_ops sample_lib (beside [] [])) (OCommit (commit_of sample_lib sample_inputs 0))
       empty_fs = (Inr h, v) \<and> diff (fs_store_ops sample_lib (beside [] [])) h h v = (Inr d, t) \<and> diff_is_empty d"
proof -
  let ?st = "beside [] []"
  define c where "c = commit_of sample_lib sample_inputs 0"
  have c: "object_wf (OCommit c)"
    by (simp add: c_def commit_of_def sample_inputs_def ts_range_def)
  have "scan_object sample_lib ?st (OCommit c) default_policy = Inr ()" by (simp add: scan_object_def)
  then obtain v where v: "put_with_policy sample_lib ?st (OCommit c) default_policy empty_fs =
      (Inr (object_hash sample_lib (OCommit c)), v)" "quiet v"
    using put_with_policy_quiet [OF quiet_empty empty_replaceable [OF sample_hex]] by blast
  then obtain u where u: "store_get sample_lib ?st (object_hash sample_lib (OCommit c)) v = (Inr (OCommit c), u)"
    using sample.local_put_get [OF quiet_empty c _ v(1)] by auto
  have "put_default (fs_store_ops sample_lib ?st) (OCommit c) empty_fs = (Inr (object_hash sample_lib (OCommit c)), v)"
    using v by (simp add: put_default_def fs_store_ops_def)
  moreover have "\<exists>d t. diff (fs_store_ops sample_lib ?st) (object_hash sample_lib (OCommit c))
      (object_hash sample_lib (OCommit c)) v = (Inr d, t) \<and> diff_is_empty d"
    by (rule diff_self_empty [OF local_stable_store [OF sample_hex sample_zstd] TrueI v(2)])
      (simp add: fs_store_ops_def u del: object_hash.simps)
  ultimately show ?thesis unfolding c_def by blast
qed

end
