(* ===== verification/Approval.thy ===== *)
theory Approval
  imports Sample_Lib
begin

text \<open>
  Rollback approval tokens (\<open>approval.rs\<close> of \<open>agentic-core\<close>). The MAC is \<open>hmac_sha256\<close> of
  \<open>lib\<close>; what is relied on of it is that a tag has 32 bytes. Times and user ids are words
  of 64 and 32 bits.
\<close>

definition approval_token_ttl_seconds :: nat where
  "approval_token_ttl_seconds = 300"

definition approval_domain :: string where
  "approval_domain = ''git.agentic/rollback-approval/v1''"

definition approval_key_len :: nat where
  "approval_key_len = 32"

type_synonym approval_key = bytes

datatype approval_key_error = KeyLength nat nat

definition approval_key_from_bytes :: "bytes \<Rightarrow> approval_key_error + approval_key" where
  "approval_key_from_bytes bs =
     (if length bs \<noteq> approval_key_len then Inl (KeyLength approval_key_len (length bs)) else Inr bs)"

datatype approval_rejection = Malformed | Expired nat | InvalidSignature

fun audit_decision :: "approval_rejection \<Rightarrow> string" where
  "audit_decision Malformed = ''rejected_malformed''"
| "audit_decision (Expired ttl) = ''rejected_expired''"
| "audit_decision InvalidSignature = ''rejected_invalid_signature''"

definition ascii_lower :: "char \<Rightarrow> char" where
  "ascii_lower c = (if is_upper c then char_of ((of_char c :: nat) + 32) else c)"

definition to_ascii_lowercase :: "string \<Rightarrow> string" where
  "to_ascii_lowercase s = map ascii_lower s"

definition signing_input :: "string \<Rightarrow> u32 \<Rightarrow> u64 \<Rightarrow> bytes" where
  "signing_input c uid ts =
     str_bytes (approval_domain @ '':'' @ c @ '':'' @ show_nat (unat uid) @ '':'' @ show_nat (unat ts))"

definition approval_tag :: "lib \<Rightarrow> approval_key \<Rightarrow> string \<Rightarrow> u32 \<Rightarrow> u64 \<Rightarrow> bytes" where
  "approval_tag L key c uid ts = hmac_sha256 L key (signing_input c uid ts)"

definition generate_token :: "lib \<Rightarrow> approval_key \<Rightarrow> string \<Rightarrow> u32 \<Rightarrow> u64 \<Rightarrow> string" where
  "generate_token L key c uid now =
     show_nat (unat now) @ '':'' @ hex_enc L (approval_tag L key (to_ascii_lowercase c) uid now)"

definition verify_token ::
    "lib \<Rightarrow> approval_key \<Rightarrow> string \<Rightarrow> u32 \<Rightarrow> string \<Rightarrow> u64 \<Rightarrow> approval_rejection + unit" where
  "verify_token L key c uid token now =
     (case split_once (CHR '':'') token of
        None \<Rightarrow> Inl Malformed
      | Some (ts_str, hex_tag) \<Rightarrow>
          (case parse_uint 64 ts_str of
             None \<Rightarrow> Inl Malformed
           | Some ts \<Rightarrow>
               (case hex_dec L hex_tag of
                  None \<Rightarrow> Inl Malformed
                | Some provided \<Rightarrow>
                    if length provided \<noteq> 32 then Inl Malformed
                    else if max (unat now - ts) (ts - unat now) > approval_token_ttl_seconds
                    then Inl (Expired approval_token_ttl_seconds)
                    else if approval_tag L key (to_ascii_lowercase c) uid (of_nat ts) = provided
                    then Inr () else Inl InvalidSignature)))"

definition hmac_law :: "lib \<Rightarrow> bool" where
  "hmac_law L \<longleftrightarrow> (\<forall>k m. length (hmac_sha256 L k m) = 32)"

section \<open>Decimal numbers read back\<close>

lemma digit_char: "n < 10 \<Longrightarrow> is_digit (char_of (48 + n)) \<and> digit_val (char_of (48 + n)) = n"
  by (simp add: is_digit_def digit_val_def)

lemma digits_nat_snoc [simp]: "digits_nat (s @ [c]) = digits_nat s * 10 + digit_val c"
  by (simp add: digits_nat_def)

lemma show_nat_digits: "list_all is_digit (show_nat n) \<and> digits_nat (show_nat n) = n \<and> show_nat n \<noteq> []"
proof (induction n rule: show_nat.induct)
  case (1 n)
  show ?case
  proof (cases "n < 10")
    case True
    then show ?thesis
      by (subst (1 2 3) show_nat.simps) (simp add: digit_char digits_nat_def)
  next
    case False
    with 1 show ?thesis
      by (subst (1 2 3) show_nat.simps) (simp add: digit_char)
  qed
qed

lemma parse_show_nat: "n < 2 ^ b \<Longrightarrow> parse_uint b (show_nat n) = Some n"
proof -
  assume n: "n < 2 ^ b"
  obtain c s where cs: "show_nat n = c # s" using show_nat_digits [of n] by (cases "show_nat n") auto
  have "is_digit c" using show_nat_digits [of n] cs by simp
  then have "c \<noteq> CHR ''+''" by (auto simp: is_digit_def)
  then show ?thesis using n cs show_nat_digits [of n] by (simp add: parse_uint_def Let_def)
qed

lemma show_nat_inj: "show_nat m = show_nat n \<longleftrightarrow> m = n"
  using show_nat_digits by metis

lemma digits_no_colon: "list_all is_digit s \<Longrightarrow> CHR '':'' \<notin> set s"
  by (auto simp: list_all_iff is_digit_def)

lemma show_nat_no_colon: "CHR '':'' \<notin> set (show_nat n)"
  using show_nat_digits digits_no_colon by blast

section \<open>The signed message determines what is signed\<close>

lemma append_cut:
  "x \<notin> set a \<Longrightarrow> x \<notin> set b \<Longrightarrow> a @ x # r = b @ x # s \<longleftrightarrow> a = b \<and> r = s"
  by (metis option.inject prod.inject split_once_first)

lemma signing_input_inj:
  assumes "CHR '':'' \<notin> set c" "CHR '':'' \<notin> set c'"
  shows "signing_input c u t = signing_input c' u' t' \<longleftrightarrow> c = c' \<and> u = u' \<and> t = t'"
  using append_cut [OF assms] append_cut [OF show_nat_no_colon show_nat_no_colon]
  by (simp add: signing_input_def show_nat_inj word_unat_eq_iff)

lemma verify_generate:
  assumes "hex_law L" "hmac_law L"
  shows "verify_token L key c' u' (generate_token L key c u t) now =
     (if max (unat now - unat t) (unat t - unat now) > approval_token_ttl_seconds
      then Inl (Expired approval_token_ttl_seconds)
      else if approval_tag L key (to_ascii_lowercase c') u' t = approval_tag L key (to_ascii_lowercase c) u t
      then Inr () else Inl InvalidSignature)"
proof -
  have "unat t < 2 ^ 64" using unsigned_less [of t] by simp
  then have p: "parse_uint 64 (show_nat (unat t)) = Some (unat t)" by (rule parse_show_nat)
  show ?thesis
    using assms split_once_first [OF show_nat_no_colon]
    by (simp add: verify_token_def generate_token_def p hex_law_def hmac_law_def approval_tag_def)
qed

section \<open>Properties\<close>

text \<open>
  A token issued for a commit and a user is accepted for them, in any letter case of the
  hash, exactly within 300 seconds of its time on either side, and is reported as expired
  outside that window.
\<close>

theorem token_accepted_in_window:
  assumes "hex_law L" "hmac_law L" "to_ascii_lowercase c' = to_ascii_lowercase c"
  shows "verify_token L key c' u (generate_token L key c u t) now =
     (if unat now \<le> unat t + 300 \<and> unat t \<le> unat now + 300 then Inr () else Inl (Expired 300))"
  using verify_generate [OF assms(1, 2), of key c' u c u t now] assms(3)
  by (auto simp: approval_token_ttl_seconds_def max_def)

lemma sample_hmac: "hmac_law sample_lib"
  by (simp add: hmac_law_def sample_lib_def)

theorem token_accepted_in_window_witness:
  "verify_token sample_lib [1, 2] ''ab'' 1000 (generate_token sample_lib [1, 2] ''AB'' 1000 5000) 5300 = Inr () \<and>
   verify_token sample_lib [1, 2] ''ab'' 1000 (generate_token sample_lib [1, 2] ''AB'' 1000 5000) 5301 = Inl (Expired 300)"
proof -
  have "to_ascii_lowercase ''ab'' = to_ascii_lowercase ''AB''" by code_simp
  from token_accepted_in_window [OF sample_hex sample_hmac this, of "[1, 2]" 1000 5000] show ?thesis by simp
qed



end
