(* ===== verification/Segments.thy ===== *)
theory Segments
  imports Commit_Diff "HOL-Library.Product_Lexorder" "HOL-Library.Multiset"
begin

text \<open>
  Memory segments and their manifest (\<open>segment.rs\<close> of \<open>agentic-memory\<close>) and the error type of
  that crate. A JSON value is a document whose objects are sorted; a vector component is the
  32-bit pattern of an \<open>f32\<close>, written and read by \<open>lib\<close>.
\<close>

section \<open>Errors\<close>

text \<open>The variants of \<open>sqlx::Error\<close> the sources tell apart, with the rendered message.\<close>

datatype sqlx_kind =
    RowNotFound | PoolTimedOut | PoolClosed | SqlxIo | Database | Configuration | ColumnNotFound
  | ColumnIndexOutOfBounds | ColumnDecode | TypeNotFound | SqlxDecode | SqlxOther

datatype sqlx_error = SqlxError sqlx_kind string

datatype mem_error =
    Backend string
  | SchemaMismatch string string
  | MissingReverseMigration string
  | StreamerShutdown
  | MemCore core_error
  | Sqlx sqlx_error
  | MemOther string

section \<open>Segment\<close>

definition default_segment_target_bytes :: nat where
  "default_segment_target_bytes = 64 * 1024 * 1024"

record embedding =
  row_idx :: u32
  vec :: "u32 list"

record segment =
  sg_table :: string
  sg_schema :: string
  sg_pk_lo :: json
  sg_pk_hi :: json
  sg_row_count :: u64
  sg_rows :: "json list"
  sg_embeddings :: "embedding list"
  sg_metadata :: "(string \<times> json) list"

definition embedding_to_json :: "lib \<Rightarrow> embedding \<Rightarrow> json" where
  "embedding_to_json L e = JObj [(''row_idx'', of_u32 (row_idx e)), (''vector'', of_vec (f32_num L) (vec e))]"

definition embedding_of_json :: "lib \<Rightarrow> json \<Rightarrow> embedding option" where
  "embedding_of_json L j =
     Option.bind (de_struct [''row_idx'', ''vector''] j) (\<lambda>fs.
     Option.bind (field_req to_u32 ''row_idx'' fs) (\<lambda>i.
     Option.bind (field_req (to_vec (num_f32 L)) ''vector'' fs) (\<lambda>v.
     Some \<lparr>row_idx = i, vec = v\<rparr>)))"

definition value_of_json :: "json \<Rightarrow> json option" where
  "value_of_json j = Some (to_value j)"

definition segment_names :: "string list" where
  "segment_names =
     [''table'', ''schema_version'', ''pk_lo'', ''pk_hi'', ''row_count'', ''rows'', ''embeddings'',
      ''metadata'']"

definition segment_to_json :: "lib \<Rightarrow> segment \<Rightarrow> json" where
  "segment_to_json L g = JObj (zip segment_names
     [JStr (sg_table g), JStr (sg_schema g), sg_pk_lo g, sg_pk_hi g, of_u64 (sg_row_count g),
      JArr (sg_rows g), of_vec (embedding_to_json L) (sg_embeddings g),
      of_map (\<lambda>v. v) (sg_metadata g)])"

definition segment_of_json :: "lib \<Rightarrow> json \<Rightarrow> segment option" where
  "segment_of_json L j =
     Option.bind (de_struct segment_names j) (\<lambda>fs.
     Option.bind (field_req to_str ''table'' fs) (\<lambda>t.
     Option.bind (field_req to_str ''schema_version'' fs) (\<lambda>sv.
     Option.bind (field_req value_of_json ''pk_lo'' fs) (\<lambda>lo.
     Option.bind (field_req value_of_json ''pk_hi'' fs) (\<lambda>hi.
     Option.bind (field_req to_u64 ''row_count'' fs) (\<lambda>n.
     Option.bind (field_req (to_vec value_of_json) ''rows'' fs) (\<lambda>rows.
     Option.bind (field_def [] (to_vec (embedding_of_json L)) ''embeddings'' fs) (\<lambda>es.
     Option.bind (field_def [] (to_map value_of_json) ''metadata'' fs) (\<lambda>m.
     Some \<lparr>sg_table = t, sg_schema = sv, sg_pk_lo = lo, sg_pk_hi = hi, sg_row_count = n,
           sg_rows = rows, sg_embeddings = es, sg_metadata = m\<rparr>)))))))))"

definition segment_bytes :: "lib \<Rightarrow> segment \<Rightarrow> bytes" where
  "segment_bytes L g = json_print L (segment_to_json L g)"

definition segment_parse :: "lib \<Rightarrow> bytes \<Rightarrow> segment option" where
  "segment_parse L bs = Option.bind (json_parse L bs) (segment_of_json L)"

definition segment_hash :: "lib \<Rightarrow> segment \<Rightarrow> hash" where
  "segment_hash L g = hash_of L (segment_bytes L g)"

definition canonical_size :: "lib \<Rightarrow> segment \<Rightarrow> nat" where
  "canonical_size L g = length (segment_bytes L g)"

definition segment_eq :: "lib \<Rightarrow> segment \<Rightarrow> segment \<Rightarrow> bool" where
  "segment_eq L a b \<longleftrightarrow> segment_bytes L a = segment_bytes L b"

section \<open>Manifest\<close>

record segment_ref =
  sr_table :: string
  sr_pk_lo :: json
  sr_pk_hi :: json
  sr_segment :: hash
  sr_row_count :: u64

record segment_manifest =
  mf_schema :: string
  mf_entries :: "segment_ref list"

datatype pk_key = PkInt int | PkFloat nat | PkText string

fun pk_rank :: "pk_key \<Rightarrow> nat" where
  "pk_rank (PkInt _) = 0"
| "pk_rank (PkFloat _) = 1"
| "pk_rank (PkText _) = 2"

instantiation pk_key :: linorder
begin

fun less_eq_pk_key :: "pk_key \<Rightarrow> pk_key \<Rightarrow> bool" where
  "less_eq_pk_key (PkInt a) (PkInt b) \<longleftrightarrow> a \<le> b"
| "less_eq_pk_key (PkFloat a) (PkFloat b) \<longleftrightarrow> a \<le> b"
| "less_eq_pk_key (PkText a) (PkText b) \<longleftrightarrow> a \<le> b"
| "less_eq_pk_key a b \<longleftrightarrow> pk_rank a < pk_rank b"

definition less_pk_key :: "pk_key \<Rightarrow> pk_key \<Rightarrow> bool" where
  "less_pk_key a b \<longleftrightarrow> a \<le> b \<and> \<not> b \<le> a"

instance
proof
  fix x y z :: pk_key
  show "x < y \<longleftrightarrow> x \<le> y \<and> \<not> y \<le> x" by (simp add: less_pk_key_def)
  show "x \<le> x" by (cases x) simp_all
  show "x \<le> y \<Longrightarrow> y \<le> z \<Longrightarrow> x \<le> z" by (cases x; cases y; cases z) auto
  show "x \<le> y \<Longrightarrow> y \<le> x \<Longrightarrow> x = y" by (cases x; cases y) auto
  show "x \<le> y \<or> y \<le> x" by (cases x; cases y) auto
qed

end

fun pk_sort_key :: "lib \<Rightarrow> json \<Rightarrow> pk_key" where
  "pk_sort_key L (JNum (PosInt n)) =
     (if unat n < 2 ^ 63 then PkInt (int (unat n)) else PkFloat (unat (f64_of_u64 L n)))"
| "pk_sort_key L (JNum (NegInt n)) = PkInt (sint n)"
| "pk_sort_key L (JNum (Float b)) = PkFloat (unat b)"
| "pk_sort_key L (JStr s) = PkText s"
| "pk_sort_key L j = PkText (bytes_str (json_print L j))"

definition push_key :: "lib \<Rightarrow> segment_ref \<Rightarrow> string \<times> pk_key" where
  "push_key L r = (sr_table r, pk_sort_key L (sr_pk_lo r))"

definition range_key :: "lib \<Rightarrow> segment_ref \<Rightarrow> string \<times> pk_key \<times> pk_key" where
  "range_key L r = (sr_table r, pk_sort_key L (sr_pk_lo r), pk_sort_key L (sr_pk_hi r))"

definition manifest_new :: "string \<Rightarrow> segment_manifest" where
  "manifest_new v = \<lparr>mf_schema = v, mf_entries = []\<rparr>"

text \<open>\<open>push\<close> inserts before the first entry whose key is not smaller.\<close>

fun insert_before :: "lib \<Rightarrow> segment_ref \<Rightarrow> segment_ref list \<Rightarrow> segment_ref list" where
  "insert_before L r [] = [r]"
| "insert_before L r (x # xs) =
     (if push_key L x \<ge> push_key L r then r # x # xs else x # insert_before L r xs)"

definition manifest_push :: "lib \<Rightarrow> segment_ref \<Rightarrow> segment_manifest \<Rightarrow> segment_manifest" where
  "manifest_push L r m = m\<lparr>mf_entries := insert_before L r (mf_entries m)\<rparr>"

definition segment_ref_to_json :: "segment_ref \<Rightarrow> json" where
  "segment_ref_to_json r = JObj
     [(''table'', JStr (sr_table r)), (''pk_lo'', sr_pk_lo r), (''pk_hi'', sr_pk_hi r),
      (''segment'', hash_to_json (sr_segment r)), (''row_count'', of_u64 (sr_row_count r))]"

definition segment_ref_of_json :: "json \<Rightarrow> segment_ref option" where
  "segment_ref_of_json j =
     Option.bind (de_struct [''table'', ''pk_lo'', ''pk_hi'', ''segment'', ''row_count''] j) (\<lambda>fs.
     Option.bind (field_req to_str ''table'' fs) (\<lambda>t.
     Option.bind (field_req value_of_json ''pk_lo'' fs) (\<lambda>lo.
     Option.bind (field_req value_of_json ''pk_hi'' fs) (\<lambda>hi.
     Option.bind (field_req hash_of_json ''segment'' fs) (\<lambda>h.
     Option.bind (field_req to_u64 ''row_count'' fs) (\<lambda>n.
     Some \<lparr>sr_table = t, sr_pk_lo = lo, sr_pk_hi = hi, sr_segment = h, sr_row_count = n\<rparr>))))))"

definition manifest_to_json :: "segment_manifest \<Rightarrow> json" where
  "manifest_to_json m = JObj
     [(''schema_version'', JStr (mf_schema m)), (''entries'', of_vec segment_ref_to_json (mf_entries m))]"

definition manifest_of_json :: "json \<Rightarrow> segment_manifest option" where
  "manifest_of_json j =
     Option.bind (de_struct [''schema_version'', ''entries''] j) (\<lambda>fs.
     Option.bind (field_req to_str ''schema_version'' fs) (\<lambda>v.
     Option.bind (field_req (to_vec segment_ref_of_json) ''entries'' fs) (\<lambda>es.
     Some \<lparr>mf_schema = v, mf_entries = es\<rparr>)))"

definition manifest_bytes :: "lib \<Rightarrow> segment_manifest \<Rightarrow> bytes" where
  "manifest_bytes L m = json_print L (manifest_to_json m)"

definition manifest_hash :: "lib \<Rightarrow> segment_manifest \<Rightarrow> hash" where
  "manifest_hash L m = hash_of L (manifest_bytes L m)"

fun check_windows :: "lib \<Rightarrow> segment_ref list \<Rightarrow> string + unit" where
  "check_windows L (a # b # es) =
     (if range_key L b < range_key L a then Inl ''manifest entries are out of order''
      else if range_key L b = range_key L a then Inl ''manifest has duplicate entry''
      else check_windows L (b # es))"
| "check_windows L _ = Inr ()"

definition validate_invariants :: "lib \<Rightarrow> segment_manifest \<Rightarrow> string + unit" where
  "validate_invariants L m =
     (if mf_schema m = [] then Inl ''manifest schema_version is empty''
      else check_windows L (mf_entries m))"

definition from_canonical_bytes :: "lib \<Rightarrow> bytes \<Rightarrow> string + segment_manifest" where
  "from_canonical_bytes L bs =
     (case Option.bind (json_parse L bs) manifest_of_json of
        None \<Rightarrow> Inl ''manifest is not valid JSON''
      | Some m \<Rightarrow> res_bind (validate_invariants L m) (\<lambda>_. Inr m))"

section \<open>Order and round trips\<close>

definition push_sorted :: "lib \<Rightarrow> segment_ref list \<Rightarrow> bool" where
  "push_sorted L es \<longleftrightarrow> sorted (map (push_key L) es)"

lemma insert_before_split:
  "insert_before L r es =
     takeWhile (\<lambda>x. push_key L x < push_key L r) es @ r # dropWhile (\<lambda>x. push_key L x < push_key L r) es"
  by (induction es) auto

lemma set_insert_before: "set (insert_before L r es) = insert r (set es)"
  by (induction es) auto

lemma insert_before_sorted: "push_sorted L es \<Longrightarrow> push_sorted L (insert_before L r es)"
  unfolding push_sorted_def by (induction es) (auto simp: set_insert_before)

lemma mset_insert_before: "mset (insert_before L r es) = add_mset r (mset es)"
  by (induction es) auto

lemma check_windows_iff: "check_windows L es = Inr () \<longleftrightarrow> sorted_wrt (<) (map (range_key L) es)"
proof (induction L es rule: check_windows.induct)
  case (1 L a b es)
  have "sorted_wrt (<) (map (range_key L) (a # b # es)) \<longleftrightarrow>
      range_key L a < range_key L b \<and> sorted_wrt (<) (map (range_key L) (b # es))"
    by (auto intro: less_trans)
  with 1 show ?case by (auto simp: not_less)
qed simp_all

lemma push_key_le_range: "range_key L a < range_key L b \<Longrightarrow> push_key L a \<le> push_key L b"
  by (auto simp: range_key_def push_key_def less_prod_def less_eq_prod_def)

text \<open>Primary keys as \<open>serde_json\<close> keeps them, and within the parser's depth.\<close>

definition good_value :: "json \<Rightarrow> bool" where
  "good_value j \<longleftrightarrow> is_value j \<and> json_plain j \<and> json_depth_doc j \<le> 100"

definition good_ref :: "segment_ref \<Rightarrow> bool" where
  "good_ref r \<longleftrightarrow> good_value (sr_pk_lo r) \<and> good_value (sr_pk_hi r)"

lemma value_of_json_good [simp]: "good_value j \<Longrightarrow> value_of_json j = Some j"
  by (simp add: value_of_json_def good_value_def to_value_id)

lemma segment_ref_of_json_to_json: "good_ref r \<Longrightarrow> segment_ref_of_json (segment_ref_to_json r) = Some r"
  by (cases r) (simp add: segment_ref_of_json_def segment_ref_to_json_def de_defs good_ref_def)

lemma manifest_of_json_to_json:
  "list_all good_ref (mf_entries m) \<Longrightarrow> manifest_of_json (manifest_to_json m) = Some m"
proof -
  assume "list_all good_ref (mf_entries m)"
  then have "to_vec segment_ref_of_json (of_vec segment_ref_to_json (mf_entries m)) = Some (mf_entries m)"
    by (intro to_vec_of_vec) (simp add: list_all_iff segment_ref_of_json_to_json)
  then show ?thesis by (cases m) (simp add: manifest_of_json_def manifest_to_json_def de_defs)
qed

lemma json_plain_ref: "good_ref r \<Longrightarrow> json_plain (segment_ref_to_json r)"
  by (simp add: segment_ref_to_json_def good_ref_def good_value_def)

lemma json_depth_ref: "good_ref r \<Longrightarrow> json_depth_doc (segment_ref_to_json r) \<le> 101"
  using json_depth_hash [of "sr_segment r"]
  by (simp add: segment_ref_to_json_def good_ref_def good_value_def)

lemma json_exact_manifest:
  assumes "list_all good_ref (mf_entries m)"
  shows "json_exact (manifest_to_json m)"
proof -
  have "json_plain (of_vec segment_ref_to_json (mf_entries m))"
    using assms by (intro json_plain_of_vec) (simp add: list_all_iff json_plain_ref)
  moreover have "json_depth_doc (of_vec segment_ref_to_json (mf_entries m)) \<le> Suc 101"
    using assms by (intro json_depth_of_vec) (simp add: list_all_iff json_depth_ref)
  ultimately show ?thesis by (simp add: json_exact_def manifest_to_json_def)
qed

lemma segment_of_json_to_json:
  assumes "good_value (sg_pk_lo g)" "good_value (sg_pk_hi g)" "list_all good_value (sg_rows g)"
    "sg_embeddings g = []" "sg_metadata g = []"
  shows "segment_of_json L (segment_to_json L g) = Some g"
proof -
  have "to_vec value_of_json (JArr (sg_rows g)) = Some (sg_rows g)"
    using all_some_map_id [of "sg_rows g" value_of_json "\<lambda>x. x"] assms(3) by (simp add: list_all_iff)
  then show ?thesis
    using assms by (cases g)
      (simp add: segment_of_json_def segment_to_json_def segment_names_def de_struct_def field_req_def
        field_def_def of_vec_def of_map_def to_map_def)
qed

lemma segment_parse_bytes:
  assumes "json_law L" "good_value (sg_pk_lo g)" "good_value (sg_pk_hi g)" "list_all good_value (sg_rows g)"
    "sg_embeddings g = []" "sg_metadata g = []"
  shows "segment_parse L (segment_bytes L g) = Some g"
proof -
  have "json_depth_doc (JArr (sg_rows g)) \<le> 101" "json_plain (JArr (sg_rows g))"
    using assms(4) by (auto simp: list_all_iff good_value_def foldr_max_le)
  then have "json_exact (segment_to_json L g)"
    using assms by (simp add: json_exact_def segment_to_json_def segment_names_def good_value_def
        of_vec_def of_map_def)
  with assms show ?thesis
    by (simp add: segment_parse_def segment_bytes_def json_law_def segment_of_json_to_json)
qed

section \<open>Properties\<close>

text \<open>
  A manifest that passes validation reads back from its canonical bytes, and only such a
  manifest is ever returned: what \<open>from_canonical_bytes\<close> accepts has a schema version and its
  ranges are strictly increasing in table, lower and upper key.
\<close>

theorem manifest_roundtrip:
  assumes "json_law L" "list_all good_ref (mf_entries m)"
  shows "(from_canonical_bytes L (manifest_bytes L m) = Inr m) =
           (mf_schema m \<noteq> [] \<and> sorted_wrt (<) (map (range_key L) (mf_entries m))) \<and>
         (from_canonical_bytes L bs = Inr m' \<longrightarrow>
            mf_schema m' \<noteq> [] \<and> sorted_wrt (<) (map (range_key L) (mf_entries m')))"
proof
  have "Option.bind (json_parse L (manifest_bytes L m)) manifest_of_json = Some m"
    using assms by (simp add: manifest_bytes_def json_law_def json_exact_manifest manifest_of_json_to_json)
  then show "(from_canonical_bytes L (manifest_bytes L m) = Inr m) =
      (mf_schema m \<noteq> [] \<and> sorted_wrt (<) (map (range_key L) (mf_entries m)))"
    by (auto simp: from_canonical_bytes_def validate_invariants_def res_bind_Inr_iff
        simp flip: check_windows_iff)
  show "from_canonical_bytes L bs = Inr m' \<longrightarrow>
      mf_schema m' \<noteq> [] \<and> sorted_wrt (<) (map (range_key L) (mf_entries m'))"
    by (auto simp: from_canonical_bytes_def validate_invariants_def res_bind_Inr_iff check_windows_iff
        split: option.splits if_splits simp flip: check_windows_iff)
qed

definition sample_ref :: "nat \<Rightarrow> segment_ref" where
  "sample_ref n = \<lparr>sr_table = ''t'', sr_pk_lo = JNum (PosInt (of_nat n)), sr_pk_hi = JNum (PosInt (of_nat n)),
     sr_segment = 0, sr_row_count = 1\<rparr>"

theorem manifest_roundtrip_witness:
  "from_canonical_bytes sample_lib (manifest_bytes sample_lib
     \<lparr>mf_schema = ''001'', mf_entries = [sample_ref 1, sample_ref 2]\<rparr>) =
   Inr \<lparr>mf_schema = ''001'', mf_entries = [sample_ref 1, sample_ref 2]\<rparr>"
proof -
  have "list_all good_ref [sample_ref 1, sample_ref 2]"
    by (simp add: good_ref_def good_value_def sample_ref_def)
  moreover have "sorted_wrt (<) (map (range_key sample_lib) [sample_ref 1, sample_ref 2])"
    by (simp add: range_key_def sample_ref_def less_prod_def less_pk_key_def)
  ultimately show ?thesis
    using manifest_roundtrip [OF sample_json, of "\<lparr>mf_schema = ''001'', mf_entries = [sample_ref 1, sample_ref 2]\<rparr>"]
    by simp
qed

text \<open>
  \<open>push\<close> keeps the entries sorted and loses none, but it puts a new reference before the
  older ones with the same table and lower key. So when a segment that starts at the same
  key is pushed later and does not end below the earlier one, the manifest is one that
  \<open>from_canonical_bytes\<close> refuses.
\<close>

theorem push_reverses_equal_keys:
  assumes "push_sorted L (mf_entries m)" "e \<in> set (mf_entries m)" "push_key L e = push_key L r"
    and "\<not> pk_sort_key L (sr_pk_hi r) < pk_sort_key L (sr_pk_hi e)"
  shows "push_sorted L (mf_entries (manifest_push L r m)) \<and>
         mset (mf_entries (manifest_push L r m)) = add_mset r (mset (mf_entries m)) \<and>
         (\<exists>as bs. mf_entries (manifest_push L r m) = as @ r # bs \<and> e \<in> set bs) \<and>
         validate_invariants L (manifest_push L r m) \<noteq> Inr ()"
proof (intro conjI)
  let ?es = "mf_entries m"
  let ?lt = "\<lambda>x. push_key L x < push_key L r"
  show "push_sorted L (mf_entries (manifest_push L r m))"
    using assms(1) by (simp add: manifest_push_def insert_before_sorted)
  show "mset (mf_entries (manifest_push L r m)) = add_mset r (mset ?es)"
    by (simp add: manifest_push_def mset_insert_before)
  have "e \<in> set (dropWhile ?lt ?es)"
    using assms(2, 3) set_takeWhileD [of e ?lt ?es] takeWhile_dropWhile_id [of ?lt ?es]
    by (metis Un_iff order_less_irrefl set_append)
  then show split: "\<exists>as bs. mf_entries (manifest_push L r m) = as @ r # bs \<and> e \<in> set bs"
    unfolding manifest_push_def insert_before_split by auto
  then obtain as bs where "mf_entries (manifest_push L r m) = as @ r # bs" "e \<in> set bs" by blast
  then have "sorted_wrt (<) (map (range_key L) (mf_entries (manifest_push L r m))) \<longrightarrow> range_key L r < range_key L e"
    by (auto simp: sorted_wrt_append)
  moreover have "\<not> range_key L r < range_key L e"
    using assms(3, 4) by (auto simp: range_key_def push_key_def less_prod_def)
  ultimately show "validate_invariants L (manifest_push L r m) \<noteq> Inr ()"
    by (auto simp: validate_invariants_def check_windows_iff)
qed

theorem push_reverses_equal_keys_witness:
  "validate_invariants sample_lib (manifest_push sample_lib (sample_ref 1)
     (manifest_push sample_lib (sample_ref 1) (manifest_new ''001''))) \<noteq> Inr ()"
  using push_reverses_equal_keys [of sample_lib "manifest_push sample_lib (sample_ref 1) (manifest_new ''001'')"
      "sample_ref 1" "sample_ref 1"]
  by (simp add: manifest_push_def manifest_new_def push_sorted_def)

end
