(* ===== verification/Memory_Adapter.thy ===== *)
theory Memory_Adapter
  imports Segments
begin

text \<open>
  The memory backend's interface (\<open>adapter.rs\<close>) and its in-memory implementation
  (\<open>in_memory.rs\<close>). The trait is a record of actions; its laws are the locale
  \<open>memory_adapter\<close>. The state of the in-memory adapter is paired with the world of the object
  store it writes to; its \<open>HashMap\<close> of tables is kept in name order, the order in which
  \<open>snapshot\<close> visits it. A restore guard is the window between \<open>ad_begin_restore\<close> and
  \<open>ad_end_restore\<close>, the guard's drop.
\<close>

section \<open>The trait\<close>

text \<open>A user table under version control.\<close>

record tracked_table =
  tt_name :: string
  tt_pk :: string

record snapshot_handle =
  sh_manifest :: segment_manifest
  sh_schema :: string

record migration_step =
  ms_name :: string
  ms_sql :: string

record 's mem_ops =
  ad_snapshot :: "('s, mem_error, snapshot_handle) act"
  ad_current_schema :: "('s, mem_error, string) act"
  ad_migrations_after :: "string \<Rightarrow> ('s, mem_error, string list) act"
  ad_begin_restore :: "('s, mem_error, unit) act"
  ad_end_restore :: "'s \<Rightarrow> 's"
  ad_restore_with_guard :: "snapshot_handle \<Rightarrow> ('s, mem_error, unit) act"
  ad_apply_reverse :: "migration_step list \<Rightarrow> ('s, mem_error, unit) act"

text \<open>\<open>schema\<close> reads the live schema version; \<open>ok\<close> is what the backend keeps true.\<close>

locale memory_adapter =
  fixes M :: "'s mem_ops" and ok :: "'s \<Rightarrow> bool" and schema :: "'s \<Rightarrow> string"
  assumes after_ok: "preserves ok (ad_migrations_after M v)"
    and reverse_ok: "preserves ok (ad_apply_reverse M steps)"
    and begin_ok: "preserves ok (ad_begin_restore M)"
    and after_keeps: "keeps (\<lambda>s t. schema t = schema s) (ad_migrations_after M v)"
    and begin_keeps: "keeps (\<lambda>s t. schema t = schema s) (ad_begin_restore M)"
    and snapshot_schema: "ok s \<Longrightarrow> ad_snapshot M s = (Inr h, t) \<Longrightarrow> sh_schema h = schema s"
    and current_schema: "ok s \<Longrightarrow> ad_current_schema M s = (Inr v, t) \<Longrightarrow> v = schema s \<and> schema t = schema s"
    and reversed: "ok s \<Longrightarrow> ad_migrations_after M v s = (Inr ns, t) \<Longrightarrow> map ms_name steps = ns \<Longrightarrow>
          ad_apply_reverse M steps t = (Inr (), u) \<Longrightarrow> schema u = v"
    and reverse_atomic: "ok s \<Longrightarrow> ad_apply_reverse M steps s = (Inl e, t) \<Longrightarrow> schema t = schema s"
    and gate: "ok s \<Longrightarrow> schema s \<noteq> sh_schema h \<Longrightarrow> \<exists>t. ad_restore_with_guard M h s = (Inl (SchemaMismatch (schema s) (sh_schema h)), t) \<and> schema t = schema s"
    and gate_only: "ok s \<Longrightarrow> ad_restore_with_guard M h s = (Inl (SchemaMismatch a b), t) \<Longrightarrow> schema s \<noteq> sh_schema h"
begin

text \<open>Once the migrations after the target are reversed, the restore's schema gate is open.\<close>

lemma no_mismatch_after_reverse:
  assumes "ok s" "ad_migrations_after M (sh_schema h) s = (Inr ns, s1)" "map ms_name steps = ns"
    "ad_apply_reverse M steps s1 = (Inr (), s2)" "ad_begin_restore M s2 = (Inr (), s3)"
  shows "fst (ad_restore_with_guard M h s3) \<noteq> Inl (SchemaMismatch a b)"
proof
  assume "fst (ad_restore_with_guard M h s3) = Inl (SchemaMismatch a b)"
  then obtain t where "ad_restore_with_guard M h s3 = (Inl (SchemaMismatch a b), t)"
    by (metis prod.collapse)
  moreover have "ok s3"
    using preservesD [OF begin_ok preservesD [OF reverse_ok preservesD [OF after_ok assms(1, 2)] assms(4)] assms(5)] .
  moreover have "schema s3 = schema s2" using keepsD [OF begin_keeps assms(5)] .
  moreover have "schema s2 = sh_schema h" by (rule reversed [OF assms(1-4)])
  ultimately show False using gate_only [of s3 h a b t] by simp
qed

end

section \<open>State of the in-memory adapter\<close>

record im_state =
  im_schema :: string
  im_tables :: "(string \<times> json list) list"
  im_applied :: "string list"

definition baseline :: string where
  "baseline = ''0.0.0''"

definition im_new :: im_state where
  "im_new = \<lparr>im_schema = baseline, im_tables = [], im_applied = []\<rparr>"

definition im_set_schema_version :: "string \<Rightarrow> im_state \<Rightarrow> im_state" where
  "im_set_schema_version v s = s\<lparr>im_schema := v\<rparr>"

definition im_apply_migration :: "string \<Rightarrow> im_state \<Rightarrow> im_state" where
  "im_apply_migration n s = s\<lparr>im_applied := im_applied s @ [n], im_schema := n\<rparr>"

definition im_rows_of :: "string \<Rightarrow> im_state \<Rightarrow> json list" where
  "im_rows_of t s = (case map_of (im_tables s) t of None \<Rightarrow> [] | Some rows \<Rightarrow> rows)"

text \<open>\<open>entry(table).or_default().rows.extend(rows)\<close>.\<close>

definition extend_rows :: "string \<Rightarrow> json list \<Rightarrow> (string \<times> json list) list \<Rightarrow> (string \<times> json list) list" where
  "extend_rows t rows ts = bt_insert t ((case map_of ts t of None \<Rightarrow> [] | Some r \<Rightarrow> r) @ rows) ts"

definition im_insert_rows :: "string \<Rightarrow> json list \<Rightarrow> im_state \<Rightarrow> im_state" where
  "im_insert_rows t rows s = s\<lparr>im_tables := extend_rows t rows (im_tables s)\<rparr>"

section \<open>Operations\<close>

type_synonym 'w im = "'w \<times> im_state"

definition on_world :: "('w, core_error, 'a) act \<Rightarrow> ('w im, mem_error, 'a) act" where
  "on_world m = (\<lambda>(w, s). case m w of (r, w') \<Rightarrow> (map_err MemCore r, (w', s)))"

definition table_segment :: "string \<Rightarrow> string \<Rightarrow> json list \<Rightarrow> segment" where
  "table_segment sv t rows =
     \<lparr>sg_table = t, sg_schema = sv, sg_pk_lo = JNull, sg_pk_hi = JNull,
      sg_row_count = of_nat (length rows), sg_rows = rows, sg_embeddings = [], sg_metadata = []\<rparr>"

definition table_ref :: "string \<Rightarrow> hash \<Rightarrow> json list \<Rightarrow> segment_ref" where
  "table_ref t h rows =
     \<lparr>sr_table = t, sr_pk_lo = JNull, sr_pk_hi = JNull, sr_segment = h,
      sr_row_count = of_nat (length rows)\<rparr>"

fun snapshot_tables :: "lib \<Rightarrow> 'w store_ops \<Rightarrow> string \<Rightarrow> (string \<times> json list) list \<Rightarrow>
    segment_manifest \<Rightarrow> ('w, core_error, segment_manifest) act" where
  "snapshot_tables L S sv [] m = ret m"
| "snapshot_tables L S sv ((t, rows) # ts) m =
     (if rows = [] then snapshot_tables L S sv ts m
      else bindA (st_put_raw S KSegment (segment_bytes L (table_segment sv t rows))) (\<lambda>h.
           snapshot_tables L S sv ts (manifest_push L (table_ref t h rows) m)))"

definition im_snapshot :: "lib \<Rightarrow> 'w store_ops \<Rightarrow> ('w im, mem_error, snapshot_handle) act" where
  "im_snapshot L S = (\<lambda>(w, s).
     bindA (on_world (snapshot_tables L S (im_schema s) (im_tables s) (manifest_new (im_schema s)))) (\<lambda>m.
     ret \<lparr>sh_manifest = m, sh_schema = im_schema s\<rparr>) (w, s))"

definition im_current_schema :: "('w im, mem_error, string) act" where
  "im_current_schema = (\<lambda>(w, s). (Inr (im_schema s), (w, s)))"

fun position :: "'a \<Rightarrow> 'a list \<Rightarrow> nat option" where
  "position x [] = None"
| "position x (y # ys) = (if y = x then Some 0 else map_option Suc (position x ys))"

definition migrations_after :: "string \<Rightarrow> im_state \<Rightarrow> mem_error + string list" where
  "migrations_after v s =
     (if v = baseline then Inr (rev (im_applied s))
      else case position v (im_applied s) of
        Some i \<Rightarrow> Inr (rev (drop (i + 1) (im_applied s)))
      | None \<Rightarrow> if v = im_schema s then Inr [] else Inl (MemOther ''unknown target schema version''))"

definition im_migrations_after :: "string \<Rightarrow> ('w im, mem_error, string list) act" where
  "im_migrations_after v = (\<lambda>(w, s). (migrations_after v s, (w, s)))"

definition im_begin_restore :: "('w im, mem_error, unit) act" where
  "im_begin_restore = ret ()"

fun restore_tables :: "lib \<Rightarrow> 'w store_ops \<Rightarrow> segment_ref list \<Rightarrow> (string \<times> json list) list \<Rightarrow>
    ('w, mem_error, (string \<times> json list) list) act" where
  "restore_tables L S [] ts = ret ts"
| "restore_tables L S (e # es) ts =
     bindA (map_errA MemCore (st_get_raw S (sr_segment e))) (\<lambda>bs.
     case segment_parse L bs of
       None \<Rightarrow> fail (Backend ''decoding segment'')
     | Some g \<Rightarrow> restore_tables L S es (extend_rows (sr_table e) (sg_rows g) ts))"

definition im_restore_with_guard :: "lib \<Rightarrow> 'w store_ops \<Rightarrow> snapshot_handle \<Rightarrow> ('w im, mem_error, unit) act" where
  "im_restore_with_guard L S h = (\<lambda>(w, s).
     if im_schema s \<noteq> sh_schema h then (Inl (SchemaMismatch (im_schema s) (sh_schema h)), (w, s))
     else case restore_tables L S (mf_entries (sh_manifest h)) [] w of
       (Inl e, w') \<Rightarrow> (Inl e, (w', s))
     | (Inr ts, w') \<Rightarrow> (Inr (), (w', s\<lparr>im_tables := ts\<rparr>)))"

definition im_restore :: "lib \<Rightarrow> 'w store_ops \<Rightarrow> snapshot_handle \<Rightarrow> ('w im, mem_error, unit) act" where
  "im_restore L S h = bindA im_begin_restore (\<lambda>_. im_restore_with_guard L S h)"

text \<open>The steps must peel the applied migrations from the newest.\<close>

fun check_steps :: "string list \<Rightarrow> migration_step list \<Rightarrow> mem_error + unit" where
  "check_steps _ [] = Inr ()"
| "check_steps [] (m # ms) = Inl (MemOther ''step has no corresponding applied migration; state unchanged'')"
| "check_steps (a # as) (m # ms) =
     (if a = ms_name m then check_steps as ms
      else Inl (MemOther ''step does not match the most recent unreversed migration; state unchanged''))"

definition last_or_baseline :: "string list \<Rightarrow> string" where
  "last_or_baseline ns = (if ns = [] then baseline else last ns)"

definition apply_reverse_migrations :: "migration_step list \<Rightarrow> im_state \<Rightarrow> (mem_error + unit) \<times> im_state" where
  "apply_reverse_migrations steps s =
     (if steps = [] then (Inr (), s)
      else case check_steps (rev (im_applied s)) steps of
        Inl e \<Rightarrow> (Inl e, s)
      | Inr _ \<Rightarrow>
          let as = take (length (im_applied s) - length steps) (im_applied s) in
          (Inr (), s\<lparr>im_applied := as, im_schema := last_or_baseline as\<rparr>))"

definition im_apply_reverse :: "migration_step list \<Rightarrow> ('w im, mem_error, unit) act" where
  "im_apply_reverse steps = (\<lambda>(w, s). case apply_reverse_migrations steps s of (r, s') \<Rightarrow> (r, (w, s')))"

definition im_ops :: "lib \<Rightarrow> 'w store_ops \<Rightarrow> 'w im mem_ops" where
  "im_ops L S =
     \<lparr>ad_snapshot = im_snapshot L S, ad_current_schema = im_current_schema,
      ad_migrations_after = im_migrations_after, ad_begin_restore = im_begin_restore,
      ad_end_restore = (\<lambda>s. s), ad_restore_with_guard = im_restore_with_guard L S,
      ad_apply_reverse = im_apply_reverse\<rparr>"

section \<open>Migrations\<close>

text \<open>The live version is the newest applied migration: every operation but the test helper
  \<open>im_set_schema_version\<close> keeps it so.\<close>

definition im_ok :: "im_state \<Rightarrow> bool" where
  "im_ok s \<longleftrightarrow> im_schema s = last_or_baseline (im_applied s)"

lemma im_ok_operations:
  "im_ok im_new" "im_ok (im_apply_migration n s)" "im_ok s \<Longrightarrow> im_ok (im_insert_rows t rows s)"
  "im_ok s \<Longrightarrow> im_ok (snd (apply_reverse_migrations steps s))"
  by (simp_all add: im_ok_def im_new_def last_or_baseline_def im_apply_migration_def im_insert_rows_def
      apply_reverse_migrations_def Let_def split: sum.splits)

lemma im_ok_reverse: "apply_reverse_migrations steps s = (r, t) \<Longrightarrow> im_ok s \<Longrightarrow> im_ok t"
  using im_ok_operations(4) [of s steps] by simp

lemma check_steps_iff: "check_steps as ms = Inr () \<longleftrightarrow> map ms_name ms = take (length ms) as"
  by (induction as ms rule: check_steps.induct) auto

lemma check_steps_length: "check_steps as ms = Inr () \<Longrightarrow> length ms \<le> length as"
  by (induction as ms rule: check_steps.induct) (auto split: if_splits)

lemma position_Some: "position x xs = Some i \<Longrightarrow> i < length xs \<and> xs ! i = x"
  by (induction xs arbitrary: i) (auto split: if_splits)

lemma apply_reverse_ok:
  assumes "check_steps (rev (im_applied s)) steps = Inr ()" "im_ok s"
  shows "apply_reverse_migrations steps s =
     (let as = take (length (im_applied s) - length steps) (im_applied s)
      in (Inr (), s\<lparr>im_applied := as, im_schema := last_or_baseline as\<rparr>))"
  using assms by (cases s) (auto simp: apply_reverse_migrations_def im_ok_def)

lemma apply_reverse_error: "apply_reverse_migrations steps s = (Inl e, t) \<Longrightarrow> t = s"
  by (auto simp: apply_reverse_migrations_def Let_def split: if_splits sum.splits)

text \<open>The migrations after a version are the newest ones, down to that version.\<close>

lemma migrations_after_suffix:
  assumes "migrations_after v s = Inr ns" "im_ok s"
  obtains as where "im_applied s = as @ rev ns" "last_or_baseline as = v"
proof (cases "v = baseline")
  case True
  with assms have "im_applied s = [] @ rev ns" by (auto simp: migrations_after_def)
  with True that [of "[]"] show thesis by (simp add: last_or_baseline_def)
next
  case False
  show thesis
  proof (cases "position v (im_applied s)")
    case None
    with assms False that [of "im_applied s"] show thesis
      by (auto simp: migrations_after_def im_ok_def split: if_splits)
  next
    case (Some i)
    have "last (take (Suc i) (im_applied s)) = v"
      using position_Some [OF Some] by (simp add: take_Suc_conv_app_nth)
    moreover have "take (Suc i) (im_applied s) \<noteq> []" using position_Some [OF Some] by auto
    moreover have "rev ns = drop (Suc i) (im_applied s)"
      using assms(1) False Some by (auto simp: migrations_after_def)
    ultimately show thesis
      using that [of "take (Suc i) (im_applied s)"] by (simp add: last_or_baseline_def)
  qed
qed

lemma reverse_reaches:
  assumes "im_ok s" "migrations_after v s = Inr ns" "map ms_name steps = ns"
  obtains as where "im_applied s = as @ rev ns" "last_or_baseline as = v"
    "apply_reverse_migrations steps s = (Inr (), s\<lparr>im_applied := as, im_schema := v\<rparr>)"
proof -
  obtain as where as: "im_applied s = as @ rev ns" "last_or_baseline as = v"
    by (rule migrations_after_suffix [OF assms(2, 1)])
  have "length steps = length ns" using assms(3) by auto
  with as assms(3) have "check_steps (rev (im_applied s)) steps = Inr ()"
    by (simp add: check_steps_iff)
  from apply_reverse_ok [OF this assms(1)] as \<open>length steps = length ns\<close> that show thesis
    by (simp add: Let_def)
qed

lemma restore_tables_error:
  "restore_tables L S es ts w = (Inl e, u) \<Longrightarrow> e \<noteq> SchemaMismatch a b"
  by (induction es arbitrary: ts w)
    (auto simp: bindA_def map_errA_def map_err_def split: prod.splits sum.splits option.splits)

lemma preserves_im: "(\<And>w s. I (w, s) \<Longrightarrow> I (snd (m (w, s)))) \<Longrightarrow> preserves I m"
  by (auto simp: preserves_def)

text \<open>The in-memory adapter keeps the contract, over any object store.\<close>

interpretation im: memory_adapter "im_ops L S" "\<lambda>(w, s). im_ok s" "\<lambda>(w, s). im_schema s" for L S
proof
  fix steps s e t assume "ad_apply_reverse (im_ops L S) steps s = (Inl e, t)"
  then show "(case t of (w, s) \<Rightarrow> im_schema s) = (case s of (w, s) \<Rightarrow> im_schema s)"
    by (cases s) (auto simp: im_ops_def im_apply_reverse_def dest: apply_reverse_error split: prod.splits)
next
  fix s v ns t steps u
  assume *: "case s of (w, s) \<Rightarrow> im_ok s" "ad_migrations_after (im_ops L S) v s = (Inr ns, t)"
    "map ms_name steps = ns" "ad_apply_reverse (im_ops L S) steps t = (Inr (), u)"
  obtain w s' where s: "s = (w, s')" by (cases s)
  with * have a: "im_ok s'" "migrations_after v s' = Inr ns" "t = s"
    by (auto simp: im_ops_def im_migrations_after_def)
  show "(case u of (w, s) \<Rightarrow> im_schema s) = v"
    by (rule reverse_reaches [OF a(1, 2) *(3)]) (use * s a(3) in \<open>auto simp: im_ops_def im_apply_reverse_def\<close>)
next
  fix steps
  show "preserves (\<lambda>(w, s). im_ok s) (ad_apply_reverse (im_ops L S) steps)"
    by (auto simp: im_ops_def im_apply_reverse_def intro!: preserves_im dest: im_ok_reverse split: prod.splits)
next
  fix s h a b t
  assume "ad_restore_with_guard (im_ops L S) h s = (Inl (SchemaMismatch a b), t)"
  then show "(case s of (w, s) \<Rightarrow> im_schema s) \<noteq> sh_schema h"
    by (auto simp: im_ops_def im_restore_with_guard_def dest: restore_tables_error
      split: prod.splits sum.splits if_splits)
qed (auto simp: im_ops_def im_apply_reverse_def im_migrations_after_def im_begin_restore_def im_snapshot_def
    im_current_schema_def im_restore_with_guard_def im_ok_operations keeps_def bindA_ok_iff on_world_def
    intro!: preserves_im pres_intros split: prod.splits sum.splits)

section \<open>Snapshots\<close>

text \<open>A put makes no other address exist.\<close>

definition only_at :: "nat \<Rightarrow> path set \<Rightarrow> fs \<Rightarrow> fs \<Rightarrow> bool" where
  "only_at n P s t \<longleftrightarrow>
     (\<forall>q. n \<le> length q \<longrightarrow> q \<notin> P \<longrightarrow> map_of (entries t) q = map_of (entries s) q)"

lemma only_at_rel: "reflp (only_at n P)" "transp (only_at n P)"
  by (auto simp: only_at_def reflp_def transp_def)

lemma keeps_prim_at:
  "(\<And>k es q. n \<le> length q \<Longrightarrow> q \<notin> P \<Longrightarrow> map_of (torn k es) q = map_of es q) \<Longrightarrow>
   (\<And>es q. n \<le> length q \<Longrightarrow> q \<notin> P \<Longrightarrow> map_of (snd (f es)) q = map_of es q) \<Longrightarrow>
     keeps (only_at n P) (prim torn f)"
  unfolding keeps_def only_at_def by (metis prim_cases)

lemma mkdirs_shallow: "length p < length q \<Longrightarrow> map_of (snd (mkdirs es [] p)) q = map_of es q"
  using mkdirs_long [of es "[]" p] by (cases "mkdirs es [] p") simp

lemma replace_file_only_at:
  assumes "p \<noteq> []"
  shows "keeps (only_at (length p) {p, with_extension p ''tmp''}) (replace_file p bs)"
proof -
  have 1: "map_of (snd (mkdirs es [] cs)) q = map_of es q"
    if "length p \<le> length q" "length cs \<le> length p - 1" for es cs q
  proof (rule mkdirs_shallow)
    have "0 < length p" using assms by simp
    with that show "length cs < length q" by linarith
  qed
  show ?thesis
    unfolding replace_file_def fs_create_dir_all_def fs_write_def fs_rename_def
    by (intro keeps_bindA only_at_rel keeps_prim_at) (auto simp: whole_def 1 split: option.splits)
qed

lemma put_raw_elsewhere:
  assumes "hex_law L" "put_raw L st k bs s = (r, t)" "path_exists t (path_for L st h)" "h \<noteq> hash_of L bs"
  shows "path_exists s (path_for L st h)"
proof -
  let ?p = "path_for L st (hash_of L bs)"
  have "keeps (only_at (length ?p) {?p, with_extension ?p ''tmp''}) (write_if_absent L ?p bs)"
    using replace_file_only_at [of ?p "zstd L bs"]
    by (auto simp: keeps_def write_if_absent_def write_at_def only_at_def)
  then have "keeps (only_at (length ?p) {?p, with_extension ?p ''tmp''}) (put_raw L st k bs)"
    unfolding put_raw_def Let_def
    by (intro keeps_bindA only_at_rel) (auto intro: keeps_basic only_at_rel)
  then have "only_at (length ?p) {?p, with_extension ?p ''tmp''} s t" using assms(2) by (rule keepsD)
  moreover have "path_for L st h \<noteq> ?p" "path_for L st h \<noteq> with_extension ?p ''tmp''"
    using assms(1, 4) path_for_inj tmp_not_path_for by metis+
  moreover have "length ?p = length (path_for L st h)" by (simp add: path_for_eq)
  ultimately have "map_of (entries t) (path_for L st h) = map_of (entries s) (path_for L st h)"
    by (auto simp: only_at_def)
  with assms(3) show ?thesis by (simp add: path_exists_def lookup_map_of)
qed

locale fresh_store = object_store L S inv calm held
  for L :: lib and S :: "'w store_ops" and inv calm held +
  assumes put_raw_fresh: "inv s \<Longrightarrow> st_put_raw S k bs s = (r, t) \<Longrightarrow> fst (st_has S h t) \<Longrightarrow>
      h = hash_of L bs \<or> fst (st_has S h s)"
    and json_ok: "json_law L"
begin

abbreviation bytes_of :: "string \<Rightarrow> string \<times> json list \<Rightarrow> bytes" where
  "bytes_of sv p \<equiv> segment_bytes L (table_segment sv (fst p) (snd p))"

abbreviation addr_of :: "string \<Rightarrow> string \<times> json list \<Rightarrow> hash" where
  "addr_of sv p \<equiv> hash_of L (bytes_of sv p)"

abbreviation ref_of :: "string \<Rightarrow> string \<times> json list \<Rightarrow> segment_ref" where
  "ref_of sv p \<equiv> table_ref (fst p) (addr_of sv p) (snd p)"

lemma snapshot_tables_nonempty:
  "snapshot_tables L S sv ps m = snapshot_tables L S sv (filter (\<lambda>p. snd p \<noteq> []) ps) m"
  by (induction L S sv ps m rule: snapshot_tables.induct) (auto intro!: arg_cong2 [where f = bindA])

lemma snapshot_tables_holds:
  "inv w \<Longrightarrow> calm w \<Longrightarrow> distinct (map (addr_of sv) ps) \<Longrightarrow> \<forall>p\<in>set ps. snd p \<noteq> [] \<Longrightarrow>
     \<forall>p\<in>set ps. \<not> fst (st_has S (addr_of sv p) w) \<Longrightarrow> snapshot_tables L S sv ps m w = (Inr m', w') \<Longrightarrow>
     inv w' \<and> calm w' \<and> (\<forall>p\<in>set ps. held w' (addr_of sv p) (bytes_of sv p)) \<and>
     (\<forall>h b. held w h b \<longrightarrow> held w' h b) \<and>
     m' = foldl (\<lambda>m p. manifest_push L (ref_of sv p) m) m ps"
proof (induction ps arbitrary: w m)
  case (Cons p ps)
  obtain t rows where p: "p = (t, rows)" by (cases p)
  with Cons.prems obtain h u where u: "st_put_raw S KSegment (bytes_of sv p) w = (Inr h, u)"
    and r: "snapshot_tables L S sv ps (manifest_push L (table_ref t h rows) m) u = (Inr m', w')"
    by (auto simp: bindA_ok_iff)
  have h: "h = addr_of sv p" and held: "held u h (bytes_of sv p)"
    using put_raw_result [OF Cons.prems(1) u] Cons.prems(5) by auto
  have "inv u" "calm u"
    using preservesD [OF put_raw_inv Cons.prems(1) u] preservesD [OF put_raw_calm Cons.prems(2) u] .
  moreover have "\<not> fst (st_has S (addr_of sv q) u)" if "q \<in> set ps" for q
  proof -
    have "addr_of sv q \<noteq> addr_of sv p" using Cons.prems(3) that by (auto intro: rev_image_eqI)
    with put_raw_fresh [OF Cons.prems(1) u, of "addr_of sv q"] Cons.prems(5) that show ?thesis by auto
  qed
  ultimately have IH: "inv w' \<and> calm w' \<and> (\<forall>p\<in>set ps. held w' (addr_of sv p) (bytes_of sv p)) \<and>
     (\<forall>h b. held u h b \<longrightarrow> held w' h b) \<and>
     m' = foldl (\<lambda>m p. manifest_push L (ref_of sv p) m) (manifest_push L (table_ref t h rows) m) ps"
    using Cons.IH [OF _ _ _ _ _ r] Cons.prems(3, 4) by simp
  moreover have "held w k b \<Longrightarrow> held u k b" for k b
    using put_raw_holds [OF Cons.prems(1), of k b KSegment "bytes_of sv p"] u by simp
  ultimately show ?case using h held p by auto
qed auto

lemma insert_before_last:
  "(\<And>x. x \<in> set es \<Longrightarrow> push_key L x < push_key L r) \<Longrightarrow> insert_before L r es = es @ [r]"
  by (simp add: insert_before_split takeWhile_eq_all_conv dropWhile_eq_Nil_conv)

lemma good_null [simp]: "good_value JNull"
  by (simp add: good_value_def)

lemma push_tables:
  "bt_ok ps \<Longrightarrow> foldl (\<lambda>m p. manifest_push L (ref_of sv p) m) (manifest_new v) ps =
     \<lparr>mf_schema = v, mf_entries = map (ref_of sv) ps\<rparr>"
proof (induction ps rule: rev_induct)
  case (snoc p ps)
  have "bt_ok ps" using snoc.prems by (simp add: bt_ok_def sorted_wrt_append)
  moreover have "push_key L x < push_key L (ref_of sv p)" if "x \<in> ref_of sv ` set ps" for x
    using that snoc.prems by (auto simp: push_key_def table_ref_def less_prod_def bt_ok_def sorted_wrt_append)
  ultimately show ?case
    using snoc.IH insert_before_last [of "map (ref_of sv) ps"] by (simp add: manifest_push_def)
qed (simp add: manifest_new_def)

lemma extend_rows_snoc:
  assumes "bt_ok (ps @ [(t, rows)])"
  shows "extend_rows t rows ps = ps @ [(t, rows)]"
proof -
  have "map_of ps t = None"
    using bt_ok_distinct [OF assms] by (simp add: map_of_eq_None_iff)
  with assms show ?thesis by (simp add: extend_rows_def bt_insert_snoc)
qed

lemma restore_tables_holds:
  "inv w \<Longrightarrow> calm w \<Longrightarrow> \<forall>p\<in>set ps. held w (addr_of sv p) (bytes_of sv p) \<and> list_all good_value (snd p) \<Longrightarrow>
     bt_ok (qs @ ps) \<Longrightarrow>
     \<exists>u. restore_tables L S (map (ref_of sv) ps) qs w = (Inr (qs @ ps), u)"
proof (induction ps arbitrary: w qs)
  case (Cons p ps)
  have g: "segment_parse L (bytes_of sv p) = Some (table_segment sv (fst p) (snd p))"
    using Cons.prems(3) json_ok
    by (intro segment_parse_bytes) (auto simp: table_segment_def)
  obtain u where u: "st_get_raw S (addr_of sv p) w = (Inr (bytes_of sv p), u)" "calm u"
    using get_raw_held [OF Cons.prems(1, 2)] Cons.prems(3) by (metis list.set_intros(1))
  have "inv u" by (rule preservesD [OF get_raw_inv Cons.prems(1) u(1)])
  moreover have "held w h b \<Longrightarrow> held u h b" for h b
    using get_raw_holds [OF Cons.prems(1), of h b "addr_of sv p"] u by simp
  moreover have "bt_ok ((qs @ [p]) @ ps)" "bt_ok (qs @ [p])"
    using Cons.prems(4) by (simp_all add: bt_ok_def sorted_wrt_append)
  ultimately obtain v where "restore_tables L S (map (ref_of sv) ps) (qs @ [p]) u = (Inr (qs @ p # ps), v)"
    using Cons.IH [of u "qs @ [p]"] Cons.prems(3) u(2) by auto
  moreover have "extend_rows (fst p) (snd p) qs = qs @ [p]"
    using \<open>bt_ok (qs @ [p])\<close> extend_rows_snoc [of qs "fst p" "snd p"] by simp
  ultimately show ?case using u g by (simp add: table_ref_def table_segment_def)
qed simp

end

lemma im_snapshot_okE:
  assumes "im_snapshot L S (w, s) = (Inr h, (w', s'))"
  obtains m where "snapshot_tables L S (im_schema s) (im_tables s) (manifest_new (im_schema s)) w = (Inr m, w')"
    "h = \<lparr>sh_manifest = m, sh_schema = im_schema s\<rparr>" "s' = s"
proof (cases "snapshot_tables L S (im_schema s) (im_tables s) (manifest_new (im_schema s)) w")
  case (Pair r u)
  then have 1: "on_world (snapshot_tables L S (im_schema s) (im_tables s) (manifest_new (im_schema s))) (w, s)
      = (map_err MemCore r, (u, s))"
    by (simp add: on_world_def)
  show thesis
  proof (cases r)
    case (Inl e)
    with assms 1 show thesis by (simp add: im_snapshot_def bindA_def)
  next
    case (Inr m)
    have "h = \<lparr>sh_manifest = m, sh_schema = im_schema s\<rparr> \<and> s' = s \<and> w' = u"
      using assms 1 Inr by (auto simp: im_snapshot_def bindA_def)
    then show thesis using that Pair Inr by blast
  qed
qed

lemma local_fresh_store:
  assumes "hex_law L" "zstd_law L" "json_law L"
  shows "fresh_store L (fs_store_ops L st) (\<lambda>_. True) quiet (stored L st)"
proof (rule fresh_store.intro [OF fs_store_contract [OF assms(1, 2)]], unfold_locales)
  fix s k bs r t h
  assume "st_put_raw (fs_store_ops L st) k bs s = (r, t)" "fst (st_has (fs_store_ops L st) h t)"
  then show "h = hash_of L bs \<or> fst (st_has (fs_store_ops L st) h s)"
    using put_raw_elsewhere [OF assms(1), of st k bs s r t h] by (auto simp: fs_store_ops_def store_has_def)
qed (rule assms(3))

sublocale lib_laws < local_fresh: fresh_store L "fs_store_ops L st" "\<lambda>_. True" quiet "stored L st" for st
  by (rule local_fresh_store) (rule hex zstd json)+

definition table_addr :: "lib \<Rightarrow> string \<Rightarrow> string \<times> json list \<Rightarrow> hash" where
  "table_addr L sv p = hash_of L (segment_bytes L (table_segment sv (fst p) (snd p)))"

definition full_tables :: "(string \<times> json list) list \<Rightarrow> (string \<times> json list) list" where
  "full_tables ts = filter (\<lambda>p. snd p \<noteq> []) ts"

lemma bt_ok_filter: "bt_ok ts \<Longrightarrow> bt_ok (filter P ts)"
  by (simp add: bt_ok_def sorted_wrt_map sorted_wrt_filter)

context lib_laws
begin

lemma local_snapshot_restore:
  assumes "quiet w" "bt_ok (im_tables s)" "\<forall>p\<in>set (im_tables s). list_all good_value (snd p)"
    and "distinct (map (table_addr L (im_schema s)) (full_tables (im_tables s)))"
    and "\<forall>p\<in>set (full_tables (im_tables s)). \<not> path_exists w (path_for L st (table_addr L (im_schema s) p))"
    and "im_snapshot L (fs_store_ops L st) (w, s) = (Inr h, (w', s'))"
  shows "s' = s \<and> sh_schema h = im_schema s \<and>
     sh_manifest h = \<lparr>mf_schema = im_schema s, mf_entries =
       map (\<lambda>p. table_ref (fst p) (table_addr L (im_schema s) p) (snd p)) (full_tables (im_tables s))\<rparr> \<and>
     (im_schema z = im_schema s \<longrightarrow> (\<exists>w''. im_restore L (fs_store_ops L st) h (w', z) =
        (Inr (), (w'', z\<lparr>im_tables := full_tables (im_tables s)\<rparr>))))"
proof -
  let ?S = "fs_store_ops L st" and ?ps = "full_tables (im_tables s)" and ?sv = "im_schema s"
  obtain m where m0: "snapshot_tables L ?S ?sv (im_tables s) (manifest_new ?sv) w = (Inr m, w')"
    and h: "h = \<lparr>sh_manifest = m, sh_schema = ?sv\<rparr>" and s': "s' = s"
    by (rule im_snapshot_okE [OF assms(6)])
  have m: "snapshot_tables L ?S ?sv ?ps (manifest_new ?sv) w = (Inr m, w')"
    using m0 unfolding full_tables_def local_fresh.snapshot_tables_nonempty [of st ?sv "im_tables s", symmetric] .
  have free: "\<forall>p\<in>set ?ps. \<not> fst (st_has ?S (table_addr L ?sv p) w)"
    using assms(5) by (simp add: fs_store_ops_def store_has_def)
  have full: "\<forall>p\<in>set ?ps. snd p \<noteq> []" by (simp add: full_tables_def)
  note holds = local_fresh.snapshot_tables_holds [OF TrueI assms(1) assms(4) [unfolded table_addr_def]
      full free [unfolded table_addr_def] m]
  have w': "quiet w'" "\<forall>p\<in>set ?ps. stored L st w' (table_addr L ?sv p) (segment_bytes L (table_segment ?sv (fst p) (snd p)))"
    unfolding table_addr_def using holds by blast+
  have m': "m = foldl (\<lambda>m p. manifest_push L (table_ref (fst p) (table_addr L ?sv p) (snd p)) m) (manifest_new ?sv) ?ps"
    unfolding table_addr_def using holds by blast
  have ok: "bt_ok ?ps" using assms(2) by (simp add: full_tables_def bt_ok_filter)
  have man: "m = \<lparr>mf_schema = ?sv, mf_entries = map (\<lambda>p. table_ref (fst p) (table_addr L ?sv p) (snd p)) ?ps\<rparr>"
    unfolding m' unfolding table_addr_def by (rule local_fresh.push_tables [OF ok])
  have "\<forall>p\<in>set ?ps. list_all good_value (snd p)" using assms(3) by (simp add: full_tables_def)
  then obtain u where "restore_tables L ?S (mf_entries m) [] w' = (Inr ?ps, u)"
    using local_fresh.restore_tables_holds [OF TrueI w'(1), where ps = ?ps and sv = ?sv and qs = "[]" and st = st]
      w'(2) ok unfolding man table_addr_def by auto
  then have "im_schema z = ?sv \<longrightarrow> im_restore L ?S h (w', z) = (Inr (), (u, z\<lparr>im_tables := ?ps\<rparr>))"
    by (simp add: im_restore_def im_begin_restore_def im_restore_with_guard_def h)
  with h s' man show ?thesis by auto
qed

end

section \<open>Properties\<close>


definition one_row :: im_state where
  "one_row = \<lparr>im_schema = ''001'', im_tables = [(''t'', [JNum (PosInt 7)])], im_applied = [''001'']\<rparr>"

definition row_store :: fs_store where
  "row_store = \<lparr>st_root = [''objects''], st_allow = [table_addr sample_lib ''001'' (''t'', [JNum (PosInt 7)])]\<rparr>"

lemma one_row_snapshot:
  obtains h w' where "im_snapshot sample_lib (fs_store_ops sample_lib row_store) (empty_fs, one_row) = (Inr h, (w', one_row))"
proof -
  let ?bs = "segment_bytes sample_lib (table_segment ''001'' ''t'' [JNum (PosInt 7)])"
  have "scan_gate row_store (hash_of sample_lib ?bs) (scan sample_lib ?bs) = Inr ()"
    by (simp add: scan_gate_def row_store_def allowlist_contains_def table_addr_def)
  then obtain t where "put_raw sample_lib row_store KSegment ?bs empty_fs = (Inr (hash_of sample_lib ?bs), t)"
    using put_raw_quiet [OF quiet_empty empty_replaceable [OF sample_hex]] by blast
  then show thesis
    using that by (simp add: im_snapshot_def on_world_def one_row_def fs_store_ops_def)
qed


text \<open>
  Reverse migrations are all or nothing, and reach the version asked for. While the live
  version is the newest applied migration, the plan \<open>migrations_after\<close> gives for a version,
  applied in its order, succeeds, leaves the tables alone, and makes that version live with the
  older migrations still applied; any list of steps that fails leaves the state unchanged, and
  one succeeds only when it names the newest applied migrations in order.
\<close>

theorem reverse_migrations_exact:
  assumes "im_ok s" "migrations_after v s = Inr ns"
  shows "(map ms_name steps = ns \<longrightarrow>
            (\<exists>as. im_applied s = as @ rev ns \<and>
                  apply_reverse_migrations steps s = (Inr (), s\<lparr>im_applied := as, im_schema := v\<rparr>))) \<and>
         (fst (apply_reverse_migrations any z) \<noteq> Inr () \<longrightarrow> snd (apply_reverse_migrations any z) = z) \<and>
         (fst (apply_reverse_migrations any z) = Inr () \<longrightarrow>
            map ms_name any = take (length any) (rev (im_applied z)))"
proof (intro conjI impI)
  assume "map ms_name steps = ns"
  then show "\<exists>as. im_applied s = as @ rev ns \<and>
      apply_reverse_migrations steps s = (Inr (), s\<lparr>im_applied := as, im_schema := v\<rparr>)"
    by (rule reverse_reaches [OF assms]) blast
next
  assume "fst (apply_reverse_migrations any z) \<noteq> Inr ()"
  then show "snd (apply_reverse_migrations any z) = z"
    by (auto simp: apply_reverse_migrations_def Let_def split: sum.splits)
next
  assume "fst (apply_reverse_migrations any z) = Inr ()"
  then show "map ms_name any = take (length any) (rev (im_applied z))"
    by (auto simp: apply_reverse_migrations_def Let_def simp flip: check_steps_iff split: sum.splits if_splits)
qed

theorem reverse_migrations_exact_witness:
  "apply_reverse_migrations [\<lparr>ms_name = ''003'', ms_sql = []\<rparr>, \<lparr>ms_name = ''002'', ms_sql = []\<rparr>]
     \<lparr>im_schema = ''003'', im_tables = [], im_applied = [''001'', ''002'', ''003'']\<rparr> =
   (Inr (), \<lparr>im_schema = ''001'', im_tables = [], im_applied = [''001'']\<rparr>)"
  using reverse_migrations_exact [of "\<lparr>im_schema = ''003'', im_tables = [], im_applied = [''001'', ''002'', ''003'']\<rparr>"
      "''001''" "[''003'', ''002'']" "[\<lparr>ms_name = ''003'', ms_sql = []\<rparr>, \<lparr>ms_name = ''002'', ms_sql = []\<rparr>]"]
  by (simp add: im_ok_def last_or_baseline_def migrations_after_def baseline_def)

end
