(* ===== verification/Wire.thy ===== *)
theory Wire
  imports Sample_Lib File_System
begin

text \<open>
  The wire protocol of the daemon (\<open>agentic-proto\<close>): the envelope, the requests and responses
  with their derived serde implementations, the version-0 shapes and their translation, and the
  length-prefixed framing. Base64 is third-party code, the record \<open>base64\<close>. A stream is the
  bytes still to be read and what follows them: the end of the stream or an I/O error.
\<close>

section \<open>Base64\<close>

record base64 =
  b64_enc :: "bytes \<Rightarrow> string"
  b64_dec :: "string \<Rightarrow> bytes option"

definition b64_law :: "base64 \<Rightarrow> bool" where
  "b64_law B \<longleftrightarrow> (\<forall>bs. b64_dec B (b64_enc B bs) = Some bs)"

definition b64_to_json :: "base64 \<Rightarrow> bytes \<Rightarrow> json" where
  "b64_to_json B bs = JStr (b64_enc B bs)"

definition b64_of_json :: "base64 \<Rightarrow> json \<Rightarrow> bytes option" where
  "b64_of_json B j = Option.bind (to_str j) (b64_dec B)"

section \<open>Envelope\<close>

definition protocol_version :: u16 where
  "protocol_version = 1"

definition default_protocol_version :: u16 where
  "default_protocol_version = 0"

record 'a envelope =
  env_id :: string
  env_version :: u16
  env_payload :: 'a

definition envelope_new :: "string \<Rightarrow> 'a \<Rightarrow> 'a envelope" where
  "envelope_new i p = \<lparr>env_id = i, env_version = protocol_version, env_payload = p\<rparr>"

definition of_u16 :: "u16 \<Rightarrow> json" where
  "of_u16 n = JNum (PosInt (ucast n))"

definition to_u16 :: "json \<Rightarrow> u16 option" where
  "to_u16 j = (case to_u64 j of Some n \<Rightarrow> if unat n < 2 ^ 16 then Some (ucast n) else None | None \<Rightarrow> None)"

definition envelope_to_json :: "('a \<Rightarrow> json) \<Rightarrow> 'a envelope \<Rightarrow> json" where
  "envelope_to_json f e = JObj
     [(''correlation_id'', JStr (env_id e)), (''protocol_version'', of_u16 (env_version e)),
      (''payload'', f (env_payload e))]"

definition envelope_of_json :: "(json \<Rightarrow> 'a option) \<Rightarrow> json \<Rightarrow> 'a envelope option" where
  "envelope_of_json f j =
     Option.bind (de_struct [''correlation_id'', ''protocol_version'', ''payload''] j) (\<lambda>fs.
     Option.bind (field_req to_str ''correlation_id'' fs) (\<lambda>i.
     Option.bind (field_def default_protocol_version to_u16 ''protocol_version'' fs) (\<lambda>v.
     Option.bind (field_req f ''payload'' fs) (\<lambda>p.
     Some \<lparr>env_id = i, env_version = v, env_payload = p\<rparr>))))"

section \<open>Requests\<close>

record 'p commit_input_of =
  ci_message :: string
  ci_author :: "string option"
  ci_code_sha :: "string option"
  ci_branch :: "string option"
  ci_prompts :: "(string \<times> 'p) list"
  ci_mcp_servers :: "string list"
  ci_model :: "string option"
  ci_no_memory :: bool

type_synonym commit_input = "bytes commit_input_of"
type_synonym commit_input_v0 = "string commit_input_of"

datatype request =
    Ping
  | RCommit commit_input
  | RLog u64
  | RDiff string string
  | RRollback string bool bool "string option"
  | RResolveRef string
  | RReadObject string

datatype request_v0 =
    Ping0
  | Commit0 commit_input_v0
  | Log0 u64
  | Diff0 string string
  | Rollback0 string bool bool
  | ResolveRef0 string
  | ReadObject0 string

definition commit_input_names :: "string list" where
  "commit_input_names =
     [''message'', ''author'', ''code_sha'', ''branch'', ''prompts'', ''mcp_servers'', ''model'', ''no_memory'']"

definition commit_input_fields :: "('p \<Rightarrow> json) \<Rightarrow> 'p commit_input_of \<Rightarrow> (string \<times> json) list" where
  "commit_input_fields f c = zip commit_input_names
     [JStr (ci_message c), of_opt JStr (ci_author c), of_opt JStr (ci_code_sha c),
      of_opt JStr (ci_branch c), of_map f (ci_prompts c), of_vec JStr (ci_mcp_servers c),
      of_opt JStr (ci_model c), JBool (ci_no_memory c)]"

definition commit_input_of_json :: "(json \<Rightarrow> 'p option) \<Rightarrow> json \<Rightarrow> 'p commit_input_of option" where
  "commit_input_of_json f j =
     Option.bind (de_struct commit_input_names j) (\<lambda>fs.
     Option.bind (field_req to_str ''message'' fs) (\<lambda>m.
     Option.bind (field_def None (to_opt to_str) ''author'' fs) (\<lambda>a.
     Option.bind (field_def None (to_opt to_str) ''code_sha'' fs) (\<lambda>s.
     Option.bind (field_def None (to_opt to_str) ''branch'' fs) (\<lambda>b.
     Option.bind (field_req (to_map f) ''prompts'' fs) (\<lambda>ps.
     Option.bind (field_def [] (to_vec to_str) ''mcp_servers'' fs) (\<lambda>ms.
     Option.bind (field_def None (to_opt to_str) ''model'' fs) (\<lambda>mo.
     Option.bind (field_def False to_bool ''no_memory'' fs) (\<lambda>nm.
     Some \<lparr>ci_message = m, ci_author = a, ci_code_sha = s, ci_branch = b, ci_prompts = ps,
        ci_mcp_servers = ms, ci_model = mo, ci_no_memory = nm\<rparr>)))))))))"

text \<open>The body of a unit variant: any object, or an array with nothing after the tag.\<close>

definition unit_body :: "'a \<Rightarrow> json \<Rightarrow> 'a option" where
  "unit_body x j = (case j of JObj _ \<Rightarrow> Some x | JArr [] \<Rightarrow> Some x | _ \<Rightarrow> None)"

definition tagged :: "string \<Rightarrow> string \<Rightarrow> (string \<times> json) list \<Rightarrow> json" where
  "tagged tag t fs = JObj ((tag, JStr t) # fs)"

fun request_to_json :: "base64 \<Rightarrow> request \<Rightarrow> json" where
  "request_to_json B Ping = tagged ''op'' ''ping'' []"
| "request_to_json B (RCommit c) = tagged ''op'' ''commit'' (commit_input_fields (b64_to_json B) c)"
| "request_to_json B (RLog n) = tagged ''op'' ''log'' [(''limit'', of_u64 n)]"
| "request_to_json B (RDiff a b) = tagged ''op'' ''diff'' [(''from'', JStr a), (''to'', JStr b)]"
| "request_to_json B (RRollback t d l tok) = tagged ''op'' ''rollback''
     [(''target'', JStr t), (''dry_run'', JBool d), (''accept_data_loss'', JBool l),
      (''approval_token'', of_opt JStr tok)]"
| "request_to_json B (RResolveRef n) = tagged ''op'' ''resolve_ref'' [(''name'', JStr n)]"
| "request_to_json B (RReadObject h) = tagged ''op'' ''read_object'' [(''hash'', JStr h)]"

definition one_field :: "string \<Rightarrow> (json \<Rightarrow> 'a option) \<Rightarrow> ('a \<Rightarrow> 'b) \<Rightarrow> json \<Rightarrow> 'b option" where
  "one_field n f c j = Option.bind (de_struct [n] j) (\<lambda>fs. map_option c (field_req f n fs))"

definition diff_body :: "(string \<Rightarrow> string \<Rightarrow> 'b) \<Rightarrow> json \<Rightarrow> 'b option" where
  "diff_body c j =
     Option.bind (de_struct [''from'', ''to''] j) (\<lambda>fs.
     Option.bind (field_req to_str ''from'' fs) (\<lambda>a.
     Option.bind (field_req to_str ''to'' fs) (\<lambda>b. Some (c a b))))"

definition rollback_body :: "json \<Rightarrow> request option" where
  "rollback_body j =
     Option.bind (de_struct [''target'', ''dry_run'', ''accept_data_loss'', ''approval_token''] j) (\<lambda>fs.
     Option.bind (field_req to_str ''target'' fs) (\<lambda>t.
     Option.bind (field_req to_bool ''dry_run'' fs) (\<lambda>d.
     Option.bind (field_req to_bool ''accept_data_loss'' fs) (\<lambda>l.
     Option.bind (field_def None (to_opt to_str) ''approval_token'' fs) (\<lambda>tok.
     Some (RRollback t d l tok))))))"

definition rollback_body_v0 :: "json \<Rightarrow> request_v0 option" where
  "rollback_body_v0 j =
     Option.bind (de_struct [''target'', ''dry_run'', ''accept_data_loss''] j) (\<lambda>fs.
     Option.bind (field_req to_str ''target'' fs) (\<lambda>t.
     Option.bind (field_req to_bool ''dry_run'' fs) (\<lambda>d.
     Option.bind (field_req to_bool ''accept_data_loss'' fs) (\<lambda>l. Some (Rollback0 t d l)))))"

definition request_of_json :: "base64 \<Rightarrow> json \<Rightarrow> request option" where
  "request_of_json B j =
     (case de_tagged ''op'' j of
        None \<Rightarrow> None
      | Some (t, body) \<Rightarrow>
          if t = ''ping'' then unit_body Ping body
          else if t = ''commit'' then map_option RCommit (commit_input_of_json (b64_of_json B) body)
          else if t = ''log'' then one_field ''limit'' to_u64 RLog body
          else if t = ''diff'' then diff_body RDiff body
          else if t = ''rollback'' then rollback_body body
          else if t = ''resolve_ref'' then one_field ''name'' to_str RResolveRef body
          else if t = ''read_object'' then one_field ''hash'' to_str RReadObject body
          else None)"

definition request_v0_of_json :: "json \<Rightarrow> request_v0 option" where
  "request_v0_of_json j =
     (case de_tagged ''op'' j of
        None \<Rightarrow> None
      | Some (t, body) \<Rightarrow>
          if t = ''ping'' then unit_body Ping0 body
          else if t = ''commit'' then map_option Commit0 (commit_input_of_json to_str body)
          else if t = ''log'' then one_field ''limit'' to_u64 Log0 body
          else if t = ''diff'' then diff_body Diff0 body
          else if t = ''rollback'' then rollback_body_v0 body
          else if t = ''resolve_ref'' then one_field ''name'' to_str ResolveRef0 body
          else if t = ''read_object'' then one_field ''hash'' to_str ReadObject0 body
          else None)"

definition commit_input_from_v0 :: "commit_input_v0 \<Rightarrow> commit_input" where
  "commit_input_from_v0 c =
     \<lparr>ci_message = ci_message c, ci_author = ci_author c, ci_code_sha = ci_code_sha c,
      ci_branch = ci_branch c, ci_prompts = map (\<lambda>(k, v). (k, str_bytes v)) (ci_prompts c),
      ci_mcp_servers = ci_mcp_servers c, ci_model = ci_model c, ci_no_memory = ci_no_memory c\<rparr>"

fun request_from_v0 :: "request_v0 \<Rightarrow> request" where
  "request_from_v0 Ping0 = Ping"
| "request_from_v0 (Commit0 c) = RCommit (commit_input_from_v0 c)"
| "request_from_v0 (Log0 n) = RLog n"
| "request_from_v0 (Diff0 a b) = RDiff a b"
| "request_from_v0 (Rollback0 t d l) = RRollback t d l None"
| "request_from_v0 (ResolveRef0 n) = RResolveRef n"
| "request_from_v0 (ReadObject0 h) = RReadObject h"

fun request_v0_to_json :: "request_v0 \<Rightarrow> json" where
  "request_v0_to_json Ping0 = tagged ''op'' ''ping'' []"
| "request_v0_to_json (Commit0 c) = tagged ''op'' ''commit'' (commit_input_fields JStr c)"
| "request_v0_to_json (Log0 n) = tagged ''op'' ''log'' [(''limit'', of_u64 n)]"
| "request_v0_to_json (Diff0 a b) = tagged ''op'' ''diff'' [(''from'', JStr a), (''to'', JStr b)]"
| "request_v0_to_json (Rollback0 t d l) = tagged ''op'' ''rollback''
     [(''target'', JStr t), (''dry_run'', JBool d), (''accept_data_loss'', JBool l)]"
| "request_v0_to_json (ResolveRef0 n) = tagged ''op'' ''resolve_ref'' [(''name'', JStr n)]"
| "request_v0_to_json (ReadObject0 h) = tagged ''op'' ''read_object'' [(''hash'', JStr h)]"

section \<open>Responses\<close>

datatype error_class =
  Protocol | Validation | CNotFound | Storage | Memory | Concurrency | Internal | Unknown

fun class_name :: "error_class \<Rightarrow> string" where
  "class_name Protocol = ''protocol''"
| "class_name Validation = ''validation''"
| "class_name CNotFound = ''not_found''"
| "class_name Storage = ''storage''"
| "class_name Memory = ''memory''"
| "class_name Concurrency = ''concurrency''"
| "class_name Internal = ''internal''"
| "class_name Unknown = ''unknown''"

definition class_of_json :: "json \<Rightarrow> error_class option" where
  "class_of_json j = map_option (\<lambda>s.
     if s = ''protocol'' then Protocol else if s = ''validation'' then Validation
     else if s = ''not_found'' then CNotFound else if s = ''storage'' then Storage
     else if s = ''memory'' then Memory else if s = ''concurrency'' then Concurrency
     else if s = ''internal'' then Internal else Unknown) (unit_variant j)"

record commit_output =
  co_hash :: string
  co_branch :: string

record log_entry =
  le_hash :: string
  le_message :: string
  le_author :: string
  le_timestamp :: string

record diff_output =
  do_from :: string
  do_to :: string
  do_prompts :: "string list"
  do_tools :: "string list"
  do_model_changed :: bool
  do_memory_summary :: string
  do_schema_summary :: string

record rollback_output =
  ro_planned_steps :: "string list"
  ro_executed :: bool
  ro_new_head_hash :: "string option"

datatype response =
    Pong
  | PCommit commit_output
  | PLog "log_entry list"
  | PDiff diff_output
  | PRollback rollback_output
  | PResolveRef string
  | PObjectData string string bytes
  | PError error_class string string bool

definition resp_protocol :: "string \<Rightarrow> string \<Rightarrow> response" where
  "resp_protocol c m = PError Protocol c m False"

definition resp_validation :: "string \<Rightarrow> string \<Rightarrow> response" where
  "resp_validation c m = PError Validation c m False"

definition resp_not_found :: "string \<Rightarrow> string \<Rightarrow> response" where
  "resp_not_found c m = PError CNotFound c m False"

definition resp_storage :: "string \<Rightarrow> string \<Rightarrow> bool \<Rightarrow> response" where
  "resp_storage c m r = PError Storage c m r"

definition resp_memory :: "string \<Rightarrow> string \<Rightarrow> bool \<Rightarrow> response" where
  "resp_memory c m r = PError Memory c m r"

definition resp_concurrency :: "string \<Rightarrow> string \<Rightarrow> response" where
  "resp_concurrency c m = PError Concurrency c m True"

definition resp_internal :: "string \<Rightarrow> string \<Rightarrow> response" where
  "resp_internal c m = PError Internal c m False"

lemmas resp_defs = resp_protocol_def resp_validation_def resp_not_found_def resp_storage_def
  resp_memory_def resp_concurrency_def resp_internal_def

definition commit_output_fields :: "commit_output \<Rightarrow> (string \<times> json) list" where
  "commit_output_fields o1 = [(''commit_hash'', JStr (co_hash o1)), (''branch'', JStr (co_branch o1))]"

definition log_entry_to_json :: "log_entry \<Rightarrow> json" where
  "log_entry_to_json e = JObj [(''hash'', JStr (le_hash e)), (''message'', JStr (le_message e)),
     (''author'', JStr (le_author e)), (''timestamp'', JStr (le_timestamp e))]"

definition diff_output_fields :: "diff_output \<Rightarrow> (string \<times> json) list" where
  "diff_output_fields d =
     [(''from'', JStr (do_from d)), (''to'', JStr (do_to d)), (''prompts'', of_vec JStr (do_prompts d)),
      (''tools'', of_vec JStr (do_tools d)), (''model_changed'', JBool (do_model_changed d)),
      (''memory_summary'', JStr (do_memory_summary d)), (''schema_summary'', JStr (do_schema_summary d))]"

definition rollback_output_fields :: "rollback_output \<Rightarrow> (string \<times> json) list" where
  "rollback_output_fields r =
     [(''planned_steps'', of_vec JStr (ro_planned_steps r)), (''executed'', JBool (ro_executed r)),
      (''new_head_hash'', of_opt JStr (ro_new_head_hash r))]"

fun response_to_json :: "base64 \<Rightarrow> response \<Rightarrow> json" where
  "response_to_json B Pong = tagged ''kind'' ''pong'' []"
| "response_to_json B (PCommit c) = tagged ''kind'' ''commit'' (commit_output_fields c)"
| "response_to_json B (PLog es) = tagged ''kind'' ''log'' [(''entries'', of_vec log_entry_to_json es)]"
| "response_to_json B (PDiff d) = tagged ''kind'' ''diff'' (diff_output_fields d)"
| "response_to_json B (PRollback r) = tagged ''kind'' ''rollback'' (rollback_output_fields r)"
| "response_to_json B (PResolveRef h) = tagged ''kind'' ''resolve_ref'' [(''hash'', JStr h)]"
| "response_to_json B (PObjectData h k d) = tagged ''kind'' ''object_data''
     [(''hash'', JStr h), (''object_kind'', JStr k), (''data'', b64_to_json B d)]"
| "response_to_json B (PError c k m r) = tagged ''kind'' ''error''
     [(''class'', JStr (class_name c)), (''code'', JStr k), (''message'', JStr m), (''retryable'', JBool r)]"

definition commit_output_of_json :: "json \<Rightarrow> commit_output option" where
  "commit_output_of_json j =
     Option.bind (de_struct [''commit_hash'', ''branch''] j) (\<lambda>fs.
     Option.bind (field_req to_str ''commit_hash'' fs) (\<lambda>h.
     Option.bind (field_req to_str ''branch'' fs) (\<lambda>b. Some \<lparr>co_hash = h, co_branch = b\<rparr>)))"

definition log_entry_of_json :: "json \<Rightarrow> log_entry option" where
  "log_entry_of_json j =
     Option.bind (de_struct [''hash'', ''message'', ''author'', ''timestamp''] j) (\<lambda>fs.
     Option.bind (field_req to_str ''hash'' fs) (\<lambda>h.
     Option.bind (field_req to_str ''message'' fs) (\<lambda>m.
     Option.bind (field_req to_str ''author'' fs) (\<lambda>a.
     Option.bind (field_req to_str ''timestamp'' fs) (\<lambda>t.
     Some \<lparr>le_hash = h, le_message = m, le_author = a, le_timestamp = t\<rparr>)))))"

definition diff_output_of_json :: "json \<Rightarrow> diff_output option" where
  "diff_output_of_json j =
     Option.bind (de_struct [''from'', ''to'', ''prompts'', ''tools'', ''model_changed'', ''memory_summary'',
       ''schema_summary''] j) (\<lambda>fs.
     Option.bind (field_req to_str ''from'' fs) (\<lambda>a.
     Option.bind (field_req to_str ''to'' fs) (\<lambda>b.
     Option.bind (field_req (to_vec to_str) ''prompts'' fs) (\<lambda>ps.
     Option.bind (field_req (to_vec to_str) ''tools'' fs) (\<lambda>ts.
     Option.bind (field_req to_bool ''model_changed'' fs) (\<lambda>mc.
     Option.bind (field_req to_str ''memory_summary'' fs) (\<lambda>ms.
     Option.bind (field_req to_str ''schema_summary'' fs) (\<lambda>ss.
     Some \<lparr>do_from = a, do_to = b, do_prompts = ps, do_tools = ts, do_model_changed = mc,
       do_memory_summary = ms, do_schema_summary = ss\<rparr>))))))))"

definition rollback_output_of_json :: "json \<Rightarrow> rollback_output option" where
  "rollback_output_of_json j =
     Option.bind (de_struct [''planned_steps'', ''executed'', ''new_head_hash''] j) (\<lambda>fs.
     Option.bind (field_req (to_vec to_str) ''planned_steps'' fs) (\<lambda>ps.
     Option.bind (field_req to_bool ''executed'' fs) (\<lambda>e.
     Option.bind (field_opt to_str ''new_head_hash'' fs) (\<lambda>h.
     Some \<lparr>ro_planned_steps = ps, ro_executed = e, ro_new_head_hash = h\<rparr>))))"

definition object_data_body :: "base64 \<Rightarrow> json \<Rightarrow> response option" where
  "object_data_body B j =
     Option.bind (de_struct [''hash'', ''object_kind'', ''data''] j) (\<lambda>fs.
     Option.bind (field_req to_str ''hash'' fs) (\<lambda>h.
     Option.bind (field_req to_str ''object_kind'' fs) (\<lambda>k.
     Option.bind (field_req (b64_of_json B) ''data'' fs) (\<lambda>d. Some (PObjectData h k d)))))"

definition error_body :: "json \<Rightarrow> response option" where
  "error_body j =
     Option.bind (de_struct [''class'', ''code'', ''message'', ''retryable''] j) (\<lambda>fs.
     Option.bind (field_req class_of_json ''class'' fs) (\<lambda>c.
     Option.bind (field_req to_str ''code'' fs) (\<lambda>k.
     Option.bind (field_req to_str ''message'' fs) (\<lambda>m.
     Option.bind (field_req to_bool ''retryable'' fs) (\<lambda>r. Some (PError c k m r))))))"

definition response_of_json :: "base64 \<Rightarrow> json \<Rightarrow> response option" where
  "response_of_json B j =
     (case de_tagged ''kind'' j of
        None \<Rightarrow> None
      | Some (t, body) \<Rightarrow>
          if t = ''pong'' then unit_body Pong body
          else if t = ''commit'' then map_option PCommit (commit_output_of_json body)
          else if t = ''log'' then one_field ''entries'' (to_vec log_entry_of_json) PLog body
          else if t = ''diff'' then map_option PDiff (diff_output_of_json body)
          else if t = ''rollback'' then map_option PRollback (rollback_output_of_json body)
          else if t = ''resolve_ref'' then one_field ''hash'' to_str PResolveRef body
          else if t = ''object_data'' then object_data_body B body
          else if t = ''error'' then error_body body
          else None)"

section \<open>Framing\<close>

definition max_frame_bytes :: u32 where
  "max_frame_bytes = 16 * 1024 * 1024"

datatype frame_error = FrameIo io_error | FrameJson | TooLarge u32

text \<open>A stream being read: the bytes to come, then the end or an error. \<open>read_exact\<close> takes
  all it asks for or consumes the rest and fails.\<close>

record reader =
  rd_data :: bytes
  rd_fault :: "io_error option"

definition read_exact :: "nat \<Rightarrow> (reader, io_error, bytes) act" where
  "read_exact n r =
     (if n \<le> length (rd_data r) then (Inr (take n (rd_data r)), r\<lparr>rd_data := drop n (rd_data r)\<rparr>)
      else (Inl (case rd_fault r of Some e \<Rightarrow> e | None \<Rightarrow> IoError IoUnexpectedEof ''early eof''),
            r\<lparr>rd_data := []\<rparr>))"

definition read_frame_bytes :: "(reader, frame_error, bytes option) act" where
  "read_frame_bytes r =
     (case read_exact 4 r of
        (Inl e, r') \<Rightarrow> (if io_kind_of e = IoUnexpectedEof then (Inr None, r') else (Inl (FrameIo e), r'))
      | (Inr hdr, r') \<Rightarrow>
          let len = (of_nat (be_nat hdr) :: u32) in
          if len > max_frame_bytes then (Inl (TooLarge len), r')
          else bindA (map_errA FrameIo (read_exact (unat len))) (\<lambda>bs. ret (Some bs)) r')"

definition read_frame :: "lib \<Rightarrow> (json \<Rightarrow> 'a option) \<Rightarrow> (reader, frame_error, 'a option) act" where
  "read_frame L f =
     bindA read_frame_bytes (\<lambda>b.
     case b of
       None \<Rightarrow> ret None
     | Some bs \<Rightarrow> lift_res (map_err (\<lambda>_. FrameJson) (ok_or () (map_option Some (Option.bind (json_parse L bs) f)))))"

text \<open>A stream being written: what the peer gets, and how many more bytes it takes before
  the write fails, if it does.\<close>

record writer =
  wr_out :: bytes
  wr_room :: "(nat \<times> io_error) option"

definition write_all :: "bytes \<Rightarrow> (writer, io_error, unit) act" where
  "write_all bs w =
     (case wr_room w of
        None \<Rightarrow> (Inr (), w\<lparr>wr_out := wr_out w @ bs\<rparr>)
      | Some (n, e) \<Rightarrow>
          if length bs \<le> n then (Inr (), w\<lparr>wr_out := wr_out w @ bs, wr_room := Some (n - length bs, e)\<rparr>)
          else (Inl e, w\<lparr>wr_out := wr_out w @ take n bs, wr_room := Some (0, e)\<rparr>))"

definition write_frame :: "lib \<Rightarrow> json \<Rightarrow> (writer, frame_error, unit) act" where
  "write_frame L j =
     (let bs = json_print L j in
      if length bs \<ge> 2 ^ 32 then fail (TooLarge (- 1))
      else let len = (of_nat (length bs) :: u32) in
        if len > max_frame_bytes then fail (TooLarge len)
        else bindA (map_errA FrameIo (write_all (be_bytes 4 (length bs)))) (\<lambda>_.
             map_errA FrameIo (write_all bs)))"

definition frame_of :: "bytes \<Rightarrow> bytes" where
  "frame_of bs = be_bytes 4 (length bs) @ bs"

section \<open>Reading back messages\<close>

lemma unat_u16_lt: "unat (n :: u16) < 65536"
  using unsigned_less [of n] by simp

lemma to_u16_of_u16 [simp]: "to_u16 (of_u16 n) = Some n"
proof -
  have "unat (ucast n :: u64) = unat n"
    using unat_u16_lt [of n] by (simp add: unsigned_ucast_eq take_bit_nat_eq_self)
  moreover have "ucast (ucast n :: u64) = n" 
    using unat_u16_lt [of n] by (simp add: word_unat_eq_iff unsigned_ucast_eq take_bit_nat_eq_self take_bit_word_eq_self)
  ultimately show ?thesis using unat_u16_lt [of n] by (simp add: to_u16_def of_u16_def)
qed

lemma opt_str_read [simp]: "to_opt to_str (of_opt JStr x) = Some x"
  by (rule to_opt_of_opt) simp

lemma vec_str_read [simp]: "to_vec to_str (of_vec JStr xs) = Some xs"
  by (rule to_vec_of_vec) simp

lemma b64_of_to_json [simp]: "b64_law B \<Longrightarrow> b64_of_json B (b64_to_json B bs) = Some bs"
  by (simp add: b64_of_json_def b64_to_json_def b64_law_def)

lemma de_tagged_tagged:
  "list_all (\<lambda>(k, v). k \<noteq> tag) fs \<Longrightarrow> de_tagged tag (tagged tag t fs) = Some (t, JObj fs)"
proof -
  assume "list_all (\<lambda>(k, v). k \<noteq> tag) fs"
  then have "filter (\<lambda>(k, v). k = tag) fs = []" "filter (\<lambda>(k, v). k \<noteq> tag) fs = fs"
    by (induction fs) auto
  then show ?thesis by (simp add: de_tagged_def tagged_def)
qed

lemmas fields_defs = de_struct_def field_req_def field_opt_def field_def_def

lemma commit_input_read:
  assumes "bt_ok (ci_prompts c)" "\<And>v. g (f v) = Some v"
  shows "commit_input_of_json g (JObj (commit_input_fields f c)) = Some c"
proof -
  have "to_map g (of_map f (ci_prompts c)) = Some (ci_prompts c)"
    using assms by (intro to_map_of_map)
  then show ?thesis
    by (cases c) (simp add: commit_input_of_json_def commit_input_fields_def commit_input_names_def fields_defs)
qed

lemma commit_input_untagged: "list_all (\<lambda>(k, v). k \<noteq> ''op'') (commit_input_fields f c)"
  by (simp add: commit_input_fields_def commit_input_names_def)

fun request_wf :: "request \<Rightarrow> bool" where
  "request_wf (RCommit c) \<longleftrightarrow> bt_ok (ci_prompts c)"
| "request_wf _ \<longleftrightarrow> True"

fun request_v0_wf :: "request_v0 \<Rightarrow> bool" where
  "request_v0_wf (Commit0 c) \<longleftrightarrow> bt_ok (ci_prompts c)"
| "request_v0_wf _ \<longleftrightarrow> True"

lemma request_read: "b64_law B \<Longrightarrow> request_wf r \<Longrightarrow> request_of_json B (request_to_json B r) = Some r"
  by (cases r) (simp_all add: request_of_json_def de_tagged_tagged unit_body_def commit_input_read
      commit_input_untagged one_field_def diff_body_def rollback_body_def fields_defs)

lemma request_v0_read: "request_v0_wf r \<Longrightarrow> request_v0_of_json (request_v0_to_json r) = Some r"
  by (cases r) (simp_all add: request_v0_of_json_def de_tagged_tagged unit_body_def commit_input_read
      commit_input_untagged one_field_def diff_body_def rollback_body_v0_def fields_defs)

lemma class_read [simp]: "class_of_json (JStr (class_name c)) = Some c"
  by (cases c) (simp_all add: class_of_json_def unit_variant_def)

lemma log_entry_read [simp]: "log_entry_of_json (log_entry_to_json e) = Some e"
  by (cases e) (simp add: log_entry_of_json_def log_entry_to_json_def fields_defs)

lemma log_entries_read [simp]: "to_vec log_entry_of_json (of_vec log_entry_to_json es) = Some es"
  by (rule to_vec_of_vec) simp

lemma response_read: "b64_law B \<Longrightarrow> response_of_json B (response_to_json B r) = Some r"
proof (cases r)
  case (PCommit c)
  then show ?thesis
    by (cases c) (simp add: response_of_json_def de_tagged_tagged commit_output_of_json_def commit_output_fields_def fields_defs)
next
  case (PDiff d)
  then show ?thesis
    by (cases d) (simp add: response_of_json_def de_tagged_tagged diff_output_of_json_def diff_output_fields_def fields_defs)
next
  case (PRollback d)
  then show ?thesis
    by (cases d) (simp add: response_of_json_def de_tagged_tagged rollback_output_of_json_def
        rollback_output_fields_def fields_defs)
qed (simp_all add: response_of_json_def de_tagged_tagged unit_body_def one_field_def object_data_body_def
    error_body_def fields_defs)

lemma envelope_read:
  "f (g (env_payload e)) = Some (env_payload e) \<Longrightarrow> envelope_of_json f (envelope_to_json g e) = Some e"
  by (cases e) (simp add: envelope_of_json_def envelope_to_json_def fields_defs)

text \<open>Messages are shallow and hold no negative or floating-point numbers, so their text
  reads back.\<close>

definition flat :: "json \<Rightarrow> bool" where
  "flat j \<longleftrightarrow> json_plain j \<and> json_depth_doc j \<le> 3"

lemma flat_str_vec [simp]: "json_plain (of_vec JStr xs)" "json_depth_doc (of_vec JStr xs) \<le> 1"
  using json_depth_of_vec [of xs JStr 0] by (simp_all add: json_plain_of_vec)

lemma flat_str_opt [simp]: "json_plain (of_opt JStr x)" "json_depth_doc (of_opt JStr x) = 0"
  by (simp_all add: of_opt_def split: option.splits)

lemma depth_of_map:
  assumes "\<And>k v. (k, v) \<in> set kvs \<Longrightarrow> json_depth_doc (f v) \<le> n"
  shows "json_depth_doc (of_map f kvs) \<le> Suc n"
proof -
  have "foldr max (map (\<lambda>(k, v). json_depth_doc v) (map (\<lambda>(k, v). (k, f v)) kvs)) 0 \<le> n"
    unfolding foldr_max_le using assms by auto
  then show ?thesis by (simp add: of_map_def del: map_map)
qed

lemma flat_prompts [simp]:
  "json_plain (of_map (b64_to_json B) ps)" "json_depth_doc (of_map (b64_to_json B) ps) \<le> 1"
proof -
  show "json_plain (of_map (b64_to_json B) ps)"
    by (auto simp: of_map_def b64_to_json_def list_all_iff)
  show "json_depth_doc (of_map (b64_to_json B) ps) \<le> 1"
    using depth_of_map [of ps "b64_to_json B" 0] by (simp add: b64_to_json_def)
qed

lemma flat_entries [simp]:
  "json_plain (of_vec log_entry_to_json es)" "json_depth_doc (of_vec log_entry_to_json es) \<le> 2"
  using json_depth_of_vec [of es log_entry_to_json 1]
  by (auto simp: log_entry_to_json_def intro!: json_plain_of_vec)

lemma flat_request: "flat (request_to_json B r)"
proof (cases r)
  case (RCommit c)
  with flat_str_vec(2) [of "ci_mcp_servers c"] flat_prompts(2) [of B "ci_prompts c"] show ?thesis
    by (simp add: flat_def tagged_def commit_input_fields_def commit_input_names_def)
qed (simp_all add: flat_def tagged_def)

lemma flat_response: "flat (response_to_json B r)"
proof (cases r)
  case (PLog es)
  with flat_entries(2) [of es] show ?thesis by (simp add: flat_def tagged_def)
next
  case (PDiff d)
  with flat_str_vec(2) [of "do_prompts d"] flat_str_vec(2) [of "do_tools d"] show ?thesis
    by (simp add: flat_def tagged_def diff_output_fields_def)
next
  case (PRollback d)
  with flat_str_vec(2) [of "ro_planned_steps d"] show ?thesis
    by (simp add: flat_def tagged_def rollback_output_fields_def)
qed (simp_all add: flat_def tagged_def commit_output_fields_def b64_to_json_def)

lemma envelope_exact: "flat (g (env_payload e)) \<Longrightarrow> json_exact (envelope_to_json g e)"
  by (simp add: flat_def json_exact_def envelope_to_json_def of_u16_def)

section \<open>Frames\<close>

lemma unat_max_frame: "unat max_frame_bytes = 16777216"
  by (simp add: max_frame_bytes_def)

lemma of_nat_max_frame: "n < 2 ^ 32 \<Longrightarrow> (of_nat n > max_frame_bytes) = (n > 16777216)"
  by (simp add: word_less_nat_alt unat_max_frame unat_of_nat take_bit_nat_eq_self)

lemma read_exact_take:
  "read_exact (length bs) \<lparr>rd_data = bs @ rest, rd_fault = f\<rparr> = (Inr bs, \<lparr>rd_data = rest, rd_fault = f\<rparr>)"
  by (simp add: read_exact_def)

lemma read_frame_bytes_frame:
  assumes "length bs \<le> 16777216"
  shows "read_frame_bytes \<lparr>rd_data = frame_of bs @ rest, rd_fault = f\<rparr> = (Inr (Some bs), \<lparr>rd_data = rest, rd_fault = f\<rparr>)"
proof -
  let ?h = "be_bytes 4 (length bs)"
  have "be_nat ?h = length bs" using assms by (simp add: be_nat_be_bytes del: be_bytes.simps)
  moreover have "\<not> of_nat (length bs) > max_frame_bytes" "unat (of_nat (length bs) :: u32) = length bs"
    using assms of_nat_max_frame [of "length bs"] by (simp_all add: unat_of_nat take_bit_nat_eq_self)
  moreover have "read_exact 4 \<lparr>rd_data = ?h @ bs @ rest, rd_fault = f\<rparr> = (Inr ?h, \<lparr>rd_data = bs @ rest, rd_fault = f\<rparr>)"
    using read_exact_take [of ?h "bs @ rest" f] by (simp del: be_bytes.simps)
  ultimately show ?thesis
    by (simp add: read_frame_bytes_def frame_of_def read_exact_take bindA_def map_errA_def Let_def del: be_bytes.simps)
qed

lemma write_all_quiet: "wr_room w = None \<Longrightarrow> write_all bs w = (Inr (), w\<lparr>wr_out := wr_out w @ bs\<rparr>)"
  by (simp add: write_all_def)

lemma write_all_ok: "write_all bs w = (Inr u, w') \<Longrightarrow> wr_out w' = wr_out w @ bs"
  by (auto simp: write_all_def split: option.splits if_splits)

lemma write_frame_ok:
  assumes "write_frame L j w = (Inr u, w')"
  shows "wr_out w' = wr_out w @ frame_of (json_print L j) \<and> length (json_print L j) \<le> 16777216"
  using assms of_nat_max_frame [of "length (json_print L j)"]
  by (auto simp: write_frame_def Let_def frame_of_def bindA_ok_iff dest!: write_all_ok split: if_splits
      simp del: be_bytes.simps)

lemma read_frame_exact:
  assumes "json_law L" "json_exact j" "length (json_print L j) \<le> 16777216" "f j = Some x"
  shows "read_frame L f \<lparr>rd_data = frame_of (json_print L j) @ rest, rd_fault = e\<rparr>
    = (Inr (Some x), \<lparr>rd_data = rest, rd_fault = e\<rparr>)"
  using assms by (simp add: read_frame_def bindA_def read_frame_bytes_frame json_law_def)

lemma read_exact_sound:
  "read_exact n r = (Inr bs, r') \<Longrightarrow> length bs = n \<and> rd_data r = bs @ rd_data r' \<and> rd_fault r' = rd_fault r"
  by (auto simp: read_exact_def split: if_splits)

lemma read_frame_bytes_sound:
  assumes "read_frame_bytes r = (Inr (Some bs), r')"
  shows "length bs \<le> 16777216 \<and> rd_data r = frame_of bs @ rd_data r'"
proof -
  obtain hdr r1 where h: "read_exact 4 r = (Inr hdr, r1)"
    using assms by (auto simp: read_frame_bytes_def split: prod.splits sum.splits if_splits)
  let ?len = "of_nat (be_nat hdr) :: u32"
  have hdr: "length hdr = 4" "rd_data r = hdr @ rd_data r1" using read_exact_sound [OF h] by simp_all
  have lt: "be_nat hdr < 2 ^ 32" using be_nat_lt [of hdr] hdr(1) by simp
  then have len: "unat ?len = be_nat hdr" by (simp add: unat_of_nat take_bit_nat_eq_self)
  have "\<not> ?len > max_frame_bytes" and "read_exact (unat ?len) r1 = (Inr bs, r')"
    using assms h by (auto simp: read_frame_bytes_def Let_def bindA_ok_iff split: if_splits)
  then have "be_nat hdr \<le> 16777216" "length bs = be_nat hdr" "rd_data r1 = bs @ rd_data r'"
    using of_nat_max_frame [OF lt] read_exact_sound [of "unat ?len" r1 bs r'] len by simp_all
  moreover have "be_bytes 4 (be_nat hdr) = hdr" using be_bytes_be_nat [of hdr] hdr(1) by simp
  ultimately show ?thesis using hdr(2) by (simp add: frame_of_def del: be_bytes.simps)
qed

section \<open>Properties\<close>

text \<open>
  C33. A request written to a connection is read back at the other end as it was, and the reader
  stops exactly at the end of its frame; so is a response. The text of a message that fits into
  a frame is never refused, whatever follows on the stream.
\<close>

theorem message_roundtrip:
  assumes "json_law L" "b64_law B" "wr_room w = None"
    and "request_wf (env_payload q)" "length (json_print L (envelope_to_json (request_to_json B) q)) \<le> 16777216"
    and "length (json_print L (envelope_to_json (response_to_json B) p)) \<le> 16777216"
  shows "(\<exists>sent. write_frame L (envelope_to_json (request_to_json B) q) w = (Inr (), w\<lparr>wr_out := wr_out w @ sent\<rparr>) \<and>
            read_frame L (envelope_of_json (request_of_json B)) \<lparr>rd_data = sent @ rest, rd_fault = e\<rparr> =
              (Inr (Some q), \<lparr>rd_data = rest, rd_fault = e\<rparr>)) \<and>
         (\<exists>sent. write_frame L (envelope_to_json (response_to_json B) p) w = (Inr (), w\<lparr>wr_out := wr_out w @ sent\<rparr>) \<and>
            read_frame L (envelope_of_json (response_of_json B)) \<lparr>rd_data = sent @ rest, rd_fault = e\<rparr> =
              (Inr (Some p), \<lparr>rd_data = rest, rd_fault = e\<rparr>))"
proof -
  have sent: "write_frame L j w = (Inr (), w\<lparr>wr_out := wr_out w @ frame_of (json_print L j)\<rparr>)"
    if "length (json_print L j) \<le> 16777216" for j
    using that assms(3) of_nat_max_frame [of "length (json_print L j)"]
    by (simp add: write_frame_def Let_def bindA_def map_errA_def write_all_quiet frame_of_def del: be_bytes.simps)
  have q: "envelope_of_json (request_of_json B) (envelope_to_json (request_to_json B) q) = Some q"
    by (rule envelope_read) (rule request_read [OF assms(2, 4)])
  have p: "envelope_of_json (response_of_json B) (envelope_to_json (response_to_json B) p) = Some p"
    by (rule envelope_read) (rule response_read [OF assms(2)])
  have exact: "json_exact (envelope_to_json (request_to_json B) q)" "json_exact (envelope_to_json (response_to_json B) p)"
    by (rule envelope_exact flat_request flat_response)+
  show ?thesis
    using sent [OF assms(5)] sent [OF assms(6)] read_frame_exact [where f = "envelope_of_json (request_of_json B)", OF assms(1) exact(1) assms(5) q]
      read_frame_exact [where f = "envelope_of_json (response_of_json B)", OF assms(1) exact(2) assms(6) p] by blast
qed

definition sample_b64 :: base64 where
  "sample_b64 = \<lparr>b64_enc = bytes_str, b64_dec = (\<lambda>s. Some (str_bytes s))\<rparr>"

lemma sample_b64_law: "b64_law sample_b64"
  by (simp add: b64_law_def sample_b64_def)

theorem message_roundtrip_witness:
  "\<exists>sent. write_frame sample_lib (envelope_to_json (request_to_json sample_b64) (envelope_new ''1'' Ping))
      \<lparr>wr_out = [], wr_room = None\<rparr> = (Inr (), \<lparr>wr_out = sent, wr_room = None\<rparr>) \<and>
     read_frame sample_lib (envelope_of_json (request_of_json sample_b64)) \<lparr>rd_data = sent, rd_fault = None\<rparr> =
       (Inr (Some (envelope_new ''1'' Ping)), \<lparr>rd_data = [], rd_fault = None\<rparr>)"
proof -
  let ?q = "envelope_new ''1'' Ping" and ?p = "envelope_new ''1'' Pong"
  have "length (json_print sample_lib (envelope_to_json (request_to_json sample_b64) ?q)) \<le> 16777216"
    by (simp add: sample_lib_def envelope_to_json_def envelope_new_def tagged_def of_u16_def)
  moreover have "length (json_print sample_lib (envelope_to_json (response_to_json sample_b64) ?p)) \<le> 16777216"
    by (simp add: sample_lib_def envelope_to_json_def envelope_new_def tagged_def of_u16_def)
  moreover have "request_wf (env_payload ?q)" by (simp add: envelope_new_def)
  ultimately show ?thesis
    using message_roundtrip [OF sample_json sample_b64_law, of "\<lparr>wr_out = [], wr_room = None\<rparr>" ?q ?p "[]" None] by simp
qed

text \<open>
  Frames are bounded and never torn. Whatever the peer sends, the bytes of a frame that is
  read are at most 16 MiB and exactly the ones its header announces; a longer announcement is
  refused after the four bytes of the header. The only stream read as a clean end is one that
  ends within the header: with one to three bytes of it already there, too.
\<close>

theorem frames_bounded:
  "(read_frame_bytes r = (Inr (Some bs), r') \<longrightarrow> length bs \<le> 16 * 1024 * 1024 \<and> rd_data r = frame_of bs @ rd_data r') \<and>
   (read_frame_bytes r = (Inl (TooLarge n), r') \<longrightarrow>
      n > max_frame_bytes \<and> (\<exists>hdr. length hdr = 4 \<and> rd_data r = hdr @ rd_data r' \<and> be_nat hdr = unat n)) \<and>
   (rd_fault r = None \<longrightarrow> (fst (read_frame_bytes r) = Inr None) = (length (rd_data r) < 4))"
proof (intro conjI impI)
  assume "read_frame_bytes r = (Inr (Some bs), r')"
  then show "length bs \<le> 16 * 1024 * 1024" "rd_data r = frame_of bs @ rd_data r'"
    using read_frame_bytes_sound [of r bs r'] by simp_all
next
  assume *: "read_frame_bytes r = (Inl (TooLarge n), r')"
  then obtain hdr where h: "read_exact 4 r = (Inr hdr, r')" "n = of_nat (be_nat hdr)" "n > max_frame_bytes"
    by (auto simp: read_frame_bytes_def Let_def bindA_def map_errA_def map_err_def
        split: prod.splits sum.splits if_splits)
  show "n > max_frame_bytes" by (fact h(3))
  have "be_nat hdr < 2 ^ 32" using be_nat_lt [of hdr] read_exact_sound [OF h(1)] by simp
  then show "\<exists>hdr. length hdr = 4 \<and> rd_data r = hdr @ rd_data r' \<and> be_nat hdr = unat n"
    using read_exact_sound [OF h(1)] h(2) by (intro exI [of _ hdr]) (simp add: unat_of_nat take_bit_nat_eq_self)
next
  assume "rd_fault r = None"
  then show "(fst (read_frame_bytes r) = Inr None) = (length (rd_data r) < 4)"
    by (auto simp: read_frame_bytes_def read_exact_def Let_def bindA_def map_errA_def map_err_def
        split: prod.splits sum.splits if_splits)
qed

theorem frames_bounded_witness:
  "fst (read_frame_bytes \<lparr>rd_data = [0, 0, 0], rd_fault = None\<rparr>) = Inr None"
  using frames_bounded [of "\<lparr>rd_data = [0, 0, 0], rd_fault = None\<rparr>"] by simp

text \<open>
  Requests in the version-0 shape are read as sent and carried over to version 1 with the
  same meaning: every one but a commit is what the version-1 reader makes of the same text. A
  rollback in the old shape never carries an approval token, even when its text has one, so a
  destructive one has to be refused.
\<close>

theorem v0_translation:
  "(request_v0_wf r \<longrightarrow> request_v0_of_json (request_v0_to_json r) = Some r) \<and>
   ((\<forall>c. r \<noteq> Commit0 c) \<longrightarrow> request_of_json B (request_v0_to_json r) = Some (request_from_v0 r)) \<and>
   (map_option request_from_v0 (request_v0_of_json j) = Some (RRollback t d l tok) \<longrightarrow> tok = None)"
proof (intro conjI impI)
  assume "\<forall>c. r \<noteq> Commit0 c"
  then show "request_of_json B (request_v0_to_json r) = Some (request_from_v0 r)"
    by (cases r) (simp_all add: request_of_json_def de_tagged_tagged unit_body_def one_field_def diff_body_def
        rollback_body_def fields_defs)
next
  assume "map_option request_from_v0 (request_v0_of_json j) = Some (RRollback t d l tok)"
  then obtain x where "request_from_v0 x = RRollback t d l tok" by auto
  then show "tok = None" by (cases x) simp_all
qed (rule request_v0_read)

theorem v0_translation_witness:
  "request_of_json sample_b64 (request_v0_to_json (Rollback0 ''main'' False True)) =
     Some (RRollback ''main'' False True None)"
  using v0_translation [of "Rollback0 ''main'' False True" sample_b64] by simp

end
