(* ===== verification/Wire_Error.thy ===== *)
theory Wire_Error
  imports Wire Segments Approval
begin

text \<open>
  How the daemon turns an error chain into a structured reply (\<open>wire_error.rs\<close>). An \<open>anyhow\<close>
  error is the list of its layers, the outermost context first. How the typed errors are
  printed is a parameter; a context prints as its text. The strings searched for are
  ASCII, so searching the lower-cased bytes is searching the lower-cased string.
\<close>

section \<open>Error chains\<close>

datatype approval_error = KeyNotConfigured | NoPeerUid | TokenRequired | Rejected approval_rejection

fun approval_audit_decision :: "approval_error \<Rightarrow> string" where
  "approval_audit_decision KeyNotConfigured = ''rejected_no_key_configured''"
| "approval_audit_decision NoPeerUid = ''rejected_no_peer_uid''"
| "approval_audit_decision TokenRequired = ''rejected_no_token''"
| "approval_audit_decision (Rejected r) = audit_decision r"

datatype layer =
    Ctx string
  | LGate approval_error
  | LMem mem_error
  | LCore core_error
  | LIo io_error
  | LSerde
  | LHash parse_hash_error

type_synonym anyhow = "layer list"

definition context_of :: "string \<Rightarrow> anyhow \<Rightarrow> anyhow" where
  "context_of c e = Ctx c # e"

definition show_layer :: "(layer \<Rightarrow> string) \<Rightarrow> layer \<Rightarrow> string" where
  "show_layer sh l = (case l of Ctx s \<Rightarrow> s | _ \<Rightarrow> sh l)"

definition render_chain :: "(layer \<Rightarrow> string) \<Rightarrow> anyhow \<Rightarrow> string" where
  "render_chain sh e = join_with '': '' (map (show_layer sh) e)"

fun first_gate :: "anyhow \<Rightarrow> approval_error option" where
  "first_gate [] = None"
| "first_gate (LGate g # ls) = Some g"
| "first_gate (_ # ls) = first_gate ls"

fun first_mem :: "anyhow \<Rightarrow> mem_error option" where
  "first_mem [] = None"
| "first_mem (LMem m # ls) = Some m"
| "first_mem (_ # ls) = first_mem ls"

fun first_core :: "anyhow \<Rightarrow> core_error option" where
  "first_core [] = None"
| "first_core (LCore c # ls) = Some c"
| "first_core (_ # ls) = first_core ls"

section \<open>Classification\<close>

type_synonym class_code = "error_class \<times> string \<times> bool"

fun gate_code :: "approval_error \<Rightarrow> string" where
  "gate_code KeyNotConfigured = ''approval_key_not_configured''"
| "gate_code NoPeerUid = ''approval_no_peer_uid''"
| "gate_code TokenRequired = ''approval_required''"
| "gate_code (Rejected Malformed) = ''approval_token_malformed''"
| "gate_code (Rejected (Expired _)) = ''approval_token_expired''"
| "gate_code (Rejected InvalidSignature) = ''approval_token_invalid_signature''"

fun classify_core_error :: "core_error \<Rightarrow> class_code" where
  "classify_core_error (NotFound _) = (CNotFound, ''object_not_found'', False)"
| "classify_core_error (IntegrityError _ _) = (Storage, ''object_integrity_failure'', False)"
| "classify_core_error (SecretDetected _) = (Validation, ''secret_detected'', False)"
| "classify_core_error (InvalidBranchName _ _) = (Validation, ''invalid_branch_name'', False)"
| "classify_core_error (Io _) = (Storage, ''io_failure'', True)"
| "classify_core_error Serialize = (Storage, ''serialization_failure'', False)"
| "classify_core_error (KindMismatch _ _) = (Storage, ''object_kind_mismatch'', False)"
| "classify_core_error (Other _) = (Internal, ''core_other'', False)"

definition classify_memory_backend_message :: "string \<Rightarrow> class_code" where
  "classify_memory_backend_message msg =
     (let lower = to_ascii_lowercase msg in
      if contains_sub ''pgvector extension is not installed'' lower then (Memory, ''pgvector_not_installed'', False)
      else if contains_sub ''empty identifier'' lower \<or> contains_sub ''invalid character in identifier'' lower
        then (Validation, ''invalid_identifier'', False)
      else if contains_sub ''called before init'' lower \<or> contains_sub ''not initialised'' lower
          \<or> contains_sub ''not initialized'' lower
        then (Memory, ''backend_not_initialised'', False)
      else if contains_sub ''misconfigured'' lower \<or> contains_sub ''invalid configuration'' lower
        then (Memory, ''backend_misconfigured'', False)
      else if contains_sub ''streamer task has shut down'' lower
          \<or> contains_sub ''streamer dropped reply channel'' lower
        then (Memory, ''streamer_dead'', False)
      else if contains_sub ''segment row is not a json object'' lower
        then (Storage, ''segment_row_corrupt'', False)
      else (Memory, ''backend_failure'', True))"

definition classify_sqlx_like :: "sqlx_error \<Rightarrow> class_code" where
  "classify_sqlx_like e =
     (case e of SqlxError k _ \<Rightarrow>
        if k = RowNotFound then (CNotFound, ''row_not_found'', False)
        else if k = PoolTimedOut \<or> k = PoolClosed then (Memory, ''postgres_pool_unavailable'', True)
        else if k = SqlxIo then (Memory, ''postgres_io_failure'', True)
        else if k = Database then (Memory, ''postgres_database'', False)
        else if k = Configuration then (Memory, ''postgres_configuration'', False)
        else if k \<in> {ColumnNotFound, ColumnIndexOutOfBounds, ColumnDecode, TypeNotFound, SqlxDecode}
          then (Memory, ''postgres_schema_drift'', False)
        else (Memory, ''postgres_other'', True))"

fun classify_memory_error :: "mem_error \<Rightarrow> class_code" where
  "classify_memory_error (Backend msg) = classify_memory_backend_message msg"
| "classify_memory_error (SchemaMismatch _ _) = (Memory, ''schema_mismatch'', False)"
| "classify_memory_error (MissingReverseMigration _) = (Memory, ''missing_reverse_migration'', False)"
| "classify_memory_error (MemCore c) = classify_core_error c"
| "classify_memory_error (Sqlx e) = classify_sqlx_like e"
| "classify_memory_error (MemOther _) = (Internal, ''memory_other'', False)"
| "classify_memory_error StreamerShutdown = (Memory, ''streamer_dead'', False)"

definition error_reply :: "class_code \<Rightarrow> string \<Rightarrow> response" where
  "error_reply c m = (case c of (cls, code, retry) \<Rightarrow> PError cls code m retry)"

text \<open>The chains without a typed error are told apart by their text.\<close>

definition classify_text :: "string \<Rightarrow> response" where
  "classify_text message =
     (let lower = to_ascii_lowercase message in
      if contains_sub ''daemon is shutting down'' lower then resp_concurrency ''daemon_shutting_down'' message
      else if contains_sub ''invalid hash'' lower then resp_validation ''invalid_hash'' message
      else if contains_sub ''ref not found'' lower \<or> contains_sub ''commit not found'' lower
        then resp_not_found ''ref_not_found'' message
      else if contains_sub ''scanner'' lower \<and> contains_sub ''rejected'' lower
        then resp_validation ''secret_detected'' message
      else PError Internal ''unclassified'' message False)"

definition map_anyhow_to_response_error :: "(layer \<Rightarrow> string) \<Rightarrow> anyhow \<Rightarrow> response" where
  "map_anyhow_to_response_error sh e =
     (let message = render_chain sh e in
      case first_gate e of
        Some g \<Rightarrow> resp_validation (gate_code g) message
      | None \<Rightarrow>
        (case first_mem e of
           Some m \<Rightarrow> error_reply (classify_memory_error m) message
         | None \<Rightarrow>
           (case first_core e of
              Some c \<Rightarrow> error_reply (classify_core_error c) message
            | None \<Rightarrow> classify_text message)))"

section \<open>Retryable replies\<close>

text \<open>What clients may rely on: the classes that are never retryable, and the one that always is.\<close>

definition retry_ok :: "class_code \<Rightarrow> bool" where
  "retry_ok c = (case c of (cls, code, retry) \<Rightarrow>
     (cls = Concurrency \<longrightarrow> retry) \<and> (cls \<in> {Protocol, Validation, CNotFound, Internal, Unknown} \<longrightarrow> \<not> retry))"

lemma retry_ok_core: "retry_ok (classify_core_error c)"
  by (cases c) (simp_all add: retry_ok_def)

lemma retry_ok_backend: "retry_ok (classify_memory_backend_message m)"
  by (simp add: retry_ok_def classify_memory_backend_message_def Let_def)

lemma retry_ok_sqlx: "retry_ok (classify_sqlx_like e)"
  by (cases e) (simp add: retry_ok_def classify_sqlx_like_def)

lemma retry_ok_mem: "retry_ok (classify_memory_error m)"
  by (cases m) (simp_all add: retry_ok_core retry_ok_backend retry_ok_sqlx, simp_all add: retry_ok_def)

lemma retry_ok_reply: "retry_ok c \<Longrightarrow> error_reply c m = PError cls code m' r \<Longrightarrow> retry_ok (cls, code, r)"
  by (cases c) (simp add: error_reply_def)

lemma map_anyhow_error: "\<exists>cls code r. map_anyhow_to_response_error sh e = PError cls code (render_chain sh e) r \<and> retry_ok (cls, code, r)"
proof -
  have "\<exists>cls code r. error_reply c m = PError cls code m r \<and> retry_ok (cls, code, r)" if "retry_ok c" for c m
    using that by (cases c) (simp add: error_reply_def)
  note reply = this [OF retry_ok_mem] this [OF retry_ok_core]
  have "\<exists>cls code r. classify_text m = PError cls code m r \<and> retry_ok (cls, code, r)" for m
    by (auto simp: classify_text_def Let_def resp_defs retry_ok_def)
  then show ?thesis
    using reply
    by (auto simp: map_anyhow_to_response_error_def Let_def resp_defs retry_ok_def split: option.split)
qed

section \<open>Properties\<close>



lemma contains_sub_append: "contains_sub p s \<Longrightarrow> contains_sub p (a @ s @ b)"
  unfolding contains_sub_iff by (metis append.assoc)

text \<open>
  The text search can be steered by the client. A request that names a ref which does not
  exist is a not-found error, but when the name contains the words of the shutdown message, in
  any case, the reply is a retryable concurrency error instead.
\<close>

theorem ref_name_steers_class:
  assumes "contains_sub ''daemon is shutting down'' (to_ascii_lowercase name)"
  shows "map_anyhow_to_response_error sh [Ctx (''ref not found: '' @ name)] =
     PError Concurrency ''daemon_shutting_down'' (''ref not found: '' @ name) True"
proof -
  have "to_ascii_lowercase (''ref not found: '' @ name) = to_ascii_lowercase ''ref not found: '' @ to_ascii_lowercase name @ []"
    by (simp add: to_ascii_lowercase_def)
  then have "contains_sub ''daemon is shutting down'' (to_ascii_lowercase (''ref not found: '' @ name))"
    using contains_sub_append [OF assms] by metis
  then show ?thesis
    by (simp add: map_anyhow_to_response_error_def render_chain_def show_layer_def classify_text_def Let_def resp_defs)
qed

theorem ref_name_steers_class_witness:
  "map_anyhow_to_response_error (\<lambda>_. []) [Ctx ''ref not found: daemon is shutting down''] =
     PError Concurrency ''daemon_shutting_down'' ''ref not found: daemon is shutting down'' True"
proof -
  have "to_ascii_lowercase ''daemon is shutting down'' = ''daemon is shutting down''" by code_simp
  then have "contains_sub ''daemon is shutting down'' (to_ascii_lowercase ''daemon is shutting down'')"
    by (simp add: contains_sub_iff) (metis append.left_neutral append.right_neutral)
  from ref_name_steers_class [OF this, of "\<lambda>_. []"] show ?thesis by simp
qed

end
