(* ===== verification/Admission.thy ===== *)
theory Admission
  imports Prelude Complex_Main
begin

text \<open>
  Admission control (\<open>limits.rs\<close>, the commit slots of \<open>server.rs\<close>) and the peer policy
  (\<open>peer_auth.rs\<close>). The gate's mutex makes an admission and a release one step each; the
  connections that are open are the guards not yet dropped. Counts are natural numbers: they
  stay below the caps, which are \<open>usize\<close>. The token bucket computes in the reals where the code
  uses \<open>f64\<close>; an \<open>Instant\<close> is a number of seconds.
\<close>

section \<open>Configuration\<close>

record limits_config =
  max_connections :: nat
  max_connections_per_uid :: nat
  rate_per_uid :: u32
  commit_queue_depth :: nat
  read_idle :: nat
  write_idle :: nat

definition default_limits :: limits_config where
  "default_limits =
     \<lparr>max_connections = 64, max_connections_per_uid = 16, rate_per_uid = 200, commit_queue_depth = 8,
      read_idle = 30, write_idle = 30\<rparr>"

definition validate_limits :: "limits_config \<Rightarrow> string + unit" where
  "validate_limits c =
     res_bind (ensure (max_connections c \<ge> 1) ''--max-connections must be >= 1'') (\<lambda>_.
     res_bind (ensure (max_connections_per_uid c \<ge> 1) ''--max-connections-per-uid must be >= 1'') (\<lambda>_.
     res_bind (ensure (rate_per_uid c \<ge> 1) ''--rate-per-uid must be >= 1'') (\<lambda>_.
     res_bind (ensure (commit_queue_depth c \<ge> 1) ''--commit-queue-depth must be >= 1'') (\<lambda>_.
     res_bind (ensure (read_idle c \<noteq> 0) ''--read-idle-secs must be >= 1'') (\<lambda>_.
     ensure (write_idle c \<noteq> 0) ''--write-idle-secs must be >= 1'')))))"

section \<open>Peer policy\<close>

datatype peer_auth_policy = Allowlist "u32 list" | InsecureAllowAny

fun is_allowed :: "peer_auth_policy \<Rightarrow> u32 \<Rightarrow> bool" where
  "is_allowed (Allowlist uids) uid \<longleftrightarrow> uid \<in> set uids"
| "is_allowed InsecureAllowAny uid \<longleftrightarrow> True"

fun attestation_for :: "peer_auth_policy \<Rightarrow> u32 \<Rightarrow> u32 option" where
  "attestation_for (Allowlist _) uid = Some uid"
| "attestation_for InsecureAllowAny uid = None"

section \<open>Connection gate\<close>

datatype conn_rejection = GlobalCap nat nat | PerUidCap u32 nat nat

record conn_gate =
  max_global :: nat
  max_per_uid :: nat
  gc_global :: nat
  gc_per_uid :: "u32 \<Rightarrow> nat option"

definition gate_new :: "limits_config \<Rightarrow> conn_gate" where
  "gate_new c =
     \<lparr>max_global = max_connections c, max_per_uid = max_connections_per_uid c,
      gc_global = 0, gc_per_uid = (\<lambda>_. None)\<rparr>"

definition uid_count :: "conn_gate \<Rightarrow> u32 \<Rightarrow> nat" where
  "uid_count g uid = (case gc_per_uid g uid of None \<Rightarrow> 0 | Some n \<Rightarrow> n)"

definition try_admit :: "u32 \<Rightarrow> (conn_gate, conn_rejection, u32) act" where
  "try_admit uid g =
     (if gc_global g \<ge> max_global g then (Inl (GlobalCap (gc_global g) (max_global g)), g)
      else if uid_count g uid \<ge> max_per_uid g
        then (Inl (PerUidCap uid (uid_count g uid) (max_per_uid g)), g)
      else (Inr uid, g\<lparr>gc_global := gc_global g + 1,
                       gc_per_uid := (gc_per_uid g)(uid \<mapsto> uid_count g uid + 1)\<rparr>))"

definition drop_guard :: "u32 \<Rightarrow> conn_gate \<Rightarrow> conn_gate" where
  "drop_guard uid g =
     (let g' = g\<lparr>gc_global := gc_global g - 1\<rparr> in
      case gc_per_uid g uid of
        None \<Rightarrow> g'
      | Some n \<Rightarrow>
          if n - 1 = 0 then g'\<lparr>gc_per_uid := (gc_per_uid g)(uid := None)\<rparr>
          else g'\<lparr>gc_per_uid := (gc_per_uid g)(uid \<mapsto> n - 1)\<rparr>)"

text \<open>The gate and the guards that are held. A connection is admitted, or a guard dropped.\<close>

inductive gate_step :: "conn_gate \<times> u32 list \<Rightarrow> conn_gate \<times> u32 list \<Rightarrow> bool" where
  admit: "try_admit uid g = (Inr u, g') \<Longrightarrow> gate_step (g, live) (g', u # live)"
| refuse: "try_admit uid g = (Inl e, g') \<Longrightarrow> gate_step (g, live) (g', live)"
| release: "gate_step (g, as @ u # bs) (drop_guard u g, as @ bs)"

inductive_cases gate_stepE: "gate_step (g, live) s"

inductive gate_reachable :: "limits_config \<Rightarrow> conn_gate \<times> u32 list \<Rightarrow> bool" for c where
  gate_start: "gate_reachable c (gate_new c, [])"
| gate_next: "gate_reachable c s \<Longrightarrow> gate_step s t \<Longrightarrow> gate_reachable c t"

definition gate_inv :: "limits_config \<Rightarrow> conn_gate \<times> u32 list \<Rightarrow> bool" where
  "gate_inv c s \<longleftrightarrow> (case s of (g, live) \<Rightarrow>
     max_global g = max_connections c \<and> max_per_uid g = max_connections_per_uid c \<and>
     gc_global g = length live \<and> length live \<le> max_connections c \<and>
     (\<forall>u. gc_per_uid g u = (if u \<in> set live then Some (count_list live u) else None)) \<and>
     (\<forall>u. count_list live u \<le> max_connections_per_uid c))"

lemma gate_inv_count: "gate_inv c (g, live) \<Longrightarrow> uid_count g u = count_list live u"
  by (simp add: gate_inv_def uid_count_def count_list_0_iff)

lemma gate_inv_admit:
  assumes "gate_inv c (g, live)" "try_admit uid g = (Inr u, g')"
  shows "gate_inv c (g', u # live)"
  using assms gate_inv_count [OF assms(1)]
  by (auto simp: try_admit_def gate_inv_def split: if_splits)

lemma drop_guard_fields [simp]:
  "gc_global (drop_guard u g) = gc_global g - 1" "max_global (drop_guard u g) = max_global g"
  "max_per_uid (drop_guard u g) = max_per_uid g"
  by (simp_all add: drop_guard_def Let_def split: option.split)

lemma drop_guard_count:
  "gc_per_uid g u = Some (Suc n) \<Longrightarrow>
     gc_per_uid (drop_guard u g) v = (if v = u then (if n = 0 then None else Some n) else gc_per_uid g v)"
  by (simp add: drop_guard_def Let_def)

lemma gate_inv_release:
  assumes "gate_inv c (g, as @ u # bs)"
  shows "gate_inv c (drop_guard u g, as @ bs)"
proof -
  have old: "gc_per_uid g v = (if v \<in> set (as @ u # bs) then Some (count_list (as @ u # bs) v) else None)"
    "count_list (as @ u # bs) v \<le> max_connections_per_uid c" for v
    using assms unfolding gate_inv_def prod.case by blast+
  have "gc_per_uid g u = Some (Suc (count_list (as @ bs) u))" using old(1) [of u] by simp
  note new = drop_guard_count [OF this]
  have "count_list (as @ bs) v \<le> count_list (as @ u # bs) v" for v by simp
  then have "count_list (as @ bs) v \<le> max_connections_per_uid c" for v using old(2) le_trans by blast
  moreover have "gc_per_uid (drop_guard u g) v =
      (if v \<in> set (as @ bs) then Some (count_list (as @ bs) v) else None)" for v
  proof (cases "v = u")
    case True
    then show ?thesis using count_list_0_iff [of "as @ bs" u] unfolding new by auto
  next
    case False
    then show ?thesis unfolding new old(1) by simp
  qed
  moreover have "max_global g = max_connections c" "max_per_uid g = max_connections_per_uid c"
    "gc_global g = length (as @ u # bs)" "length (as @ u # bs) \<le> max_connections c"
    using assms unfolding gate_inv_def prod.case by blast+
  ultimately show ?thesis unfolding gate_inv_def by simp
qed

lemma gate_inv_step: "gate_inv c s \<Longrightarrow> gate_step s t \<Longrightarrow> gate_inv c t"
proof (cases s)
  case (Pair g live)
  assume inv: "gate_inv c s" and step: "gate_step s t"
  from step [unfolded Pair] show "gate_inv c t"
  proof (rule gate_stepE)
    fix uid u g' assume "t = (g', u # live)" "try_admit uid g = (Inr u, g')"
    with inv Pair show ?thesis using gate_inv_admit by simp
  next
    fix uid e g' assume "t = (g', live)" "try_admit uid g = (Inl e, g')"
    with inv Pair show ?thesis by (auto simp: try_admit_def split: if_splits)
  next
    fix as u bs assume "t = (drop_guard u g, as @ bs)" "live = as @ u # bs"
    with inv Pair show ?thesis using gate_inv_release by simp
  qed
qed

lemma gate_reachable_inv: "gate_reachable c s \<Longrightarrow> gate_inv c s"
proof (induction rule: gate_reachable.induct)
  case gate_start
  show ?case by (simp add: gate_inv_def gate_new_def)
qed (rule gate_inv_step)

section \<open>Rate limiter\<close>

record bucket =
  tokens :: real
  last_refill :: real

record rate_limiter =
  rl_rate :: real
  rl_burst :: real
  rl_buckets :: "u32 \<Rightarrow> bucket option"

definition rate_new :: "u32 \<Rightarrow> rate_limiter" where
  "rate_new r = \<lparr>rl_rate = real (unat r), rl_burst = real (unat r) * 2, rl_buckets = (\<lambda>_. None)\<rparr>"

definition try_consume :: "u32 \<Rightarrow> real \<Rightarrow> rate_limiter \<Rightarrow> bool \<times> rate_limiter" where
  "try_consume uid now l =
     (let b = (case rl_buckets l uid of Some b \<Rightarrow> b | None \<Rightarrow> \<lparr>tokens = rl_burst l, last_refill = now\<rparr>);
          elapsed = max 0 (now - last_refill b);
          t = min (tokens b + elapsed * rl_rate l) (rl_burst l)
      in if t \<ge> 1 then (True, l\<lparr>rl_buckets := (rl_buckets l)(uid \<mapsto> \<lparr>tokens = t - 1, last_refill = now\<rparr>)\<rparr>)
         else (False, l\<lparr>rl_buckets := (rl_buckets l)(uid \<mapsto> \<lparr>tokens = t, last_refill = now\<rparr>)\<rparr>))"

text \<open>Serving a list of requests, each a user and a time; the answers in order.\<close>

fun serve :: "(u32 \<times> real) list \<Rightarrow> rate_limiter \<Rightarrow> bool list \<times> rate_limiter" where
  "serve [] l = ([], l)"
| "serve ((uid, now) # rs) l =
     (case try_consume uid now l of (ok, l') \<Rightarrow> (case serve rs l' of (oks, l'') \<Rightarrow> (ok # oks, l'')))"

definition accepted :: "u32 \<Rightarrow> (u32 \<times> real) list \<Rightarrow> rate_limiter \<Rightarrow> nat" where
  "accepted u rs l = length (filter (\<lambda>(r, ok). fst r = u \<and> ok) (zip rs (fst (serve rs l))))"

lemma accepted_Nil [simp]: "accepted u [] l = 0"
  by (simp add: accepted_def)

lemma accepted_Cons:
  "accepted u ((v, now) # rs) l =
     (if v = u \<and> fst (try_consume v now l) then 1 else 0) + accepted u rs (snd (try_consume v now l))"
  by (auto simp: accepted_def split: prod.splits)

lemma try_consume_fields [simp]:
  "rl_rate (snd (try_consume u now l)) = rl_rate l" "rl_burst (snd (try_consume u now l)) = rl_burst l"
  by (simp_all add: try_consume_def Let_def)

lemma try_consume_other: "v \<noteq> u \<Longrightarrow> rl_buckets (snd (try_consume v now l)) u = rl_buckets l u"
  by (simp add: try_consume_def Let_def)

text \<open>The tokens of a user never exceed the burst, and what is granted is paid for.\<close>

definition bucket_ok :: "rate_limiter \<Rightarrow> u32 \<Rightarrow> bool" where
  "bucket_ok l u \<longleftrightarrow> (\<forall>b. rl_buckets l u = Some b \<longrightarrow> 0 \<le> tokens b \<and> tokens b \<le> rl_burst l)"

lemma try_consume_known:
  assumes "rl_buckets l u = Some b" "last_refill b \<le> now"
  shows "try_consume u now l =
    (let t = min (tokens b + (now - last_refill b) * rl_rate l) (rl_burst l) in
     (t \<ge> 1, l\<lparr>rl_buckets := (rl_buckets l)(u \<mapsto> \<lparr>tokens = (if t \<ge> 1 then t - 1 else t), last_refill = now\<rparr>)\<rparr>))"
  using assms by (simp add: try_consume_def Let_def max_def)

lemma try_consume_paid:
  assumes "rl_buckets l u = Some b" "last_refill b \<le> now" "bucket_ok l u" "0 \<le> rl_rate l"
  obtains b' where "rl_buckets (snd (try_consume u now l)) u = Some b'" "last_refill b' = now"
    "tokens b' + (if fst (try_consume u now l) then 1 else 0) \<le> tokens b + (now - last_refill b) * rl_rate l"
    "bucket_ok (snd (try_consume u now l)) u"
proof -
  let ?t = "min (tokens b + (now - last_refill b) * rl_rate l) (rl_burst l)"
  let ?b = "\<lparr>tokens = (if ?t \<ge> 1 then ?t - 1 else ?t), last_refill = now\<rparr>"
  have r: "fst (try_consume u now l) = (?t \<ge> 1)" "rl_buckets (snd (try_consume u now l)) u = Some ?b"
    using try_consume_known [OF assms(1, 2)] by (simp_all add: Let_def)
  have "0 \<le> (now - last_refill b) * rl_rate l" using assms(2, 4) by simp
  then have t: "0 \<le> ?t" "?t \<le> rl_burst l" "?t \<le> tokens b + (now - last_refill b) * rl_rate l"
    using assms(1, 3) by (auto simp: bucket_ok_def)
  show thesis
  proof (rule that [OF r(2)])
    show "tokens ?b + (if fst (try_consume u now l) then 1 else 0) \<le> tokens b + (now - last_refill b) * rl_rate l"
      using t(3) by (simp add: r(1))
    show "bucket_ok (snd (try_consume u now l)) u"
      using t(1, 2) r(2) by (auto simp: bucket_ok_def)
  qed simp
qed

text \<open>From a known bucket: what is granted up to a time is paid by its tokens and the refill.\<close>

lemma accepted_known:
  "rl_buckets l u = Some b \<Longrightarrow> bucket_ok l u \<Longrightarrow> 0 \<le> rl_rate l \<Longrightarrow> sorted (map snd rs) \<Longrightarrow>
     \<forall>r\<in>set rs. last_refill b \<le> snd r \<and> snd r \<le> hi \<Longrightarrow> last_refill b \<le> hi \<Longrightarrow>
     real (accepted u rs l) \<le> tokens b + (hi - last_refill b) * rl_rate l"
proof (induction rs arbitrary: l b)
  case Nil
  then show ?case by (simp add: bucket_ok_def)
next
  case (Cons r rs)
  obtain v now where r: "r = (v, now)" by (cases r)
  let ?l = "snd (try_consume v now l)"
  show ?case
  proof (cases "v = u")
    case False
    then have "rl_buckets ?l u = Some b" "bucket_ok ?l u"
      using Cons.prems(1, 2) by (simp_all add: try_consume_other bucket_ok_def)
    then have "real (accepted u rs ?l) \<le> tokens b + (hi - last_refill b) * rl_rate ?l"
      using Cons.prems by (intro Cons.IH) simp_all
    then show ?thesis using False r by (simp add: accepted_Cons)
  next
    case True
    have now: "last_refill b \<le> now" "now \<le> hi" using Cons.prems(5) r by simp_all
    obtain b' where b': "rl_buckets ?l u = Some b'" "last_refill b' = now" "bucket_ok ?l u"
      "tokens b' + (if fst (try_consume v now l) then 1 else 0) \<le> tokens b + (now - last_refill b) * rl_rate l"
      using try_consume_paid [OF Cons.prems(1) now(1) Cons.prems(2, 3)] True by metis
    have "real (accepted u rs ?l) \<le> tokens b' + (hi - last_refill b') * rl_rate ?l"
      using Cons.prems r b' now(2) by (intro Cons.IH) simp_all
    then have "real (accepted u (r # rs) l) \<le>
        (if fst (try_consume v now l) then 1 else 0) + tokens b' + (hi - now) * rl_rate l"
      using r True b'(2) by (simp add: accepted_Cons)
    also have "\<dots> \<le> tokens b + (now - last_refill b) * rl_rate l + (hi - now) * rl_rate l"
      using b'(4) by simp
    also have "\<dots> = tokens b + (hi - last_refill b) * rl_rate l"
      by (simp add: algebra_simps)
    finally show ?thesis .
  qed
qed

lemma accepted_fresh:
  "rl_buckets l u = None \<Longrightarrow> 0 \<le> rl_rate l \<Longrightarrow> 0 \<le> rl_burst l \<Longrightarrow> sorted (map snd rs) \<Longrightarrow>
     \<forall>r\<in>set rs. lo \<le> snd r \<and> snd r \<le> hi \<Longrightarrow> lo \<le> hi \<Longrightarrow>
     real (accepted u rs l) \<le> rl_burst l + (hi - lo) * rl_rate l"
proof (induction rs arbitrary: l)
  case Nil
  then show ?case by simp
next
  case (Cons r rs)
  obtain v now where r: "r = (v, now)" by (cases r)
  show ?case
  proof (cases "v = u")
    case False
    then have "rl_buckets (snd (try_consume v now l)) u = None"
      using Cons.prems(1) by (simp add: try_consume_other)
    then show ?thesis using Cons.IH [of "snd (try_consume v now l)"] Cons.prems False r by (simp add: accepted_Cons)
  next
    case True
    let ?b = "\<lparr>tokens = rl_burst l, last_refill = now\<rparr>"
    let ?l = "l\<lparr>rl_buckets := (rl_buckets l)(u \<mapsto> ?b)\<rparr>"
    have same: "try_consume u now l = try_consume u now ?l"
      using Cons.prems(1) by (cases l) (simp add: try_consume_def Let_def)
    have "real (accepted u ((u, now) # rs) ?l) \<le> tokens ?b + (hi - last_refill ?b) * rl_rate ?l"
      using Cons.prems r by (intro accepted_known) (auto simp: bucket_ok_def)
    also have "\<dots> \<le> rl_burst l + (hi - lo) * rl_rate l"
      using Cons.prems(2, 5) r by (simp add: mult_right_mono)
    finally show ?thesis using same True r by (simp add: accepted_Cons)
  qed
qed

section \<open>Commit slots\<close>

record commit_slots =
  sl_permits :: nat
  sl_depth :: nat

definition slots_new :: "limits_config \<Rightarrow> commit_slots" where
  "slots_new c = \<lparr>sl_permits = commit_queue_depth c, sl_depth = 0\<rparr>"

definition try_commit_slot :: "commit_slots \<Rightarrow> commit_slots option" where
  "try_commit_slot s =
     (if sl_permits s = 0 then None
      else Some (s\<lparr>sl_permits := sl_permits s - 1, sl_depth := sl_depth s + 1\<rparr>))"

definition drop_slot :: "commit_slots \<Rightarrow> commit_slots" where
  "drop_slot s = s\<lparr>sl_permits := sl_permits s + 1, sl_depth := sl_depth s - 1\<rparr>"

lemma slot_roundtrip: "try_commit_slot s = Some t \<Longrightarrow> drop_slot t = s"
  by (auto simp: try_commit_slot_def drop_slot_def split: if_splits)

section \<open>Properties\<close>

text \<open>
  The gate counts exactly the connections that are open. In every state reached by
  admissions, refusals and drops in any order, there are no more open connections than the
  global cap and no more of one user than the per-user cap; the counters are the numbers of
  open connections, with no entry left behind for a user who has none; and a user is
  refused exactly when one of the caps is reached.
\<close>

theorem gate_counts_connections:
  assumes "gate_reachable c (g, live)"
  shows "length live \<le> max_connections c \<and> count_list live u \<le> max_connections_per_uid c \<and>
    gc_global g = length live \<and> gc_per_uid g u = (if u \<in> set live then Some (count_list live u) else None) \<and>
    isl (fst (try_admit u g)) =
      (length live = max_connections c \<or> count_list live u = max_connections_per_uid c)"
proof -
  have inv: "gate_inv c (g, live)" using assms by (rule gate_reachable_inv)
  moreover have "uid_count g u = count_list live u" using inv by (rule gate_inv_count)
  moreover have "count_list live u \<le> max_connections_per_uid c" "length live \<le> max_connections c"
    using inv by (simp_all add: gate_inv_def)
  then have "(max_connections_per_uid c \<le> count_list live u) = (count_list live u = max_connections_per_uid c)"
    "(max_connections c \<le> length live) = (length live = max_connections c)" by linarith+
  ultimately show ?thesis by (simp add: gate_inv_def try_admit_def)
qed

theorem gate_counts_connections_witness:
  "\<exists>g. gate_reachable default_limits (g, [7]) \<and> gc_per_uid g 7 = Some 1 \<and> \<not> isl (fst (try_admit 7 g))"
proof -
  let ?g = "snd (try_admit 7 (gate_new default_limits))"
  have "try_admit 7 (gate_new default_limits) = (Inr 7, ?g)"
    by (simp add: try_admit_def gate_new_def default_limits_def uid_count_def)
  then have r: "gate_reachable default_limits (?g, [7])"
    by (intro gate_next [OF gate_start] admit)
  from gate_counts_connections [OF r, of 7] show ?thesis
    using r by (intro exI [of _ ?g]) (simp add: default_limits_def)
qed

text \<open>
  The request rate of a user is bounded. Of any requests that a fresh limiter serves within a
  period, at most twice the configured rate plus the rate times the length of the period are
  granted to one user, however many other users send in between.
\<close>

theorem rate_bounded:
  assumes "sorted (map snd rs)" "\<forall>r\<in>set rs. lo \<le> snd r \<and> snd r \<le> hi" "lo \<le> hi"
  shows "real (accepted u rs (rate_new n)) \<le> 2 * real (unat n) + (hi - lo) * real (unat n)"
  using accepted_fresh [of "rate_new n" u rs lo hi] assms
  by (simp add: rate_new_def mult.commute del: of_nat_unat)

theorem rate_bounded_witness:
  "real (accepted 7 [(7, 0), (7, 0), (7, 0)] (rate_new 1)) \<le> 2"
  using rate_bounded [of "[(7, 0), (7, 0), (7, 0)]" 0 0 7 1] by simp

text \<open>
  The rate limiter never starves a user: whatever the state of the bucket, a request is
  granted once the user has waited for one token's time, and a user not seen before is
  granted the first request. No user's request touches another's bucket.
\<close>

theorem rate_recovers:
  assumes "1 \<le> unat n" "rl_rate l = real (unat n)" "rl_burst l = 2 * real (unat n)" "bucket_ok l u"
    and "\<And>b. rl_buckets l u = Some b \<Longrightarrow> last_refill b + 1 / real (unat n) \<le> now"
  shows "fst (try_consume u now l) \<and>
    (v \<noteq> u \<longrightarrow> rl_buckets (snd (try_consume v t l)) u = rl_buckets l u)"
proof (cases "rl_buckets l u")
  case None
  have "1 \<le> rl_burst l" using assms(1, 3) by linarith
  with None show ?thesis by (simp add: try_consume_def Let_def try_consume_other)
next
  case (Some b)
  have pos: "real (unat n) > 0" using assms(1) by linarith
  have wait: "last_refill b + 1 / real (unat n) \<le> now" using assms(5) Some by simp
  moreover have "0 \<le> 1 / real (unat n)" using pos by (simp del: of_nat_unat)
  ultimately have "last_refill b \<le> now" by linarith
  moreover have "1 \<le> (now - last_refill b) * real (unat n)"
    using wait pos by (simp add: field_simps del: of_nat_unat)
  moreover have "0 \<le> tokens b" using assms(4) Some by (simp add: bucket_ok_def)
  moreover have "1 \<le> rl_burst l" using assms(1, 3) by linarith
  ultimately show ?thesis
    using Some assms(2) by (simp add: try_consume_known Let_def try_consume_other del: of_nat_unat)
qed

theorem rate_recovers_witness:
  "fst (try_consume 7 1 ((rate_new 1)\<lparr>rl_buckets := (\<lambda>_. None)(7 \<mapsto> \<lparr>tokens = 0, last_refill = 0\<rparr>)\<rparr>))"
  using rate_recovers [of 1 "(rate_new 1)\<lparr>rl_buckets := (\<lambda>_. None)(7 \<mapsto> \<lparr>tokens = 0, last_refill = 0\<rparr>)\<rparr>" 7 1]
  by (simp add: rate_new_def bucket_ok_def)

end
