(* ===== verification/Migrate.thy ===== *)
theory Migrate
  imports Memory_Adapter Wire_Error
begin

text \<open>
  Loading the files of reverse migrations (\<open>migrate.rs\<close> of \<open>agenticd\<close>). Every action of the
  daemon fails with an \<open>anyhow\<close> chain; the helpers here turn the results of the lower layers
  into one, with or without a context.
\<close>

section \<open>Errors of the daemon's actions\<close>

definition core_any :: "('s, core_error, 'a) act \<Rightarrow> ('s, anyhow, 'a) act" where
  "core_any m = map_errA (\<lambda>e. [LCore e]) m"

definition mem_any :: "('s, mem_error, 'a) act \<Rightarrow> ('s, anyhow, 'a) act" where
  "mem_any m = map_errA (\<lambda>e. [LMem e]) m"

definition io_any :: "('s, io_error, 'a) act \<Rightarrow> ('s, anyhow, 'a) act" where
  "io_any m = map_errA (\<lambda>e. [LIo e]) m"

definition with_context :: "string \<Rightarrow> ('s, anyhow, 'a) act \<Rightarrow> ('s, anyhow, 'a) act" where
  "with_context c m = map_errA (context_of c) m"

definition bail :: "string \<Rightarrow> ('s, anyhow, 'a) act" where
  "bail c = fail [Ctx c]"

lemmas any_defs = core_any_def mem_any_def io_any_def with_context_def bail_def

lemma any_ok_iff [simp]:
  "core_any m s = (Inr a, t) \<longleftrightarrow> m s = (Inr a, t)" "mem_any n s = (Inr a, t) \<longleftrightarrow> n s = (Inr a, t)"
  "io_any p s = (Inr a, t) \<longleftrightarrow> p s = (Inr a, t)" "with_context c q s = (Inr a, t) \<longleftrightarrow> q s = (Inr a, t)"
  "bail c s \<noteq> (Inr a, t)"
  by (simp_all add: any_defs)

lemma keeps_any:
  "keeps R m \<Longrightarrow> keeps R (core_any m)" "keeps R n \<Longrightarrow> keeps R (mem_any n)" "keeps R p \<Longrightarrow> keeps R (io_any p)"
  "keeps R q \<Longrightarrow> keeps R (with_context c q)" "reflp R \<Longrightarrow> keeps R (bail c)"
  by (simp_all add: any_defs keeps_map_errA keeps_basic)

section \<open>Lines\<close>

definition strip_cr :: "string \<Rightarrow> string" where
  "strip_cr l = (if l \<noteq> [] \<and> last l = CHR 0x0D then butlast l else l)"

definition str_lines :: "string \<Rightarrow> string list" where
  "str_lines s =
     (let ps = split_on (CHR 0x0A) s
      in map strip_cr (butlast ps) @ (if last ps = [] then [] else [last ps]))"

section \<open>Loading\<close>

definition down_file :: "path \<Rightarrow> string \<Rightarrow> path" where
  "down_file dir name = path_join (dir @ [''schema'']) (name @ ''.down.sql'')"

definition validate_migration_name :: "string \<Rightarrow> anyhow + unit" where
  "validate_migration_name name =
     (if CHR ''/'' \<in> set name \<or> CHR 0x5C \<in> set name \<or> contains_sub ''..'' name
      then Inl [Ctx ''migration name contains path separators or '..' and would escape the schema directory'']
      else Inr ())"

fun first_line_irreversible :: "string list \<Rightarrow> bool" where
  "first_line_irreversible [] \<longleftrightarrow> False"
| "first_line_irreversible (l # ls) \<longleftrightarrow>
     (let t = str_trim l in
      if t = [] then first_line_irreversible ls else starts_with ''-- IRREVERSIBLE'' t)"

definition check_irreversible :: "string \<Rightarrow> bool \<Rightarrow> anyhow + unit" where
  "check_irreversible sql accept_data_loss =
     (if accept_data_loss then Inr ()
      else if first_line_irreversible (str_lines sql)
        then Inl [Ctx ''migration is marked -- IRREVERSIBLE and cannot be reversed automatically'']
      else Inr ())"

definition load_step :: "path \<Rightarrow> bool \<Rightarrow> string \<Rightarrow> (fs, anyhow, migration_step) act" where
  "load_step dir accept name =
     bindA (lift_res (validate_migration_name name)) (\<lambda>_ s.
     if \<not> path_exists s (down_file dir name) then (Inl [Ctx ''reverse migration file is missing''], s)
     else bindA (with_context ''reading'' (io_any (fs_read_to_string (down_file dir name)))) (\<lambda>sql.
          bindA (lift_res (check_irreversible sql accept)) (\<lambda>_.
          ret \<lparr>ms_name = name, ms_sql = sql\<rparr>)) s)"

definition load_steps :: "path \<Rightarrow> string list \<Rightarrow> bool \<Rightarrow> (fs, anyhow, migration_step list) act" where
  "load_steps dir names accept s =
     (if names = [] then (Inr [], s)
      else if \<not> path_exists s (dir @ [''schema'']) then (Inl [Ctx ''schema directory does not exist''], s)
      else mapA (load_step dir accept) names s)"

section \<open>What is read\<close>

lemma not_slash_split: "CHR ''/'' \<notin> set s \<Longrightarrow> split_on (CHR ''/'') s = [s]"
  by (rule split_on_single)

lemma contains_dots: "''..'' = s \<Longrightarrow> contains_sub ''..'' s"
  by (simp add: contains_sub_iff) (metis append.left_neutral append.right_neutral)

lemma down_file_plain:
  assumes "validate_migration_name name = Inr ()"
  shows "down_file dir name = dir @ [''schema'', name @ ''.down.sql'']"
proof -
  let ?f = "name @ ''.down.sql''"
  have s: "CHR ''/'' \<notin> set ?f" using assms by (auto simp: validate_migration_name_def split: if_splits)
  have "\<not> starts_with ''/'' ?f" using s unfolding starts_with_iff by (metis append_Cons list.set_intros(1))
  moreover have "?f \<noteq> []" "?f \<noteq> ''.''" "?f \<noteq> ''..''" by auto
  ultimately have "path_components ?f = [Normal ?f]"
    using split_on_single [OF s] by (simp add: path_components_def comp_of_def Let_def)
  then show ?thesis by (simp add: down_file_def path_join_def)
qed

lemma fs_read_content: "fs_read p s = (Inr bs, t) \<Longrightarrow> lookup (entries s) p = Some (FFile bs)"
  unfolding fs_read_def
  by (cases rule: prim_cases [of whole "read_e p" s]) (auto split: option.splits entry.splits)

lemma fs_read_to_string_entries: "fs_read_to_string p s = (r, t) \<Longrightarrow> entries t = entries s"
  by (auto simp: fs_read_to_string_def bindA_def dest!: fs_read_entries split: prod.splits sum.splits if_splits)

lemma fs_read_to_string_content:
  "fs_read_to_string p s = (Inr x, t) \<Longrightarrow> lookup (entries s) p = Some (FFile (str_bytes x))"
  by (auto simp: fs_read_to_string_def bindA_ok_iff dest!: fs_read_content split: if_splits)

lemma load_step_ok:
  assumes "load_step dir accept name s = (Inr m, t)"
  shows "ms_name m = name \<and> validate_migration_name name = Inr () \<and>
     map_of (entries s) (dir @ [''schema'', name @ ''.down.sql'']) = Some (FFile (str_bytes (ms_sql m))) \<and>
     check_irreversible (ms_sql m) accept = Inr ()"
proof -
  have v: "validate_migration_name name = Inr ()"
    using assms by (auto simp: load_step_def bindA_ok_iff)
  obtain sql u where "fs_read_to_string (down_file dir name) s = (Inr sql, u)" "check_irreversible sql accept = Inr ()"
    "m = \<lparr>ms_name = name, ms_sql = sql\<rparr>"
    using assms by (auto simp: load_step_def bindA_ok_iff split: if_splits)
  with v fs_read_to_string_content [of "down_file dir name" s sql u] down_file_plain [OF v, of dir] show ?thesis
    by (simp add: lookup_def)
qed

lemma load_step_entries: "keeps (\<lambda>s t. entries t = entries s) (load_step dir accept name)"
proof -
  have read: "keeps (\<lambda>s t. entries t = entries s) (fs_read_to_string p)" for p
    by (auto simp: keeps_def) (metis fs_read_to_string_entries prod.collapse)
  have R: "reflp (\<lambda>s t. entries t = entries s)" "transp (\<lambda>s t. entries t = entries (s :: fs))"
    by (auto simp: reflp_def transp_def)
  have body: "keeps (\<lambda>s t. entries t = entries s)
      (bindA (with_context ''reading'' (io_any (fs_read_to_string (down_file dir name)))) (\<lambda>sql.
        bindA (lift_res (check_irreversible sql accept)) (\<lambda>_. ret \<lparr>ms_name = name, ms_sql = sql\<rparr>)))"
    by (intro keeps_rules keeps_any read R)
  show ?thesis
    unfolding load_step_def
  proof (intro keeps_bindA R keeps_basic)
    fix u
    show "keeps (\<lambda>s t. entries t = entries s) (\<lambda>s.
      if \<not> path_exists s (down_file dir name) then (Inl [Ctx ''reverse migration file is missing''], s)
      else bindA (with_context ''reading'' (io_any (fs_read_to_string (down_file dir name)))) (\<lambda>sql.
          bindA (lift_res (check_irreversible sql accept)) (\<lambda>_. ret \<lparr>ms_name = name, ms_sql = sql\<rparr>)) s)"
      using body by (simp add: keeps_def)
  qed
qed

lemma load_steps_entries: "keeps (\<lambda>s t. entries t = entries s) (load_steps dir names accept)"
proof -
  have "keeps (\<lambda>s t. entries t = entries s) (mapA (load_step dir accept) names)"
    by (rule keeps_mapA) (auto simp: reflp_def transp_def intro: load_step_entries)
  then show ?thesis by (simp add: keeps_def load_steps_def)
qed

lemma load_all_ok:
  "mapA (load_step dir accept) names s = (Inr ms, t) \<Longrightarrow>
     map ms_name ms = names \<and> (\<forall>m\<in>set ms. validate_migration_name (ms_name m) = Inr () \<and>
       map_of (entries s) (dir @ [''schema'', ms_name m @ ''.down.sql'']) = Some (FFile (str_bytes (ms_sql m))) \<and>
       check_irreversible (ms_sql m) accept = Inr ())"
proof (induction names arbitrary: s ms)
  case (Cons n ns)
  then obtain m u ms' where m: "load_step dir accept n s = (Inr m, u)" "mapA (load_step dir accept) ns u = (Inr ms', t)"
    "ms = m # ms'"
    by (auto simp: bindA_ok_iff)
  have "entries u = entries s" using load_step_entries m(1) by (rule keepsD)
  with Cons.IH [OF m(2)] load_step_ok [OF m(1)] m(3) show ?case by simp
qed simp

section \<open>Properties\<close>

text \<open>
  The reverse migrations loaded for a rollback are the ones asked for, in their order, each
  with the text of the file of its name in the schema directory and of no other file: a name
  with a separator or two dots is refused. Unless the operator accepts data loss, none of
  them is marked irreversible. Loading changes nothing on disk, whatever goes wrong.
\<close>

theorem load_steps_contained:
  assumes "load_steps dir names accept s = (r, t)"
  shows "entries t = entries s \<and>
    (r = Inr steps \<longrightarrow> map ms_name steps = names \<and>
      (\<forall>m\<in>set steps. CHR ''/'' \<notin> set (ms_name m) \<and> \<not> contains_sub ''..'' (ms_name m) \<and>
        map_of (entries s) (dir @ [''schema'', ms_name m @ ''.down.sql'']) = Some (FFile (str_bytes (ms_sql m))) \<and>
        (\<not> accept \<longrightarrow> \<not> first_line_irreversible (str_lines (ms_sql m)))))"
proof (intro conjI impI)
  show "entries t = entries s" using load_steps_entries assms by (rule keepsD)
  assume r: "r = Inr steps"
  then have *: "names = [] \<and> steps = [] \<or> mapA (load_step dir accept) names s = (Inr steps, t)"
    using assms by (auto simp: load_steps_def split: if_splits)
  then show "map ms_name steps = names" using load_all_ok by fastforce
  show "\<forall>m\<in>set steps. CHR ''/'' \<notin> set (ms_name m) \<and> \<not> contains_sub ''..'' (ms_name m) \<and>
      map_of (entries s) (dir @ [''schema'', ms_name m @ ''.down.sql'']) = Some (FFile (str_bytes (ms_sql m))) \<and>
      (\<not> accept \<longrightarrow> \<not> first_line_irreversible (str_lines (ms_sql m)))"
    using * load_all_ok [of dir accept names s steps t]
    by (auto simp: validate_migration_name_def check_irreversible_def split: if_splits)
qed

definition schema_fs :: fs where
  "schema_fs = \<lparr>entries = [([''schema''], FDir), ([''schema'', ''002.down.sql''], FFile [])], faults = []\<rparr>"

lemma schema_fs_read: "fs_read_to_string [''schema'', ''002.down.sql''] schema_fs = (Inr [], schema_fs)"
proof -
  have "utf8_ok []" by (rule utf8_ok_ascii) simp
  then show ?thesis
    by (simp add: fs_read_to_string_def bindA_def fs_read_def prim_quiet schema_fs_def lookup_def bytes_str_def)
qed

lemma schema_fs_irreversible: "check_irreversible [] False = Inr ()"
  by (simp add: check_irreversible_def str_lines_def)

lemma schema_fs_step: "load_step [] False ''002'' schema_fs = (Inr \<lparr>ms_name = ''002'', ms_sql = []\<rparr>, schema_fs)"
proof -
  have v: "validate_migration_name ''002'' = Inr ()" by code_simp
  have f: "down_file [] ''002'' = [''schema'', ''002.down.sql'']" using down_file_plain [OF v, of "[]"] by simp
  have "path_exists schema_fs [''schema'', ''002.down.sql'']"
    by (simp add: path_exists_def lookup_def schema_fs_def)
  then show ?thesis
    unfolding load_step_def v f by (simp add: any_defs map_errA_def bindA_def schema_fs_read schema_fs_irreversible)
qed

lemma schema_fs_load:
  "load_steps [] [''002''] False schema_fs = (Inr [\<lparr>ms_name = ''002'', ms_sql = []\<rparr>], schema_fs)"
proof -
  have "path_exists schema_fs [''schema'']" by (simp add: path_exists_def lookup_def schema_fs_def)
  then show ?thesis by (simp add: load_steps_def bindA_def schema_fs_step)
qed

theorem load_steps_contained_witness:
  "map_of (entries schema_fs) [''schema'', ''002.down.sql''] = Some (FFile []) \<and>
   \<not> first_line_irreversible (str_lines [])"
  using load_steps_contained [OF schema_fs_load, of "[\<lparr>ms_name = ''002'', ms_sql = []\<rparr>]"]
  by (simp add: str_bytes_def)

end
