(* ===== verification/Writeback.thy ===== *)
theory Writeback
  imports Migrate
begin

text \<open>
  Writing the prompts of a rollback's target back to disk, and reading the trees and blobs of
  a commit (\<open>rollback/writeback.rs\<close>, \<open>rollback/loaders.rs\<close>). The store and the repository's
  file system are parts of one world. The sweep recurses on the directories it finds; its
  depth is bounded by the longest path there is. Symbolic links are leaves here: the code's
  behaviour below a link to a directory is not modelled.
\<close>

section \<open>Loaders\<close>

definition rb_load_commit :: "'w store_ops \<Rightarrow> hash \<Rightarrow> ('w, anyhow, commit) act" where
  "rb_load_commit S h =
     bindA (core_any (st_get S h)) (\<lambda>x. case x of OCommit c \<Rightarrow> ret c | _ \<Rightarrow> bail ''expected commit'')"

definition rb_load_tree :: "'w store_ops \<Rightarrow> hash \<Rightarrow> ('w, anyhow, tree) act" where
  "rb_load_tree S h =
     bindA (core_any (st_get S h)) (\<lambda>x. case x of OTree t \<Rightarrow> ret t | _ \<Rightarrow> bail ''expected tree'')"

definition rb_load_blob :: "'w store_ops \<Rightarrow> hash \<Rightarrow> ('w, anyhow, blob) act" where
  "rb_load_blob S h =
     bindA (core_any (st_get S h)) (\<lambda>x. case x of OBlob b \<Rightarrow> ret b | _ \<Rightarrow> bail ''expected blob'')"

definition load_manifest :: "lib \<Rightarrow> 'w store_ops \<Rightarrow> hash \<Rightarrow> ('w, anyhow, segment_manifest) act" where
  "load_manifest L S h =
     bindA (core_any (st_get_raw S h)) (\<lambda>bs.
     with_context ''decoding manifest'' (lift_res (map_err (\<lambda>m. [Ctx m]) (from_canonical_bytes L bs))))"

fun tree_to_map :: "'w store_ops \<Rightarrow> tree \<Rightarrow> ('w, anyhow, (string \<times> bytes) list) act" where
  "tree_to_map S [] = ret []"
| "tree_to_map S ((name, r) # es) =
     (if ref_kind r \<noteq> KBlob then bail ''non-blob entry in tree''
      else bindA (rb_load_blob S (ref_hash r)) (\<lambda>b.
           bindA (tree_to_map S es) (\<lambda>m. ret ((name, b) # m))))"

definition read_text_blobs :: "'w store_ops \<Rightarrow> hash option \<Rightarrow> ('w, anyhow, (string \<times> bytes) list) act" where
  "read_text_blobs S h =
     (case h of
        None \<Rightarrow> ret []
      | Some h \<Rightarrow> bindA (rb_load_tree S h) (\<lambda>t. tree_to_map S t))"

definition read_model_text :: "'w store_ops \<Rightarrow> commit \<Rightarrow> ('w, anyhow, string option) act" where
  "read_model_text S c =
     (case c_model c of
        None \<Rightarrow> ret None
      | Some h \<Rightarrow> bindA (rb_load_blob S h) (\<lambda>b.
          if utf8_ok b then ret (Some (bytes_str b))
          else with_context ''model blob contains invalid UTF-8'' (bail ''invalid utf-8 sequence'')))"

section \<open>Writing\<close>

definition validate_tree_entry_name :: "string \<Rightarrow> anyhow + unit" where
  "validate_tree_entry_name name =
     (if name = [] then Inl [Ctx ''tree entry has empty name'']
      else if list_ex (\<lambda>c. \<not> is_normal c) (path_components name)
        then Inl [Ctx ''tree entry name contains an unsafe path component'']
      else Inr ())"

text \<open>\<open>symlink_metadata\<close>: the entry itself, not what a link points to.\<close>

fun metadata_e :: "path \<Rightarrow> ents \<Rightarrow> (io_error + entry) \<times> ents" where
  "metadata_e p es = (case lookup es p of None \<Rightarrow> Inl (nf []) | Some e \<Rightarrow> Inr e, es)"

definition fs_symlink_metadata :: "path \<Rightarrow> entry fsact" where
  "fs_symlink_metadata p = prim whole (metadata_e p)"

definition unlink_if_link :: "path \<Rightarrow> (fs, anyhow, unit) act" where
  "unlink_if_link p s =
     (case fs_symlink_metadata p s of
        (Inr FLink, t) \<Rightarrow> with_context ''removing pre-existing symlink'' (io_any (fs_remove_file p)) t
      | (Inr _, t) \<Rightarrow> (Inr (), t)
      | (Inl e, t) \<Rightarrow>
          if io_kind_of e = IoNotFound then (Inr (), t)
          else (Inl [Ctx ''checking for symlink before prompt write'', LIo e], t))"

definition write_blob_safely :: "path \<Rightarrow> bytes \<Rightarrow> (fs, anyhow, unit) act" where
  "write_blob_safely p bs =
     bindA (unlink_if_link p) (\<lambda>_.
     bindA (with_context ''writing temp file'' (io_any (fs_write (with_extension p ''tmp'') bs))) (\<lambda>_.
     with_context ''renaming'' (io_any (fs_rename (with_extension p ''tmp'') p))))"

definition ignore_error :: "('s, 'e, unit) act \<Rightarrow> ('s, 'f, unit) act" where
  "ignore_error m s = (Inr (), snd (m s))"

fun sweep_entry :: "(path \<Rightarrow> (fs, anyhow, unit) act) \<Rightarrow> path \<Rightarrow> path \<Rightarrow> path list \<Rightarrow>
    string \<times> entry \<Rightarrow> (fs, anyhow, unit) act" where
  "sweep_entry sweep base here wanted (name, e) =
     (let p = here @ [name] in
      if e = FDir then
        bindA (sweep p) (\<lambda>_.
          if p = base then ret ()
          else bindA (io_any (fs_read_dir p)) (\<lambda>rest.
               if rest = [] then ignore_error (fs_remove_dir p) else ret ()))
      else if p \<notin> set wanted then with_context ''removing orphan prompt'' (io_any (fs_remove_file p))
      else ret ())"

primrec sweep_orphans :: "nat \<Rightarrow> path \<Rightarrow> path \<Rightarrow> path list \<Rightarrow> (fs, anyhow, unit) act" where
  "sweep_orphans 0 base here wanted = bail ''too deep''"
| "sweep_orphans (Suc n) base here wanted =
     bindA (io_any (fs_read_dir here)) (\<lambda>kids.
     bindA (mapA (sweep_entry (\<lambda>p. sweep_orphans n base p wanted) base here wanted) kids) (\<lambda>_. ret ()))"

fun write_entries :: "'w store_ops \<Rightarrow> 'w fs_view \<Rightarrow> path \<Rightarrow> tree \<Rightarrow> path list \<Rightarrow> ('w, anyhow, path list) act" where
  "write_entries S V dir [] wanted = ret wanted"
| "write_entries S V dir ((name, r) # es) wanted =
     bindA (lift_res (validate_tree_entry_name name)) (\<lambda>_.
     let p = path_join dir name in
     bindA (on_fs V (io_any (fs_create_dir_all (butlast p)))) (\<lambda>_.
     bindA (rb_load_blob S (ref_hash r)) (\<lambda>b.
     bindA (on_fs V (write_blob_safely p b)) (\<lambda>_.
     write_entries S V dir es (p # wanted)))))"

definition sweep_all :: "path \<Rightarrow> path list \<Rightarrow> (fs, anyhow, unit) act" where
  "sweep_all dir wanted s = sweep_orphans (Suc (max_depth (entries s))) dir dir wanted s"

definition restore_prompts :: "'w store_ops \<Rightarrow> 'w fs_view \<Rightarrow> path \<Rightarrow> hash \<Rightarrow> ('w, anyhow, unit) act" where
  "restore_prompts S V repo h =
     (let dir = repo @ [''prompts''] in
      bindA (on_fs V (io_any (fs_create_dir_all dir))) (\<lambda>_.
      bindA (rb_load_tree S h) (\<lambda>t.
      bindA (write_entries S V dir t []) (\<lambda>wanted.
      on_fs V (sweep_all dir wanted)))))"

section \<open>The sweep\<close>

text \<open>A sweep only removes, and never a file that is wanted.\<close>

definition shrinks :: "path set \<Rightarrow> fs \<Rightarrow> fs \<Rightarrow> bool" where
  "shrinks W s t \<longleftrightarrow>
     (\<forall>q. map_of (entries t) q = map_of (entries s) q \<or>
          (map_of (entries t) q = None \<and> (q \<in> W \<longrightarrow> map_of (entries s) q = Some FDir))) \<and>
     (fs_ok s \<longrightarrow> fs_ok t)"

lemma shrinks_rel: "reflp (shrinks W)" "transp (shrinks W)"
  unfolding reflp_def transp_def shrinks_def by auto metis+

lemma shrinks_prim:
  assumes "\<And>es q. map_of (snd (f es)) q = map_of es q \<or>
      (map_of (snd (f es)) q = None \<and> (q \<in> W \<longrightarrow> map_of es q = Some FDir))"
    and "\<And>es. es_ok es \<Longrightarrow> es_ok (snd (f es))"
  shows "keeps (shrinks W) (prim whole f)"
  unfolding keeps_def
proof
  fix s
  show "shrinks W s (snd (prim whole f s))"
  proof (cases rule: prim_cases [of whole f s])
    case run
    then show ?thesis using assms by (simp add: shrinks_def fs_ok_def)
  next
    case (fault e k)
    then show ?thesis by (simp add: shrinks_def fs_ok_def whole_def)
  qed
qed

lemma shrinks_read_dir: "keeps (shrinks W) (fs_read_dir p)"
  unfolding fs_read_dir_def by (rule shrinks_prim) auto

lemma shrinks_remove_dir: "keeps (shrinks W) (fs_remove_dir p)"
  unfolding fs_remove_dir_def
  by (rule shrinks_prim) (auto simp: es_ok_remove_dir lookup_def simp del: remove_dir_e.simps
      split: option.splits, auto simp: lookup_def split: option.splits if_splits)

lemma shrinks_remove_file: "p \<notin> W \<Longrightarrow> keeps (shrinks W) (fs_remove_file p)"
  unfolding fs_remove_file_def
  by (rule shrinks_prim) (auto simp: es_ok_remove_file simp del: remove_file_e.simps,
      auto split: option.splits if_splits)

lemma keeps_ignore: "keeps R m \<Longrightarrow> keeps R (ignore_error m)"
  by (simp add: keeps_def ignore_error_def)

lemma sweep_entry_shrinks:
  assumes "\<And>p. keeps (shrinks (set wanted)) (sweep p)"
  shows "keeps (shrinks (set wanted)) (sweep_entry sweep base here wanted x)"
  by (cases x) (auto simp: Let_def intro!: keeps_rules keeps_any shrinks_rel shrinks_read_dir
      shrinks_remove_dir shrinks_remove_file keeps_ignore assms)

lemma sweep_shrinks: "keeps (shrinks (set wanted)) (sweep_orphans n base here wanted)"
proof (induction n arbitrary: base here)
  case 0
  then show ?case by (simp add: keeps_any shrinks_rel)
next
  case (Suc n)
  show ?case
    unfolding sweep_orphans.simps
    by (intro keeps_rules keeps_any shrinks_rel shrinks_read_dir sweep_entry_shrinks Suc.IH)
qed

lemma mapA_visits:
  assumes R: "reflp R" "transp R" "\<And>x. keeps R (f x)"
  shows "mapA f xs s = (Inr ys, t) \<Longrightarrow> x \<in> set xs \<Longrightarrow> \<exists>u y v. f x u = (Inr y, v) \<and> R s u \<and> R v t"
proof (induction xs arbitrary: s ys)
  case (Cons a xs)
  then obtain y u ys' where y: "f a s = (Inr y, u)" "mapA f xs u = (Inr ys', t)"
    by (auto simp: bindA_ok_iff)
  have "keeps R (mapA f xs)" using R by (rule keeps_mapA)
  then have ut: "R u t" and su: "R s u" using y keepsD R(3) by metis+
  show ?case
  proof (cases "x = a")
    case True
    with y ut R(1) show ?thesis by (meson reflpD)
  next
    case False
    with Cons.IH [OF y(2)] Cons.prems su show ?thesis by (metis R(2) set_ConsD transpD)
  qed
qed simp

lemma shrinks_file:
  "shrinks W s t \<Longrightarrow> map_of (entries t) q = Some e \<Longrightarrow> map_of (entries s) q = Some e"
  unfolding shrinks_def by (metis option.distinct(1))

lemma shrinks_wanted:
  "shrinks W s t \<Longrightarrow> q \<in> W \<Longrightarrow> map_of (entries s) q = Some (FFile c) \<Longrightarrow> map_of (entries t) q = Some (FFile c)"
  unfolding shrinks_def by (metis entry.distinct(1) option.inject)

lemma fs_read_dir_ok:
  "fs_read_dir p s = (Inr kids, t) \<Longrightarrow> kids = children (entries s) p \<and> entries t = entries s"
  unfolding fs_read_dir_def
  by (cases rule: prim_cases [of whole "read_dir_e p" s]) (auto split: option.splits entry.splits if_splits)

lemma fs_remove_file_gone: "fs_remove_file p s = (Inr u, t) \<Longrightarrow> map_of (entries t) p = None"
  unfolding fs_remove_file_def
  by (cases rule: prim_cases [of whole "remove_file_e p" s]) (auto split: option.splits if_splits)

text \<open>What is left below the directory after a sweep is wanted.\<close>

lemma sweep_complete:
  "sweep_orphans n base here wanted s = (Inr (), t) \<Longrightarrow> fs_ok s \<Longrightarrow>
     map_of (entries t) (here @ c # cs) = Some e \<Longrightarrow> e \<noteq> FDir \<Longrightarrow> here @ c # cs \<in> set wanted"
proof (induction n arbitrary: here c cs s t)
  case (Suc n)
  let ?W = "set wanted" and ?q = "here @ c # cs"
  let ?f = "sweep_entry (\<lambda>p. sweep_orphans n base p wanted) base here wanted"
  obtain s1 ys where s1: "fs_read_dir here s = (Inr (children (entries s) here), s1)" "entries s1 = entries s"
    and m: "mapA ?f (children (entries s) here) s1 = (Inr ys, t)"
  proof -
    obtain kids v where "io_any (fs_read_dir here) s = (Inr kids, v)"
      and rest: "bindA (mapA ?f kids) (\<lambda>_. ret ()) v = (Inr (), t)"
      using Suc.prems(1) unfolding sweep_orphans.simps by (rule bindA_okE)
    then have kids: "fs_read_dir here s = (Inr kids, v)" by simp
    obtain ys where "mapA ?f kids v = (Inr ys, t)"
      using rest by (rule bindA_okE) simp
    then show thesis using that kids fs_read_dir_ok [OF kids] by blast
  qed
  have keeps: "keeps (shrinks ?W) (?f x)" for x by (intro sweep_entry_shrinks sweep_shrinks)
  have "keeps (shrinks ?W) (mapA ?f xs)" for xs by (rule keeps_mapA [OF shrinks_rel keeps])
  from keepsD [OF this m] have st: "shrinks ?W s1 t" .
  have q: "map_of (entries s) ?q = Some e" using shrinks_file [OF st Suc.prems(3)] s1(2) by simp
  have ok: "es_ok (entries s)" using Suc.prems(2) by (simp add: fs_ok_def)
  define k where "k = (if cs = [] then e else FDir)"
  have "map_of (entries s) (here @ [c]) = Some k"
    using es_ok_prefix_dir [OF ok q] by (simp add: k_def split: if_splits)
  then have kid: "(c, k) \<in> set (children (entries s) here)"
    using ok set_children by (simp add: es_ok_iff)
  obtain u y v where uv: "?f (c, k) u = (Inr y, v)" "shrinks ?W s1 u" "shrinks ?W v t"
    using mapA_visits [where R = "shrinks ?W" and f = ?f, OF shrinks_rel keeps m kid] by blast
  have qv: "map_of (entries v) ?q = Some e" using shrinks_file [OF uv(3) Suc.prems(3)] .
  show ?case
  proof (cases "cs = []")
    case True
    then have "k \<noteq> FDir" using Suc.prems(4) by (simp add: k_def)
    with uv(1) qv True show ?thesis
      using fs_remove_file_gone by (auto simp: Let_def split: if_splits)
  next
    case False
    then have kd: "k = FDir" by (simp add: k_def)
    let ?r = "if here @ [c] = base then ret ()
             else bindA (io_any (fs_read_dir (here @ [c]))) (\<lambda>rest.
                  if rest = [] then ignore_error (fs_remove_dir (here @ [c])) else ret ())"
    have "bindA (sweep_orphans n base (here @ [c]) wanted) (\<lambda>_. ?r) u = (Inr y, v)"
      using uv(1) unfolding kd sweep_entry.simps Let_def by (simp only: refl if_True)
    then obtain w where w: "sweep_orphans n base (here @ [c]) wanted u = (Inr (), w)"
      and r: "?r w = (Inr y, v)" by (rule bindA_okE) simp
    have "keeps (shrinks ?W) ?r"
      by (auto intro!: keeps_rules keeps_any shrinks_rel shrinks_read_dir shrinks_remove_dir keeps_ignore)
    from shrinks_file [OF keepsD [OF this r] qv] have "map_of (entries w) ?q = Some e" .
    moreover have "fs_ok u"
      using uv(2) Suc.prems(2) s1(2) by (simp add: shrinks_def fs_ok_def)
    moreover obtain d ds where "cs = d # ds" using False by (cases cs) auto
    ultimately show ?thesis using Suc.IH [OF w, of d ds] Suc.prems(4) by simp
  qed
qed (simp add: any_defs)

section \<open>The write-back\<close>

text \<open>A validated name is a non-empty relative path.\<close>

lemma comps_not_Nil: "s \<noteq> [] \<Longrightarrow> path_components s \<noteq> []"
proof -
  assume "s \<noteq> []"
  then obtain c r where s: "s = c # r" by (cases s) auto
  show ?thesis
  proof (cases "c = CHR ''/''")
    case False
    obtain y ys where "split_on (CHR ''/'') s = (c # y) # ys"
      using s False by (cases "split_on (CHR ''/'') r") auto
    then show ?thesis by (auto simp: path_components_def Let_def comp_of_def)
  qed (simp add: path_components_def s starts_with_iff Let_def)
qed

definition below :: "path \<Rightarrow> path \<Rightarrow> bool" where
  "below dir q \<longleftrightarrow> (\<exists>c cs. q = dir @ c # cs)"

lemma normal_join: "list_all is_normal ps \<Longrightarrow> \<exists>cs. foldl walk_comp d ps = d @ cs \<and> length cs = length ps"
proof (induction ps arbitrary: d)
  case (Cons p ps)
  then obtain c where p: "p = Normal c" by (cases p) (auto simp: is_normal_def)
  from Cons.IH [of "d @ [c]"] Cons.prems
  obtain cs where "foldl walk_comp (d @ [c]) ps = (d @ [c]) @ cs" "length cs = length ps" by auto
  then show ?case by (intro exI [of _ "c # cs"]) (simp add: p)
qed simp

lemma entry_below:
  assumes "validate_tree_entry_name name = Inr u"
  shows "below dir (path_join dir name)"
proof -
  have n: "list_all is_normal (path_components name)" "path_components name \<noteq> []"
    using assms comps_not_Nil [of name]
    by (auto simp: validate_tree_entry_name_def list_ex_iff list_all_iff split: if_splits)
  from normal_join [OF n(1), of dir] n(2) show ?thesis
    by (auto simp: path_join_def below_def) (metis length_0_conv neq_Nil_conv)
qed

lemma below_tmp: "below dir p \<Longrightarrow> below dir (with_extension p e)"
proof -
  assume "below dir p"
  then obtain c cs where p: "p = dir @ c # cs" by (auto simp: below_def)
  then have "with_extension p e = dir @ butlast (c # cs) @ [set_extension e (last p)]"
    by (simp add: with_extension_def butlast_append)
  then show ?thesis unfolding below_def by (cases "butlast (c # cs)") (auto simp del: butlast.simps)
qed

lemma below_not_Nil: "below dir p \<Longrightarrow> p \<noteq> []"
  by (auto simp: below_def)

lemma keeps_metadata: "reflp R \<Longrightarrow> keeps (frame P) (fs_symlink_metadata p)"
  unfolding fs_symlink_metadata_def by (rule keeps_prim) (auto simp: whole_def)

lemma keeps_unlink: "P p \<Longrightarrow> keeps (frame P) (unlink_if_link p)"
  unfolding keeps_def
proof
  fix s
  assume P: "P p"
  obtain r u where m: "fs_symlink_metadata p s = (r, u)" by fastforce
  have su: "frame P s u" using keepsD [OF keeps_metadata [OF reflp_frame] m] .
  have "keeps (frame P) (with_context ''removing pre-existing symlink'' (io_any (fs_remove_file p)))"
    by (intro keeps_any keeps_fs_remove_file P)
  then have "frame P u (snd (with_context ''removing pre-existing symlink'' (io_any (fs_remove_file p)) u))"
    by (simp add: keeps_def)
  with su have "frame P s (snd (with_context ''removing pre-existing symlink'' (io_any (fs_remove_file p)) u))"
    by (rule transpE [OF transp_frame])
  with su m show "frame P s (snd (unlink_if_link p s))"
    by (auto simp: unlink_if_link_def split: sum.splits entry.splits)
qed

lemma keeps_write_blob:
  assumes "P p" "P (with_extension p ''tmp'')"
  shows "keeps (frame P) (write_blob_safely p bs)"
  unfolding write_blob_safely_def
  by (intro keeps_rules keeps_any keeps_unlink keeps_fs_write keeps_fs_rename transp_frame assms)

lemma preserves_any [pres_intros]:
  "preserves I m \<Longrightarrow> preserves I (core_any m)" "preserves I n \<Longrightarrow> preserves I (mem_any n)"
  "preserves I p \<Longrightarrow> preserves I (io_any p)" "preserves I q \<Longrightarrow> preserves I (with_context c q)"
  "preserves I (bail c)"
  by (auto simp: any_defs intro: pres_intros)

lemma fs_metadata_entries: "fs_symlink_metadata p s = (r, t) \<Longrightarrow> entries t = entries s"
  unfolding fs_symlink_metadata_def
  by (cases rule: prim_cases [of whole "metadata_e p" s]) (auto simp: whole_def)

lemma preserves_unlink [pres_intros]: "preserves fs_ok (unlink_if_link p)"
proof -
  have "fs_ok t" if "fs_symlink_metadata p s = (r, t)" "fs_ok s" for s r t
    using fs_metadata_entries [OF that(1)] that(2) by (simp add: fs_ok_def)
  moreover have "preserves fs_ok (with_context c (io_any (fs_remove_file p)))" for c
    by (intro pres_intros)
  ultimately show ?thesis
    unfolding preserves_def unlink_if_link_def
    by (auto split: prod.splits sum.splits entry.splits)
qed

lemma preserves_write_blob [pres_intros]: "preserves fs_ok (write_blob_safely p bs)"
  unfolding write_blob_safely_def by (intro pres_intros)

lemma write_blob_content:
  assumes "write_blob_safely p bs s = (Inr u, t)" "p \<noteq> []"
  shows "map_of (entries t) p = Some (FFile bs)"
proof -
  let ?tmp = "with_extension p ''tmp''"
  obtain s1 s2 where w: "fs_write ?tmp bs s1 = (Inr (), s2)" "fs_rename ?tmp p s2 = (Inr (), t)"
    using assms(1) by (auto simp: write_blob_safely_def bindA_ok_iff)
  have tmp: "?tmp \<noteq> []" "map_of (entries s2) ?tmp = Some (FFile bs)"
    using fs_write_ok [OF w(1)] assms(2) by (auto simp: with_extension_def)
  show ?thesis
  proof (cases "?tmp = p")
    case True
    with w(2) tmp show ?thesis
      unfolding fs_rename_def
      by (cases rule: prim_cases [of whole "rename_e p p" s2])
        (auto simp: lookup_def split: option.splits if_splits)
  next
    case False
    with fs_rename_ok [OF w(2) tmp(2, 1)] show ?thesis by simp
  qed
qed

text \<open>A later entry clobbers an earlier one when it has the same path, or its temporary
  file does.\<close>

fun no_clash :: "path \<Rightarrow> tree \<Rightarrow> bool" where
  "no_clash dir [] \<longleftrightarrow> True"
| "no_clash dir ((n, r) # es) \<longleftrightarrow>
     list_all (\<lambda>(m, _). path_join dir n \<noteq> path_join dir m \<and>
       path_join dir n \<noteq> with_extension (path_join dir m) ''tmp'') es \<and> no_clash dir es"

definition entry_paths :: "path \<Rightarrow> tree \<Rightarrow> path \<Rightarrow> bool" where
  "entry_paths dir es q \<longleftrightarrow>
     (\<exists>n r. (n, r) \<in> set es \<and> (q = path_join dir n \<or> q = with_extension (path_join dir n) ''tmp''))"

definition holds_blob :: "lib \<Rightarrow> path \<Rightarrow> fs \<Rightarrow> string \<times> typed_ref \<Rightarrow> bool" where
  "holds_blob L dir t x \<longleftrightarrow>
     (\<exists>b. blob_hash L b = ref_hash (snd x) \<and> map_of (entries t) (path_join dir (fst x)) = Some (FFile b))"

lemma rb_load_blob_get:
  assumes "rb_load_blob S h s = (Inr b, t)"
  shows "st_get S h s = (Inr (OBlob b), t)"
proof -
  obtain x u where x: "st_get S h s = (Inr x, u)"
    "(case x of OBlob b \<Rightarrow> ret b | _ \<Rightarrow> bail ''expected blob'') u = (Inr b, t)"
    using assms unfolding rb_load_blob_def bindA_ok_iff by auto
  then show ?thesis by (cases x) simp_all
qed

lemma rb_load_tree_get:
  assumes "rb_load_tree S h s = (Inr b, t)"
  shows "st_get S h s = (Inr (OTree b), t)"
proof -
  obtain x u where x: "st_get S h s = (Inr x, u)"
    "(case x of OTree b \<Rightarrow> ret b | _ \<Rightarrow> bail ''expected tree'') u = (Inr b, t)"
    using assms unfolding rb_load_tree_def bindA_ok_iff by auto
  then show ?thesis by (cases x) simp_all
qed

lemma rb_load_commit_get:
  assumes "rb_load_commit S h s = (Inr b, t)"
  shows "st_get S h s = (Inr (OCommit b), t)"
proof -
  obtain x u where x: "st_get S h s = (Inr x, u)"
    "(case x of OCommit b \<Rightarrow> ret b | _ \<Rightarrow> bail ''expected commit'') u = (Inr b, t)"
    using assms unfolding rb_load_commit_def bindA_ok_iff by auto
  then show ?thesis by (cases x) simp_all
qed

lemma rb_load_blob_ok:
  assumes "rb_load_blob (fs_store_ops L st) h s = (Inr b, t)"
  shows "blob_hash L b = h" "frame P s t"
proof -
  have g: "store_get L st h s = (Inr (OBlob b), t)"
    using rb_load_blob_get [OF assms] by (simp add: fs_store_ops_def)
  from g show "blob_hash L b = h" by (rule store_get_okE) simp
  show "frame P s t" using keepsD [OF store_get_frame g] .
qed

lemma keeps_load:
  "keeps (frame P) (rb_load_blob (fs_store_ops L st) h)" "keeps (frame P) (rb_load_tree (fs_store_ops L st) h)"
  unfolding rb_load_blob_def rb_load_tree_def fs_store_ops_def
  by (auto intro!: keeps_rules keeps_any store_get_frame split: obj.splits)

lemma preserves_store_get [pres_intros]: "preserves fs_ok (store_get L st h)"
proof -
  have r: "preserves fs_ok (read_at L p)" for p
    unfolding read_at_def by (auto intro!: pres_intros split: option.splits)
  have "preserves fs_ok (read_present L st h)"
    using r by (auto simp: preserves_def read_present_def)
  then show ?thesis unfolding store_get_def by (auto intro!: pres_intros)
qed

lemma preserves_load [pres_intros]:
  "preserves fs_ok (rb_load_blob (fs_store_ops L st) h)" "preserves fs_ok (rb_load_tree (fs_store_ops L st) h)"
  unfolding rb_load_blob_def rb_load_tree_def fs_store_ops_def
  by (auto intro!: pres_intros split: obj.splits)

lemma preserves_write_entries [pres_intros]:
  "preserves fs_ok (write_entries (fs_store_ops L st) fs_self dir es ws)"
  by (induction es arbitrary: ws) (auto simp: Let_def intro!: pres_intros)

lemma keeps_write_entries:
  "keeps (frame (below dir)) (write_entries (fs_store_ops L st) fs_self dir es ws)"
proof (induction es arbitrary: ws)
  case (Cons x es)
  obtain n r where x: "x = (n, r)" by (cases x)
  show ?case
  proof (cases "validate_tree_entry_name n")
    case (Inl e)
    then show ?thesis by (simp add: x keeps_def bindA_def reflpD [OF reflp_frame])
  next
    case (Inr u)
    then have "below dir (path_join dir n)" by (rule entry_below)
    then have "keeps (frame (below dir)) (write_blob_safely (path_join dir n) b)" for b
      by (intro keeps_write_blob below_tmp)
    then show ?thesis
      unfolding x write_entries.simps Let_def on_fs_self
      by (intro keeps_rules keeps_any keeps_fs_create_dir_all keeps_load transp_frame reflp_frame Cons.IH)
  qed
qed (simp add: keeps_rules)

lemma write_entries_ok:
  "write_entries (fs_store_ops L st) fs_self dir es ws s = (Inr ws', t) \<Longrightarrow>
     set ws' = set ws \<union> (\<lambda>(n, _). path_join dir n) ` set es \<and> frame (entry_paths dir es) s t \<and>
     (no_clash dir es \<longrightarrow> list_all (holds_blob L dir t) es)"
proof (induction es arbitrary: ws s)
  case (Cons x es)
  obtain n r where x: "x = (n, r)" by (cases x)
  let ?p = "path_join dir n"
  let ?P = "entry_paths dir (x # es)"
  obtain s1 s2 s3 b where st: "validate_tree_entry_name n = Inr ()" "fs_create_dir_all (butlast ?p) s = (Inr (), s1)"
    "rb_load_blob (fs_store_ops L st) (ref_hash r) s1 = (Inr b, s2)" "write_blob_safely ?p b s2 = (Inr (), s3)"
    "write_entries (fs_store_ops L st) fs_self dir es (?p # ws) s3 = (Inr ws', t)"
    using Cons.prems by (auto simp: x Let_def bindA_ok_iff)
  have "?P ?p" "?P (with_extension ?p ''tmp'')" by (auto simp: entry_paths_def x)
  then have "frame ?P s2 s3" using keepsD [OF keeps_write_blob st(4)] by blast
  moreover have "frame ?P s s1" using keepsD [OF keeps_fs_create_dir_all st(2)] .
  moreover have "frame ?P s1 s2" using rb_load_blob_ok(2) [OF st(3)] .
  ultimately have f: "frame ?P s s3" by (meson transpE transp_frame)
  have b: "map_of (entries s3) ?p = Some (FFile b)"
    using write_blob_content [OF st(4) below_not_Nil [OF entry_below [OF st(1)]]] .
  note IH = Cons.IH [OF st(5)]
  have "frame (entry_paths dir es) s3 t" using IH by blast
  then have "frame ?P s3 t" by (rule frame_mono) (auto simp: entry_paths_def)
  with f have "frame ?P s t" by (meson transpE transp_frame)
  moreover have "list_all (holds_blob L dir t) (x # es)" if nc: "no_clash dir (x # es)"
  proof -
    have "\<not> entry_paths dir es ?p" using nc by (auto simp: x entry_paths_def list_all_iff)
    with IH b have "map_of (entries t) ?p = Some (FFile b)" by (blast intro: frame_file)
    with rb_load_blob_ok(1) [OF st(3)] have "holds_blob L dir t x" by (auto simp: x holds_blob_def)
    with IH nc show ?thesis by (simp add: x)
  qed
  ultimately show ?case using IH by (auto simp: x)
qed (simp add: reflpD [OF reflp_frame])

lemma sweep_frame:
  "(\<And>c cs. P (here @ c # cs)) \<Longrightarrow> keeps (frame P) (sweep_orphans n base here wanted)"
proof (induction n arbitrary: here)
  case (Suc n)
  have "keeps (frame P) (sweep_entry (\<lambda>p. sweep_orphans n base p wanted) base here wanted x)" for x
  proof (cases x)
    case (Pair name e)
    have p: "P (here @ [name])" using Suc.prems [of name "[]"] .
    have "keeps (frame P) (sweep_orphans n base (here @ [name]) wanted)"
      using Suc.prems [of name] by (intro Suc.IH) simp
    with p show ?thesis
      by (auto simp: Pair Let_def intro!: keeps_rules keeps_any keeps_ignore keeps_fs_read_dir keeps_fs_remove_dir
          keeps_fs_remove_file)
  qed
  then show ?case
    unfolding sweep_orphans.simps by (intro keeps_rules keeps_any keeps_fs_read_dir reflp_frame transp_frame)
qed (simp add: keeps_any)



end
