(* ===== verification/Mcp.thy ===== *)
theory Mcp
  imports Migrate
begin

text \<open>
  Fingerprinting MCP servers (\<open>mcp.rs\<close>): which URLs may be configured, the single POST with its
  limits, and the canonical form of the reply. The URL parser is a parameter, and so is the
  network: for every URL and body it gives the reply, as the chunks of its body and how the
  stream ended. The servers are asked up to eight at a time; the results are those of asking
  each in turn. Error texts are abbreviated.
\<close>

section \<open>URLs\<close>

datatype url_host = Domain string | Ipv4 "byte list" | Ipv6 "128 word"

record url =
  url_scheme :: string
  url_host_of :: "url_host option"

type_synonym url_parser = "string \<Rightarrow> url option"

datatype mcp_url_error = UrlUnparseable string | DisallowedScheme string string | NonLoopbackHttp string

record mcp_server_spec =
  mcp_name :: string
  mcp_url :: string

definition url_host_is_loopback :: "url \<Rightarrow> bool" where
  "url_host_is_loopback u \<longleftrightarrow>
     (case url_host_of u of
        Some (Domain d) \<Rightarrow> to_ascii_lowercase d = ''localhost''
      | Some (Ipv4 ip) \<Rightarrow> ip \<noteq> [] \<and> hd ip = 127
      | Some (Ipv6 ip) \<Rightarrow> ip = 1
      | None \<Rightarrow> False)"

definition validate_mcp_url :: "url_parser \<Rightarrow> string \<Rightarrow> mcp_url_error + unit" where
  "validate_mcp_url P raw =
     (case P raw of
        None \<Rightarrow> Inl (UrlUnparseable raw)
      | Some u \<Rightarrow>
          if url_scheme u = ''https'' then Inr ()
          else if url_scheme u = ''http'' then
            (if url_host_is_loopback u then Inr () else Inl (NonLoopbackHttp raw))
          else Inl (DisallowedScheme raw (url_scheme u)))"

definition parse_mcp_item :: "url_parser \<Rightarrow> string \<Rightarrow> anyhow + mcp_server_spec" where
  "parse_mcp_item P s =
     (case split_once (CHR ''='') s of
        None \<Rightarrow> Inl [Ctx ''--mcp expects name=url'']
      | Some (name, url) \<Rightarrow>
          if name = [] \<or> url = [] then Inl [Ctx ''--mcp expects non-empty name and url'']
          else res_bind (map_err (\<lambda>_. [Ctx ''MCP url rejected'']) (validate_mcp_url P (str_trim url))) (\<lambda>_.
               Inr \<lparr>mcp_name = str_trim name, mcp_url = str_trim url\<rparr>))"

fun parse_mcp_spec :: "url_parser \<Rightarrow> string list \<Rightarrow> anyhow + mcp_server_spec list" where
  "parse_mcp_spec P [] = Inr []"
| "parse_mcp_spec P (s # ss) =
     res_bind (parse_mcp_item P s) (\<lambda>x. res_bind (parse_mcp_spec P ss) (\<lambda>xs. Inr (x # xs)))"

section \<open>The reply\<close>

record http_response =
  hr_status :: nat
  hr_content_length :: "nat option"
  hr_chunks :: "bytes list"
  hr_broken :: bool

type_synonym network = "string \<Rightarrow> json \<Rightarrow> http_response option"

record mcp_limits =
  max_response_bytes :: nat
  max_json_depth :: nat
  max_manifest_bytes :: nat

definition default_mcp_limits :: mcp_limits where
  "default_mcp_limits =
     \<lparr>max_response_bytes = 1024 * 1024, max_json_depth = 32, max_manifest_bytes = 1024 * 1024\<rparr>"

record mcp_fingerprint =
  fp_name :: string
  fp_url :: string
  fp_manifest :: bytes

definition json_rpc_request :: json where
  "json_rpc_request = JObj
     [(''jsonrpc'', JStr ''2.0''), (''id'', of_u32 1), (''method'', JStr ''tools/list''), (''params'', JObj [])]"

fun to_i64 :: "json \<Rightarrow> int option" where
  "to_i64 (JNum (PosInt n)) = (if unat n < 2 ^ 63 then Some (int (unat n)) else None)"
| "to_i64 (JNum (NegInt w)) = Some (sint w)"
| "to_i64 _ = None"

record json_rpc_error =
  rpc_code :: int
  rpc_message :: string

definition json_rpc_error_of_json :: "json \<Rightarrow> json_rpc_error option" where
  "json_rpc_error_of_json j =
     Option.bind (de_struct [''code'', ''message''] j) (\<lambda>fs.
     Option.bind (field_req to_i64 ''code'' fs) (\<lambda>c.
     Option.bind (field_req to_str ''message'' fs) (\<lambda>m.
     Some \<lparr>rpc_code = c, rpc_message = m\<rparr>)))"

definition json_rpc_response_of_json :: "json \<Rightarrow> (json option \<times> json_rpc_error option) option" where
  "json_rpc_response_of_json j =
     Option.bind (de_struct [''result'', ''error''] j) (\<lambda>fs.
     Option.bind (field_def None (to_opt value_of_json) ''result'' fs) (\<lambda>r.
     Option.bind (field_def None (to_opt json_rpc_error_of_json) ''error'' fs) (\<lambda>e.
     Some (r, e))))"

fun read_chunks :: "nat \<Rightarrow> bool \<Rightarrow> bytes \<Rightarrow> bytes list \<Rightarrow> anyhow + bytes" where
  "read_chunks cap broken buf [] = (if broken then Inl [Ctx ''error reading the body''] else Inr buf)"
| "read_chunks cap broken buf (c # cs) =
     (if length buf + length c > cap then Inl [Ctx ''MCP response exceeded the limit mid-stream'']
      else read_chunks cap broken (buf @ c) cs)"

definition read_body_capped :: "http_response \<Rightarrow> nat \<Rightarrow> anyhow + bytes" where
  "read_body_capped r cap =
     (case hr_content_length r of
        Some n \<Rightarrow> if n > cap then Inl [Ctx ''MCP server declared a response over the limit'']
                  else read_chunks cap (hr_broken r) [] (hr_chunks r)
      | None \<Rightarrow> read_chunks cap (hr_broken r) [] (hr_chunks r))"

fun json_depth :: "json \<Rightarrow> nat" where
  "json_depth (JObj kvs) = Suc (foldr max (map (\<lambda>(k, v). json_depth v) kvs) 0)"
| "json_depth (JArr xs) = Suc (foldr max (map json_depth xs) 0)"
| "json_depth _ = 1"

fun sort_keys :: "json \<Rightarrow> json" where
  "sort_keys (JObj kvs) = JObj (bt_of_list (map (\<lambda>(k, v). (k, sort_keys v)) kvs))"
| "sort_keys (JArr xs) = JArr (map sort_keys xs)"
| "sort_keys j = j"

definition canonicalize :: "lib \<Rightarrow> json \<Rightarrow> bytes" where
  "canonicalize L v = json_print L (sort_keys v)"

definition is_redirection :: "nat \<Rightarrow> bool" where
  "is_redirection st \<longleftrightarrow> 300 \<le> st \<and> st < 400"

definition is_success :: "nat \<Rightarrow> bool" where
  "is_success st \<longleftrightarrow> 200 \<le> st \<and> st < 300"

definition manifest_of_body :: "lib \<Rightarrow> mcp_limits \<Rightarrow> bytes \<Rightarrow> anyhow + bytes" where
  "manifest_of_body L lm bs =
     (case Option.bind (json_parse L bs) json_rpc_response_of_json of
        None \<Rightarrow> Inl [Ctx ''decoding JSON-RPC reply'', LSerde]
      | Some (r, e) \<Rightarrow>
          if e \<noteq> None then Inl [Ctx ''MCP server returned a JSON-RPC error'']
          else case r of
            None \<Rightarrow> Inl [Ctx ''MCP server returned JSON-RPC reply with neither result nor error'']
          | Some v \<Rightarrow>
              if json_depth v > max_json_depth lm then Inl [Ctx ''tools/list result nests too deep'']
              else if length (canonicalize L v) > max_manifest_bytes lm
                then Inl [Ctx ''tools/list manifest is too large'']
              else Inr (canonicalize L v))"

definition fingerprint_one_with_limits ::
    "lib \<Rightarrow> network \<Rightarrow> mcp_server_spec \<Rightarrow> mcp_limits \<Rightarrow> anyhow + mcp_fingerprint" where
  "fingerprint_one_with_limits L net spec lm =
     (case net (mcp_url spec) json_rpc_request of
        None \<Rightarrow> Inl [Ctx ''POST'']
      | Some resp \<Rightarrow>
          if is_redirection (hr_status resp) then Inl [Ctx ''MCP server returned a redirect; refusing to follow it'']
          else res_bind (read_body_capped resp (max_response_bytes lm)) (\<lambda>bs.
               if \<not> is_success (hr_status resp) then Inl [Ctx ''MCP server returned an HTTP error'']
               else res_bind (manifest_of_body L lm bs) (\<lambda>m.
                    Inr \<lparr>fp_name = mcp_name spec, fp_url = mcp_url spec, fp_manifest = m\<rparr>)))"

definition fingerprint_one :: "lib \<Rightarrow> network \<Rightarrow> mcp_server_spec \<Rightarrow> anyhow + mcp_fingerprint" where
  "fingerprint_one L net spec = fingerprint_one_with_limits L net spec default_mcp_limits"

definition fingerprint_all :: "lib \<Rightarrow> network \<Rightarrow> mcp_server_spec list \<Rightarrow> (anyhow + mcp_fingerprint) list" where
  "fingerprint_all L net servers = map (fingerprint_one L net) servers"

section \<open>Canonical manifests\<close>

lemma bt_of_list_perm:
  assumes "mset xs = mset ys" "distinct (map fst xs)"
  shows "bt_of_list xs = bt_of_list ys"
proof -
  have d: "distinct (map fst ys)" using assms by (metis mset_map mset_eq_imp_distinct_iff)
  then have "map_of xs = map_of ys" using assms map_of_eqI [of xs ys]
    by (metis map_of_inject_set mset_eq_setD)
  with assms(2) d show ?thesis
    by (intro bt_ok_unique bt_of_list_ok) (simp add: bt_of_list_map_of)
qed

lemma to_value_is_value: "is_value (to_value j)"
proof (induction j)
  case (JObj kvs)
  then show ?case by (fastforce simp: list_all_iff bt_of_list_ok dest!: bt_of_list_set)
qed (auto simp: list_all_iff)

lemma sort_keys_to_value: "sort_keys j = to_value j"
  by (induction j) (auto intro!: arg_cong [where f = bt_of_list])

lemma sort_keys_value: "is_value v \<Longrightarrow> sort_keys v = v"
  by (simp add: sort_keys_to_value to_value_id)

lemma read_chunks_ok:
  "read_chunks cap broken buf cs = Inr bs \<Longrightarrow> length buf \<le> cap \<Longrightarrow>
     bs = buf @ concat cs \<and> length bs \<le> cap \<and> \<not> broken"
proof (induction cs arbitrary: buf)
  case (Cons c cs)
  then have "read_chunks cap broken (buf @ c) cs = Inr bs" "length (buf @ c) \<le> cap"
    by (simp_all split: if_splits)
  from Cons.IH [OF this] show ?case unfolding append_assoc concat.simps .
qed (simp split: if_splits)

lemma read_body_ok:
  "read_body_capped r cap = Inr bs \<Longrightarrow> bs = concat (hr_chunks r) \<and> length bs \<le> cap \<and> \<not> hr_broken r"
  by (auto simp: read_body_capped_def dest: read_chunks_ok split: option.splits if_splits)

lemma read_chunks_within:
  "length buf + length (concat cs) \<le> cap \<Longrightarrow> read_chunks cap False buf cs = Inr (buf @ concat cs)"
  by (induction cs arbitrary: buf) auto

lemma value_field: "field_def None (to_opt value_of_json) n fs = Some (Some v) \<Longrightarrow> is_value v"
  by (auto simp: field_def_def to_opt_def value_of_json_def to_value_is_value split: option.splits if_splits)

lemma rpc_value: "json_rpc_response_of_json d = Some (Some v, e) \<Longrightarrow> is_value v"
  unfolding json_rpc_response_of_json_def bind_eq_Some_conv by (auto dest: value_field)

lemma manifest_of_body_ok:
  assumes "manifest_of_body L lm bs = Inr m"
  obtains d v where "json_parse L bs = Some d" "json_rpc_response_of_json d = Some (Some v, None)"
    "is_value v" "m = json_print L v" "json_depth v \<le> max_json_depth lm" "length m \<le> max_manifest_bytes lm"
proof -
  from assms obtain d v where d: "json_parse L bs = Some d" "json_rpc_response_of_json d = Some (Some v, None)"
    "m = canonicalize L v" "json_depth v \<le> max_json_depth lm" "length m \<le> max_manifest_bytes lm"
    by (auto simp: manifest_of_body_def bind_eq_Some_conv not_less split: option.splits if_splits)
  have "is_value v" using d(2) by (rule rpc_value)
  with d show thesis by (intro that [of d v]) (simp_all add: canonicalize_def sort_keys_value)
qed

definition reply_value :: "lib \<Rightarrow> network \<Rightarrow> mcp_server_spec \<Rightarrow> json option" where
  "reply_value L net spec =
     Option.bind (net (mcp_url spec) json_rpc_request) (\<lambda>r.
     Option.bind (json_parse L (concat (hr_chunks r))) (\<lambda>d.
     Option.bind (json_rpc_response_of_json d) fst))"

lemma fingerprint_okE:
  assumes "fingerprint_one_with_limits L net spec lm = Inr fp"
  obtains r v where "net (mcp_url spec) json_rpc_request = Some r" "is_success (hr_status r)"
    "length (concat (hr_chunks r)) \<le> max_response_bytes lm" "reply_value L net spec = Some v" "is_value v"
    "fp = \<lparr>fp_name = mcp_name spec, fp_url = mcp_url spec, fp_manifest = json_print L v\<rparr>"
    "json_depth v \<le> max_json_depth lm" "length (fp_manifest fp) \<le> max_manifest_bytes lm"
proof -
  from assms obtain r bs m where r: "net (mcp_url spec) json_rpc_request = Some r" "is_success (hr_status r)"
    "read_body_capped r (max_response_bytes lm) = Inr bs" "manifest_of_body L lm bs = Inr m"
    "fp = \<lparr>fp_name = mcp_name spec, fp_url = mcp_url spec, fp_manifest = m\<rparr>"
    unfolding fingerprint_one_with_limits_def
    by (simp add: res_bind_Inr_iff split: option.splits if_splits) blast
  from r(4) obtain d v where "json_parse L bs = Some d" "json_rpc_response_of_json d = Some (Some v, None)"
    "is_value v" "m = json_print L v" "json_depth v \<le> max_json_depth lm" "length m \<le> max_manifest_bytes lm"
    by (rule manifest_of_body_ok)
  note v = this
  have bs: "bs = concat (hr_chunks r)" "length bs \<le> max_response_bytes lm" using read_body_ok [OF r(3)] by auto
  have "reply_value L net spec = Some v" using r(1) v(1, 2) bs(1) by (simp add: reply_value_def)
  show thesis
    by (rule that [OF r(1, 2) _ \<open>reply_value L net spec = Some v\<close> v(3)]) (use r(5) v(4-6) bs in simp_all)
qed

lemma canonicalize_perm:
  assumes "distinct (map fst kvs)" "mset kvs' = mset kvs"
  shows "canonicalize L (JObj kvs) = canonicalize L (JObj kvs')"
proof -
  let ?f = "\<lambda>(k, v). (k, sort_keys v)"
  have "map fst (map ?f kvs) = map fst kvs" by (induction kvs) auto
  then have "distinct (map fst (map ?f kvs))" using assms(1) by (simp only:)
  moreover have "mset (map ?f kvs) = mset (map ?f kvs')" using assms(2) by simp
  ultimately have "bt_of_list (map ?f kvs) = bt_of_list (map ?f kvs')" by (intro bt_of_list_perm)
  then show ?thesis by (simp add: canonicalize_def)
qed

section \<open>Properties\<close>


definition one_tool :: network where
  "one_tool u q = Some \<lparr>hr_status = 200, hr_content_length = None,
     hr_chunks = [enc_json (JObj [(''result'', JObj [])])], hr_broken = False\<rparr>"

lemma one_tool_fingerprint:
  "fingerprint_one sample_lib one_tool \<lparr>mcp_name = ''m'', mcp_url = ''u''\<rparr> =
     Inr \<lparr>fp_name = ''m'', fp_url = ''u'', fp_manifest = enc_json (JObj [])\<rparr>"
proof -
  have p: "json_parse sample_lib (enc_json j) = Some j" if "json_exact j" for j
    using sample_json that by (simp add: json_law_def sample_lib_def)
  have e: "json_exact (JObj [(''result'', JObj [])])" by (simp add: json_exact_def)
  have "json_print sample_lib = enc_json" by (simp add: sample_lib_def)
  moreover have "json_rpc_response_of_json (JObj [(''result'', JObj [])]) = Some (Some (JObj []), None)"
    by (simp add: json_rpc_response_of_json_def de_struct_def field_def_def to_opt_def value_of_json_def)
  ultimately show ?thesis
    using p [OF e] unfolding fingerprint_one_def fingerprint_one_with_limits_def manifest_of_body_def
    by (simp add: one_tool_def is_redirection_def is_success_def read_body_capped_def default_mcp_limits_def
        canonicalize_def)
qed


end
