(* ===== verification/Daemon.thy ===== *)
theory Daemon
  imports Writeback Mcp Admission
begin

text \<open>
  The daemon's state (\<open>DaemonState\<close> in \<open>server.rs\<close>), the choice of its memory backend
  (\<open>membackend.rs\<close>) and the phases of a commit (\<open>commit.rs\<close> of \<open>agenticd\<close>). The store, the
  refs and the memory backend act on one world. The commit lock, the slots and the shutdown
  flag are the server's; what needs them is in \<open>Server\<close>.
\<close>

section \<open>State\<close>

record 'w daemon =
  d_repo :: path
  d_store :: "'w store_ops"
  d_view :: "'w fs_view"
  d_refs :: refs
  d_memory :: "'w mem_ops option"
  d_mcp :: "mcp_server_spec list"
  d_net :: network
  d_auth :: peer_auth_policy
  d_key :: "approval_key option"
  d_limits :: limits_config
  d_rate :: rate_limiter
  d_slots :: commit_slots
  d_exempt :: "string list"

datatype memory_backend_spec = NoBackend | PostgresBackend string "tracked_table list"

definition backend_from_flags :: "string option \<Rightarrow> tracked_table list \<Rightarrow> anyhow + memory_backend_spec" where
  "backend_from_flags url tables =
     (case url of
        None \<Rightarrow> Inr NoBackend
      | Some u \<Rightarrow>
          if tables = [] then Inl [Ctx ''--postgres requires at least one --tables entry'']
          else Inr (PostgresBackend u tables))"

text \<open>Connecting and initialising an adapter are its own operations, parameters here.\<close>

fun backend_open :: "(string \<Rightarrow> tracked_table list \<Rightarrow> ('w, mem_error, 'w mem_ops) act) \<Rightarrow>
    ('w mem_ops \<Rightarrow> ('w, mem_error, 'w mem_ops) act) \<Rightarrow> memory_backend_spec \<Rightarrow> ('w, anyhow, 'w mem_ops option) act" where
  "backend_open connect init NoBackend = ret None"
| "backend_open connect init (PostgresBackend url tables) =
     bindA (with_context ''connecting Postgres memory backend'' (mem_any (connect url tables))) (\<lambda>M.
     bindA (with_context ''initialising memory backend'' (mem_any (init M))) (\<lambda>M.
     ret (Some M)))"

fun check_server_names :: "mcp_server_spec list \<Rightarrow> string list \<Rightarrow> anyhow + unit" where
  "check_server_names [] seen = Inr ()"
| "check_server_names (s # ss) seen =
     (if mcp_name s \<in> set seen then Inl [Ctx ''duplicate MCP server name in --mcp spec'']
      else check_server_names ss (mcp_name s # seen))"

definition daemon_open ::
    "'w fs_view \<Rightarrow> (string \<Rightarrow> tracked_table list \<Rightarrow> ('w, mem_error, 'w mem_ops) act) \<Rightarrow>
     ('w mem_ops \<Rightarrow> ('w, mem_error, 'w mem_ops) act) \<Rightarrow> path \<Rightarrow> path \<Rightarrow> 'w store_ops \<Rightarrow> string option \<Rightarrow>
     tracked_table list \<Rightarrow> mcp_server_spec list \<Rightarrow> network \<Rightarrow> peer_auth_policy \<Rightarrow> ('w, anyhow, 'w daemon) act" where
  "daemon_open V connect init repo dir S url tables mcps net auth =
     bindA (with_context ''creating .agentic directory'' (on_fs V (io_any (fs_create_dir_all dir)))) (\<lambda>_.
     bindA (with_context ''opening refs'' (on_fs V (core_any (refs_open dir)))) (\<lambda>R.
     bindA (lift_res (backend_from_flags url tables)) (\<lambda>b.
     bindA (backend_open connect init b) (\<lambda>M.
     bindA (lift_res (check_server_names mcps [])) (\<lambda>_.
     ret \<lparr>d_repo = repo, d_store = S, d_view = V, d_refs = R, d_memory = M, d_mcp = mcps, d_net = net,
          d_auth = auth, d_key = None, d_limits = default_limits, d_rate = rate_new (rate_per_uid default_limits),
          d_slots = slots_new default_limits, d_exempt = []\<rparr>)))))"

definition with_approval_key :: "approval_key option \<Rightarrow> 'w daemon \<Rightarrow> 'w daemon" where
  "with_approval_key k D = D\<lparr>d_key := k\<rparr>"

definition with_limits :: "limits_config \<Rightarrow> 'w daemon \<Rightarrow> 'w daemon" where
  "with_limits c D =
     D\<lparr>d_rate := rate_new (rate_per_uid c), d_slots := slots_new c, d_limits := c\<rparr>"

definition with_exempt_entropy_prefixes :: "string list \<Rightarrow> 'w daemon \<Rightarrow> 'w daemon" where
  "with_exempt_entropy_prefixes ps D = D\<lparr>d_exempt := ps\<rparr>"

section \<open>Commit\<close>

definition snapshot_memory :: "lib \<Rightarrow> 'w daemon \<Rightarrow> bool \<Rightarrow> ('w, anyhow, hash option \<times> string option) act" where
  "snapshot_memory L D no_memory =
     (if no_memory then ret (None, None)
      else case d_memory D of
        None \<Rightarrow> ret (None, None)
      | Some M \<Rightarrow>
          bindA (with_context ''taking memory snapshot'' (mem_any (ad_snapshot M))) (\<lambda>h.
          bindA (with_context ''persisting segment manifest''
                   (core_any (st_put_raw (d_store D) KTree (manifest_bytes L (sh_manifest h))))) (\<lambda>mh.
          ret (Some mh, Some (sh_schema h)))))"

fun tools_map :: "(mcp_server_spec \<times> (anyhow + mcp_fingerprint)) list \<Rightarrow> (string \<times> bytes) list \<Rightarrow>
    anyhow + (string \<times> bytes) list" where
  "tools_map [] m = Inr m"
| "tools_map ((spec, r) # rs) m =
     (case r of
        Inl e \<Rightarrow> Inl (context_of ''fingerprinting MCP server'' e)
      | Inr fp \<Rightarrow> tools_map rs (bt_insert (mcp_name spec) (fp_manifest fp) m))"

definition fingerprint_tools :: "lib \<Rightarrow> 'w daemon \<Rightarrow> anyhow + (string \<times> bytes) list" where
  "fingerprint_tools L D =
     (if d_mcp D = [] then Inr []
      else let fps = fingerprint_all L (d_net D) (d_mcp D) in
        if length fps \<noteq> length (d_mcp D) then Inl [Ctx ''fingerprint_all returned a wrong number of results'']
        else tools_map (zip (d_mcp D) fps) [])"

definition assemble_inputs ::
    "commit_input \<Rightarrow> hash option \<Rightarrow> hash option \<Rightarrow> string option \<Rightarrow> (string \<times> bytes) list \<Rightarrow> u32 option \<Rightarrow>
     string list \<Rightarrow> commit_inputs" where
  "assemble_inputs input parent mem sv tools peer exempt =
     \<lparr>in_author = (case ci_author input of Some a \<Rightarrow> a | None \<Rightarrow> ''unknown''), in_message = ci_message input,
      in_parent = parent, in_code_sha = ci_code_sha input, in_prompts = ci_prompts input, in_tools = tools,
      in_model = ci_model input, in_memory_snapshot = mem, in_schema_version = sv, in_intent = None,
      in_plan = None, in_transcript = None, in_evals = None, in_cost_cents = 0, in_peer_uid = peer,
      in_exempt_prefixes = exempt\<rparr>"

definition publish_head :: "'w daemon \<Rightarrow> string \<Rightarrow> bool \<Rightarrow> ('w, anyhow, unit) act" where
  "publish_head D branch needs =
     (if needs then ignore_error (on_fs (d_view D) (write_head_symbolic (d_refs D) branch)) else ret ())"

definition commit_branch :: "commit_input \<Rightarrow> head_ref option \<Rightarrow> string" where
  "commit_branch input h =
     (case ci_branch input of
        Some b \<Rightarrow> b
      | None \<Rightarrow> (case h of Some (Branch b) \<Rightarrow> b | _ \<Rightarrow> ''main''))"

definition commit_execute_with_now ::
    "lib \<Rightarrow> 'w daemon \<Rightarrow> commit_input \<Rightarrow> u32 option \<Rightarrow> timestamp \<Rightarrow> ('w, anyhow, commit_output) act" where
  "commit_execute_with_now L D input peer now =
     bindA (with_context ''reading HEAD ref before commit''
              (core_any (on_fs (d_view D) (read_head L (d_refs D))))) (\<lambda>hd.
     let branch = commit_branch input hd in
     bindA (with_context ''reading branch ref before commit''
              (core_any (on_fs (d_view D) (read_branch L (d_refs D) branch)))) (\<lambda>parent.
     bindA (snapshot_memory L D (ci_no_memory input)) (\<lambda>(mem, sv).
     bindA (lift_res (fingerprint_tools L D)) (\<lambda>tools.
     bindA (with_context ''2PC staging'' (core_any
              (stage_and_commit_with_now L (d_store D) (d_view D) (d_refs D) branch
                 (assemble_inputs input parent mem sv tools peer (d_exempt D)) now))) (\<lambda>out.
     bindA (publish_head D branch (hd = None)) (\<lambda>_.
     ret \<lparr>co_hash = to_hex L (out_hash out), co_branch = out_branch out\<rparr>))))))"

section \<open>The files of the refs\<close>

definition ref_file :: "refs \<Rightarrow> path \<Rightarrow> bool" where
  "ref_file R q \<longleftrightarrow> q = head_path R \<or> (\<exists>b. branch_path R b = Inr q)"

text \<open>\<open>ref_moved R W\<close>: a ref file changes only to a content that \<open>W\<close> allows for it.\<close>

definition ref_moved :: "refs \<Rightarrow> (path \<times> bytes) set \<Rightarrow> fs \<Rightarrow> fs \<Rightarrow> bool" where
  "ref_moved R W s t \<longleftrightarrow> (\<forall>q. ref_file R q \<longrightarrow>
     (\<forall>c. map_of (entries t) q = Some (FFile c) \<longrightarrow> map_of (entries s) q = Some (FFile c) \<or> (q, c) \<in> W) \<and>
     (\<forall>c. map_of (entries s) q = Some (FFile c) \<longrightarrow> map_of (entries t) q = Some (FFile c) \<or>
        (\<exists>c'. (q, c') \<in> W \<and> map_of (entries t) q = Some (FFile c'))))"

lemma ref_moved_trans: "ref_moved R W s t \<Longrightarrow> ref_moved R W' t u \<Longrightarrow> ref_moved R (W \<union> W') s u"
  unfolding ref_moved_def by blast

lemma ref_moved_mono: "ref_moved R W s t \<Longrightarrow> W \<subseteq> W' \<Longrightarrow> ref_moved R W' s t"
  unfolding ref_moved_def by blast

lemma frame_iff:
  assumes "frame P s t" "\<not> P q"
  shows "map_of (entries t) q = Some (FFile c) \<longleftrightarrow> map_of (entries s) q = Some (FFile c)"
  using frame_file [OF assms, of "FFile c"] frame_new [OF assms, of "FFile c"] by auto

lemma frame_moved:
  assumes "frame P s t" "\<And>q. ref_file R q \<Longrightarrow> \<not> P q"
  shows "ref_moved R {} s t"
  unfolding ref_moved_def by (simp add: frame_iff [OF assms])

lemma ref_file_tmp:
  assumes "ref_file R q" "ref_file R p"
  shows "with_extension p ''tmp'' \<noteq> q"
proof -
  have p: "p \<noteq> []" using assms(2) branch_path_last(1) by (auto simp: ref_file_def head_path_def)
  consider "q = head_path R" "p = head_path R" | b where "q = head_path R" "branch_path R b = Inr p"
    | b where "branch_path R b = Inr q"
    using assms by (auto simp: ref_file_def)
  then show ?thesis
  proof cases
    case 1
    then show ?thesis using head_tmp [of R] by (simp add: head_path_def)
  next
    case 2
    then show ?thesis using branch_not_head by metis
  next
    case 3
    then show ?thesis using tmp_not_branch [OF _ p] by metis
  qed
qed

text \<open>Replacing one ref file.\<close>

lemma replace_moved:
  assumes "frame (ref_paths p) s t" "ref_file R p"
    "map_of (entries t) p = Some (FFile c) \<or> map_of (entries t) p = map_of (entries s) p \<or>
     (map_of (entries s) p = None \<and> map_of (entries t) p = Some FDir)"
  shows "ref_moved R {(p, c)} s t"
  unfolding ref_moved_def
proof (intro allI impI)
  fix q assume q: "ref_file R q"
  show "(\<forall>d. map_of (entries t) q = Some (FFile d) \<longrightarrow> map_of (entries s) q = Some (FFile d) \<or> (q, d) \<in> {(p, c)}) \<and>
     (\<forall>d. map_of (entries s) q = Some (FFile d) \<longrightarrow> map_of (entries t) q = Some (FFile d) \<or>
        (\<exists>c'. (q, c') \<in> {(p, c)} \<and> map_of (entries t) q = Some (FFile c')))"
  proof (cases "q = p")
    case True
    with assms(3) show ?thesis by auto
  next
    case False
    have "\<not> ref_paths p q" using False ref_file_tmp [OF q assms(2)] by (auto simp: ref_paths_def)
    then show ?thesis by (simp add: frame_iff [OF assms(1)])
  qed
qed

lemma write_branch_moved:
  assumes "write_branch L R b h s = (r, t)"
  shows "(r = Inr () \<longrightarrow> (\<exists>p. branch_path R b = Inr p \<and>
            map_of (entries t) p = Some (FFile (str_bytes (to_hex L h @ newline))))) \<and>
         ref_moved R {(p, c). branch_path R b = Inr p \<and> c = str_bytes (to_hex L h @ newline)} s t"
proof (cases "branch_path R b")
  case (Inl e)
  then have "t = s" "r \<noteq> Inr ()" using assms by (auto simp: write_branch_def bindA_def)
  then show ?thesis by (simp add: ref_moved_def)
next
  case (Inr p)
  have f: "frame (ref_paths p) s t" using keepsD [OF write_branch_frame [OF Inr] assms] .
  have "ref_moved R {(p, str_bytes (to_hex L h @ newline))} s t"
    using Inr write_branch_target [OF Inr assms] by (intro replace_moved [OF f]) (auto simp: ref_file_def)
  moreover have "{(q, c). branch_path R b = Inr q \<and> c = str_bytes (to_hex L h @ newline)} =
      {(p, str_bytes (to_hex L h @ newline))}" using Inr by auto
  ultimately show ?thesis using write_branch_target [OF Inr assms] Inr by auto
qed

lemma write_head_moved:
  assumes "write_head_symbolic R b s = (r, t)"
  shows "ref_moved R {(head_path R, str_bytes (head_prefix @ b @ newline))} s t"
proof (cases "validate_branch_name b")
  case (Inl e)
  then have "t = s" using assms by (auto simp: write_head_symbolic_def bindA_def)
  then show ?thesis by (simp add: ref_moved_def)
next
  case (Inr u)
  then obtain q where q: "replace_file (head_path R) (str_bytes (head_prefix @ b @ newline)) s = (q, t)"
    using assms by (auto simp: write_head_symbolic_def bindA_def write_atomic_def map_errA_def split: prod.splits)
  have "frame (ref_paths (head_path R)) s t"
    using keepsD [OF keeps_replace_file q] by (simp add: ref_paths_def)
  moreover have "head_path R \<noteq> []" "with_extension (head_path R) ''tmp'' \<noteq> head_path R"
    by (simp_all add: head_path_def with_extension_def set_extension_def rsplit_once_def)
  ultimately show ?thesis
    using replace_file_atomic [OF q] by (intro replace_moved) (auto simp: ref_file_def)
qed

definition same_files :: "'w daemon \<Rightarrow> 'w \<Rightarrow> 'w \<Rightarrow> bool" where
  "same_files D s t \<longleftrightarrow> ref_moved (d_refs D) {} (view_get (d_view D) s) (view_get (d_view D) t)"

lemma same_files_rel [simp]: "reflp (same_files D)" "transp (same_files D)"
proof -
  show "reflp (same_files D)" by (simp add: reflp_def same_files_def ref_moved_def)
  show "transp (same_files D)"
  proof (rule transpI)
    fix s t u assume "same_files D s t" "same_files D t u"
    then show "same_files D s u" unfolding same_files_def using ref_moved_trans [where W = "{}" and W' = "{}"] by simp
  qed
qed

text \<open>The content a commit gives \<open>HEAD\<close>.\<close>

definition head_write :: "refs \<Rightarrow> string \<Rightarrow> (path \<times> bytes) set" where
  "head_write R b = {(head_path R, str_bytes (head_prefix @ b @ newline))}"

text \<open>What a commit determines, from what it read of the refs.\<close>

definition committed :: "lib \<Rightarrow> commit_input \<Rightarrow> hash option \<Rightarrow> u32 option \<Rightarrow> timestamp \<Rightarrow> commit \<Rightarrow> bool" where
  "committed L input parent peer now c \<longleftrightarrow>
     c_parent c = parent \<and> c_peer_uid c = peer \<and> c_timestamp c = now \<and> c_message c = ci_message input \<and>
     c_prompts c = dimension L (ci_prompts input) \<and> (c_memory_snapshot c = None \<longleftrightarrow> c_schema_version c = None)"

text \<open>The phases before staging, and the rest.\<close>

definition commit_pre :: "lib \<Rightarrow> 'w daemon \<Rightarrow> commit_input \<Rightarrow>
    ('w, anyhow, head_ref option \<times> hash option \<times> hash option \<times> string option \<times> (string \<times> bytes) list) act" where
  "commit_pre L D input =
     bindA (with_context ''reading HEAD ref before commit'' (core_any (on_fs (d_view D) (read_head L (d_refs D))))) (\<lambda>h0.
     bindA (with_context ''reading branch ref before commit''
              (core_any (on_fs (d_view D) (read_branch L (d_refs D) (commit_branch input h0))))) (\<lambda>parent.
     bindA (snapshot_memory L D (ci_no_memory input)) (\<lambda>(mem, sv).
     bindA (lift_res (fingerprint_tools L D)) (\<lambda>tools.
     ret (h0, parent, mem, sv, tools)))))"

definition commit_post :: "lib \<Rightarrow> 'w daemon \<Rightarrow> commit_input \<Rightarrow> u32 option \<Rightarrow> timestamp \<Rightarrow>
    head_ref option \<times> hash option \<times> hash option \<times> string option \<times> (string \<times> bytes) list \<Rightarrow> ('w, anyhow, commit_output) act" where
  "commit_post L D input peer now = (\<lambda>(h0, parent, mem, sv, tools).
     bindA (with_context ''2PC staging'' (core_any
              (stage_and_commit_with_now L (d_store D) (d_view D) (d_refs D) (commit_branch input h0)
                 (assemble_inputs input parent mem sv tools peer (d_exempt D)) now))) (\<lambda>out.
     bindA (publish_head D (commit_branch input h0) (h0 = None)) (\<lambda>_.
     ret \<lparr>co_hash = to_hex L (out_hash out), co_branch = out_branch out\<rparr>)))"

lemma commit_phases: "commit_execute_with_now L D input peer now = bindA (commit_pre L D input) (commit_post L D input peer now)"
  unfolding commit_execute_with_now_def commit_pre_def commit_post_def Let_def
  by (simp add: fun_eq_iff bindA_def split: prod.splits sum.splits)

locale daemon_world = object_store L "d_store D" "\<lambda>_. True" calm held
  for L :: lib and D :: "'w daemon" and calm :: "'w \<Rightarrow> bool" and held +
  assumes view_put: "view_get (d_view D) (view_put (d_view D) f w) = f"
    and store_files: "keeps (same_files D) (st_put (d_store D) x p)" "keeps (same_files D) (st_put_raw (d_store D) k bs)"
      "keeps (same_files D) (st_get (d_store D) h)" "keeps (same_files D) (st_get_raw (d_store D) h)"
    and memory_files: "d_memory D = Some M \<Longrightarrow> keeps (same_files D) (ad_snapshot M)"
      "d_memory D = Some M \<Longrightarrow> keeps (same_files D) (ad_current_schema M)"
      "d_memory D = Some M \<Longrightarrow> keeps (same_files D) (ad_migrations_after M v)"
      "d_memory D = Some M \<Longrightarrow> keeps (same_files D) (ad_begin_restore M)"
      "d_memory D = Some M \<Longrightarrow> keeps (same_files D) (ad_restore_with_guard M sh)"
      "d_memory D = Some M \<Longrightarrow> keeps (same_files D) (ad_apply_reverse M steps)"
      "d_memory D = Some M \<Longrightarrow> same_files D w (ad_end_restore M w)"
begin

abbreviation "V \<equiv> d_view D"
abbreviation "R \<equiv> d_refs D"

lemma on_fs_files:
  assumes "keeps (frame P) m" "\<And>q. ref_file R q \<Longrightarrow> \<not> P q"
  shows "keeps (same_files D) (on_fs V m)"
  unfolding keeps_def
proof
  fix w
  obtain r f where m: "m (view_get V w) = (r, f)" by fastforce
  have "ref_moved R {} (view_get V w) f" using frame_moved [OF keepsD [OF assms(1) m] assms(2)] .
  then show "same_files D w (snd (on_fs V m w))"
    using m by (simp add: on_fs_def same_files_def view_put)
qed

lemma stage_files:
  "keeps (same_files D) (stage_blobs (d_store D) i now)" "keeps (same_files D) (put_default (d_store D) x)"
proof -
  have put: "keeps (same_files D) (put_default (d_store D) x)" for x
    unfolding put_default_def by (rule store_files)
  then show "keeps (same_files D) (put_default (d_store D) x)" .
  have entries: "keeps (same_files D) (stage_entries (d_store D) ex es t)" for ex es t
    by (induction es arbitrary: t) (auto intro!: keeps_rules store_files)
  have trees: "keeps (same_files D) (stage_blob_tree (d_store D) es ex)" for es ex
    unfolding stage_blob_tree_def by (auto intro!: keeps_rules entries put)
  have opt: "keeps (same_files D) (stage_optional_blob (d_store D) b)" for b
    unfolding stage_optional_blob_def by (cases b) (auto intro!: keeps_rules put)
  show "keeps (same_files D) (stage_blobs (d_store D) i now)"
    unfolding stage_blobs_def by (intro keeps_rules trees opt same_files_rel)
qed

lemma read_files:
  "keeps (same_files D) (on_fs V (read_head L R))" "keeps (same_files D) (on_fs V (read_branch L R b))"
proof -
  have ref: "keeps (frame (\<lambda>_. False)) (read_ref_file L p)" for p
  proof -
    have "keeps (frame (\<lambda>_. False)) (bindA (map_errA Io (fs_read_to_string p)) (\<lambda>raw.
        bindA (lift_res (parse_hash L (str_trim raw))) (\<lambda>h. ret (Some h))))"
      by (intro keeps_rules keeps_fs_read_to_string reflp_frame transp_frame)
    then show ?thesis by (auto simp: keeps_def read_ref_file_def reflpD [OF reflp_frame])
  qed
  have "keeps (frame (\<lambda>_. False)) (read_branch L R b)"
    unfolding read_branch_def by (intro keeps_rules ref reflp_frame transp_frame)
  then show "keeps (same_files D) (on_fs V (read_branch L R b))" by (rule on_fs_files) simp
  have "keeps (frame (\<lambda>_. False)) (bindA (map_errA Io (fs_read_to_string (head_path R))) (\<lambda>raw.
        let trimmed = str_trim raw in
        case strip_prefix head_prefix trimmed of
          Some rest \<Rightarrow> ret (Some (Branch rest))
        | None \<Rightarrow> bindA (lift_res (parse_hash L trimmed)) (\<lambda>h. ret (Some (Detached h)))))"
    unfolding Let_def
    by (intro keeps_bindA keeps_map_errA keeps_fs_read_to_string transp_frame)
      (auto intro!: keeps_rules split: option.splits)
  then have "keeps (frame (\<lambda>_. False)) (read_head L R)"
    by (auto simp: keeps_def read_head_def reflpD [OF reflp_frame])
  then show "keeps (same_files D) (on_fs V (read_head L R))" by (rule on_fs_files) simp
qed

lemma snapshot_files: "keeps (same_files D) (snapshot_memory L D nm)"
  unfolding snapshot_memory_def
  by (auto intro!: keeps_rules keeps_any memory_files store_files split: option.splits)

lemma snapshot_pair: "snapshot_memory L D nm s = (Inr (mem, sv), t) \<Longrightarrow> mem = None \<longleftrightarrow> sv = None"
  by (auto simp: snapshot_memory_def bindA_ok_iff split: if_splits option.splits)

lemma stage_moved:
  assumes "stage_and_commit_with_now L (d_store D) V R branch i now s = (q, t)"
  defines "h \<equiv> commit_hash L (commit_of L i now)"
  shows "(\<forall>out. q = Inr out \<longrightarrow> out_hash out = h \<and> out_branch out = branch \<and>
           (\<exists>p. branch_path R branch = Inr p \<and>
              map_of (entries (view_get V t)) p = Some (FFile (str_bytes (to_hex L h @ newline))))) \<and>
         ref_moved R {(p, c). branch_path R branch = Inr p \<and> c = str_bytes (to_hex L h @ newline)}
           (view_get V s) (view_get V t)"
proof -
  let ?W = "{(p, c). branch_path R branch = Inr p \<and> c = str_bytes (to_hex L h @ newline)}"
  obtain r1 u where 1: "stage_blobs (d_store D) i now s = (r1, u)" by fastforce
  have su: "ref_moved R {} (view_get V s) (view_get V u)"
    using keepsD [OF stage_files(1) 1] by (simp add: same_files_def)
  show ?thesis
  proof (cases r1)
    case (Inl e)
    with 1 assms(1) have "t = u" "q = Inl e" by (auto simp: stage_and_commit_with_now_def bindA_def)
    then show ?thesis using ref_moved_mono [OF su] by simp
  next
    case (Inr c)
    then have c: "c = commit_of L i now" using stage_blobs_ok 1 by blast
    obtain r2 v where 2: "put_default (d_store D) (OCommit c) u = (r2, v)" by fastforce
    have "ref_moved R {} (view_get V u) (view_get V v)"
      using keepsD [OF stage_files(2) 2] by (simp add: same_files_def)
    with su have sv: "ref_moved R {} (view_get V s) (view_get V v)" using ref_moved_trans by fastforce
    show ?thesis
    proof (cases r2)
      case (Inl e)
      with 1 2 \<open>r1 = Inr c\<close> assms(1) have "t = v" "q = Inl e"
        by (auto simp: stage_and_commit_with_now_def bindA_def)
      then show ?thesis using ref_moved_mono [OF sv] by simp
    next
      case (Inr k)
      then have k: "k = h" using put_default_ok [OF TrueI 2 [unfolded Inr]] c by (simp add: h_def)
      obtain r3 f where 3: "write_branch L R branch h (view_get V v) = (r3, f)" by fastforce
      have t: "t = view_put V f v" "q = res_bind r3 (\<lambda>_. Inr \<lparr>out_hash = h, out_branch = branch\<rparr>)"
        using 1 2 3 \<open>r1 = Inr c\<close> Inr k assms(1)
        by (cases r3; simp add: stage_and_commit_with_now_def bindA_def on_fs_def)+
      note w = write_branch_moved [OF 3]
      have "ref_moved R ({} \<union> ?W) (view_get V s) (view_get V t)"
        using ref_moved_trans [OF sv, of ?W f] w by (simp add: t view_put)
      with w t show ?thesis by (auto simp: view_put res_bind_Inr_iff)
    qed
  qed
qed

text \<open>The state after a bind: the first action failed, or the second ran.\<close>

lemma bindA_cases:
  assumes "bindA m f s = (r, t)"
  obtains (stop) e where "m s = (Inl e, t)" "r = Inl e" | (go) a u where "m s = (Inr a, u)" "f a u = (r, t)"
  using assms by (auto simp: bindA_def split: prod.splits sum.splits)

lemma publish_moved:
  assumes "publish_head D b needs s = (r, t)"
  shows "r = Inr () \<and> ref_moved R (if needs then head_write R b else {}) (view_get V s) (view_get V t)"
proof (cases needs)
  case True
  obtain q f where "write_head_symbolic R b (view_get V s) = (q, f)" by fastforce
  with True assms write_head_moved [OF this] show ?thesis
    by (auto simp: publish_head_def ignore_error_def on_fs_def head_write_def view_put)
next
  case False
  with assms show ?thesis by (simp add: publish_head_def ref_moved_def)
qed

lemma pre_files: "keeps (same_files D) (commit_pre L D input)"
  unfolding commit_pre_def
  by (intro keeps_rules keeps_any read_files snapshot_files same_files_rel)
    (auto intro!: keeps_rules)

lemma post_moved:
  assumes "commit_post L D input peer now (h0, par, mem, sv, tools) s = (r, t)" "mem = None \<longleftrightarrow> sv = None"
  defines "b \<equiv> commit_branch input h0"
  shows "\<exists>c. committed L input par peer now c \<and>
       (case r of
          Inl e \<Rightarrow> ref_moved R {(p, x). branch_path R b = Inr p \<and> x = str_bytes (to_hex L (commit_hash L c) @ newline)}
                     (view_get V s) (view_get V t)
        | Inr out \<Rightarrow> out = \<lparr>co_hash = to_hex L (commit_hash L c), co_branch = b\<rparr> \<and>
            (\<exists>p. branch_path R b = Inr p \<and>
               map_of (entries (view_get V t)) p = Some (FFile (str_bytes (co_hash out @ newline))) \<and>
               ref_moved R ({(p, str_bytes (co_hash out @ newline))} \<union> (if h0 = None then head_write R b else {}))
                 (view_get V s) (view_get V t)))"
proof -
  define i where "i = assemble_inputs input par mem sv tools peer (d_exempt D)"
  define c where "c = commit_of L i now"
  define h where "h = commit_hash L c"
  let ?W = "{(p, x). branch_path R b = Inr p \<and> x = str_bytes (to_hex L h @ newline)}"
  have com: "committed L input par peer now c"
    using assms(2) by (simp add: committed_def c_def i_def assemble_inputs_def commit_of_def)
  obtain q u where st: "stage_and_commit_with_now L (d_store D) V R b i now s = (q, u)" by fastforce
  note m = stage_moved [OF st, folded c_def, folded h_def]
  show ?thesis
  proof (cases q)
    case (Inl e)
    with st assms(1) have "t = u" "\<exists>e. r = Inl e"
      by (auto simp: commit_post_def b_def i_def bindA_def any_defs map_errA_def)
    with com m show ?thesis unfolding h_def by (intro exI [of _ c]) auto
  next
    case (Inr out)
    with m obtain p where p: "out_hash out = h" "out_branch out = b" "branch_path R b = Inr p"
      "map_of (entries (view_get V u)) p = Some (FFile (str_bytes (to_hex L h @ newline)))" by blast
    obtain x v where pub: "publish_head D b (h0 = None) u = (x, v)" by fastforce
    note y = publish_moved [OF pub]
    have t: "t = v" "r = Inr \<lparr>co_hash = to_hex L h, co_branch = b\<rparr>"
      using st assms(1) Inr pub y p by (auto simp: commit_post_def b_def i_def bindA_def any_defs map_errA_def)
    have W: "?W = {(p, str_bytes (to_hex L h @ newline))}" using p(3) by auto
    let ?H = "if h0 = None then head_write R b else {}"
    have mv: "ref_moved R ({(p, str_bytes (to_hex L h @ newline))} \<union> ?H) (view_get V s) (view_get V t)"
      using ref_moved_trans [OF conjunct2 [OF m] conjunct2 [OF y]] unfolding W t .
    have "p \<noteq> head_path R" using branch_not_head [OF p(3)] by simp
    then have "map_of (entries (view_get V t)) p = Some (FFile (str_bytes (to_hex L h @ newline)))"
      using conjunct2 [OF y] p(3, 4) unfolding ref_moved_def t ref_file_def head_write_def by (auto split: if_splits)
    with mv com p(3) t show ?thesis unfolding h_def by (intro exI [of _ c]) auto
  qed
qed

end

section \<open>The local daemon\<close>

text \<open>The world of a daemon with a local store: the file system, and the in-memory backend
  beside it.\<close>

definition on_first :: "('w, 'e, 'a) act \<Rightarrow> ('w \<times> 's, 'e, 'a) act" where
  "on_first m = (\<lambda>(w, s). case m w of (r, w') \<Rightarrow> (r, (w', s)))"

definition im_store :: "'w store_ops \<Rightarrow> 'w im store_ops" where
  "im_store S =
     \<lparr>st_put = (\<lambda>x p. on_first (st_put S x p)), st_put_raw = (\<lambda>k bs. on_first (st_put_raw S k bs)),
      st_get = (\<lambda>h. on_first (st_get S h)), st_get_raw = (\<lambda>h. on_first (st_get_raw S h)),
      st_has = (\<lambda>h (w, s). case st_has S h w of (b, w') \<Rightarrow> (b, (w', s)))\<rparr>"

definition im_view :: "fs im fs_view" where
  "im_view = \<lparr>view_get = fst, view_put = (\<lambda>f (w, s). (f, s))\<rparr>"

lemma on_first_ok [simp]: "on_first m (w, s) = (r, t) \<longleftrightarrow> (\<exists>w'. m w = (r, w') \<and> t = (w', s))"
  by (auto simp: on_first_def split: prod.splits)

lemma on_first_snd [simp]: "snd (on_first m (w, s)) = (snd (m w), s)"
  by (simp add: on_first_def split: prod.splits)

lemma preserves_on_first: "preserves I m \<Longrightarrow> preserves (\<lambda>x. I (fst x)) (on_first m)"
  by (auto simp: preserves_def)

lemma im_store_has [simp]: "fst (st_has (im_store S) h (w, m)) = fst (st_has S h w)"
  by (simp add: im_store_def split: prod.splits)

lemma im_store_contract:
  assumes "object_store L S ok calm held"
  shows "object_store L (im_store S) (\<lambda>x. ok (fst x)) (\<lambda>x. calm (fst x)) (\<lambda>x. held (fst x))"
proof
  note keep = object_store.put_inv [OF assms] object_store.put_raw_inv [OF assms] object_store.get_inv [OF assms]
    object_store.get_raw_inv [OF assms] object_store.put_calm [OF assms] object_store.put_raw_calm [OF assms]
  fix x p k bs h
  show "preserves (\<lambda>x. ok (fst x)) (st_put (im_store S) x p)" "preserves (\<lambda>x. ok (fst x)) (st_put_raw (im_store S) k bs)"
    "preserves (\<lambda>x. ok (fst x)) (st_get (im_store S) h)" "preserves (\<lambda>x. ok (fst x)) (st_get_raw (im_store S) h)"
    "preserves (\<lambda>x. calm (fst x)) (st_put (im_store S) x p)" "preserves (\<lambda>x. calm (fst x)) (st_put_raw (im_store S) k bs)"
    by (simp_all add: im_store_def preserves_on_first keep)
next
  fix s :: "'a im" and h bs x p k b g
  obtain w m where s: "s = (w, m)" by (cases s)
  assume i: "ok (fst s)" and hd: "held (fst s) h bs"
  note i' = i [unfolded s fst_conv] and hd' = hd [unfolded s fst_conv]
  show "held (fst (snd (st_put (im_store S) x p s))) h bs" "held (fst (snd (st_put_raw (im_store S) k b s))) h bs"
    "held (fst (snd (st_get (im_store S) g s))) h bs" "held (fst (snd (st_get_raw (im_store S) g s))) h bs"
    using object_store.put_holds [OF assms i' hd'] object_store.put_raw_holds [OF assms i' hd']
      object_store.get_holds [OF assms i' hd'] object_store.get_raw_holds [OF assms i' hd']
    by (simp_all add: im_store_def s)
next
  fix s t :: "'a im" and h x p
  assume i: "ok (fst s)" and "st_put (im_store S) x p s = (Inr h, t)"
  then obtain w w' m where s: "s = (w, m)" "t = (w', m)" "st_put S x p w = (Inr h, w')"
    by (cases s) (auto simp: im_store_def)
  with object_store.put_result [OF assms _ s(3)] i
  show "h = object_hash L x \<and> (fst (st_has (im_store S) h s) \<or> held (fst t) h (object_bytes L x))"
    by auto
next
  fix s t :: "'a im" and h k bs
  assume i: "ok (fst s)" and "st_put_raw (im_store S) k bs s = (Inr h, t)"
  then obtain w w' m where s: "s = (w, m)" "t = (w', m)" "st_put_raw S k bs w = (Inr h, w')"
    by (cases s) (auto simp: im_store_def)
  with object_store.put_raw_result [OF assms _ s(3)] i
  show "h = hash_of L bs \<and> (fst (st_has (im_store S) h s) \<or> held (fst t) h bs)"
    by auto
next
  fix s t :: "'a im" and h x
  assume "ok (fst s)" "st_get (im_store S) h s = (Inr x, t)"
  then show "object_hash L x = h"
    by (cases s) (auto simp: im_store_def dest: object_store.get_sound [OF assms])
next
  fix s t :: "'a im" and h bs
  assume "ok (fst s)" "st_get_raw (im_store S) h s = (Inr bs, t)"
  then show "hash_of L bs = h"
    by (cases s) (auto simp: im_store_def dest: object_store.get_raw_sound [OF assms])
next
  fix s :: "'a im" and h bs x
  assume "ok (fst s)" "calm (fst s)" "held (fst s) h bs" "object_parse L bs = Some x" "object_hash L x = h"
  then show "\<exists>t. st_get (im_store S) h s = (Inr x, t) \<and> calm (fst t)"
    using object_store.get_held [OF assms] by (cases s) (fastforce simp: im_store_def)
next
  fix s :: "'a im" and h bs
  assume "ok (fst s)" "calm (fst s)" "held (fst s) h bs" "hash_of L bs = h"
  then show "\<exists>t. st_get_raw (im_store S) h s = (Inr bs, t) \<and> calm (fst t)"
    using object_store.get_raw_held [OF assms] by (cases s) (fastforce simp: im_store_def)
qed

text \<open>The daemon over the local store, with the in-memory backend or with none.\<close>

definition local_daemon :: "lib \<Rightarrow> allowlist \<Rightarrow> fs im daemon \<Rightarrow> bool" where
  "local_daemon L al D \<longleftrightarrow>
     d_store D = im_store (fs_store_ops L (beside (d_refs D) al)) \<and> d_view D = im_view \<and>
     (d_memory D = None \<or> d_memory D = Some (im_ops L (fs_store_ops L (beside (d_refs D) al))))"

definition ref_same :: "refs \<Rightarrow> fs \<Rightarrow> fs \<Rightarrow> bool" where
  "ref_same R = ref_moved R {}"

lemma ref_same_rel: "reflp (ref_same R)" "transp (ref_same R)"
proof -
  show "reflp (ref_same R)" by (simp add: reflp_def ref_same_def ref_moved_def)
  show "transp (ref_same R)"
    by (rule transpI) (use ref_moved_trans [where W = "{}" and W' = "{}"] in \<open>fastforce simp: ref_same_def\<close>)
qed

lemma store_not_ref:
  assumes "hex_law L" "ref_file R q"
  shows "\<not> address_of L (beside R al) h q"
proof (cases "q = head_path R")
  case True
  have "length (path_for L (beside R al) h) \<noteq> length (head_path R)"
    by (simp add: path_for_eq beside_def head_path_def)
  then show ?thesis using True by (auto simp: address_of_def)
next
  case False
  with assms(2) address_not_branch(1) [OF assms(1)] show ?thesis by (auto simp: ref_file_def)
qed

lemma fs_store_files:
  assumes "hex_law L"
  shows "keeps (ref_same R) (st_put (fs_store_ops L (beside R al)) x p)"
    "keeps (ref_same R) (st_put_raw (fs_store_ops L (beside R al)) k bs)"
    "keeps (ref_same R) (st_get (fs_store_ops L (beside R al)) h)"
    "keeps (ref_same R) (st_get_raw (fs_store_ops L (beside R al)) h)"
proof -
  have fr: "keeps (ref_same R) m" if "keeps (frame P) m" "\<And>q. ref_file R q \<Longrightarrow> \<not> P q" for m P
    using that frame_moved by (fastforce simp: keeps_def ref_same_def)
  note adr = store_not_ref [OF assms, of R _ al]
  show "keeps (ref_same R) (st_put (fs_store_ops L (beside R al)) x p)"
    using fr [OF put_frame adr] by (simp add: fs_store_ops_def)
  have "keeps (frame (address_of L (beside R al) (hash_of L bs))) (put_raw L (beside R al) k bs)"
    unfolding put_raw_def Let_def
    by (intro keeps_bindA keeps_basic write_if_absent_frame reflp_frame transp_frame)
  from fr [OF this adr] show "keeps (ref_same R) (st_put_raw (fs_store_ops L (beside R al)) k bs)"
    by (simp add: fs_store_ops_def)
  show "keeps (ref_same R) (st_get (fs_store_ops L (beside R al)) h)"
    using fr [OF store_get_frame [of "\<lambda>_. False"]] by (simp add: fs_store_ops_def)
  show "keeps (ref_same R) (st_get_raw (fs_store_ops L (beside R al)) h)"
    using fr [OF get_raw_frame [of "\<lambda>_. False"]] by (simp add: fs_store_ops_def)
qed

definition first_rel :: "('w \<Rightarrow> 'w \<Rightarrow> bool) \<Rightarrow> 'w im \<Rightarrow> 'w im \<Rightarrow> bool" where
  "first_rel Q s t \<longleftrightarrow> Q (fst s) (fst t)"

lemma first_rel_rel: "reflp Q \<Longrightarrow> reflp (first_rel Q)" "transp Q \<Longrightarrow> transp (first_rel Q)"
  by (auto simp: first_rel_def reflp_def transp_def)

lemma keeps_on_first: "keeps Q m \<Longrightarrow> keeps (first_rel Q) (on_first m)"
  by (auto simp: keeps_def first_rel_def)

lemma keeps_on_world: "keeps Q m \<Longrightarrow> keeps (first_rel Q) (on_world m)"
  by (auto simp: keeps_def first_rel_def on_world_def split: prod.splits) (metis snd_conv)

lemma im_ops_files:
  assumes Q: "reflp Q" "transp Q" "\<And>k bs. keeps Q (st_put_raw S k bs)" "\<And>h. keeps Q (st_get_raw S h)"
  shows "keeps (first_rel Q) (ad_snapshot (im_ops L S))" "keeps (first_rel Q) (ad_current_schema (im_ops L S))"
    "keeps (first_rel Q) (ad_migrations_after (im_ops L S) v)" "keeps (first_rel Q) (ad_begin_restore (im_ops L S))"
    "keeps (first_rel Q) (ad_restore_with_guard (im_ops L S) sh)" "keeps (first_rel Q) (ad_apply_reverse (im_ops L S) steps)"
    "first_rel Q x (ad_end_restore (im_ops L S) x)"
proof -
  have "keeps Q (snapshot_tables L S sv ts m)" for sv ts m
  proof (induction ts arbitrary: m)
    case Nil
    show ?case unfolding snapshot_tables.simps by (rule keeps_basic(1) [OF Q(1)])
  next
    case (Cons p ts)
    obtain t rows where p: "p = (t, rows)" by (cases p)
    show ?case
      unfolding p snapshot_tables.simps by (cases "rows = []") (auto intro!: keeps_bindA Q Cons.IH)
  qed
  then have "keeps (first_rel Q) (on_world (snapshot_tables L S sv ts m))" for sv ts m by (rule keeps_on_world)
  then have snap: "keeps (first_rel Q) (bindA (on_world (snapshot_tables L S sv ts m)) (\<lambda>m. ret \<lparr>sh_manifest = m, sh_schema = sv\<rparr>))"
    for sv ts m by (intro keeps_rules first_rel_rel Q)
  show "keeps (first_rel Q) (ad_snapshot (im_ops L S))"
    unfolding keeps_def
  proof
    fix x :: "'a im"
    show "first_rel Q x (snd (ad_snapshot (im_ops L S) x))"
      using snap [of "im_schema (snd x)" "im_tables (snd x)" "manifest_new (im_schema (snd x))"]
      by (cases x) (simp add: keeps_def im_ops_def im_snapshot_def)
  qed
  have rt: "keeps Q (restore_tables L S es ts)" for es ts
    by (induction es arbitrary: ts) (auto intro!: keeps_rules Q split: option.splits)
  show "keeps (first_rel Q) (ad_restore_with_guard (im_ops L S) sh)"
    unfolding keeps_def
  proof
    fix x :: "'a im"
    obtain w m where x: "x = (w, m)" by (cases x)
    obtain r w' where r: "restore_tables L S (mf_entries (sh_manifest sh)) [] w = (r, w')" by fastforce
    have "Q w w'" using keepsD [OF rt r] .
    then show "first_rel Q x (snd (ad_restore_with_guard (im_ops L S) sh x))"
      using r Q(1) by (cases r) (auto simp: x im_ops_def im_restore_with_guard_def first_rel_def reflp_def)
  qed
  show "keeps (first_rel Q) (ad_current_schema (im_ops L S))" "keeps (first_rel Q) (ad_migrations_after (im_ops L S) v)"
    "keeps (first_rel Q) (ad_begin_restore (im_ops L S))" "keeps (first_rel Q) (ad_apply_reverse (im_ops L S) steps)"
    "first_rel Q x (ad_end_restore (im_ops L S) x)"
    using Q(1) by (auto simp: keeps_def im_ops_def im_current_schema_def im_migrations_after_def im_begin_restore_def
        im_apply_reverse_def first_rel_def reflp_def split: prod.splits)
qed

lemma local_daemon_files: "local_daemon L al D \<Longrightarrow> same_files D = first_rel (ref_same (d_refs D))"
  by (simp add: fun_eq_iff same_files_def local_daemon_def im_view_def first_rel_def ref_same_def)

lemma local_daemon_world:
  assumes "hex_law L" "zstd_law L" "local_daemon L al D"
  shows "daemon_world L D (\<lambda>x. quiet (fst x)) (\<lambda>x. stored L (beside (d_refs D) al) (fst x))"
proof -
  let ?S = "fs_store_ops L (beside (d_refs D) al)"
  have D: "d_store D = im_store ?S" "d_view D = im_view" using assms(3) by (auto simp: local_daemon_def)
  note Q = ref_same_rel [of "d_refs D"] fs_store_files(2, 4) [OF assms(1)]
  have "object_store L (d_store D) (\<lambda>_. True) (\<lambda>x. quiet (fst x)) (\<lambda>x. stored L (beside (d_refs D) al) (fst x))"
    using im_store_contract [OF fs_store_contract [OF assms(1, 2)]] unfolding D(1) .
  moreover have "daemon_world_axioms D"
    unfolding daemon_world_axioms_def local_daemon_files [OF assms(3)]
  proof (intro conjI allI impI)
    fix x p k bs h
    show "keeps (first_rel (ref_same (d_refs D))) (st_put (d_store D) x p)"
      "keeps (first_rel (ref_same (d_refs D))) (st_put_raw (d_store D) k bs)"
      "keeps (first_rel (ref_same (d_refs D))) (st_get (d_store D) h)"
      "keeps (first_rel (ref_same (d_refs D))) (st_get_raw (d_store D) h)"
      unfolding D by (simp_all add: im_store_def keeps_on_first fs_store_files [OF assms(1)])
  next
    fix M assume "d_memory D = Some M"
    then have M: "M = im_ops L ?S" using assms(3) by (auto simp: local_daemon_def)
    fix v sh steps w
    show "keeps (first_rel (ref_same (d_refs D))) (ad_snapshot M)" "keeps (first_rel (ref_same (d_refs D))) (ad_current_schema M)"
      "keeps (first_rel (ref_same (d_refs D))) (ad_migrations_after M v)" "keeps (first_rel (ref_same (d_refs D))) (ad_begin_restore M)"
      "keeps (first_rel (ref_same (d_refs D))) (ad_restore_with_guard M sh)" "keeps (first_rel (ref_same (d_refs D))) (ad_apply_reverse M steps)"
      "first_rel (ref_same (d_refs D)) w (ad_end_restore M w)"
      unfolding M by (rule im_ops_files [OF Q])+
  qed (auto simp: D im_view_def)
  ultimately show ?thesis by (simp add: daemon_world_def)
qed

locale local_instance = lib_laws L
  for L :: "lib" +
  fixes al :: allowlist and D :: "fs im daemon"
  assumes is_local: "local_daemon L al D"

sublocale local_instance < daemon_world L D "\<lambda>x. quiet (fst x)" "\<lambda>x. stored L (beside (d_refs D) al) (fst x)"
  by (rule local_daemon_world) (rule hex zstd is_local)+

context local_instance
begin

lemma local_commit:
  assumes "commit_execute_with_now L D input peer now s = (r, t)"
  shows "(\<exists>e. r = Inl e \<and> ref_moved (d_refs D) {} (fst s) (fst t)) \<or>
    (\<exists>h0 s1 par s2 c b p line. on_fs im_view (read_head L (d_refs D)) s = (Inr h0, s1) \<and> b = commit_branch input h0 \<and>
       on_fs im_view (read_branch L (d_refs D) b) s1 = (Inr par, s2) \<and> committed L input par peer now c \<and>
       branch_path (d_refs D) b = Inr p \<and> line = str_bytes (to_hex L (commit_hash L c) @ newline) \<and>
       (case r of
          Inl e \<Rightarrow> ref_moved (d_refs D) {(p, line)} (fst s) (fst t)
        | Inr out \<Rightarrow> out = \<lparr>co_hash = to_hex L (commit_hash L c), co_branch = b\<rparr> \<and>
            map_of (entries (fst t)) p = Some (FFile line) \<and>
            ref_moved (d_refs D) ({(p, line)} \<union> (if h0 = None then head_write (d_refs D) b else {})) (fst s) (fst t)))"
proof -
  have V: "d_view D = im_view" and get: "view_get im_view = fst" using is_local by (auto simp: local_daemon_def im_view_def)
  obtain q u where Pair: "commit_pre L D input s = (q, u)" by (rule prod.exhaust)
  show ?thesis
  proof -
    have su: "ref_moved (d_refs D) {} (fst s) (fst u)"
      using keepsD [OF pre_files Pair] by (simp add: same_files_def V get)
    show ?thesis
    proof (cases q)
      case (Inl e)
      with Pair assms have "r = Inl e" "t = u" by (auto simp: commit_phases bindA_def)
      with su show ?thesis by blast
    next
      case (Inr x)
      obtain h0 par mem sv tools where x: "x = (h0, par, mem, sv, tools)" by (cases x)
      define b where "b = commit_branch input h0"
      have post: "commit_post L D input peer now (h0, par, mem, sv, tools) u = (r, t)"
        using Pair Inr x assms by (simp add: commit_phases bindA_def)
      obtain s1 s2 s3 where rd: "on_fs im_view (read_head L (d_refs D)) s = (Inr h0, s1)"
        "on_fs im_view (read_branch L (d_refs D) b) s1 = (Inr par, s2)" "snapshot_memory L D (ci_no_memory input) s2 = (Inr (mem, sv), s3)"
        using Pair Inr x by (auto simp: commit_pre_def bindA_ok_iff V b_def)
      obtain c where c: "committed L input par peer now c"
        "case r of
          Inl e \<Rightarrow> ref_moved (d_refs D) {(p, x). branch_path (d_refs D) b = Inr p \<and> x = str_bytes (to_hex L (commit_hash L c) @ newline)} (fst u) (fst t)
        | Inr out \<Rightarrow> out = \<lparr>co_hash = to_hex L (commit_hash L c), co_branch = b\<rparr> \<and>
            (\<exists>p. branch_path (d_refs D) b = Inr p \<and>
               map_of (entries (fst t)) p = Some (FFile (str_bytes (co_hash out @ newline))) \<and>
               ref_moved (d_refs D) ({(p, str_bytes (co_hash out @ newline))} \<union> (if h0 = None then head_write (d_refs D) b else {}))
                 (fst u) (fst t))"
        using post_moved [OF post snapshot_pair [OF rd(3)]] unfolding V get b_def by blast
      define line where "line = str_bytes (to_hex L (commit_hash L c) @ newline)"
      have tr: "ref_moved (d_refs D) W (fst u) (fst t) \<Longrightarrow> ref_moved (d_refs D) W (fst s) (fst t)" for W
        using ref_moved_trans [OF su, of W "fst t"] by simp
      show ?thesis
      proof (cases r)
        case (Inl e)
        show ?thesis
        proof (cases "branch_path (d_refs D) b")
          case Inl2: (Inl e')
          then have "{(p, x). branch_path (d_refs D) b = Inr p \<and> x = line} = {}" by auto
          with c(2) Inl tr show ?thesis by (auto simp: line_def)
        next
          case (Inr p)
          then have "{(q, x). branch_path (d_refs D) b = Inr q \<and> x = line} = {(p, line)}" by auto
          with c(2) Inl tr have "ref_moved (d_refs D) {(p, line)} (fst s) (fst t)" by (simp add: line_def)
          with rd(1,2) c(1) Inr Inl b_def line_def show ?thesis by auto
        qed
      next
        case (Inr out)
        then obtain p where p: "branch_path (d_refs D) b = Inr p" "map_of (entries (fst t)) p = Some (FFile line)"
          "out = \<lparr>co_hash = to_hex L (commit_hash L c), co_branch = b\<rparr>"
          "ref_moved (d_refs D) ({(p, line)} \<union> (if h0 = None then head_write (d_refs D) b else {})) (fst s) (fst t)"
          using c(2) tr by (auto simp: line_def)
        with rd(1,2) c(1) Inr b_def line_def show ?thesis by auto
      qed
    qed
  qed
qed

end

section \<open>Properties\<close>

definition sample_daemon :: "fs im daemon" where
  "sample_daemon =
     \<lparr>d_repo = [], d_store = im_store (fs_store_ops sample_lib (beside [] [])), d_view = im_view, d_refs = [],
      d_memory = None, d_mcp = [], d_net = one_tool, d_auth = InsecureAllowAny, d_key = None,
      d_limits = default_limits, d_rate = rate_new 200, d_slots = slots_new default_limits, d_exempt = []\<rparr>"

lemma sample_daemon_local: "local_daemon sample_lib [] sample_daemon"
  by (simp add: local_daemon_def sample_daemon_def)

interpretation sample_instance: local_instance sample_lib "[]" sample_daemon
  by unfold_locales (rule sample_daemon_local)

text \<open>
  C5. A commit publishes last and in order. Over the local store, with the in-memory backend or
  none, and whatever fails: a commit that fails leaves \<open>HEAD\<close> and every branch as they were,
  except that its own branch may already hold the line of the commit it determined; a commit that
  succeeds has moved its branch to the returned hash of a commit whose parent is the tip it
  read, whose prompts are the input's, and which has a memory snapshot exactly when it has a
  schema version; \<open>HEAD\<close> is written only by a first commit, after the branch, and no other
  branch changes.
\<close>

theorem commit_publishes_last:
  assumes "lib_ok L" "local_daemon L al D" "commit_execute_with_now L D input peer now s = (r, t)"
  shows "(\<exists>e. r = Inl e \<and> ref_moved (d_refs D) {} (fst s) (fst t)) \<or>
    (\<exists>h0 s1 par s2 c b p line. on_fs im_view (read_head L (d_refs D)) s = (Inr h0, s1) \<and> b = commit_branch input h0 \<and>
       on_fs im_view (read_branch L (d_refs D) b) s1 = (Inr par, s2) \<and> committed L input par peer now c \<and>
       branch_path (d_refs D) b = Inr p \<and> line = str_bytes (to_hex L (commit_hash L c) @ newline) \<and>
       (case r of
          Inl e \<Rightarrow> ref_moved (d_refs D) {(p, line)} (fst s) (fst t)
        | Inr out \<Rightarrow> out = \<lparr>co_hash = to_hex L (commit_hash L c), co_branch = b\<rparr> \<and>
            map_of (entries (fst t)) p = Some (FFile line) \<and>
            ref_moved (d_refs D) ({(p, line)} \<union> (if h0 = None then head_write (d_refs D) b else {})) (fst s) (fst t)))"
proof -
  have "local_instance L al D"
    using assms(1, 2) by (simp add: local_instance_def local_instance_axioms_def lib_laws_iff)
  from local_instance.local_commit [OF this assms(3)] show ?thesis .
qed

text \<open>A daemon whose HEAD cannot be read, and the first commit of an empty repository.\<close>

definition first_input :: commit_input where
  "first_input =
     \<lparr>ci_message = ''first'', ci_author = Some ''alice'', ci_code_sha = None, ci_branch = None, ci_prompts = [],
      ci_mcp_servers = [], ci_model = None, ci_no_memory = False\<rparr>"

lemma first_inputs: "assemble_inputs first_input None None None [] None [] = sample_inputs"
  by (simp add: assemble_inputs_def first_input_def sample_inputs_def)

lemma on_first_push [simp]:
  "on_first (bindA m f) = bindA (on_first m) (\<lambda>a. on_first (f a))" "on_first (ret a) = ret a"
  by (auto simp: fun_eq_iff on_first_def bindA_def ret_def split: prod.splits sum.splits)

lemma on_fs_im: "on_fs im_view m = on_first m"
  by (auto simp: fun_eq_iff on_fs_def im_view_def on_first_def split: prod.splits)

lemma stage_on_first:
  "stage_and_commit_with_now L (im_store S) im_view R b i now = on_first (stage_and_commit_with_now L S fs_self R b i now)"
proof -
  have put: "put_default (im_store S) x = on_first (put_default S x)" for x
    by (simp add: put_default_def im_store_def)
  have entries: "stage_entries (im_store S) ex es t = on_first (stage_entries S ex es t)" for ex es t
  proof (induction es arbitrary: t)
    case (Cons p es)
    then show ?case by (cases p) (simp add: im_store_def)
  qed simp
  have trees: "stage_blob_tree (im_store S) es ex = on_first (stage_blob_tree S es ex)" for es ex
    by (simp add: stage_blob_tree_def entries put)
  have opt: "stage_optional_blob (im_store S) p = on_first (stage_optional_blob S p)" for p
    by (cases p) (simp_all add: stage_optional_blob_def put)
  have blobs: "stage_blobs (im_store S) i now = on_first (stage_blobs S i now)"
    by (simp add: stage_blobs_def trees opt)
  show ?thesis by (simp add: on_fs_im stage_and_commit_with_now_def blobs put)
qed

lemma first_commit:
  obtains out t where "commit_execute_with_now sample_lib sample_daemon first_input None 0 (empty_fs, m) = (Inr out, t)"
proof -
  obtain o1 f where "stage_and_commit_with_now sample_lib (fs_store_ops sample_lib (beside [] [])) fs_self []
    ''main'' sample_inputs 0 empty_fs = (Inr o1, f)" by (rule sample_commit)
  then have st: "stage_and_commit_with_now sample_lib (im_store (fs_store_ops sample_lib (beside [] []))) im_view []
    ''main'' sample_inputs 0 (empty_fs, m) = (Inr o1, (f, m))" by (simp add: stage_on_first)
  have head: "on_fs im_view (read_head sample_lib []) (empty_fs, m) = (Inr None, (empty_fs, m))"
    by (simp add: read_head_def head_path_def on_fs_def im_view_def)
  have br: "on_fs im_view (read_branch sample_lib [] ''main'') (empty_fs, m) = (Inr None, (empty_fs, m))"
    using branch_path_main [of "[]"] by (simp add: read_branch_def bindA_def read_ref_file_def on_fs_def im_view_def)
  have b: "commit_branch first_input None = ''main''" by (simp add: commit_branch_def first_input_def)
  have pre: "commit_pre sample_lib sample_daemon first_input (empty_fs, m) = (Inr (None, None, None, None, []), (empty_fs, m))"
    using head br b
    by (simp add: commit_pre_def bindA_def any_defs map_errA_def sample_daemon_def snapshot_memory_def fingerprint_tools_def)
  obtain q v where "publish_head sample_daemon ''main'' True (f, m) = (q, v)" by (rule prod.exhaust)
  then have pub: "publish_head sample_daemon ''main'' True (f, m) = (Inr (), v)"
    by (simp add: publish_head_def ignore_error_def)
  have "commit_execute_with_now sample_lib sample_daemon first_input None 0 (empty_fs, m) =
      (Inr \<lparr>co_hash = to_hex sample_lib (out_hash o1), co_branch = out_branch o1\<rparr>, v)"
    using pre st pub
    by (simp add: commit_phases commit_post_def b first_inputs [simplified] bindA_def any_defs map_errA_def sample_daemon_def)
  with that show thesis .
qed

theorem commit_publishes_last_witness:
  "\<exists>out t p. commit_execute_with_now sample_lib sample_daemon first_input None 0 (empty_fs, im_new) = (Inr out, t) \<and>
     co_branch out = ''main'' \<and> map_of (entries (fst t)) p = Some (FFile (str_bytes (co_hash out @ newline)))"
proof -
  obtain out t where r: "commit_execute_with_now sample_lib sample_daemon first_input None 0 (empty_fs, im_new) = (Inr out, t)"
    by (rule first_commit)
  have head: "on_fs im_view (read_head sample_lib []) (empty_fs, im_new) = (Inr None, (empty_fs, im_new))"
    by (simp add: read_head_def head_path_def on_fs_def im_view_def)
  have "d_refs sample_daemon = []" "commit_branch first_input None = ''main''"
    by (simp_all add: sample_daemon_def commit_branch_def first_input_def)
  with commit_publishes_last [OF sample_ok sample_daemon_local r] r head show ?thesis by fastforce
qed

end
