(* ===== verification/Rollback.thy ===== *)
theory Rollback
  imports Daemon
begin

text \<open>
  The rollback orchestrator (\<open>rollback/mod.rs\<close>): the approval gate with its audit events, and
  the phases from resolving the target to the forward-recording commit. The audit log is a list
  of events beside the daemon's world; only the gate adds to it. The plan's lines are kept with
  the data they carry, in the code's order.
\<close>

section \<open>The approval gate\<close>

record rollback_args =
  ra_target :: string
  ra_dry_run :: bool
  ra_accept :: bool
  ra_token :: "string option"
  ra_repo :: path

record audit_event =
  ae_peer :: "u32 option"
  ae_target :: string
  ae_decision :: string
  ae_prefix :: "string option"

text \<open>\<open>chars().take(n)\<close> on the bytes of a string: a continuation byte belongs to the character
  before it.\<close>

definition is_cont :: "char \<Rightarrow> bool" where
  "is_cont c \<longleftrightarrow> 128 \<le> (of_char c :: nat) \<and> (of_char c :: nat) < 192"

fun take_chars :: "nat \<Rightarrow> string \<Rightarrow> string" where
  "take_chars n [] = []"
| "take_chars n (c # cs) =
     (if is_cont c then c # take_chars n cs
      else case n of 0 \<Rightarrow> [] | Suc m \<Rightarrow> c # take_chars m cs)"

definition token_prefix_for_audit :: "string \<Rightarrow> string" where
  "token_prefix_for_audit token =
     take_chars 8 (case split_once (CHR '':'') token of Some (_, tag) \<Rightarrow> tag | None \<Rightarrow> token)"

definition audit_forced_data_loss :: "u32 option \<Rightarrow> string \<Rightarrow> string \<Rightarrow> string option \<Rightarrow> audit_event" where
  "audit_forced_data_loss peer target decision token =
     \<lparr>ae_peer = peer, ae_target = target, ae_decision = decision,
      ae_prefix = map_option token_prefix_for_audit token\<rparr>"

definition gate_check ::
    "lib \<Rightarrow> approval_key option \<Rightarrow> string \<Rightarrow> u32 option \<Rightarrow> string option \<Rightarrow> u64 \<Rightarrow> approval_error + unit" where
  "gate_check L key commit_hex peer token now =
     (case key of
        None \<Rightarrow> Inl KeyNotConfigured
      | Some k \<Rightarrow>
          (case peer of
             None \<Rightarrow> Inl NoPeerUid
           | Some uid \<Rightarrow>
               (case token of
                  None \<Rightarrow> Inl TokenRequired
                | Some t \<Rightarrow> map_err Rejected (verify_token L k commit_hex uid t now))))"

definition approval_gate ::
    "lib \<Rightarrow> 'w daemon \<Rightarrow> hash \<Rightarrow> u32 option \<Rightarrow> string option \<Rightarrow> u64 \<Rightarrow>
     ('w \<times> audit_event list, approval_error, unit) act" where
  "approval_gate L D h peer token now = (\<lambda>(w, lg).
     let r = gate_check L (d_key D) (to_hex L h) peer token now;
         decision = (case r of Inl e \<Rightarrow> approval_audit_decision e | Inr _ \<Rightarrow> ''accepted'')
     in (r, (w, lg @ [audit_forced_data_loss peer (to_hex L h) decision token])))"

text \<open>Seconds since the epoch; a clock before it reads as the epoch.\<close>

definition now_unix_seconds :: "int \<Rightarrow> u64" where
  "now_unix_seconds t = (if t < 0 then 0 else word_of_int t)"

section \<open>Phases\<close>

definition validate_target_shape :: "commit \<Rightarrow> anyhow + unit" where
  "validate_target_shape c =
     (if c_memory_snapshot c \<noteq> None \<and> c_schema_version c = None
      then Inl [Ctx ''target commit has memory_snapshot but no schema_version''] else Inr ())"

definition arrow :: string where
  "arrow = [CHR '' '', char_of (0xE2 :: nat), char_of (0x86 :: nat), char_of (0x92 :: nat), CHR '' '']"

definition current_branch :: "lib \<Rightarrow> 'w daemon \<Rightarrow> ('w, anyhow, string) act" where
  "current_branch L D =
     bindA (core_any (on_fs (d_view D) (read_head L (d_refs D)))) (\<lambda>h0.
     case h0 of
       Some (Branch b) \<Rightarrow> ret b
     | Some (Detached _) \<Rightarrow> bail ''rollback from a detached HEAD is not supported (Chunk C+1)''
     | None \<Rightarrow> bail ''repo has no HEAD; commit something before rolling back'')"

text \<open>Phases 1 to 3 of the schema: what is live, the steps to peel, and their execution.\<close>

definition schema_phase :: "'w daemon \<Rightarrow> 'w mem_ops \<Rightarrow> rollback_args \<Rightarrow> string \<Rightarrow> ('w, anyhow, string list) act" where
  "schema_phase D M a sv =
     bindA (with_context ''reading live schema version'' (mem_any (ad_current_schema M))) (\<lambda>live.
     bindA (if live \<noteq> sv then with_context ''querying pending reverse migrations'' (mem_any (ad_migrations_after M sv))
            else ret []) (\<lambda>names.
     if live \<noteq> sv then
       bindA (with_context ''loading reverse migration files''
                (on_fs (d_view D) (load_steps (d_refs D) names (ra_accept a)))) (\<lambda>steps.
       bindA (if \<not> ra_dry_run a then with_context ''running reverse migrations'' (mem_any (ad_apply_reverse M steps))
              else ret ()) (\<lambda>_.
       ret [''reverse schema migrations: '' @ live @ arrow @ sv]))
     else ret [''schema already at '' @ sv]))"

text \<open>The restore window: the guard is dropped when the restore returns, failed or not.\<close>

definition restore_window :: "'w mem_ops \<Rightarrow> snapshot_handle \<Rightarrow> ('w, anyhow, unit) act" where
  "restore_window M sh =
     bindA (with_context ''pausing data capture for restore window'' (mem_any (ad_begin_restore M))) (\<lambda>_ s.
     case with_context ''restoring memory snapshot'' (mem_any (ad_restore_with_guard M sh)) s of
       (r, t) \<Rightarrow> (r, ad_end_restore M t))"

definition memory_phase ::
    "lib \<Rightarrow> 'w daemon \<Rightarrow> 'w mem_ops \<Rightarrow> rollback_args \<Rightarrow> string \<Rightarrow> hash option \<Rightarrow> ('w, anyhow, string list) act" where
  "memory_phase L D M a sv snap =
     (case snap of
        None \<Rightarrow> ret [''no memory snapshot in target'']
      | Some mh \<Rightarrow>
          bindA (if \<not> ra_dry_run a
                 then bindA (load_manifest L (d_store D) mh) (\<lambda>m.
                      restore_window M \<lparr>sh_manifest = m, sh_schema = sv\<rparr>)
                 else ret ()) (\<lambda>_.
          ret [''restore memory from manifest '' @ hash_short L mh]))"

definition state_phase :: "lib \<Rightarrow> 'w daemon \<Rightarrow> rollback_args \<Rightarrow> commit \<Rightarrow> ('w, anyhow, string list) act" where
  "state_phase L D a c =
     (case c_schema_version c of
        None \<Rightarrow> ret [''no schema_version in target'']
      | Some sv \<Rightarrow>
          (case d_memory D of
             None \<Rightarrow> bail ''target commit has a schema_version but no memory backend is attached''
           | Some M \<Rightarrow>
               bindA (schema_phase D M a sv) (\<lambda>p1.
               bindA (memory_phase L D M a sv (c_memory_snapshot c)) (\<lambda>p2.
               ret (p1 @ p2)))))"

definition prompts_phase :: "lib \<Rightarrow> 'w daemon \<Rightarrow> rollback_args \<Rightarrow> commit \<Rightarrow> ('w, anyhow, string list) act" where
  "prompts_phase L D a c =
     (case c_prompts c of
        None \<Rightarrow> ret [''no prompts in target'']
      | Some h \<Rightarrow>
          bindA (if \<not> ra_dry_run a then restore_prompts (d_store D) (d_view D) (ra_repo a) h else ret ()) (\<lambda>_.
          ret [''rewrite prompts from target prompts tree '' @ hash_short L h]))"

definition target_notes :: "commit \<Rightarrow> string list" where
  "target_notes c =
     (if c_tools c \<noteq> None then [''tools manifest present in target''] else []) @
     (if c_model c \<noteq> None then [''model version captured in target''] else [])"

definition forward_inputs ::
    "lib \<Rightarrow> 'w daemon \<Rightarrow> hash \<Rightarrow> commit \<Rightarrow> hash option \<Rightarrow> u32 option \<Rightarrow> (string \<times> bytes) list \<Rightarrow>
     (string \<times> bytes) list \<Rightarrow> string option \<Rightarrow> commit_inputs" where
  "forward_inputs L D h c tip peer prompts tools model =
     \<lparr>in_author = ''agentic-rollback'', in_message = ''Rollback to '' @ hash_short L h, in_parent = tip,
      in_code_sha = c_code_sha c, in_prompts = prompts, in_tools = tools, in_model = model,
      in_memory_snapshot = c_memory_snapshot c, in_schema_version = c_schema_version c, in_intent = None,
      in_plan = None, in_transcript = None, in_evals = None, in_cost_cents = 0, in_peer_uid = peer,
      in_exempt_prefixes = d_exempt D\<rparr>"

definition forward_record ::
    "lib \<Rightarrow> 'w daemon \<Rightarrow> hash \<Rightarrow> commit \<Rightarrow> string \<Rightarrow> hash option \<Rightarrow> u32 option \<Rightarrow> timestamp \<Rightarrow>
     ('w, anyhow, commit_outputs) act" where
  "forward_record L D h c branch tip peer now =
     bindA (read_text_blobs (d_store D) (c_prompts c)) (\<lambda>prompts.
     bindA (read_text_blobs (d_store D) (c_tools c)) (\<lambda>tools.
     bindA (read_model_text (d_store D) c) (\<lambda>model.
     with_context ''forward-recording rollback commit'' (core_any
       (stage_and_commit_with_now L (d_store D) (d_view D) (d_refs D) branch
          (forward_inputs L D h c tip peer prompts tools model) now)))))"

text \<open>What follows the gate.\<close>

definition rollback_approved ::
    "lib \<Rightarrow> 'w daemon \<Rightarrow> rollback_args \<Rightarrow> u32 option \<Rightarrow> timestamp \<Rightarrow> hash \<Rightarrow> ('w, anyhow, rollback_output) act" where
  "rollback_approved L D a peer now h =
     bindA (rb_load_commit (d_store D) h) (\<lambda>c.
     bindA (lift_res (validate_target_shape c)) (\<lambda>_.
     bindA (current_branch L D) (\<lambda>branch.
     bindA (core_any (on_fs (d_view D) (read_branch L (d_refs D) branch))) (\<lambda>tip.
     let p0 = (''target commit '' @ hash_short L h @ '' ('' @ c_message c @ '')'') #
              (case tip of None \<Rightarrow> []
               | Some t \<Rightarrow> [''current branch tip '' @ hash_short L t @ arrow @ ''forward-record over it'']) in
     bindA (state_phase L D a c) (\<lambda>p1.
     bindA (prompts_phase L D a c) (\<lambda>p2.
     let plan = p0 @ p1 @ p2 @ target_notes c in
     if ra_dry_run a then ret \<lparr>ro_planned_steps = plan, ro_executed = False, ro_new_head_hash = None\<rparr>
     else
       bindA (forward_record L D h c branch tip peer now) (\<lambda>out.
       ret \<lparr>ro_planned_steps = plan @ [''forward-recorded rollback as '' @ hash_short L (out_hash out) @ '' on '' @ out_branch out],
            ro_executed = True, ro_new_head_hash = Some (to_hex L (out_hash out))\<rparr>)))))))"

definition beside_log :: "('w, 'e, 'a) act \<Rightarrow> ('w \<times> audit_event list, 'e, 'a) act" where
  "beside_log m = (\<lambda>(w, lg). case m w of (r, w') \<Rightarrow> (r, (w', lg)))"

definition rollback_execute ::
    "lib \<Rightarrow> 'w daemon \<Rightarrow> rollback_args \<Rightarrow> u32 option \<Rightarrow> u64 \<Rightarrow> timestamp \<Rightarrow>
     ('w \<times> audit_event list, anyhow, rollback_output) act" where
  "rollback_execute L D a peer secs now =
     bindA (beside_log (core_any (on_fs (d_view D) (resolve L (d_refs D) (ra_target a))))) (\<lambda>x.
     case x of
       None \<Rightarrow> bail (''ref not found: '' @ ra_target a)
     | Some h \<Rightarrow>
         bindA (if ra_accept a then map_errA (\<lambda>e. [LGate e]) (approval_gate L D h peer (ra_token a) secs) else ret ()) (\<lambda>_.
         beside_log (rollback_approved L D a peer now h)))"

section \<open>What only reads\<close>

definition same_entries :: "fs \<Rightarrow> fs \<Rightarrow> bool" where
  "same_entries s t \<longleftrightarrow> entries t = entries s"

lemma same_entries_rel [simp]: "reflp same_entries" "transp same_entries"
  by (auto simp: same_entries_def reflp_def transp_def)

lemma read_entries: "keeps same_entries (fs_read_to_string p)" "keeps same_entries (fs_read p)"
proof -
  show "keeps same_entries (fs_read p)"
    unfolding keeps_def same_entries_def by (metis fs_read_entries prod.collapse)
  show "keeps same_entries (fs_read_to_string p)"
    unfolding keeps_def same_entries_def by (metis fs_read_to_string_entries prod.collapse)
qed

lemma keeps_if_absent:
  assumes "keeps Q m" "reflp Q"
  shows "keeps Q (\<lambda>s. if P s then (r, s) else m s)"
  using assms by (simp add: keeps_def reflp_def)

lemma refs_entries:
  "keeps same_entries (read_ref_file L p)" "keeps same_entries (read_branch L R b)"
  "keeps same_entries (read_head L R)" "keeps same_entries (resolve L R name)"
proof -
  show ref: "keeps same_entries (read_ref_file L p)" for p
    unfolding read_ref_file_def
    by (intro keeps_if_absent keeps_rules read_entries same_entries_rel)
  show branch: "keeps same_entries (read_branch L R b)" for b
    unfolding read_branch_def by (intro keeps_rules ref same_entries_rel)
  show head: "keeps same_entries (read_head L R)"
    unfolding read_head_def Let_def
    by (intro keeps_if_absent keeps_bindA keeps_map_errA read_entries same_entries_rel)
      (auto intro!: keeps_rules split: option.splits)
  show "keeps same_entries (resolve L R name)"
    unfolding resolve_def
    by (auto intro!: keeps_rules head branch split: option.splits head_ref.splits)
qed

lemma store_get_entries: "keeps same_entries (store_get L st h)" "keeps same_entries (get_raw L st h)"
proof -
  have "keeps same_entries (read_at L p)" for p
    unfolding read_at_def by (auto intro!: keeps_rules read_entries split: option.splits)
  then have pres: "keeps same_entries (read_present L st h)"
    unfolding read_present_def by (intro keeps_if_absent same_entries_rel)
  show "keeps same_entries (store_get L st h)" "keeps same_entries (get_raw L st h)"
    unfolding store_get_def get_raw_def by (intro keeps_rules pres same_entries_rel)+
qed

definition reads :: "fs im \<Rightarrow> fs im \<Rightarrow> bool" where
  "reads s t \<longleftrightarrow> entries (fst t) = entries (fst s) \<and> snd t = snd s"

lemma reads_rel [simp]: "reflp reads" "transp reads"
  by (auto simp: reads_def reflp_def transp_def)

lemma reads_on_first: "keeps same_entries m \<Longrightarrow> keeps reads (on_first m)"
  by (auto simp: keeps_def reads_def same_entries_def)

lemma reads_load: "keeps same_entries (load_steps dir names accept)"
  using load_steps_entries unfolding same_entries_def .

context local_instance
begin

lemma parts: "d_store D = im_store (fs_store_ops L (beside (d_refs D) al))" "d_view D = im_view"
  "d_memory D = Some M \<Longrightarrow> M = im_ops L (fs_store_ops L (beside (d_refs D) al))"
  using is_local by (auto simp: local_daemon_def)

lemma reads_get: "keeps reads (st_get (d_store D) h)" "keeps reads (st_get_raw (d_store D) h)"
  by (simp_all add: parts im_store_def fs_store_ops_def reads_on_first store_get_entries)

lemma reads_refs:
  "keeps reads (on_fs (d_view D) (read_branch L R b))" "keeps reads (on_fs (d_view D) (read_head L R))"
  "keeps reads (on_fs (d_view D) (resolve L R name))" "keeps reads (on_fs (d_view D) (load_steps dir names accept))"
  by (simp_all add: parts on_fs_im reads_on_first refs_entries reads_load)

lemma reads_memory:
  assumes "d_memory D = Some M"
  shows "keeps reads (ad_current_schema M)" "keeps reads (ad_migrations_after M v)"
  unfolding parts(3) [OF assms]
  by (auto simp: keeps_def im_ops_def im_current_schema_def im_migrations_after_def reads_def)

lemma reads_loaders: "keeps reads (rb_load_commit (d_store D) h)" "keeps reads (rb_load_tree (d_store D) h)"
    "keeps reads (rb_load_blob (d_store D) h)"
  unfolding rb_load_commit_def rb_load_tree_def rb_load_blob_def
  by (auto intro!: keeps_rules keeps_any reads_get split: obj.splits)

lemma reads_current: "keeps reads (current_branch L D)"
  unfolding current_branch_def
  by (auto intro!: keeps_rules keeps_any reads_refs split: option.splits head_ref.splits)

lemma reads_state: "ra_dry_run a \<Longrightarrow> keeps reads (state_phase L D a c)"
  unfolding state_phase_def schema_phase_def memory_phase_def
  by (auto intro!: keeps_rules keeps_any reads_memory reads_refs split: option.splits)

lemma reads_prompts: "ra_dry_run a \<Longrightarrow> keeps reads (prompts_phase L D a c)"
  unfolding prompts_phase_def by (auto intro!: keeps_rules split: option.splits)

lemma reads_dry: "ra_dry_run a \<Longrightarrow> keeps reads (rollback_approved L D a peer now h)"
  unfolding rollback_approved_def Let_def
  by (auto intro!: keeps_rules keeps_any reads_loaders reads_current reads_refs reads_state reads_prompts)

end

section \<open>Guarding the backend\<close>

text \<open>The backend of a daemon, made to refuse every irreversible migration.\<close>

definition reversible :: "migration_step \<Rightarrow> bool" where
  "reversible m \<longleftrightarrow> \<not> first_line_irreversible (str_lines (ms_sql m))"

definition guarded :: "'w mem_ops \<Rightarrow> 'w mem_ops" where
  "guarded M = M\<lparr>ad_apply_reverse :=
     (\<lambda>steps. if list_all reversible steps then ad_apply_reverse M steps else fail (MemOther ''irreversible''))\<rparr>"

definition guard_daemon :: "'w daemon \<Rightarrow> 'w daemon" where
  "guard_daemon D = D\<lparr>d_memory := map_option guarded (d_memory D)\<rparr>"

lemma bindA_eqI: "(\<And>s a t. m s = (Inr a, t) \<Longrightarrow> f a t = g a t) \<Longrightarrow> bindA m f = bindA m g"
  by (auto simp: fun_eq_iff bindA_def split: prod.splits sum.splits)

lemma guarded_fields [simp]:
  "ad_current_schema (guarded M) = ad_current_schema M" "ad_migrations_after (guarded M) = ad_migrations_after M"
  "ad_begin_restore (guarded M) = ad_begin_restore M" "ad_end_restore (guarded M) = ad_end_restore M"
  "ad_restore_with_guard (guarded M) = ad_restore_with_guard M"
  "list_all reversible steps \<Longrightarrow> ad_apply_reverse (guarded M) steps = ad_apply_reverse M steps"
  by (simp_all add: guarded_def)

lemma loaded_reversible:
  assumes "on_fs V (load_steps dir names False) s = (Inr steps, t)"
  shows "list_all reversible steps"
proof -
  obtain f g where l: "load_steps dir names False f = (Inr steps, g)"
    using assms by (auto simp: on_fs_def split: prod.splits)
  then have "steps = [] \<or> mapA (load_step dir False) names f = (Inr steps, g)"
    by (auto simp: load_steps_def split: if_splits)
  then show ?thesis
    using load_all_ok [of dir False names f steps g]
    by (auto simp: list_all_iff reversible_def check_irreversible_def split: if_splits)
qed

lemma guarded_schema:
  assumes "\<not> ra_accept a"
  shows "schema_phase D (guarded M) a sv = schema_phase D M a sv"
proof -
  let ?load = "\<lambda>names. with_context ''loading reverse migration files''
       (on_fs (d_view D) (load_steps (d_refs D) names (ra_accept a)))"
  let ?run = "\<lambda>M steps. if \<not> ra_dry_run a then with_context ''running reverse migrations'' (mem_any (ad_apply_reverse M steps))
       else ret ()"
  have same: "bindA (?load names) (\<lambda>steps. bindA (?run (guarded M) steps) (\<lambda>_. k)) =
      bindA (?load names) (\<lambda>steps. bindA (?run M steps) (\<lambda>_. k))" for names k
  proof (rule bindA_eqI)
    fix s steps t assume "?load names s = (Inr steps, t)"
    then have "list_all reversible steps" using assms loaded_reversible by fastforce
    then show "bindA (?run (guarded M) steps) (\<lambda>_. k) t = bindA (?run M steps) (\<lambda>_. k) t" by simp
  qed
  show ?thesis unfolding schema_phase_def guarded_fields(1, 2) same ..
qed

lemma guard_daemon_fields [simp]:
  "d_repo (guard_daemon D) = d_repo D" "d_store (guard_daemon D) = d_store D" "d_view (guard_daemon D) = d_view D"
  "d_refs (guard_daemon D) = d_refs D" "d_key (guard_daemon D) = d_key D" "d_exempt (guard_daemon D) = d_exempt D"
  "d_memory (guard_daemon D) = map_option guarded (d_memory D)"
  by (simp_all add: guard_daemon_def)

lemma guarded_rollback:
  assumes "\<not> ra_accept a"
  shows "rollback_approved L (guard_daemon D) a peer now h = rollback_approved L D a peer now h"
proof -
  have schema: "schema_phase (guard_daemon D) M a sv = schema_phase D M a sv" for M sv
    unfolding schema_phase_def guard_daemon_fields ..
  have memory: "memory_phase L (guard_daemon D) (guarded M) a sv x = memory_phase L D M a sv x" for M sv x
    unfolding memory_phase_def guard_daemon_fields restore_window_def guarded_fields(3-5) ..
  have state: "state_phase L (guard_daemon D) a c = state_phase L D a c" for c
    by (simp add: state_phase_def schema guarded_schema [OF assms] memory split: option.split)
  have prompts: "prompts_phase L (guard_daemon D) a c = prompts_phase L D a c" for c
    unfolding prompts_phase_def guard_daemon_fields ..
  have forward: "forward_record L (guard_daemon D) h c b tip peer now = forward_record L D h c b tip peer now" for c b tip
    unfolding forward_record_def forward_inputs_def guard_daemon_fields ..
  have branch: "current_branch L (guard_daemon D) = current_branch L D"
    unfolding current_branch_def guard_daemon_fields ..
  show ?thesis unfolding rollback_approved_def state prompts forward branch guard_daemon_fields ..
qed

section \<open>Restaging what was read\<close>

lemma parsed_tree_sorted:
  assumes "object_parse L bs = Some (OTree t)"
  shows "bt_ok t"
proof -
  have "to_map f j = Some ps \<Longrightarrow> bt_ok ps" for f :: "json \<Rightarrow> typed_ref option" and j ps
    by (auto simp: to_map_def bt_of_list_ok split: json.splits option.splits)
  then have "tree_of_json j = Some t \<Longrightarrow> bt_ok t" for j
    by (auto simp: tree_of_json_def field_req_def bind_eq_Some_conv split: option.splits)
  then show ?thesis
    using assms by (auto simp: object_parse_def object_of_json_def bind_eq_Some_conv split: option.splits if_splits)
qed

lemma blob_tree_sorted: "bt_ok (map (\<lambda>(n, b). (n, blob_ref L b)) m) \<Longrightarrow> blob_tree L m = map (\<lambda>(n, b). (n, blob_ref L b)) m"
proof -
  have "foldl (\<lambda>t (n, bs). tree_insert n (blob_ref L bs) t) x m =
      foldl (\<lambda>m (k, v). bt_insert k v m) x (map (\<lambda>(n, b). (n, blob_ref L b)) m)" for x
    by (induction m arbitrary: x) (auto simp: tree_insert_def)
  then show "bt_ok (map (\<lambda>(n, b). (n, blob_ref L b)) m) \<Longrightarrow> blob_tree L m = map (\<lambda>(n, b). (n, blob_ref L b)) m"
    using bt_of_list_id [of "map (\<lambda>(n, b). (n, blob_ref L b)) m"] by (simp add: blob_tree_def bt_of_list_def)
qed

text \<open>A dimension comes back as it was, but that an empty tree becomes no tree.\<close>

definition same_dim :: "lib \<Rightarrow> hash option \<Rightarrow> hash option \<Rightarrow> bool" where
  "same_dim L x y \<longleftrightarrow> y = x \<or> (x = Some (tree_hash L []) \<and> y = None)"

context local_instance
begin

lemma tree_to_map_entries:
  "tree_to_map (d_store D) es s = (Inr m, t) \<Longrightarrow> es = map (\<lambda>(n, b). (n, blob_ref L b)) m"
proof (induction es arbitrary: s m)
  case (Cons e es)
  obtain n r where e: "e = (n, r)" by (cases e)
  with Cons.prems obtain b u m' where k: "ref_kind r = KBlob" "rb_load_blob (d_store D) (ref_hash r) s = (Inr b, u)"
    "tree_to_map (d_store D) es u = (Inr m', t)" "m = (n, b) # m'"
    by (auto simp: bindA_ok_iff split: if_splits)
  have "object_hash L (OBlob b) = ref_hash r" using get_sound [OF TrueI rb_load_blob_get [OF k(2)]] .
  with k(1) have "r = blob_ref L b" by (cases r) (simp add: blob_ref_def)
  with Cons.IH [OF k(3)] k(4) e show ?case by simp
qed simp

lemma restaged_dimension:
  assumes "read_text_blobs (d_store D) x s = (Inr m, t)"
  shows "same_dim L x (dimension L m)"
proof (cases x)
  case None
  with assms show ?thesis by (simp add: read_text_blobs_def same_dim_def dimension_def)
next
  case (Some h)
  with assms obtain tr u where tr: "rb_load_tree (d_store D) h s = (Inr tr, u)" "tree_to_map (d_store D) tr u = (Inr m, t)"
    by (auto simp: read_text_blobs_def bindA_ok_iff)
  note g = rb_load_tree_get [OF tr(1)]
  have h: "tree_hash L tr = h" using get_sound [OF TrueI g] by simp
  obtain f v where "store_get L (beside (d_refs D) al) h f = (Inr (OTree tr), v)"
    using g by (cases s) (auto simp: parts im_store_def fs_store_ops_def)
  then have "bt_ok tr" by (rule store_get_okE) (rule parsed_tree_sorted)
  with tree_to_map_entries [OF tr(2)] have "blob_tree L m = tr" "m = [] \<longleftrightarrow> tr = []"
    using blob_tree_sorted by auto
  with h Some show ?thesis by (auto simp: dimension_def same_dim_def)
qed

lemma restaged_model:
  assumes "read_model_text (d_store D) c s = (Inr m, t)"
  shows "map_option (\<lambda>m. blob_hash L (str_bytes m)) m = c_model c"
proof (cases "c_model c")
  case (Some h)
  with assms obtain b u where b: "rb_load_blob (d_store D) h s = (Inr b, u)" "m = Some (bytes_str b)"
    by (auto simp: read_model_text_def bindA_ok_iff split: if_splits)
  with get_sound [OF TrueI rb_load_blob_get [OF b(1)]] Some show ?thesis by simp
qed (use assms in \<open>simp add: read_model_text_def\<close>)

lemma forward_record_ok:
  assumes "forward_record L D h c b tip peer now s = (Inr out, t)"
  obtains c' p where "out = \<lparr>out_hash = commit_hash L c', out_branch = b\<rparr>" "c_parent c' = tip"
    "same_dim L (c_prompts c) (c_prompts c')" "same_dim L (c_tools c) (c_tools c')" "c_model c' = c_model c"
    "c_code_sha c' = c_code_sha c" "c_memory_snapshot c' = c_memory_snapshot c" "c_schema_version c' = c_schema_version c"
    "c_peer_uid c' = peer" "branch_path (d_refs D) b = Inr p"
    "map_of (entries (fst t)) p = Some (FFile (str_bytes (to_hex L (commit_hash L c') @ newline)))"
proof -
  obtain pr s1 tl s2 md s3 where st: "read_text_blobs (d_store D) (c_prompts c) s = (Inr pr, s1)"
    "read_text_blobs (d_store D) (c_tools c) s1 = (Inr tl, s2)" "read_model_text (d_store D) c s2 = (Inr md, s3)"
    "stage_and_commit_with_now L (d_store D) (d_view D) (d_refs D) b
       (forward_inputs L D h c tip peer pr tl md) now s3 = (Inr out, t)"
    using assms by (auto simp: forward_record_def bindA_ok_iff)
  define c' where "c' = commit_of L (forward_inputs L D h c tip peer pr tl md) now"
  obtain p where p: "out_hash out = commit_hash L c'" "out_branch out = b" "branch_path (d_refs D) b = Inr p"
    "map_of (entries (fst t)) p = Some (FFile (str_bytes (to_hex L (commit_hash L c') @ newline)))"
    using stage_moved [OF st(4)] unfolding parts(2) c'_def im_view_def by auto
  show thesis
    by (rule that [of c' p])
      (use p restaged_dimension [OF st(1)] restaged_dimension [OF st(2)] restaged_model [OF st(3)]
        in \<open>simp_all add: c'_def commit_of_def forward_inputs_def\<close>)
qed

end

section \<open>The backend's schema\<close>

definition same_backend :: "'w im \<Rightarrow> 'w im \<Rightarrow> bool" where
  "same_backend s t \<longleftrightarrow> snd t = snd s"

lemma same_backend_rel [simp]: "reflp same_backend" "transp same_backend"
  by (auto simp: same_backend_def reflp_def transp_def)

lemma same_backend_first: "keeps same_backend (on_first m)"
  by (auto simp: keeps_def same_backend_def)

context local_instance
begin

lemma backend_store: "keeps same_backend (st_get (d_store D) h)" "keeps same_backend (st_put (d_store D) x p)"
    "keeps same_backend (on_fs (d_view D) m)" "keeps same_backend (st_get_raw (d_store D) h)"
  by (simp_all add: parts im_store_def on_fs_im same_backend_first)

lemma backend_load: "keeps same_backend (rb_load_commit (d_store D) h)" "keeps same_backend (rb_load_tree (d_store D) h)"
    "keeps same_backend (rb_load_blob (d_store D) h)" "keeps same_backend (load_manifest L (d_store D) h)"
  unfolding rb_load_commit_def rb_load_tree_def rb_load_blob_def load_manifest_def
  by (auto intro!: keeps_rules keeps_any backend_store split: obj.splits)

lemma backend_prompts: "keeps same_backend (prompts_phase L D a c)"
proof -
  have entries: "keeps same_backend (write_entries (d_store D) (d_view D) dir es ws)" for dir es ws
  proof (induction es arbitrary: ws)
    case (Cons e es)
    then show ?case
      by (cases e) (auto simp: Let_def intro!: keeps_rules keeps_any backend_store backend_load)
  qed (simp add: keeps_rules)
  show ?thesis
    unfolding prompts_phase_def restore_prompts_def Let_def
    by (auto intro!: keeps_rules keeps_any backend_store backend_load entries split: option.splits)
qed

lemma backend_forward: "keeps same_backend (forward_record L D h c b tip peer now)"
proof -
  have map: "keeps same_backend (tree_to_map (d_store D) es)" for es
  proof (induction es)
    case (Cons e es)
    then show ?case by (cases e) (auto intro!: keeps_rules keeps_any backend_load)
  qed (simp add: keeps_def same_backend_def)
  have read: "keeps same_backend (read_text_blobs (d_store D) x)" for x
    unfolding read_text_blobs_def by (auto intro!: keeps_rules backend_load map split: option.splits)
  have model: "keeps same_backend (read_model_text (d_store D) c)"
    unfolding read_model_text_def
    by (auto intro!: keeps_rules keeps_any backend_load split: option.splits)
  have "keeps same_backend (stage_and_commit_with_now L (d_store D) (d_view D) (d_refs D) b i now)" for i
    by (simp only: parts stage_on_first same_backend_first)
  then show ?thesis
    unfolding forward_record_def by (intro keeps_rules keeps_any read model same_backend_rel)
qed

lemma schema_reached:
  assumes "schema_phase D (im_ops L S) a sv s = (Inr plan, t)" "\<not> ra_dry_run a" "im_ok (snd s)"
  shows "im_schema (snd t) = sv"
proof -
  let ?M = "im_ops L S"
  have live: "ad_current_schema ?M s = (Inr (im_schema (snd s)), s)"
    by (simp add: im_ops_def im_current_schema_def split: prod.splits)
  show ?thesis
  proof (cases "im_schema (snd s) = sv")
    case True
    with assms(1) live show ?thesis by (auto simp: schema_phase_def bindA_ok_iff)
  next
    case False
    then obtain ns s1 steps s2 where st: "ad_migrations_after ?M sv s = (Inr ns, s1)"
      "on_fs (d_view D) (load_steps (d_refs D) ns (ra_accept a)) s1 = (Inr steps, s2)"
      "ad_apply_reverse ?M steps s2 = (Inr (), t)"
      using assms(1, 2) live by (auto simp: schema_phase_def bindA_ok_iff)
    have names: "map ms_name steps = ns"
      using st(2) load_all_ok by (fastforce simp: on_fs_def load_steps_def split: prod.splits if_splits)
    have "snd s2 = snd s1" using keepsD [OF backend_store(3) st(2)] by (simp add: same_backend_def)
    then obtain w1 w2 m where s1: "s1 = (w1, m)" "s2 = (w2, m)" by (cases s1; cases s2) auto
    have r: "apply_reverse_migrations steps m = (Inr (), snd t)"
      using st(3) unfolding s1(2) by (auto simp: im_ops_def im_apply_reverse_def split: prod.splits)
    have "ad_apply_reverse ?M steps s1 = (Inr (), (w1, snd t))"
      unfolding s1(1) using r by (simp add: im_ops_def im_apply_reverse_def)
    from im.reversed [OF _ st(1) names this] assms(3) show ?thesis by (simp add: case_prod_unfold)
  qed
qed

lemma window_schema:
  assumes "restore_window (im_ops L S) sh v = (Inr (), t)"
  shows "im_schema (snd t) = im_schema (snd v)"
proof -
  obtain w m where v: "v = (w, m)" by (cases v)
  obtain r u where r: "im_restore_with_guard L S sh v = (r, u)" by (rule prod.exhaust)
  then have t: "t = u"
    using assms by (simp add: restore_window_def im_ops_def im_begin_restore_def any_defs map_errA_def bindA_def)
  have "im_schema (snd u) = im_schema m"
    using r by (simp add: v im_restore_with_guard_def split: if_splits prod.splits sum.splits) auto
  then show ?thesis by (simp add: t v)
qed

lemma state_reached:
  assumes "state_phase L D a c s = (Inr plan, t)" "\<not> ra_dry_run a" "im_ok (snd s)" "c_schema_version c = Some sv"
  shows "im_schema (snd t) = sv"
proof -
  obtain M where M: "d_memory D = Some M" using assms(1, 4) by (cases "d_memory D") (auto simp: state_phase_def)
  note im = parts(3) [OF M]
  obtain p1 u p2 where u: "schema_phase D M a sv s = (Inr p1, u)"
    "memory_phase L D M a sv (c_memory_snapshot c) u = (Inr p2, t)"
    using assms(1, 4) M by (auto simp: state_phase_def bindA_ok_iff)
  have sch: "im_schema (snd u) = sv" using schema_reached [OF u(1) [unfolded im] assms(2, 3)] .
  show ?thesis
  proof (cases "c_memory_snapshot c")
    case None
    with u(2) sch show ?thesis by (simp add: memory_phase_def)
  next
    case (Some mh)
    then obtain m v where v: "load_manifest L (d_store D) mh u = (Inr m, v)"
      "restore_window M \<lparr>sh_manifest = m, sh_schema = sv\<rparr> v = (Inr (), t)"
      using u(2) assms(2) by (auto simp: memory_phase_def bindA_ok_iff)
    have "snd v = snd u" using keepsD [OF backend_load(4) v(1)] by (simp add: same_backend_def)
    moreover have "im_schema (snd t) = im_schema (snd v)" using v(2) unfolding im by (rule window_schema)
    ultimately show ?thesis using sch by simp
  qed
qed

end

section \<open>Properties\<close>

lemma decision_not_accepted: "approval_audit_decision e \<noteq> ''accepted''"
proof (cases e)
  case (Rejected x)
  then show ?thesis by (cases x) simp_all
qed simp_all

lemma gate_check_ok:
  "gate_check L key c peer token now = Inr () \<longleftrightarrow>
     (\<exists>k uid t. key = Some k \<and> peer = Some uid \<and> token = Some t \<and> verify_token L k c uid t now = Inr ())"
  by (auto simp: gate_check_def map_err_def split: option.splits sum.splits)

text \<open>
  C10. Destroying data needs a valid token, and every attempt leaves one trace. Without
  \<open>accept_data_loss\<close> a rollback behaves, on every state, as it would with a backend that refuses
  every migration marked irreversible: no such migration is ever run. With it, once the
  target is resolved, exactly one audit event with that commit is recorded; a request that
  the gate rejects ends there, its only other effect the reading of the refs; and the gate
  passes exactly when a key is configured, the peer is attested, and the supplied token verifies
  for this commit, this user and this time.
\<close>

theorem data_loss_needs_approval:
  assumes "rollback_execute L D a peer secs now (w, lg) = (r, (w', lg'))"
  shows "(\<not> ra_accept a \<longrightarrow> lg' = lg \<and>
            rollback_execute L (guard_daemon D) a peer secs now (w, lg) = (r, (w', lg'))) \<and>
    (ra_accept a \<longrightarrow> on_fs (d_view D) (resolve L (d_refs D) (ra_target a)) w = (Inr (Some h), w1) \<longrightarrow>
       (let g = gate_check L (d_key D) (to_hex L h) peer (ra_token a) secs in
        (\<exists>d. lg' = lg @ [audit_forced_data_loss peer (to_hex L h) d (ra_token a)] \<and> (d = ''accepted'' \<longleftrightarrow> g = Inr ())) \<and>
        (\<forall>e. g = Inl e \<longrightarrow> r = Inl [LGate e] \<and> w' = w1) \<and>
        (g = Inr () \<longleftrightarrow> (\<exists>k uid t. d_key D = Some k \<and> peer = Some uid \<and> ra_token a = Some t \<and>
           verify_token L k (to_hex L h) uid t secs = Inr ()))))"
proof (intro conjI impI)
  assume na: "\<not> ra_accept a"
  show "lg' = lg"
    using assms na
    by (auto simp: rollback_execute_def beside_log_def bindA_def any_defs split: prod.splits sum.splits option.splits)
  have "rollback_execute L (guard_daemon D) a peer secs now = rollback_execute L D a peer secs now"
    unfolding rollback_execute_def guarded_rollback [OF na] using na by (simp add: guard_daemon_def)
  with assms show "rollback_execute L (guard_daemon D) a peer secs now (w, lg) = (r, (w', lg'))" by simp
next
  assume a: "ra_accept a" and res: "on_fs (d_view D) (resolve L (d_refs D) (ra_target a)) w = (Inr (Some h), w1)"
  define g where "g = gate_check L (d_key D) (to_hex L h) peer (ra_token a) secs"
  have run: "bindA (map_errA (\<lambda>e. [LGate e]) (approval_gate L D h peer (ra_token a) secs))
      (\<lambda>_. beside_log (rollback_approved L D a peer now h)) (w1, lg) = (r, (w', lg'))"
    using assms a res by (simp add: rollback_execute_def bindA_def beside_log_def any_defs map_errA_def)
  have "(\<exists>d. lg' = lg @ [audit_forced_data_loss peer (to_hex L h) d (ra_token a)] \<and> (d = ''accepted'' \<longleftrightarrow> g = Inr ())) \<and>
        (\<forall>e. g = Inl e \<longrightarrow> r = Inl [LGate e] \<and> w' = w1)"
  proof (cases g)
    case (Inl e)
    with run show ?thesis
      using decision_not_accepted [of e]
      by (auto simp: approval_gate_def bindA_def map_errA_def Let_def simp flip: g_def)
  next
    case (Inr u)
    with run show ?thesis
      by (auto simp: approval_gate_def bindA_def map_errA_def Let_def beside_log_def simp flip: g_def split: prod.splits)
  qed
  then show "let g = gate_check L (d_key D) (to_hex L h) peer (ra_token a) secs in
        (\<exists>d. lg' = lg @ [audit_forced_data_loss peer (to_hex L h) d (ra_token a)] \<and> (d = ''accepted'' \<longleftrightarrow> g = Inr ())) \<and>
        (\<forall>e. g = Inl e \<longrightarrow> r = Inl [LGate e] \<and> w' = w1) \<and>
        (g = Inr () \<longleftrightarrow> (\<exists>k uid t. d_key D = Some k \<and> peer = Some uid \<and> ra_token a = Some t \<and>
           verify_token L k (to_hex L h) uid t secs = Inr ()))"
    unfolding Let_def gate_check_ok [symmetric] by (simp flip: g_def)
qed

lemma dry_run_reads:
  assumes "lib_ok L" "local_daemon L al D" "ra_dry_run a"
    and "rollback_execute L D a peer secs now (w, lg) = (r, (w', lg'))"
  shows "entries (fst w') = entries (fst w) \<and> snd w' = snd w \<and>
     (r = Inr out \<longrightarrow> \<not> ro_executed out \<and> ro_new_head_hash out = None \<and> ro_planned_steps out \<noteq> [])"
proof -
  have I: "local_instance L al D"
    using assms(1, 2) by (simp add: local_instance_def local_instance_axioms_def lib_laws_iff)
  obtain x u where x: "on_fs (d_view D) (resolve L (d_refs D) (ra_target a)) w = (x, u)" by (rule prod.exhaust)
  have wu: "reads w u" using keepsD [OF local_instance.reads_refs(3) [OF I] x] .
  have app: "reads u v \<and> (q = Inr out \<longrightarrow> \<not> ro_executed out \<and> ro_new_head_hash out = None \<and> ro_planned_steps out \<noteq> [])"
    if "rollback_approved L D a peer now h u = (q, v)" for h q v
    using keepsD [OF local_instance.reads_dry [OF I assms(3)] that] that assms(3)
    by (auto simp: rollback_approved_def bindA_ok_iff Let_def)
  have "reads u w' \<and> (r = Inr out \<longrightarrow> \<not> ro_executed out \<and> ro_new_head_hash out = None \<and> ro_planned_steps out \<noteq> [])"
    using assms(4) x app
    by (auto simp: rollback_execute_def bindA_def beside_log_def approval_gate_def any_defs map_errA_def Let_def reads_def
        split: prod.splits sum.splits option.splits if_splits)
  with wu show ?thesis by (auto simp: reads_def)
qed

text \<open>
  A dry run changes nothing. Over the local store, with the in-memory backend or none, and
  whatever fails: no entry of the file system and nothing of the backend's state differs after
  a dry run, and when it succeeds it reports a plan, not an execution.
\<close>

theorem dry_run_reads_only:
  assumes "lib_ok L" "local_daemon L al D" "ra_dry_run a"
    and "rollback_execute L D a peer secs now (w, lg) = (r, (w', lg'))"
  shows "entries (fst w') = entries (fst w) \<and> snd w' = snd w \<and>
     (r = Inr out \<longrightarrow> \<not> ro_executed out \<and> ro_new_head_hash out = None \<and> ro_planned_steps out \<noteq> [])"
  using dry_run_reads [OF assms] .

context local_instance
begin

text \<open>The phases of an approved run, one after the other.\<close>

lemma approved_okE:
  assumes "rollback_approved L D a peer now h s = (Inr out, t)" "\<not> ra_dry_run a"
  obtains c s1 b s2 tip s3 p1 s4 p2 s5 o' where
    "rb_load_commit (d_store D) h s = (Inr c, s1)" "current_branch L D s1 = (Inr b, s2)"
    "on_fs (d_view D) (read_branch L (d_refs D) b) s2 = (Inr tip, s3)" "state_phase L D a c s3 = (Inr p1, s4)"
    "prompts_phase L D a c s4 = (Inr p2, s5)" "forward_record L D h c b tip peer now s5 = (Inr o', t)"
    "ro_executed out" "ro_new_head_hash out = Some (to_hex L (out_hash o'))"
  using assms by (auto simp: rollback_approved_def bindA_ok_iff Let_def split: if_splits)

lemma current_head:
  assumes "current_branch L D s = (Inr b, t)"
  shows "fst (read_head L (d_refs D) (fst s)) = Inr (Some (Branch b))"
proof -
  obtain h0 u where h: "on_first (read_head L (d_refs D)) s = (Inr h0, u)" and
    r: "(case h0 of
       Some (Branch b) \<Rightarrow> ret b
     | Some (Detached _) \<Rightarrow> bail ''rollback from a detached HEAD is not supported (Chunk C+1)''
     | None \<Rightarrow> bail ''repo has no HEAD; commit something before rolling back'') u = (Inr b, t)"
    using assms unfolding current_branch_def bindA_ok_iff parts on_fs_im any_ok_iff by blast
  from r have "h0 = Some (Branch b)" by (cases h0) (auto split: head_ref.split_asm)
  with h show ?thesis by (cases s) auto
qed

lemma approved_records:
  assumes "rollback_approved L D a peer now h s = (Inr out, t)" "\<not> ra_dry_run a"
  shows "\<exists>c b tip f g c' p. object_hash L (OCommit c) = h \<and>
     entries f = entries (fst s) \<and> fst (read_head L (d_refs D) f) = Inr (Some (Branch b)) \<and>
     entries g = entries (fst s) \<and> fst (read_branch L (d_refs D) b g) = Inr tip \<and>
     ro_executed out \<and> ro_new_head_hash out = Some (to_hex L (commit_hash L c')) \<and> c_parent c' = tip \<and>
     same_dim L (c_prompts c) (c_prompts c') \<and> same_dim L (c_tools c) (c_tools c') \<and> c_model c' = c_model c \<and>
     c_code_sha c' = c_code_sha c \<and> c_memory_snapshot c' = c_memory_snapshot c \<and>
     c_schema_version c' = c_schema_version c \<and> c_peer_uid c' = peer \<and> branch_path (d_refs D) b = Inr p \<and>
     map_of (entries (fst t)) p = Some (FFile (str_bytes (to_hex L (commit_hash L c') @ newline))) \<and>
     (im_ok (snd s) \<longrightarrow> (\<forall>sv. c_schema_version c = Some sv \<longrightarrow> im_schema (snd t) = sv))"
proof -
  obtain c s1 b s2 tip s3 p1 s4 p2 s5 o' where st:
    "rb_load_commit (d_store D) h s = (Inr c, s1)" "current_branch L D s1 = (Inr b, s2)"
    "on_fs (d_view D) (read_branch L (d_refs D) b) s2 = (Inr tip, s3)" "state_phase L D a c s3 = (Inr p1, s4)"
    "prompts_phase L D a c s4 = (Inr p2, s5)" "forward_record L D h c b tip peer now s5 = (Inr o', t)"
    "ro_executed out" "ro_new_head_hash out = Some (to_hex L (out_hash o'))"
    using approved_okE [OF assms] by metis
  have hash: "object_hash L (OCommit c) = h" using get_sound [OF TrueI rb_load_commit_get [OF st(1)]] .
  have r: "reads s s1" "reads s1 s2" "reads s2 s3"
    using keepsD [OF reads_loaders(1) st(1)] keepsD [OF reads_current st(2)] keepsD [OF reads_refs(1) st(3)] .
  have hd: "fst (read_head L (d_refs D) (fst s1)) = Inr (Some (Branch b))"
    using current_head [OF st(2)] .
  have br: "fst (read_branch L (d_refs D) b (fst s2)) = Inr tip"
    using st(3) by (cases s2) (auto simp: parts on_fs_im)
  obtain c' p where c': "o' = \<lparr>out_hash = commit_hash L c', out_branch = b\<rparr>" "c_parent c' = tip"
    "same_dim L (c_prompts c) (c_prompts c')" "same_dim L (c_tools c) (c_tools c')" "c_model c' = c_model c"
    "c_code_sha c' = c_code_sha c" "c_memory_snapshot c' = c_memory_snapshot c" "c_schema_version c' = c_schema_version c"
    "c_peer_uid c' = peer" "branch_path (d_refs D) b = Inr p"
    "map_of (entries (fst t)) p = Some (FFile (str_bytes (to_hex L (commit_hash L c') @ newline)))"
    by (rule forward_record_ok [OF st(6)])
  have "snd t = snd s4"
    using keepsD [OF backend_prompts st(5)] keepsD [OF backend_forward st(6)] by (simp add: same_backend_def)
  then have sch: "im_schema (snd t) = sv" if "im_ok (snd s)" "c_schema_version c = Some sv" for sv
    using state_reached [OF st(4) assms(2) _ that(2)] that(1) r by (simp add: reads_def)
  have e: "entries (fst s1) = entries (fst s)" "entries (fst s2) = entries (fst s)" using r by (simp_all add: reads_def)
  show ?thesis
    by (rule exI [of _ c], rule exI [of _ b], rule exI [of _ tip], rule exI [of _ "fst s1"], rule exI [of _ "fst s2"],
        rule exI [of _ c'], rule exI [of _ p])
      (use hash e hd br c' st(7, 8) sch in simp)
qed

end

text \<open>
  C9. A rollback records itself forward and reaches the target. Over the local store, with the
  in-memory backend or none, a rollback that is not a dry run and succeeds has resolved its
  target to a stored commit of that hash, and the current branch of the refs it started from now
  holds a new commit: its parent is the tip of that branch, and its code, prompts, tools, model,
  memory snapshot and schema version are the target's (an empty tree becoming none); the returned
  hash is that commit's. A backend whose live version was its newest applied migration is
  at the target's schema version.
\<close>

theorem rollback_records_forward:
  assumes "lib_ok L" "local_daemon L al D" "\<not> ra_dry_run a"
    and "rollback_execute L D a peer secs now (w, lg) = (Inr out, (t, lg'))"
  shows "\<exists>h w1 c b tip f g c' p. on_fs im_view (resolve L (d_refs D) (ra_target a)) w = (Inr (Some h), w1) \<and>
     object_hash L (OCommit c) = h \<and>
     entries f = entries (fst w) \<and> fst (read_head L (d_refs D) f) = Inr (Some (Branch b)) \<and>
     entries g = entries (fst w) \<and> fst (read_branch L (d_refs D) b g) = Inr tip \<and>
     ro_executed out \<and> ro_new_head_hash out = Some (to_hex L (commit_hash L c')) \<and> c_parent c' = tip \<and>
     same_dim L (c_prompts c) (c_prompts c') \<and> same_dim L (c_tools c) (c_tools c') \<and> c_model c' = c_model c \<and>
     c_code_sha c' = c_code_sha c \<and> c_memory_snapshot c' = c_memory_snapshot c \<and>
     c_schema_version c' = c_schema_version c \<and> c_peer_uid c' = peer \<and> branch_path (d_refs D) b = Inr p \<and>
     map_of (entries (fst t)) p = Some (FFile (str_bytes (to_hex L (commit_hash L c') @ newline))) \<and>
     (im_ok (snd w) \<longrightarrow> (\<forall>sv. c_schema_version c = Some sv \<longrightarrow> im_schema (snd t) = sv))"
proof -
  have I: "local_instance L al D"
    using assms(1, 2) by (simp add: local_instance_def local_instance_axioms_def lib_laws_iff)
  have V: "d_view D = im_view" using assms(2) by (simp add: local_daemon_def)
  obtain x w1 where x: "on_fs im_view (resolve L (d_refs D) (ra_target a)) w = (x, w1)" by (rule prod.exhaust)
  with assms(4) obtain h where h: "x = Inr (Some h)" and app: "rollback_approved L D a peer now h w1 = (Inr out, t)"
    by (auto simp: rollback_execute_def bindA_def beside_log_def approval_gate_def any_defs map_errA_def Let_def V
        split: prod.splits sum.splits option.splits if_splits)
  have "reads w w1" using keepsD [OF local_instance.reads_refs(3) [OF I]] x unfolding V by blast
  then have e: "entries (fst w1) = entries (fst w)" "snd w1 = snd w" by (simp_all add: reads_def)
  have w1: "on_fs im_view (resolve L (d_refs D) (ra_target a)) w = (Inr (Some h), w1)" using x h by simp
  from local_instance.approved_records [OF I app assms(3)] show ?thesis
    unfolding e using w1 by (elim exE) (intro exI conjI, assumption, (elim conjE, assumption)+)
qed

section \<open>A rollback that runs\<close>

text \<open>A repository with one commit and \<open>HEAD\<close> on a branch that does not exist yet.\<close>

definition root_commit :: commit where
  "root_commit = commit_of sample_lib sample_inputs 0"

definition root_hash :: hash where
  "root_hash = commit_hash sample_lib root_commit"

definition one_commit :: fs where
  "one_commit =
     \<lparr>entries = [([''HEAD''], FFile (str_bytes (head_prefix @ ''main'' @ newline))), ([''objects''], FDir),
        ([''objects'', take 2 (to_hex sample_lib root_hash)], FDir),
        (path_for sample_lib (beside [] []) root_hash, FFile (zstd sample_lib (object_bytes sample_lib (OCommit root_commit))))],
      faults = []\<rparr>"

definition root_args :: rollback_args where
  "root_args = \<lparr>ra_target = to_hex sample_lib root_hash, ra_dry_run = False, ra_accept = False, ra_token = None,
     ra_repo = []\<rparr>"

lemma path_root: "path_for sample_lib (beside [] []) h =
    [''objects'', take 2 (to_hex sample_lib h), drop 2 (to_hex sample_lib h) @ ''.zst'']"
  by (simp add: path_for_eq beside_def)

lemma one_commit_get: "store_get sample_lib (beside [] []) root_hash one_commit = (Inr (OCommit root_commit), one_commit)"
proof -
  have wf: "object_wf (OCommit root_commit)"
    by (simp add: root_commit_def commit_of_def sample_inputs_def ts_range_def)
  have "stored sample_lib (beside [] []) one_commit root_hash (object_bytes sample_lib (OCommit root_commit))"
    using sample_zstd by (simp add: stored_def one_commit_def path_root zstd_law_def)
  then have "read_present sample_lib (beside [] []) root_hash one_commit = (Inr (object_bytes sample_lib (OCommit root_commit)), one_commit)"
    by (rule read_present_stored) (simp add: one_commit_def)
  with object_parse_bytes [OF sample_json sample_ts wf] show ?thesis
    by (simp add: store_get_def bindA_def check_integrity_def root_hash_def)
qed

lemma resolve_hex: "resolve sample_lib R (to_hex sample_lib h) s = (Inr (Some h), s)"
proof -
  have len: "length (to_hex sample_lib h) = 64" by (rule length_to_hex [OF sample_hex])
  then have "to_hex sample_lib h \<noteq> ''HEAD''" by auto
  moreover have "is_hash_name (to_hex sample_lib h)"
    using len to_hex_lower [OF sample_hex, of h] by (auto simp: is_hash_name_def list_all_iff is_lower_hex_def is_hexdigit_def)
  ultimately show ?thesis
    by (simp add: resolve_def bindA_def parse_hash_def hash_from_str_to_hex [OF sample_hex])
qed

lemma one_commit_head: "read_head sample_lib [] one_commit = (Inr (Some (Branch ''main'')), one_commit)"
proof -
  have m: "map_of (entries one_commit) (head_path []) = Some (FFile (str_bytes (head_prefix @ ''main'' @ newline)))"
    by (simp add: one_commit_def head_path_def)
  have "utf8_ok (str_bytes (head_prefix @ ''main'' @ newline))"
    by (rule utf8_ok_str_ascii) (fastforce simp: head_prefix_def newline_def)
  then have "fs_read_to_string (head_path []) one_commit = (Inr (head_prefix @ ''main'' @ newline), one_commit)"
    using fs_read_to_string_file [OF _ m] by (simp add: one_commit_def head_path_def)
  moreover have "trim_end (head_prefix @ ''main'') = head_prefix @ ''main''"
    using trim_end_last [of "CHR ''n''" "head_prefix @ ''mai''"] white_ends_ascii [of "CHR ''n''"] by auto
  then have "str_trim (head_prefix @ ''main'' @ newline) = head_prefix @ ''main''"
    using str_trim_line [OF r_not_white, of "tl head_prefix @ ''main''"] by (simp add: head_prefix_def newline_def)
  moreover have "path_exists one_commit (head_path [])" using m by (rule file_exists) (simp add: head_path_def)
  ultimately show ?thesis by (simp add: read_head_def bindA_def map_errA_def)
qed

lemma one_commit_branch: "read_branch sample_lib [] ''main'' one_commit = (Inr None, one_commit)"
  using branch_path_main [of "[]"]
  by (simp add: read_branch_def bindA_def read_ref_file_def path_exists_def lookup_def one_commit_def path_root)

lemma dot_tmp: "with_extension (path_for sample_lib (beside [] []) h) ''tmp'' =
    [''objects'', take 2 (to_hex sample_lib h), drop 2 (to_hex sample_lib h) @ ''.tmp'']"
  using tmp_path_for [OF sample_hex, of "beside [] []" h] by (simp add: beside_def)

lemmas tmp_root = dot_tmp dot_tmp [unfolded path_root]

lemma frame_none: "frame P s t \<Longrightarrow> \<not> P q \<Longrightarrow> map_of (entries s) q = None \<Longrightarrow> map_of (entries t) q \<in> {None, Some FDir}"
  by (auto simp: frame_def eframe_def dest!: spec [of _ q])

lemma one_commit_puts:
  obtains v where "write_if_absent sample_lib (path_for sample_lib (beside [] []) h) bs one_commit = (Inr (), v)"
    "quiet v" "replaceable (entries v) [''refs'', ''heads'', ''main'']"
proof -
  let ?a = "path_for sample_lib (beside [] []) h" and ?p = "[''refs'', ''heads'', ''main'']"
  have q: "quiet one_commit" by (simp add: quiet_def one_commit_def)
  have b: "branch_path [] ''main'' = Inr ?p" using branch_path_main [of "[]"] by simp
  have tmp: "with_extension ?p ''tmp'' = [''refs'', ''heads'', ''main.tmp'']"
    by (simp add: with_extension_def set_extension_def rsplit_once_def)
  have away: "q \<noteq> ?a \<and> q \<noteq> with_extension ?a ''tmp''" if "q \<noteq> []" "hd q = ''refs''" for q
    using that by (auto simp: path_root tmp_root)
  have old: "map_of (entries one_commit) q = None" if "q \<noteq> []" "hd q = ''refs''" for q
    using that by (cases q) (simp_all add: one_commit_def path_root)
  have ready: "replaceable (entries v) ?p"
    if new: "\<And>q. q \<noteq> [] \<Longrightarrow> hd q = ''refs'' \<Longrightarrow> map_of (entries v) q \<in> {None, Some FDir}"
      "\<And>q. length q = 3 \<Longrightarrow> hd q = ''refs'' \<Longrightarrow> map_of (entries v) q = None" for v
  proof -
    have "map_of (entries v) (take (Suc n) (butlast ?p)) \<in> {None, Some FDir}" if "n < length (butlast ?p)" for n
    proof -
      from that consider "n = 0" | "n = 1" by fastforce
      then show ?thesis using new(1) [of "[''refs'']"] new(1) [of "[''refs'', ''heads'']"] by cases simp_all
    qed
    moreover have "map_of (entries v) ?p = None" "map_of (entries v) [''refs'', ''heads'', ''main.tmp''] = None"
      by (rule new(2); simp)+
    ultimately show ?thesis unfolding replaceable_def tmp by simp
  qed
  show thesis
  proof (cases "path_exists one_commit ?a")
    case True
    then have "write_if_absent sample_lib ?a bs one_commit = (Inr (), one_commit)" by (simp add: write_if_absent_def)
    moreover have "replaceable (entries one_commit) ?p" by (rule ready) (simp add: old, rule old, auto)
    ultimately show thesis using that q by blast
  next
    case False
    have "map_of (entries one_commit) ?a = None"
      using False by (auto simp: one_commit_def path_exists_def lookup_def path_root split: if_splits)
    moreover have "map_of (entries one_commit) (with_extension ?a ''tmp'') = None"
      using tmp_not_path_for [OF sample_hex, of "beside [] []" h] by (auto simp: one_commit_def tmp_root path_root)
    moreover have "map_of (entries one_commit) (take (Suc n) (butlast ?a)) \<in> {None, Some FDir}" for n
      by (cases n) (auto simp: one_commit_def path_root)
    moreover have "with_extension ?a ''tmp'' \<noteq> ?a" by (simp add: tmp_root path_root)
    ultimately have "replaceable (entries one_commit) ?a" by (simp add: replaceable_def)
    from replace_file_runs [OF q this] obtain v where v: "replace_file ?a (zstd sample_lib bs) one_commit = (Inr (), v)" "quiet v"
      "\<And>q. length ?a \<le> length q \<Longrightarrow> q \<noteq> ?a \<Longrightarrow> q \<noteq> with_extension ?a ''tmp'' \<Longrightarrow> map_of (entries v) q = map_of (entries one_commit) q"
      by metis
    have w: "write_if_absent sample_lib ?a bs one_commit = (Inr (), v)"
      using False v(1) by (simp add: write_if_absent_def write_at_def map_errA_def)
    have "keeps (frame (\<lambda>q. q = ?a \<or> q = with_extension ?a ''tmp'')) (replace_file ?a (zstd sample_lib bs))"
      by (rule keeps_replace_file) simp_all
    from keepsD [OF this v(1)] have f: "frame (\<lambda>q. q = ?a \<or> q = with_extension ?a ''tmp'') one_commit v" .
    have "replaceable (entries v) ?p"
    proof (rule ready)
      fix q :: path assume q: "q \<noteq> []" "hd q = ''refs''"
      show "map_of (entries v) q \<in> {None, Some FDir}"
        using frame_none [OF f, of q] away [OF q] old [OF q] by simp
    next
      fix q :: path assume q: "length q = 3" "hd q = ''refs''"
      then have "q \<noteq> []" by auto
      then have "map_of (entries v) q = map_of (entries one_commit) q"
        using away [of q] q by (intro v(3)) (simp_all add: path_root)
      with old [OF \<open>q \<noteq> []\<close> q(2)] show "map_of (entries v) q = None" by simp
    qed
    with w v(2) show thesis by (rule that)
  qed
qed

lemma root_rollback_runs:
  obtains out t where "rollback_execute sample_lib sample_daemon root_args None 0 0 ((one_commit, m), []) = (Inr out, (t, []))"
proof -
  let ?S = "fs_store_ops sample_lib (beside [] [])"
  define i where "i = forward_inputs sample_lib sample_daemon root_hash root_commit None None [] [] None"
  define c where "c = commit_of sample_lib i 0"
  have blobs: "stage_blobs ?S i 0 s = (Inr c, s)" for s
    by (simp add: stage_blobs_def c_def commit_of_def i_def forward_inputs_def stage_blob_tree_def
        stage_optional_blob_def dimension_def bindA_def)
  obtain v where v: "write_if_absent sample_lib (path_for sample_lib (beside [] []) (commit_hash sample_lib c))
      (object_bytes sample_lib (OCommit c)) one_commit = (Inr (), v)" "quiet v"
    "replaceable (entries v) [''refs'', ''heads'', ''main'']" by (rule one_commit_puts)
  then have put: "put_default ?S (OCommit c) one_commit = (Inr (commit_hash sample_lib c), v)"
    by (simp add: put_default_def fs_store_ops_def put_with_policy_def scan_object_def Let_def)
  have "branch_path [] ''main'' = Inr [''refs'', ''heads'', ''main'']" using branch_path_main [of "[]"] by simp
  from write_branch_runs [OF v(2) this v(3)] obtain u where
    "write_branch sample_lib [] ''main'' (commit_hash sample_lib c) v = (Inr (), u)" by metis
  with blobs put have "stage_and_commit_with_now sample_lib ?S fs_self [] ''main'' i 0 one_commit =
      (Inr \<lparr>out_hash = commit_hash sample_lib c, out_branch = ''main''\<rparr>, u)"
    by (simp add: stage_and_commit_with_now_def)
  then have stage: "stage_and_commit_with_now sample_lib (im_store ?S) im_view [] ''main'' i 0 (one_commit, m) =
      (Inr \<lparr>out_hash = commit_hash sample_lib c, out_branch = ''main''\<rparr>, (u, m))" by (simp add: stage_on_first)
  have none: "c_schema_version root_commit = None" "c_memory_snapshot root_commit = None" "c_prompts root_commit = None"
    "c_tools root_commit = None" "c_model root_commit = None"
    by (simp_all add: root_commit_def commit_of_def sample_inputs_def dimension_def)
  have D: "d_store sample_daemon = im_store ?S" "d_view sample_daemon = im_view" "d_refs sample_daemon = []"
    by (simp_all add: sample_daemon_def)
  have args: "\<not> ra_dry_run root_args" "\<not> ra_accept root_args" "ra_target root_args = to_hex sample_lib root_hash"
    by (simp_all add: root_args_def)
  have load: "rb_load_commit (im_store ?S) root_hash (one_commit, m) = (Inr root_commit, (one_commit, m))"
    using one_commit_get by (simp add: rb_load_commit_def im_store_def fs_store_ops_def any_defs map_errA_def bindA_def on_first_def)
  have cur: "current_branch sample_lib sample_daemon (one_commit, m) = (Inr ''main'', (one_commit, m))"
    using one_commit_head by (simp add: current_branch_def D on_fs_im any_defs map_errA_def bindA_def on_first_def)
  have tip: "on_fs im_view (read_branch sample_lib [] ''main'') (one_commit, m) = (Inr None, (one_commit, m))"
    using one_commit_branch by (simp add: on_fs_im)
  have forward: "forward_record sample_lib sample_daemon root_hash root_commit ''main'' None None 0 (one_commit, m) =
      (Inr \<lparr>out_hash = commit_hash sample_lib c, out_branch = ''main''\<rparr>, (u, m))"
    using stage by (simp add: forward_record_def read_text_blobs_def read_model_text_def none D any_defs map_errA_def
        bindA_def flip: i_def)
  obtain out where "rollback_approved sample_lib sample_daemon root_args None 0 root_hash (one_commit, m) = (Inr out, (u, m))"
    using load cur tip forward
    by (simp add: rollback_approved_def D bindA_def any_defs map_errA_def validate_target_shape_def none state_phase_def
        prompts_phase_def args Let_def)
  moreover have "on_fs im_view (resolve sample_lib [] (to_hex sample_lib root_hash)) (one_commit, m) =
      (Inr (Some root_hash), (one_commit, m))"
    by (simp add: on_fs_im resolve_hex)
  ultimately show thesis
    using that by (simp add: rollback_execute_def beside_log_def D args any_defs map_errA_def bindA_def)
qed

definition accept_args :: rollback_args where
  "accept_args = root_args\<lparr>ra_accept := True\<rparr>"

lemma accept_resolves: "on_fs (d_view sample_daemon) (resolve sample_lib (d_refs sample_daemon) (ra_target accept_args)) w =
    (Inr (Some root_hash), w)"
  by (cases w) (simp add: sample_daemon_def accept_args_def root_args_def on_fs_im resolve_hex)

text \<open>Without a key the gate refuses, after one event.\<close>

theorem data_loss_needs_approval_witness:
  "\<exists>r w' lg d. rollback_execute sample_lib sample_daemon accept_args None 0 0 ((one_commit, im_new), []) = (r, (w', lg)) \<and>
     lg = [audit_forced_data_loss None (to_hex sample_lib root_hash) d None] \<and> d \<noteq> ''accepted'' \<and>
     r = Inl [LGate KeyNotConfigured] \<and> w' = (one_commit, im_new)"
proof -
  obtain r w' lg where run: "rollback_execute sample_lib sample_daemon accept_args None 0 0 ((one_commit, im_new), []) = (r, (w', lg))"
    by (metis prod.exhaust)
  have "gate_check sample_lib (d_key sample_daemon) (to_hex sample_lib root_hash) None (ra_token accept_args) 0 = Inl KeyNotConfigured"
    by (simp add: gate_check_def sample_daemon_def)
  moreover have "ra_accept accept_args" "ra_token accept_args = None" by (simp_all add: accept_args_def root_args_def)
  ultimately show ?thesis
    using data_loss_needs_approval [OF run] accept_resolves [of "(one_commit, im_new)"] run
    by (simp add: Let_def)
qed

theorem dry_run_reads_only_witness:
  "\<exists>r w' lg. rollback_execute sample_lib sample_daemon (root_args\<lparr>ra_dry_run := True\<rparr>) None 0 0 ((one_commit, im_new), []) =
     (r, (w', lg)) \<and> entries (fst w') = entries one_commit \<and> snd w' = im_new"
proof -
  obtain r w' lg where run: "rollback_execute sample_lib sample_daemon (root_args\<lparr>ra_dry_run := True\<rparr>) None 0 0
      ((one_commit, im_new), []) = (r, (w', lg))"
    by (metis prod.exhaust)
  with dry_run_reads_only [OF sample_ok sample_daemon_local _ run] show ?thesis by simp
qed

theorem rollback_records_forward_witness:
  "\<exists>out t c' p. rollback_execute sample_lib sample_daemon root_args None 0 0 ((one_commit, im_new), []) = (Inr out, (t, [])) \<and>
     ro_new_head_hash out = Some (to_hex sample_lib (commit_hash sample_lib c')) \<and>
     map_of (entries (fst t)) p = Some (FFile (str_bytes (to_hex sample_lib (commit_hash sample_lib c') @ newline)))"
proof -
  obtain out t where run: "rollback_execute sample_lib sample_daemon root_args None 0 0 ((one_commit, im_new), []) = (Inr out, (t, []))"
    by (rule root_rollback_runs)
  have "\<not> ra_dry_run root_args" by (simp add: root_args_def)
  from rollback_records_forward [OF sample_ok sample_daemon_local this run] run show ?thesis by blast
qed

end
