(* ===== verification/Server.thy ===== *)
theory Server
  imports Rollback Commit_Diff
begin

text \<open>
  The daemon's request handling (\<open>server.rs\<close>): decoding an envelope of either protocol version,
  the work of every request, admission to the commit queue, and the loop of one connection.
  The commit lock is an explicit holder in \<open>Lifecycle\<close>; here \<open>elsewhere\<close> is what the other
  tasks do while a request waits for it. The clock is read by the caller. The texts of
  replies that no rule searches are abbreviated.
\<close>

section \<open>State\<close>

record 'w server =
  sv_data :: "'w \<times> audit_event list"
  sv_rate :: rate_limiter
  sv_slots :: commit_slots
  sv_shutdown :: bool

definition server_start :: "'w daemon \<Rightarrow> 'w \<Rightarrow> 'w server" where
  "server_start D w = \<lparr>sv_data = (w, []), sv_rate = d_rate D, sv_slots = d_slots D, sv_shutdown = False\<rparr>"

record clock =
  ck_secs :: u64
  ck_now :: timestamp

definition shutting_down :: anyhow where
  "shutting_down = [Ctx ''daemon is shutting down; refusing new write-path work'']"

definition check_shutdown :: "'w server \<Rightarrow> anyhow + unit" where
  "check_shutdown s = (if sv_shutdown s then Inl shutting_down else Inr ())"

definition queue_full :: response where
  "queue_full = resp_concurrency ''commit_queue_full'' ''commit queue is full; retry shortly''"

section \<open>Decoding envelopes\<close>

datatype envelope_error = Attributable string response | Unattributable string

definition malformed_version :: "string \<Rightarrow> string \<Rightarrow> envelope_error" where
  "malformed_version cid m = Attributable cid (resp_protocol ''malformed_protocol_version'' m)"

definition wire_version :: "string \<Rightarrow> json \<Rightarrow> envelope_error + u16" where
  "wire_version cid v =
     (case json_get ''protocol_version'' v of
        None \<Rightarrow> Inr default_protocol_version
      | Some (JNum n) \<Rightarrow>
          (case to_u64 (JNum n) of
             None \<Rightarrow> Inl (malformed_version cid ''protocol_version is not a non-negative integer'')
           | Some k \<Rightarrow>
               if unat k < 2 ^ 16 then Inr (ucast k)
               else Inl (malformed_version cid ''protocol_version exceeds the u16 wire range''))
      | Some _ \<Rightarrow> Inl (malformed_version cid ''protocol_version must be a JSON integer''))"

definition parse_envelope_with_v0_shim :: "lib \<Rightarrow> base64 \<Rightarrow> bytes \<Rightarrow> envelope_error + string \<times> request" where
  "parse_envelope_with_v0_shim L B bs =
     (case json_parse L bs of
        None \<Rightarrow> Inl (Unattributable ''envelope JSON parse failed'')
      | Some d \<Rightarrow>
          let v = to_value d in
          case Option.bind (json_get ''correlation_id'' v) to_str of
            None \<Rightarrow> Inl (Unattributable ''envelope missing correlation_id'')
          | Some cid \<Rightarrow>
              res_bind (wire_version cid v) (\<lambda>n.
              if n > protocol_version
                then Inl (Attributable cid (resp_protocol ''version_mismatch'' ''client protocol_version too new''))
              else if n = 0 then
                (case envelope_of_json request_v0_of_json d of
                   None \<Rightarrow> Inl (Attributable cid (resp_protocol ''malformed_v0_envelope'' ''v0 envelope failed to deserialise''))
                 | Some e \<Rightarrow> Inr (cid, request_from_v0 (env_payload e)))
              else
                (case envelope_of_json (request_of_json B) d of
                   None \<Rightarrow> Inl (Attributable cid (resp_protocol ''malformed_envelope'' ''envelope failed to deserialise''))
                 | Some e \<Rightarrow> Inr (cid, env_payload e))))"

section \<open>The work of a request\<close>

definition render_tree :: "tree_diff option \<Rightarrow> string list" where
  "render_tree td =
     (case td of
        None \<Rightarrow> []
      | Some t \<Rightarrow> map (\<lambda>(n, h). ''+ '' @ n) (td_added t) @ map (\<lambda>(n, h). ''- '' @ n) (td_removed t) @
                  map (\<lambda>(n, a, b). ''~ '' @ n) (td_modified t))"

definition memory_summary :: "lib \<Rightarrow> hash_change option \<Rightarrow> string" where
  "memory_summary L ch =
     (case ch of
        None \<Rightarrow> []
      | Some c \<Rightarrow>
          (case (hc_from c, hc_to c) of
             (None, Some t) \<Rightarrow> ''memory snapshot added'' @ arrow @ hash_short L t
           | (Some f, None) \<Rightarrow> ''memory snapshot removed (was '' @ hash_short L f @ '')''
           | (Some f, Some t) \<Rightarrow> ''memory snapshot '' @ hash_short L f @ arrow @ hash_short L t
           | (None, None) \<Rightarrow> []))"

definition schema_summary :: "string_change option \<Rightarrow> string" where
  "schema_summary ch =
     (case ch of
        None \<Rightarrow> []
      | Some c \<Rightarrow> ''schema_version '' @ (case sc_from c of None \<Rightarrow> ''(none)'' | Some x \<Rightarrow> x) @ arrow @
                  (case sc_to c of None \<Rightarrow> ''(none)'' | Some x \<Rightarrow> x))"

definition snap_find :: "lib \<Rightarrow> refs_snapshot \<Rightarrow> string \<Rightarrow> anyhow + hash" where
  "snap_find L S name =
     res_bind (map_err (\<lambda>e. [LCore e]) (snap_resolve L S name)) (\<lambda>x.
     ok_or [Ctx (''ref not found: '' @ name)] x)"

definition handle_diff :: "lib \<Rightarrow> 'w daemon \<Rightarrow> refs_snapshot \<Rightarrow> string \<Rightarrow> string \<Rightarrow> ('w, anyhow, diff_output) act" where
  "handle_diff L D S from to =
     bindA (lift_res (snap_find L S from)) (\<lambda>fh.
     bindA (lift_res (snap_find L S to)) (\<lambda>th.
     bindA (core_any (diff (d_store D) fh th)) (\<lambda>d.
     ret \<lparr>do_from = to_hex L fh, do_to = to_hex L th, do_prompts = render_tree (cd_prompts d),
          do_tools = render_tree (cd_tools d), do_model_changed = (cd_model d \<noteq> None),
          do_memory_summary = memory_summary L (cd_memory_snapshot d),
          do_schema_summary = schema_summary (cd_schema_version d)\<rparr>)))"

definition resolve_ref :: "lib \<Rightarrow> 'w daemon \<Rightarrow> string \<Rightarrow> ('w, anyhow, response) act" where
  "resolve_ref L D name =
     bindA (with_context (''resolving ref '' @ name) (core_any (on_fs (d_view D) (resolve L (d_refs D) name)))) (\<lambda>x.
     ret (case x of
            Some h \<Rightarrow> PResolveRef (to_hex L h)
          | None \<Rightarrow> resp_not_found ''ref_not_found'' (''ref not found: '' @ name)))"

definition log_request :: "lib \<Rightarrow> (timestamp \<Rightarrow> string) \<Rightarrow> 'w daemon \<Rightarrow> u64 \<Rightarrow> ('w, anyhow, response) act" where
  "log_request L rfc D n =
     bindA (core_any (on_fs (d_view D) (resolve L (d_refs D) ''HEAD''))) (\<lambda>hd.
     bindA (case hd of None \<Rightarrow> ret [] | Some h \<Rightarrow> core_any (walk_log (d_store D) h (unat n))) (\<lambda>es.
     ret (PLog (map (\<lambda>(h, c). \<lparr>le_hash = to_hex L h, le_message = c_message c, le_author = c_author c,
                               le_timestamp = rfc (c_timestamp c)\<rparr>) es))))"

fun object_payload :: "lib \<Rightarrow> obj \<Rightarrow> string \<times> bytes" where
  "object_payload L (OBlob b) = (''blob'', b)"
| "object_payload L (OTree t) = (''tree'', json_print L (JObj (tree_fields t)))"
| "object_payload L (OCommit c) = (''commit'', json_print L (JObj (commit_fields L c)))"

definition max_object_bytes :: nat where
  "max_object_bytes = 10 * 1024 * 1024"

definition read_object :: "lib \<Rightarrow> 'w daemon \<Rightarrow> string \<Rightarrow> ('w, anyhow, response) act" where
  "read_object L D s =
     bindA (with_context (''invalid hash: '' @ s) (lift_res (map_err (\<lambda>e. [LHash e]) (hash_from_str L s)))) (\<lambda>h.
     bindA (with_context (''reading object '' @ s) (core_any (st_get (d_store D) h))) (\<lambda>x.
     let (kind, data) = object_payload L x in
     ret (if length data > max_object_bytes
          then resp_validation ''object_too_large'' ''object is too large to fetch inline''
          else PObjectData (to_hex L h) kind data)))"

definition locked_commit ::
    "lib \<Rightarrow> 'w daemon \<Rightarrow> u32 option \<Rightarrow> clock \<Rightarrow> commit_input \<Rightarrow> ('w \<times> audit_event list, anyhow, response) act" where
  "locked_commit L D peer ck input =
     bindA (beside_log (commit_execute_with_now L D input peer (ck_now ck))) (\<lambda>out. ret (PCommit out))"

definition locked_rollback ::
    "lib \<Rightarrow> 'w daemon \<Rightarrow> u32 option \<Rightarrow> clock \<Rightarrow> string \<Rightarrow> bool \<Rightarrow> bool \<Rightarrow> string option \<Rightarrow>
     ('w \<times> audit_event list, anyhow, response) act" where
  "locked_rollback L D peer ck target dry accept token =
     bindA (rollback_execute L D
              \<lparr>ra_target = target, ra_dry_run = dry, ra_accept = accept, ra_token = token, ra_repo = d_repo D\<rparr>
              peer (ck_secs ck) (ck_now ck)) (\<lambda>out. ret (PRollback out))"

section \<open>Dispatch\<close>

definition on_data :: "('w \<times> audit_event list, 'e, 'a) act \<Rightarrow> ('w server, 'e, 'a) act" where
  "on_data m s = (case m (sv_data s) of (r, x) \<Rightarrow> (r, s\<lparr>sv_data := x\<rparr>))"

text \<open>A slot, or the reply that there is none; and its release, whatever happened.\<close>

definition take_slot :: "('w server, anyhow, bool) act" where
  "take_slot s =
     (case try_commit_slot (sv_slots s) of
        None \<Rightarrow> (Inr False, s)
      | Some sl \<Rightarrow> (Inr True, s\<lparr>sv_slots := sl\<rparr>))"

definition release_slot :: "'w server \<Rightarrow> 'w server" where
  "release_slot s = s\<lparr>sv_slots := drop_slot (sv_slots s)\<rparr>"

definition with_slot :: "('w server, anyhow, response) act \<Rightarrow> ('w server, anyhow, response) act" where
  "with_slot m =
     bindA take_slot (\<lambda>ok s.
     if ok then (case m s of (r, t) \<Rightarrow> (r, release_slot t)) else (Inr queue_full, s))"

definition not_shutting_down :: "('w server, anyhow, unit) act" where
  "not_shutting_down s = (check_shutdown s, s)"

text \<open>A write request: the check, the slot, the wait for the lock, the check again, the work.\<close>

definition write_path :: "('w server \<Rightarrow> 'w server) \<Rightarrow> ('w \<times> audit_event list, anyhow, response) act \<Rightarrow>
    ('w server, anyhow, response) act" where
  "write_path elsewhere m =
     bindA not_shutting_down (\<lambda>_.
     with_slot (\<lambda>s. bindA not_shutting_down (\<lambda>_. on_data m) (elsewhere s)))"

text \<open>A diff only waits for the lock; it freezes the refs under it and reads on without it.\<close>

definition diff_path :: "('w server \<Rightarrow> 'w server) \<Rightarrow> ('w \<times> audit_event list, anyhow, response) act \<Rightarrow>
    ('w server, anyhow, response) act" where
  "diff_path elsewhere m = with_slot (\<lambda>s. on_data m (elsewhere s))"

definition freeze_refs :: "lib \<Rightarrow> 'w daemon \<Rightarrow> ('w, anyhow, refs_snapshot) act" where
  "freeze_refs L D = core_any (on_fs (d_view D) (snapshot L (d_refs D)))"

definition render_diff :: "lib \<Rightarrow> 'w daemon \<Rightarrow> refs_snapshot \<Rightarrow> string \<Rightarrow> string \<Rightarrow> ('w, anyhow, response) act" where
  "render_diff L D S a b = bindA (handle_diff L D S a b) (\<lambda>d. ret (PDiff d))"

text \<open>What a request does once it is admitted.\<close>

fun request_work :: "lib \<Rightarrow> (timestamp \<Rightarrow> string) \<Rightarrow> 'w daemon \<Rightarrow> u32 option \<Rightarrow> clock \<Rightarrow> request \<Rightarrow>
    ('w \<times> audit_event list, anyhow, response) act" where
  "request_work L rfc D peer ck Ping = ret Pong"
| "request_work L rfc D peer ck (RResolveRef n) = beside_log (resolve_ref L D n)"
| "request_work L rfc D peer ck (RCommit i) = locked_commit L D peer ck i"
| "request_work L rfc D peer ck (RLog n) = beside_log (log_request L rfc D n)"
| "request_work L rfc D peer ck (RDiff a b) =
     bindA (beside_log (freeze_refs L D)) (\<lambda>S. beside_log (render_diff L D S a b))"
| "request_work L rfc D peer ck (RReadObject h) = beside_log (read_object L D h)"
| "request_work L rfc D peer ck (RRollback t dry acc tok) = locked_rollback L D peer ck t dry acc tok"

fun is_write :: "request \<Rightarrow> bool" where
  "is_write (RCommit _) \<longleftrightarrow> True"
| "is_write (RRollback _ _ _ _) \<longleftrightarrow> True"
| "is_write _ \<longleftrightarrow> False"

fun dispatch :: "('w server \<Rightarrow> 'w server) \<Rightarrow> lib \<Rightarrow> (timestamp \<Rightarrow> string) \<Rightarrow> 'w daemon \<Rightarrow> u32 option \<Rightarrow> clock \<Rightarrow>
    request \<Rightarrow> ('w server, anyhow, response) act" where
  "dispatch el L rfc D peer ck (RDiff a b) = diff_path el (request_work L rfc D peer ck (RDiff a b))"
| "dispatch el L rfc D peer ck r =
     (if is_write r then write_path el (request_work L rfc D peer ck r)
      else on_data (request_work L rfc D peer ck r))"

section \<open>One connection\<close>

text \<open>
  One turn of the loop is given by its surroundings: what the read deadline or the framing gave,
  the instant of the rate check, the clock, what the other tasks do, and whether the write
  of a reply succeeds.
\<close>

datatype read_outcome = ReadElapsed | ReadFrame "frame_error + bytes option"

record 'w turn =
  tn_read :: read_outcome
  tn_instant :: real
  tn_clock :: clock
  tn_elsewhere :: "'w server \<Rightarrow> 'w server"
  tn_write :: "anyhow + unit"

definition consume :: "u32 \<Rightarrow> real \<Rightarrow> 'w server \<Rightarrow> bool \<times> 'w server" where
  "consume uid now s = (case try_consume uid now (sv_rate s) of (ok, r) \<Rightarrow> (ok, s\<lparr>sv_rate := r\<rparr>))"

text \<open>A reply that does not fit a frame is a write error too.\<close>

definition reply_fits :: "lib \<Rightarrow> base64 \<Rightarrow> response envelope \<Rightarrow> bool" where
  "reply_fits L B e \<longleftrightarrow> length (json_print L (envelope_to_json (response_to_json B) e)) \<le> unat max_frame_bytes"

definition write_reply :: "lib \<Rightarrow> base64 \<Rightarrow> 'w turn \<Rightarrow> response envelope \<Rightarrow> anyhow + unit" where
  "write_reply L B t e =
     (if reply_fits L B e then tn_write t else Inl [Ctx ''reply exceeds MAX_FRAME_BYTES''])"

definition reply_to :: "lib \<Rightarrow> base64 \<Rightarrow> (layer \<Rightarrow> string) \<Rightarrow> (timestamp \<Rightarrow> string) \<Rightarrow> 'w daemon \<Rightarrow> u32 option \<Rightarrow>
    'w turn \<Rightarrow> request \<Rightarrow> 'w server \<Rightarrow> response \<times> 'w server" where
  "reply_to L B sh rfc D peer t r s =
     (case dispatch (tn_elsewhere t) L rfc D peer (tn_clock t) r s of
        (Inr p, s') \<Rightarrow> (p, s')
      | (Inl e, s') \<Rightarrow> (map_anyhow_to_response_error sh e, s'))"

definition rate_exhausted :: response where
  "rate_exhausted = resp_concurrency ''rate_budget_exhausted'' ''per-UID request rate budget exhausted; retry shortly''"

text \<open>A turn ends the connection, or answers with one envelope.\<close>

definition connection_turn :: "lib \<Rightarrow> base64 \<Rightarrow> (layer \<Rightarrow> string) \<Rightarrow> (timestamp \<Rightarrow> string) \<Rightarrow> 'w daemon \<Rightarrow> u32 \<Rightarrow>
    u32 option \<Rightarrow> 'w turn \<Rightarrow> 'w server \<Rightarrow> ((anyhow + unit) + response envelope) \<times> 'w server" where
  "connection_turn L B sh rfc D uid peer t s =
     (case tn_read t of
        ReadElapsed \<Rightarrow> (Inl (Inl [Ctx ''connection idle beyond read deadline; closing'']), s)
      | ReadFrame (Inr None) \<Rightarrow> (Inl (Inr ()), s)
      | ReadFrame (Inl (TooLarge n)) \<Rightarrow> (Inl (Inl [Ctx ''inbound frame exceeds MAX_FRAME_BYTES'']), s)
      | ReadFrame (Inl e) \<Rightarrow> (Inl (Inl [Ctx ''reading a frame'']), s)
      | ReadFrame (Inr (Some bs)) \<Rightarrow>
          (case parse_envelope_with_v0_shim L B bs of
             Inl (Unattributable m) \<Rightarrow> (Inl (Inl [Ctx (''malformed envelope: '' @ m)]), s)
           | Inl (Attributable cid p) \<Rightarrow>
               (case consume uid (tn_instant t) s of (ok, s1) \<Rightarrow>
                  if \<not> ok then (Inl (Inl [Ctx ''rate budget exhausted by malformed envelopes; closing'']), s1)
                  else (Inr (envelope_new cid p), s1))
           | Inr (cid, r) \<Rightarrow>
               (case consume uid (tn_instant t) s of (ok, s1) \<Rightarrow>
                  if \<not> ok then (Inr (envelope_new cid rate_exhausted), s1)
                  else (case reply_to L B sh rfc D peer t r s1 of (p, s2) \<Rightarrow> (Inr (envelope_new cid p), s2)))))"

text \<open>The loop over the turns: how the connection ended (\<open>None\<close> while it is open), the replies
  delivered, and the server left.\<close>

fun handle_connection :: "lib \<Rightarrow> base64 \<Rightarrow> (layer \<Rightarrow> string) \<Rightarrow> (timestamp \<Rightarrow> string) \<Rightarrow> 'w daemon \<Rightarrow> u32 \<Rightarrow>
    u32 option \<Rightarrow> 'w turn list \<Rightarrow> 'w server \<Rightarrow> (anyhow + unit) option \<times> response envelope list \<times> 'w server" where
  "handle_connection L B sh rfc D uid peer [] s = (None, [], s)"
| "handle_connection L B sh rfc D uid peer (t # ts) s =
     (case connection_turn L B sh rfc D uid peer t s of
        (Inl end, s1) \<Rightarrow> (Some end, [], s1)
      | (Inr e, s1) \<Rightarrow>
          (case write_reply L B t e of
             Inl x \<Rightarrow> (Some (Inl x), [], s1)
           | Inr _ \<Rightarrow>
               (case handle_connection L B sh rfc D uid peer ts s1 of
                  (r, es, s2) \<Rightarrow> (r, e # es, s2))))"

section \<open>Decoding what clients send\<close>

text \<open>The envelope of a version-0 client, which has no version.\<close>

definition envelope_v0_to_json :: "string \<Rightarrow> request_v0 \<Rightarrow> json" where
  "envelope_v0_to_json cid r = JObj [(''correlation_id'', JStr cid), (''payload'', request_v0_to_json r)]"

lemma envelope_v0_exact: "json_exact (envelope_v0_to_json cid r)"
proof -
  have p: "json_plain (of_map JStr ps)" "json_depth_doc (of_map JStr ps) \<le> 1" for ps :: "(string \<times> string) list"
    using depth_of_map [of ps JStr 0] by (auto simp: of_map_def list_all_iff)
  have "flat (request_v0_to_json r)"
  proof (cases r)
    case (Commit0 c)
    with flat_str_vec(2) [of "ci_mcp_servers c"] p [of "ci_prompts c"] show ?thesis
      by (simp add: flat_def tagged_def commit_input_fields_def commit_input_names_def)
  qed (simp_all add: flat_def tagged_def)
  then show ?thesis by (simp add: flat_def json_exact_def envelope_v0_to_json_def)
qed

lemma envelope_v0_read:
  "request_v0_wf r \<Longrightarrow> envelope_of_json request_v0_of_json (envelope_v0_to_json cid r) =
     Some \<lparr>env_id = cid, env_version = 0, env_payload = r\<rparr>"
  by (simp add: envelope_of_json_def envelope_v0_to_json_def fields_defs request_v0_read default_protocol_version_def)

lemma parse_v0:
  assumes "json_law L" "request_v0_wf r"
  shows "parse_envelope_with_v0_shim L B (json_print L (envelope_v0_to_json cid r)) = Inr (cid, request_from_v0 r)"
proof -
  have "json_parse L (json_print L (envelope_v0_to_json cid r)) = Some (envelope_v0_to_json cid r)"
    using assms(1) envelope_v0_exact by (simp add: json_law_def)
  moreover have "json_get k (to_value (envelope_v0_to_json cid r)) =
      map_option to_value (map_of [(''correlation_id'', JStr cid), (''payload'', request_v0_to_json r)] k)" for k
    unfolding envelope_v0_to_json_def by (rule json_get_value) simp
  ultimately show ?thesis
    using envelope_v0_read [OF assms(2), of cid]
    by (simp add: parse_envelope_with_v0_shim_def wire_version_def default_protocol_version_def protocol_version_def)
qed

lemma parse_v1:
  assumes "json_law L" "b64_law B" "request_wf r"
  shows "parse_envelope_with_v0_shim L B (json_print L (envelope_to_json (request_to_json B) (envelope_new cid r))) = Inr (cid, r)"
proof -
  let ?e = "envelope_to_json (request_to_json B) (envelope_new cid r)"
  have "json_parse L (json_print L ?e) = Some ?e"
    using assms(1) envelope_exact [of "request_to_json B" "envelope_new cid r"] flat_request by (simp add: json_law_def)
  moreover have "json_get k (to_value ?e) = map_option to_value (map_of
      [(''correlation_id'', JStr cid), (''protocol_version'', of_u16 1), (''payload'', request_to_json B r)] k)" for k
    unfolding envelope_to_json_def by (subst json_get_value) (simp_all add: envelope_new_def protocol_version_def)
  moreover have "envelope_of_json (request_of_json B) ?e = Some (envelope_new cid r)"
    by (rule envelope_read) (simp add: envelope_new_def request_read [OF assms(2, 3)])
  ultimately show ?thesis
    by (simp add: parse_envelope_with_v0_shim_def wire_version_def protocol_version_def of_u16_def envelope_new_def)
qed

lemma wire_version_error: "wire_version cid v = Inl e \<Longrightarrow> \<exists>m. e = malformed_version cid m"
  by (auto simp: wire_version_def split: option.splits json.splits if_splits)

lemma parse_error:
  assumes "parse_envelope_with_v0_shim L B bs = Inl (Attributable cid p)"
  shows "\<exists>code m. p = PError Protocol code m False"
  using assms wire_version_error
  by (fastforce simp: parse_envelope_with_v0_shim_def res_bind_def Let_def resp_defs malformed_version_def
      split: option.splits sum.splits if_splits)

lemma parse_ok:
  assumes "parse_envelope_with_v0_shim L B bs = Inr (cid, r)"
  obtains d where "json_parse L bs = Some d" "json_get ''correlation_id'' (to_value d) = Some (JStr cid)"
    "(wire_version cid (to_value d) = Inr 0 \<and>
        map_option (request_from_v0 \<circ> env_payload) (envelope_of_json request_v0_of_json d) = Some r) \<or>
     (wire_version cid (to_value d) = Inr protocol_version \<and>
        map_option env_payload (envelope_of_json (request_of_json B) d) = Some r)"
proof -
  have small: "n = 0 \<or> n = protocol_version" if "\<not> n > protocol_version" for n :: u16
    using that by (simp add: protocol_version_def word_less_nat_alt word_unat_eq_iff) arith
  obtain d where d: "json_parse L bs = Some d"
    using assms by (cases "json_parse L bs") (simp_all add: parse_envelope_with_v0_shim_def)
  note step = assms [unfolded parse_envelope_with_v0_shim_def d option.case Let_def]
  obtain cid' where cid': "Option.bind (json_get ''correlation_id'' (to_value d)) to_str = Some cid'"
    using step by (cases "Option.bind (json_get ''correlation_id'' (to_value d)) to_str") simp_all
  note step = step [unfolded cid' option.case res_bind_Inr_iff]
  obtain n where n: "wire_version cid' (to_value d) = Inr n" "\<not> n > protocol_version"
    using step by (auto split: if_splits)
  have rest: "(if n = 0 then
      (case envelope_of_json request_v0_of_json d of
         None \<Rightarrow> Inl (Attributable cid' (resp_protocol ''malformed_v0_envelope'' ''v0 envelope failed to deserialise''))
       | Some e \<Rightarrow> Inr (cid', request_from_v0 (env_payload e)))
    else
      (case envelope_of_json (request_of_json B) d of
         None \<Rightarrow> Inl (Attributable cid' (resp_protocol ''malformed_envelope'' ''envelope failed to deserialise''))
       | Some e \<Rightarrow> Inr (cid', env_payload e))) = Inr (cid, r)"
    using step n by auto
  have same: "cid' = cid" using rest by (auto split: if_splits option.splits)
  have c: "json_get ''correlation_id'' (to_value d) = Some (JStr cid)"
    using cid' same by (auto simp: bind_eq_Some_conv elim!: to_str.elims)
  show thesis
  proof (rule that [OF d c])
    show "(wire_version cid (to_value d) = Inr 0 \<and>
        map_option (request_from_v0 \<circ> env_payload) (envelope_of_json request_v0_of_json d) = Some r) \<or>
     (wire_version cid (to_value d) = Inr protocol_version \<and>
        map_option env_payload (envelope_of_json (request_of_json B) d) = Some r)"
    proof (cases "n = 0")
      case True
      with rest n same show ?thesis by (simp split: option.splits)
    next
      case False
      with rest n same small [OF n(2)] show ?thesis by (simp split: option.splits)
    qed
  qed
qed

text \<open>What an accepted envelope says, stated on the document: which reader, which request.\<close>

definition envelope_says :: "lib \<Rightarrow> base64 \<Rightarrow> bytes \<Rightarrow> string \<Rightarrow> request \<Rightarrow> bool" where
  "envelope_says L B bs cid r \<longleftrightarrow>
     (\<exists>d. json_parse L bs = Some d \<and> json_get ''correlation_id'' (to_value d) = Some (JStr cid) \<and>
       ((wire_version cid (to_value d) = Inr 0 \<and>
           map_option (request_from_v0 \<circ> env_payload) (envelope_of_json request_v0_of_json d) = Some r) \<or>
        (wire_version cid (to_value d) = Inr protocol_version \<and>
           map_option env_payload (envelope_of_json (request_of_json B) d) = Some r)))"

lemma parse_iff: "parse_envelope_with_v0_shim L B bs = Inr (cid, r) \<longleftrightarrow> envelope_says L B bs cid r"
proof
  assume "parse_envelope_with_v0_shim L B bs = Inr (cid, r)"
  then show "envelope_says L B bs cid r" by (elim parse_ok) (auto simp: envelope_says_def)
next
  assume "envelope_says L B bs cid r"
  then show "parse_envelope_with_v0_shim L B bs = Inr (cid, r)"
    by (auto simp: envelope_says_def parse_envelope_with_v0_shim_def protocol_version_def split: option.splits)
qed

text \<open>
  Both protocol versions decode to the request they mean: a version-1 envelope gives the
  request it was printed from, an envelope without a version is read by the version-0 reader
  and translated. Nothing else is accepted: an envelope is decoded to a request exactly when
  its document says that request, at version 0 or 1, under that correlation id; and a rejection that
  can be attributed to a correlation id is a protocol error that is not to be retried.\<close>

theorem envelope_decoding:
  assumes "json_law L" "b64_law B" "request_wf r" "request_v0_wf r0"
  shows "parse_envelope_with_v0_shim L B (json_print L (envelope_to_json (request_to_json B) (envelope_new cid r))) = Inr (cid, r) \<and>
    parse_envelope_with_v0_shim L B (json_print L (envelope_v0_to_json cid r0)) = Inr (cid, request_from_v0 r0) \<and>
    (\<forall>bs c q. parse_envelope_with_v0_shim L B bs = Inr (c, q) \<longleftrightarrow> envelope_says L B bs c q) \<and>
    (\<forall>bs c p. parse_envelope_with_v0_shim L B bs = Inl (Attributable c p) \<longrightarrow> (\<exists>code m. p = PError Protocol code m False))"
  using parse_v1 [OF assms(1,2,3)] parse_v0 [OF assms(1,4)] parse_iff parse_error by blast

lemma envelope_decoding_witness:
  "parse_envelope_with_v0_shim sample_lib sample_b64
     (json_print sample_lib (envelope_v0_to_json ''7'' (ResolveRef0 ''main''))) = Inr (''7'', request_from_v0 (ResolveRef0 ''main'')) \<and>
   parse_envelope_with_v0_shim sample_lib sample_b64
     (json_print sample_lib (envelope_to_json (request_to_json sample_b64) (envelope_new ''8'' (RLog 5)))) = Inr (''8'', RLog 5)"
  using envelope_decoding [OF sample_json sample_b64_law, of "RLog 5" "ResolveRef0 ''main''"] by simp

section \<open>The order of the replies\<close>

text \<open>The reply a frame was owed: its id, and the reply to a malformed envelope or to its request.\<close>

definition frame_id :: "lib \<Rightarrow> base64 \<Rightarrow> 'w turn \<Rightarrow> string option" where
  "frame_id L B t =
     (case tn_read t of
        ReadFrame (Inr (Some bs)) \<Rightarrow>
          (case parse_envelope_with_v0_shim L B bs of
             Inr (cid, r) \<Rightarrow> Some cid
           | Inl (Attributable cid p) \<Rightarrow> Some cid
           | Inl (Unattributable m) \<Rightarrow> None)
      | _ \<Rightarrow> None)"

lemma turn_answers:
  assumes "connection_turn L B sh rfc D uid peer t s = (Inr e, s1)"
  shows "frame_id L B t = Some (env_id e)" "env_version e = protocol_version"
  using assms
  by (auto simp: connection_turn_def frame_id_def envelope_new_def
      split: read_outcome.splits sum.splits option.splits frame_error.splits envelope_error.splits prod.splits if_splits)

lemma handle_connection_prefix:
  assumes "handle_connection L B sh rfc D uid peer ts s = (res, es, s')"
  shows "list_all2 (\<lambda>t e. frame_id L B t = Some (env_id e) \<and> env_version e = protocol_version \<and> reply_fits L B e)
           (take (length es) ts) es"
    and "length es \<le> length ts" and "res = None \<longleftrightarrow> length es = length ts"
  using assms
proof (induction ts arbitrary: s es)
  case Nil
  {
    case 1 then show ?case by simp
  next
    case 2 then show ?case by simp
  next
    case 3 then show ?case by simp
  }
next
  case (Cons t ts)
  have step: "(res \<noteq> None \<and> es = []) \<or> (\<exists>e s1 es2. es = e # es2 \<and> connection_turn L B sh rfc D uid peer t s = (Inr e, s1) \<and>
      reply_fits L B e \<and> handle_connection L B sh rfc D uid peer ts s1 = (res, es2, s'))"
    if "handle_connection L B sh rfc D uid peer (t # ts) s = (res, es, s')" for s es
    using that by (auto simp: write_reply_def split: prod.splits sum.splits if_splits)
  {
    case 1
    from step [OF 1] show ?case using Cons.IH(1) by (auto dest: turn_answers)
  next
    case 2
    from step [OF 2] show ?case using Cons.IH(2) by auto
  next
    case 3
    from step [OF 3] show ?case using Cons.IH(3) by auto
  }
qed

text \<open>
  A connection answers its frames one by one and in order: the replies it delivered answer
  an initial run of the turns, each with the correlation id of its own frame, at the current
  protocol version and within the frame limit; and a connection is open exactly when every
  turn was answered, so that no frame is skipped or answered twice.\<close>

theorem connection_answers_in_order:
  assumes "handle_connection L B sh rfc D uid peer ts s = (res, es, s')"
  shows "list_all2 (\<lambda>t e. frame_id L B t = Some (env_id e) \<and> env_version e = protocol_version \<and> reply_fits L B e)
           (take (length es) ts) es \<and>
    length es \<le> length ts \<and> (res = None \<longleftrightarrow> length es = length ts)"
  using handle_connection_prefix [OF assms] by blast

definition sample_turns :: "fs im turn list" where
  "sample_turns = map (\<lambda>f. \<lparr>tn_read = ReadFrame (Inr f), tn_instant = 0, tn_clock = \<lparr>ck_secs = 0, ck_now = 0\<rparr>,
                           tn_elsewhere = id, tn_write = Inr ()\<rparr>)
     [Some (json_print sample_lib (envelope_v0_to_json ''1'' Ping0)), None]"

lemma sample_connection:
  "\<exists>s'. handle_connection sample_lib sample_b64 (\<lambda>_. []) (\<lambda>_. []) sample_daemon 7 None sample_turns
      (server_start sample_daemon (empty_fs, im_new)) = (Some (Inr ()), [envelope_new ''1'' Pong], s')"
proof -
  have p: "parse_envelope_with_v0_shim sample_lib sample_b64 (json_print sample_lib (envelope_v0_to_json ''1'' Ping0)) = Inr (''1'', Ping)"
    by (subst parse_v0 [OF sample_json]) simp_all
  have f: "length (json_print sample_lib (envelope_to_json (response_to_json sample_b64) (envelope_new ''1'' Pong))) \<le> 16777216"
    by (simp add: sample_lib_def envelope_to_json_def envelope_new_def tagged_def of_u16_def)
  have c: "\<exists>s'. consume 7 0 (server_start sample_daemon (empty_fs, im_new)) = (True, s')"
    by (simp add: consume_def try_consume_def server_start_def sample_daemon_def rate_new_def)
  show ?thesis
    using c by (auto simp: sample_turns_def connection_turn_def p write_reply_def reply_fits_def max_frame_bytes_def f
        reply_to_def on_data_def ret_def split: prod.splits)
qed

theorem connection_answers_in_order_witness:
  "\<exists>es s'. handle_connection sample_lib sample_b64 (\<lambda>_. []) (\<lambda>_. []) sample_daemon 7 None sample_turns
      (server_start sample_daemon (empty_fs, im_new)) = (Some (Inr ()), es, s') \<and> length es = 1 \<and>
     list_all2 (\<lambda>t e. frame_id sample_lib sample_b64 t = Some (env_id e) \<and> env_version e = protocol_version \<and>
       reply_fits sample_lib sample_b64 e) (take 1 sample_turns) es"
proof -
  obtain s' where s': "handle_connection sample_lib sample_b64 (\<lambda>_. []) (\<lambda>_. []) sample_daemon 7 None sample_turns
      (server_start sample_daemon (empty_fs, im_new)) = (Some (Inr ()), [envelope_new ''1'' Pong], s')"
    using sample_connection by blast
  from connection_answers_in_order [OF s'] s' show ?thesis by auto
qed

end
