(* ===== verification/Lifecycle.thy ===== *)
theory Lifecycle
  imports Server
begin

text \<open>
  The daemon as its tasks run it: many requests at once, the commit lock, the bounded queue and
  the shutdown signal (\<open>server.rs\<close>, \<open>lifecycle.rs\<close>), as a step relation; and the reconciliation of
  the refs at startup. A task is one request. Whoever holds the lock is written down; the drain of
  a shutdown takes it for good. The work of a request under the lock is one step: no other task
  writes meanwhile.
\<close>

section \<open>Startup reconciliation\<close>

definition has_object :: "'w store_ops \<Rightarrow> hash \<Rightarrow> ('w, anyhow, bool) act" where
  "has_object S h w = (case st_has S h w of (b, w') \<Rightarrow> (Inr b, w'))"

definition broken_tip :: "lib \<Rightarrow> 'w store_ops \<Rightarrow> 'w fs_view \<Rightarrow> refs \<Rightarrow> string \<Rightarrow> ('w, anyhow, (string \<times> string) option) act" where
  "broken_tip L S V R b =
     bindA (with_context (''reading branch ref '' @ b) (core_any (on_fs V (read_branch L R b)))) (\<lambda>x.
     case x of
       None \<Rightarrow> ret None
     | Some tip \<Rightarrow> bindA (has_object S tip) (\<lambda>ok. ret (if ok then None else Some (b, to_hex L tip))))"

fun somes :: "'a option list \<Rightarrow> 'a list" where
  "somes [] = []"
| "somes (None # xs) = somes xs"
| "somes (Some x # xs) = x # somes xs"

definition broken_tips :: "lib \<Rightarrow> 'w store_ops \<Rightarrow> 'w fs_view \<Rightarrow> refs \<Rightarrow> ('w, anyhow, (string \<times> string) list) act" where
  "broken_tips L S V R =
     bindA (with_context ''listing branches at startup'' (core_any (on_fs V (list_branches R)))) (\<lambda>branches.
     bindA (mapA (broken_tip L S V R) branches) (\<lambda>xs. ret (somes xs)))"

definition reconcile_refs_on_startup :: "lib \<Rightarrow> 'w store_ops \<Rightarrow> 'w fs_view \<Rightarrow> refs \<Rightarrow> ('w, anyhow, unit) act" where
  "reconcile_refs_on_startup L S V R =
     bindA (broken_tips L S V R) (\<lambda>broken.
     if broken = [] then ret ()
     else bail (''startup ref reconciliation failed: '' @
                join_with '', '' (map (\<lambda>(b, tip). b @ ''@'' @ take 16 tip) broken)))"

section \<open>Tasks\<close>

datatype task =
    Waiting request "u32 option"
  | Holding request "u32 option"
  | Rendering refs_snapshot string string
  | Answered "anyhow + response"

datatype holder = Conn nat | Drain

record 'w sched =
  sc_server :: "'w server"
  sc_lock :: "holder option"
  sc_tasks :: "task list"

definition sched_start :: "'w daemon \<Rightarrow> 'w \<Rightarrow> 'w sched" where
  "sched_start D w = \<lparr>sc_server = server_start D w, sc_lock = None, sc_tasks = []\<rparr>"

fun needs_slot :: "request \<Rightarrow> bool" where
  "needs_slot (RDiff _ _) \<longleftrightarrow> True"
| "needs_slot r \<longleftrightarrow> is_write r"

text \<open>What a request finds when it asks for a slot.\<close>

definition enter_queue :: "request \<Rightarrow> ('w server, anyhow, bool) act" where
  "enter_queue r = bindA (if is_write r then not_shutting_down else ret ()) (\<lambda>_. take_slot)"

fun entered :: "request \<Rightarrow> u32 option \<Rightarrow> anyhow + bool \<Rightarrow> task" where
  "entered r peer (Inl e) = Answered (Inl e)"
| "entered r peer (Inr False) = Answered (Inr queue_full)"
| "entered r peer (Inr True) = Waiting r peer"

definition settle :: "nat \<Rightarrow> task \<Rightarrow> holder option \<Rightarrow> 'w server \<Rightarrow> 'w sched \<Rightarrow> 'w sched" where
  "settle i t l sv s = s\<lparr>sc_server := sv, sc_lock := l, sc_tasks := (sc_tasks s)[i := t]\<rparr>"

inductive sched_step :: "lib \<Rightarrow> (timestamp \<Rightarrow> string) \<Rightarrow> 'w daemon \<Rightarrow> 'w sched \<Rightarrow> 'w sched \<Rightarrow> bool"
  for L rfc D where
  arrive: "needs_slot r \<Longrightarrow> enter_queue r (sc_server s) = (x, sv) \<Longrightarrow>
     sched_step L rfc D s (s\<lparr>sc_server := sv, sc_tasks := sc_tasks s @ [entered r peer x]\<rparr>)"
| answer: "\<not> needs_slot r \<Longrightarrow> on_data (request_work L rfc D peer ck r) (sc_server s) = (x, sv) \<Longrightarrow>
     sched_step L rfc D s (s\<lparr>sc_server := sv, sc_tasks := sc_tasks s @ [Answered x]\<rparr>)"
| acquire: "i < length (sc_tasks s) \<Longrightarrow> sc_tasks s ! i = Waiting r peer \<Longrightarrow> sc_lock s = None \<Longrightarrow>
     is_write r \<longrightarrow> check_shutdown (sc_server s) = Inr () \<Longrightarrow>
     sched_step L rfc D s (settle i (Holding r peer) (Some (Conn i)) (sc_server s) s)"
| turn_away: "i < length (sc_tasks s) \<Longrightarrow> sc_tasks s ! i = Waiting r peer \<Longrightarrow> sc_lock s = None \<Longrightarrow>
     is_write r \<Longrightarrow> check_shutdown (sc_server s) = Inl e \<Longrightarrow>
     sched_step L rfc D s (settle i (Answered (Inl e)) None (release_slot (sc_server s)) s)"
| work: "i < length (sc_tasks s) \<Longrightarrow> sc_tasks s ! i = Holding r peer \<Longrightarrow> is_write r \<Longrightarrow>
     on_data (request_work L rfc D peer ck r) (sc_server s) = (x, sv) \<Longrightarrow>
     sched_step L rfc D s (settle i (Answered x) None (release_slot sv) s)"
| freeze: "i < length (sc_tasks s) \<Longrightarrow> sc_tasks s ! i = Holding (RDiff a b) peer \<Longrightarrow>
     on_data (beside_log (freeze_refs L D)) (sc_server s) = (Inr S, sv) \<Longrightarrow>
     sched_step L rfc D s (settle i (Rendering S a b) None sv s)"
| freeze_fails: "i < length (sc_tasks s) \<Longrightarrow> sc_tasks s ! i = Holding (RDiff a b) peer \<Longrightarrow>
     on_data (beside_log (freeze_refs L D)) (sc_server s) = (Inl e, sv) \<Longrightarrow>
     sched_step L rfc D s (settle i (Answered (Inl e)) None (release_slot sv) s)"
| render: "i < length (sc_tasks s) \<Longrightarrow> sc_tasks s ! i = Rendering S a b \<Longrightarrow>
     on_data (beside_log (render_diff L D S a b)) (sc_server s) = (x, sv) \<Longrightarrow>
     sched_step L rfc D s (settle i (Answered x) (sc_lock s) (release_slot sv) s)"
| signal: "sched_step L rfc D s (s\<lparr>sc_server := (sc_server s)\<lparr>sv_shutdown := True\<rparr>\<rparr>)"
| drain: "sv_shutdown (sc_server s) \<Longrightarrow> sc_lock s = None \<Longrightarrow>
     sched_step L rfc D s (s\<lparr>sc_lock := Some Drain\<rparr>)"

inductive sched_steps :: "lib \<Rightarrow> (timestamp \<Rightarrow> string) \<Rightarrow> 'w daemon \<Rightarrow> 'w sched \<Rightarrow> 'w sched \<Rightarrow> bool"
  for L rfc D where
  stay: "sched_steps L rfc D s s"
| next_step: "sched_steps L rfc D s t \<Longrightarrow> sched_step L rfc D t u \<Longrightarrow> sched_steps L rfc D s u"

section \<open>The serial daemon\<close>

text \<open>The specification: pieces of work done one after the other, with the answers given.\<close>

datatype piece = Whole request "u32 option" clock | Freeze | Render refs_snapshot string string

fun piece_run :: "lib \<Rightarrow> (timestamp \<Rightarrow> string) \<Rightarrow> 'w daemon \<Rightarrow> piece \<Rightarrow> 'w \<times> audit_event list \<Rightarrow>
    (anyhow + response) option \<times> ('w \<times> audit_event list)" where
  "piece_run L rfc D (Whole r peer ck) x = (case request_work L rfc D peer ck r x of (a, y) \<Rightarrow> (Some a, y))"
| "piece_run L rfc D Freeze x =
     (case beside_log (freeze_refs L D) x of (a, y) \<Rightarrow> (case a of Inl e \<Rightarrow> Some (Inl e) | Inr _ \<Rightarrow> None, y))"
| "piece_run L rfc D (Render S a b) x =
     (case beside_log (render_diff L D S a b) x of (a, y) \<Rightarrow> (Some a, y))"

fun serial :: "lib \<Rightarrow> (timestamp \<Rightarrow> string) \<Rightarrow> 'w daemon \<Rightarrow> (nat \<times> piece) list \<Rightarrow> 'w \<times> audit_event list \<Rightarrow>
    (nat \<times> (anyhow + response)) list \<times> ('w \<times> audit_event list)" where
  "serial L rfc D [] x = ([], x)"
| "serial L rfc D ((i, p) # ps) x =
     (case piece_run L rfc D p x of (a, y) \<Rightarrow>
        (case serial L rfc D ps y of (as, z) \<Rightarrow> ((case a of Some q \<Rightarrow> (i, q) # as | None \<Rightarrow> as), z)))"

definition is_write_piece :: "nat \<times> piece \<Rightarrow> bool" where
  "is_write_piece p \<longleftrightarrow> (case snd p of Whole r _ _ \<Rightarrow> is_write r | _ \<Rightarrow> False)"

section \<open>Every run is serial\<close>

lemma serial_append:
  "serial L rfc D (ps @ qs) x =
     (fst (serial L rfc D ps x) @ fst (serial L rfc D qs (snd (serial L rfc D ps x))),
      snd (serial L rfc D qs (snd (serial L rfc D ps x))))"
  by (induction ps arbitrary: x) (auto split: prod.splits option.splits)

lemma on_data_fields:
  assumes "on_data m s = (x, t)"
  shows "sv_rate t = sv_rate s" "sv_slots t = sv_slots s" "sv_shutdown t = sv_shutdown s"
    "m (sv_data s) = (x, sv_data t)"
  using assms by (auto simp: on_data_def split: prod.splits)

lemma enter_queue_fields:
  assumes "enter_queue r s = (x, t)"
  shows "sv_data t = sv_data s" "sv_shutdown t = sv_shutdown s"
    "case x of Inr True \<Rightarrow> try_commit_slot (sv_slots s) = Some (sv_slots t) | _ \<Rightarrow> sv_slots t = sv_slots s"
    "x = Inl e \<Longrightarrow> check_shutdown s = Inl e"
  using assms
  by (auto simp: enter_queue_def bindA_def take_slot_def not_shutting_down_def split: if_splits option.splits sum.splits)

lemma release_slot_fields [simp]:
  "sv_data (release_slot s) = sv_data s" "sv_shutdown (release_slot s) = sv_shutdown s"
  "sv_slots (release_slot s) = drop_slot (sv_slots s)"
  by (simp_all add: release_slot_def)

lemma settle_fields [simp]:
  "sc_server (settle i t l sv s) = sv" "sc_lock (settle i t l sv s) = l"
  "sc_tasks (settle i t l sv s) = (sc_tasks s)[i := t]"
  by (simp_all add: settle_def)

text \<open>An answer that turns a request away.\<close>

definition refusal :: "anyhow + response \<Rightarrow> bool" where
  "refusal a \<longleftrightarrow> a = Inr queue_full \<or> a = Inl shutting_down"

lemma check_shutdown_iff [simp]:
  "check_shutdown s = Inl e \<longleftrightarrow> sv_shutdown s \<and> e = shutting_down" "check_shutdown s = Inr u \<longleftrightarrow> \<not> sv_shutdown s"
  by (auto simp: check_shutdown_def)

definition data_of :: "'w sched \<Rightarrow> 'w \<times> audit_event list" where
  "data_of s = sv_data (sc_server s)"

definition answered :: "'w sched \<Rightarrow> nat \<Rightarrow> anyhow + response \<Rightarrow> bool" where
  "answered s i a \<longleftrightarrow> i < length (sc_tasks s) \<and> sc_tasks s ! i = Answered a"

lemma answered_append:
  "answered (s\<lparr>sc_server := sv, sc_tasks := sc_tasks s @ [t]\<rparr>) i a \<longleftrightarrow>
     answered s i a \<or> (i = length (sc_tasks s) \<and> t = Answered a)"
  by (auto simp: answered_def nth_append)

lemma answered_settle:
  "j < length (sc_tasks s) \<Longrightarrow> answered (settle j t l sv s) i a \<longleftrightarrow> (if i = j then t = Answered a else answered s i a)"
  by (auto simp: answered_def)

lemma entered_answered: "entered r peer x = Answered a \<Longrightarrow> enter_queue r s = (x, t) \<Longrightarrow> refusal a"
  by (cases "(r, peer, x)" rule: entered.cases) (auto simp: refusal_def dest: enter_queue_fields(4))

text \<open>A write under the lock.\<close>

definition writing :: "'w sched \<Rightarrow> bool" where
  "writing s \<longleftrightarrow> (\<exists>i r peer. i < length (sc_tasks s) \<and> sc_tasks s ! i = Holding r peer \<and> is_write r)"

text \<open>One step does at most one piece of work; every new answer is that piece's, or a refusal.\<close>

lemma step_piece:
  assumes "sched_step L rfc D s t"
  obtains ps where "data_of t = snd (serial L rfc D ps (data_of s))"
    "\<And>i a. answered t i a \<Longrightarrow> answered s i a \<or> refusal a \<or> (i, a) \<in> set (fst (serial L rfc D ps (data_of s)))"
    "\<And>p. p \<in> set ps \<Longrightarrow> is_write_piece p \<Longrightarrow> writing s \<and> sc_lock t = None"
    "length ps \<le> 1"
  using assms
proof (cases rule: sched_step.cases)
  case (arrive r x sv peer)
  show ?thesis
    by (rule that [of "[]"])
      (use arrive enter_queue_fields(1) [OF arrive(3)] entered_answered [OF _ arrive(3)]
        in \<open>auto simp: data_of_def answered_append\<close>)
next
  case (answer r peer ck x sv)
  show ?thesis
    by (rule that [of "[(length (sc_tasks s), Whole r peer ck)]"])
      (use answer on_data_fields(4) [OF answer(3)] in \<open>auto simp: data_of_def answered_append is_write_piece_def elim: needs_slot.elims\<close>)
next
  case (acquire i r peer)
  show ?thesis by (rule that [of "[]"]) (use acquire in \<open>auto simp: data_of_def answered_settle split: if_splits\<close>)
next
  case (turn_away i r peer e)
  show ?thesis
    by (rule that [of "[]"]) (use turn_away in \<open>auto simp: data_of_def answered_settle refusal_def split: if_splits\<close>)
next
  case (work i r peer ck x sv)
  show ?thesis
    by (rule that [of "[(i, Whole r peer ck)]"])
      (use work on_data_fields(4) [OF work(5)] in \<open>auto simp: data_of_def answered_settle writing_def split: if_splits\<close>)
next
  case (freeze i a b peer S sv)
  show ?thesis
    by (rule that [of "[(i, Freeze)]"])
      (use freeze on_data_fields(4) [OF freeze(4)] in \<open>auto simp: data_of_def answered_settle is_write_piece_def split: if_splits\<close>)
next
  case (freeze_fails i a b peer e sv)
  show ?thesis
    by (rule that [of "[(i, Freeze)]"])
      (use freeze_fails on_data_fields(4) [OF freeze_fails(4)] in \<open>auto simp: data_of_def answered_settle is_write_piece_def split: if_splits\<close>)
next
  case (render i S a b x sv)
  show ?thesis
    by (rule that [of "[(i, Render S a b)]"])
      (use render on_data_fields(4) [OF render(4)] in \<open>auto simp: data_of_def answered_settle is_write_piece_def split: if_splits\<close>)
next
  case signal
  show ?thesis by (rule that [of "[]"]) (use signal in \<open>auto simp: data_of_def answered_def\<close>)
next
  case drain
  show ?thesis by (rule that [of "[]"]) (use drain in \<open>auto simp: data_of_def answered_def\<close>)
qed

section \<open>Slots and the lock\<close>

fun holding :: "task \<Rightarrow> bool" where
  "holding (Holding _ _) \<longleftrightarrow> True"
| "holding _ \<longleftrightarrow> False"

fun active :: "task \<Rightarrow> bool" where
  "active (Answered _) \<longleftrightarrow> False"
| "active _ \<longleftrightarrow> True"

definition queued :: "'w sched \<Rightarrow> nat" where
  "queued s = length (filter active (sc_tasks s))"

definition sched_inv :: "'w daemon \<Rightarrow> 'w sched \<Rightarrow> bool" where
  "sched_inv D s \<longleftrightarrow>
     sl_permits (sv_slots (sc_server s)) + queued s = sl_permits (d_slots D) \<and>
     sl_depth (sv_slots (sc_server s)) = sl_depth (d_slots D) + queued s \<and>
     (\<forall>i. sc_lock s = Some (Conn i) \<longleftrightarrow> i < length (sc_tasks s) \<and> holding (sc_tasks s ! i))"

lemma filter_update:
  "i < length ts \<Longrightarrow> active (ts ! i) \<Longrightarrow>
     length (filter active ts) = length (filter active (ts[i := t])) + (if active t then 0 else 1)"
proof -
  assume i: "i < length ts" "active (ts ! i)"
  have "length (filter active ts) = length (filter active (take i ts @ ts ! i # drop (Suc i) ts))"
    using id_take_nth_drop [OF i(1)] by simp
  moreover have "ts[i := t] = take i ts @ t # drop (Suc i) ts" by (rule upd_conv_take_nth_drop [OF i(1)])
  ultimately show ?thesis using i(2) by simp
qed

lemma drop_slot_fields [simp]:
  "sl_permits (drop_slot s) = Suc (sl_permits s)" "sl_depth (drop_slot s) = sl_depth s - 1"
  by (simp_all add: drop_slot_def)

text \<open>An active task that stays active, or is done and gives its slot back.\<close>

lemma settle_active:
  assumes "sched_inv D s" "i < length (sc_tasks s)" "active (sc_tasks s ! i)" "active t"
    "sv_slots sv = sv_slots (sc_server s)"
    "\<And>j. l = Some (Conn j) \<longleftrightarrow> j < length (sc_tasks s) \<and> holding ((sc_tasks s)[i := t] ! j)"
  shows "sched_inv D (settle i t l sv s)"
  using assms filter_update [OF assms(2, 3), of t] by (simp add: sched_inv_def queued_def)

lemma settle_done:
  assumes "sched_inv D s" "i < length (sc_tasks s)" "active (sc_tasks s ! i)"
    "sv_slots sv = sv_slots (sc_server s)"
    "\<And>j. l = Some (Conn j) \<longleftrightarrow> j < length (sc_tasks s) \<and> holding ((sc_tasks s)[i := Answered a] ! j)"
  shows "sched_inv D (settle i (Answered a) l (release_slot sv) s)"
  using assms filter_update [OF assms(2, 3), of "Answered a"] by (simp add: sched_inv_def queued_def)

lemma lock_iff: "sched_inv D s \<Longrightarrow> sc_lock s = Some (Conn j) \<longleftrightarrow> j < length (sc_tasks s) \<and> holding (sc_tasks s ! j)"
  unfolding sched_inv_def by blast

lemma lock_freed:
  assumes "sched_inv D s" "i < length (sc_tasks s)" "sc_lock s \<in> {None, Some (Conn i)}" "\<not> holding t"
  shows "None = Some (Conn j) \<longleftrightarrow> j < length (sc_tasks s) \<and> holding ((sc_tasks s)[i := t] ! j)"
  using assms(2-4) lock_iff [OF assms(1), of j] by (cases "j = i") auto

lemma holds_lock:
  assumes "sched_inv D s" "i < length (sc_tasks s)" "sc_tasks s ! i = Holding r peer"
  shows "sc_lock s = Some (Conn i)"
  using assms(2, 3) lock_iff [OF assms(1), of i] by simp

lemma slot_taken: "try_commit_slot s = Some t \<Longrightarrow> sl_permits s = Suc (sl_permits t) \<and> sl_depth t = Suc (sl_depth s)"
  by (cases s; cases t) (auto simp: try_commit_slot_def split: if_splits)

lemma new_task_inv:
  assumes "sched_inv D s" "\<not> holding t"
    "sl_permits (sv_slots sv) + (if active t then 1 else 0) = sl_permits (sv_slots (sc_server s))"
    "sl_depth (sv_slots sv) = sl_depth (sv_slots (sc_server s)) + (if active t then 1 else 0)"
  shows "sched_inv D (s\<lparr>sc_server := sv, sc_tasks := sc_tasks s @ [t]\<rparr>)"
proof -
  have "sc_lock s = Some (Conn j) \<longleftrightarrow> j < Suc (length (sc_tasks s)) \<and> holding ((sc_tasks s @ [t]) ! j)" for j
    using lock_iff [OF assms(1), of j] assms(2) by (auto simp: nth_append less_Suc_eq)
  moreover have "length (filter active (sc_tasks s @ [t])) = length (filter active (sc_tasks s)) + (if active t then 1 else 0)"
    by simp
  ultimately show ?thesis
    using assms(1, 3, 4) unfolding sched_inv_def queued_def by (cases "active t") simp_all
qed

lemma step_inv: "sched_step L rfc D s t \<Longrightarrow> sched_inv D s \<Longrightarrow> sched_inv D t"
proof (induction rule: sched_step.induct)
  case (arrive r s x sv peer)
  note q = enter_queue_fields(3) [OF arrive(2)]
  show ?case
  proof (rule new_task_inv [OF arrive(3)])
    show "\<not> holding (entered r peer x)" by (cases "(r, peer, x)" rule: entered.cases) simp_all
    show "sl_permits (sv_slots sv) + (if active (entered r peer x) then 1 else 0) = sl_permits (sv_slots (sc_server s))"
      "sl_depth (sv_slots sv) = sl_depth (sv_slots (sc_server s)) + (if active (entered r peer x) then 1 else 0)"
      using q by (cases "(r, peer, x)" rule: entered.cases; auto dest!: slot_taken)+
  qed
next
  case (answer r peer ck s x sv)
  then show ?case using on_data_fields(2) [OF answer(2)] by (intro new_task_inv) simp_all
next
  case (acquire i s r peer)
  have "Some (Conn i) = Some (Conn j) \<longleftrightarrow> j < length (sc_tasks s) \<and> holding ((sc_tasks s)[i := Holding r peer] ! j)" for j
    using acquire(1-3) lock_iff [OF acquire(5), of j] by (cases "j = i") auto
  with acquire show ?case by (intro settle_active) simp_all
next
  case (turn_away i s r peer e)
  then show ?case by (intro settle_done lock_freed) simp_all
next
  case (work i s r peer ck x sv)
  have "sc_lock s = Some (Conn i)" using holds_lock work by blast
  with work on_data_fields(2) [OF work(4)] show ?case by (intro settle_done lock_freed) simp_all
next
  case (freeze i s a b peer S sv)
  have "sc_lock s = Some (Conn i)" using holds_lock freeze by blast
  with freeze on_data_fields(2) [OF freeze(3)] show ?case by (intro settle_active lock_freed) simp_all
next
  case (freeze_fails i s a b peer e sv)
  have "sc_lock s = Some (Conn i)" using holds_lock freeze_fails by blast
  with freeze_fails on_data_fields(2) [OF freeze_fails(3)] show ?case by (intro settle_done lock_freed) simp_all
next
  case (render i s S a b x sv)
  have "sc_lock s = Some (Conn j) \<longleftrightarrow> j < length (sc_tasks s) \<and> holding ((sc_tasks s)[i := Answered x] ! j)" for j
    using render(1, 2) lock_iff [OF render(4), of j] by (cases "j = i") auto
  with render on_data_fields(2) [OF render(3)] show ?case by (intro settle_done) simp_all
next
  case (signal s)
  then show ?case by (simp add: sched_inv_def queued_def)
next
  case (drain s)
  then show ?case by (simp add: sched_inv_def queued_def)
qed

lemma steps_inv: "sched_steps L rfc D s t \<Longrightarrow> sched_inv D s \<Longrightarrow> sched_inv D t"
  by (induction rule: sched_steps.induct) (auto intro: step_inv)

lemma start_inv [simp]: "sched_inv D (sched_start D w)"
  by (simp add: sched_inv_def sched_start_def server_start_def queued_def)

lemma steps_serial:
  assumes "sched_steps L rfc D s t"
  shows "\<exists>hist. data_of t = snd (serial L rfc D hist (data_of s)) \<and>
     (\<forall>i a. answered t i a \<longrightarrow> answered s i a \<or> refusal a \<or> (i, a) \<in> set (fst (serial L rfc D hist (data_of s))))"
  using assms
proof (induction rule: sched_steps.induct)
  case (stay s)
  show ?case by (rule exI [of _ "[]"]) simp
next
  case (next_step s t u)
  obtain hist where h: "data_of t = snd (serial L rfc D hist (data_of s))"
    "\<And>i a. answered t i a \<Longrightarrow> answered s i a \<or> refusal a \<or> (i, a) \<in> set (fst (serial L rfc D hist (data_of s)))"
    using next_step.IH by blast
  obtain ps where p: "data_of u = snd (serial L rfc D ps (data_of t))"
    "\<And>i a. answered u i a \<Longrightarrow> answered t i a \<or> refusal a \<or> (i, a) \<in> set (fst (serial L rfc D ps (data_of t)))"
    by (rule step_piece [OF next_step.hyps(2)]) blast
  show ?case
  proof (rule exI [of _ "hist @ ps"], intro conjI allI impI)
    show "data_of u = snd (serial L rfc D (hist @ ps) (data_of s))" using h(1) p(1) by (simp add: serial_append)
    fix i a assume "answered u i a"
    from p(2) [OF this] show "answered s i a \<or> refusal a \<or> (i, a) \<in> set (fst (serial L rfc D (hist @ ps) (data_of s)))"
      using h by (auto simp: serial_append)
  qed
qed

lemma writing_lock: "sched_inv D s \<Longrightarrow> writing s \<Longrightarrow> \<exists>i. sc_lock s = Some (Conn i)"
  unfolding writing_def using holds_lock by blast

lemma shutdown_step:
  assumes "sched_step L rfc D s t" "sv_shutdown (sc_server s)"
  shows "sv_shutdown (sc_server t) \<and> (writing t \<longrightarrow> writing s) \<and> (sc_lock s = Some Drain \<longrightarrow> sched_inv D s \<longrightarrow> sc_lock t = Some Drain)"
  using assms
proof (induction rule: sched_step.induct)
  case (arrive r s x sv peer)
  have "entered r peer x \<noteq> Holding r' p" for r' p by (cases "(r, peer, x)" rule: entered.cases) simp_all
  with arrive enter_queue_fields(2) [OF arrive(2)] show ?case by (auto simp: writing_def nth_append less_Suc_eq)
next
  case (answer r peer ck s x sv)
  then show ?case using on_data_fields(3) [OF answer(2)] by (auto simp: writing_def nth_append less_Suc_eq)
next
  case (acquire i s r peer)
  then show ?case by (auto simp: writing_def nth_list_update split: if_splits)
next
  case (turn_away i s r peer e)
  then show ?case by (auto simp: writing_def nth_list_update split: if_splits)
next
  case (work i s r peer ck x sv)
  have "sched_inv D s \<Longrightarrow> sc_lock s = Some (Conn i)" using holds_lock work by blast
  with work on_data_fields(3) [OF work(4)] show ?case by (auto simp: writing_def nth_list_update split: if_splits)
next
  case (freeze i s a b peer S sv)
  have "sched_inv D s \<Longrightarrow> sc_lock s = Some (Conn i)" using holds_lock freeze by blast
  with freeze on_data_fields(3) [OF freeze(3)] show ?case by (auto simp: writing_def nth_list_update split: if_splits)
next
  case (freeze_fails i s a b peer e sv)
  have "sched_inv D s \<Longrightarrow> sc_lock s = Some (Conn i)" using holds_lock freeze_fails by blast
  with freeze_fails on_data_fields(3) [OF freeze_fails(3)] show ?case by (auto simp: writing_def nth_list_update split: if_splits)
next
  case (render i s S a b x sv)
  with on_data_fields(3) [OF render(3)] show ?case by (auto simp: writing_def nth_list_update split: if_splits)
next
  case (signal s)
  then show ?case by (simp add: writing_def)
next
  case (drain s)
  then show ?case by (simp add: writing_def)
qed

lemma shutdown_writes:
  assumes "sched_steps L rfc D s t" "sched_inv D s" "sv_shutdown (sc_server s)"
  shows "sv_shutdown (sc_server t) \<and> (\<exists>hist. data_of t = snd (serial L rfc D hist (data_of s)) \<and>
     length (filter is_write_piece hist) + of_bool (writing t) \<le> (of_bool (writing s) :: nat))"
  using assms
proof (induction rule: sched_steps.induct)
  case (stay s)
  show ?case using stay by (intro conjI exI [of _ "[]"]) simp_all
next
  case (next_step s t u)
  then obtain hist where h: "sv_shutdown (sc_server t)" "data_of t = snd (serial L rfc D hist (data_of s))"
    "length (filter is_write_piece hist) + of_bool (writing t) \<le> (of_bool (writing s) :: nat)" by blast
  have inv: "sched_inv D t" "sched_inv D u" using next_step steps_inv step_inv by blast+
  obtain ps where p: "data_of u = snd (serial L rfc D ps (data_of t))" "length ps \<le> 1"
    "\<And>x. x \<in> set ps \<Longrightarrow> is_write_piece x \<Longrightarrow> writing t \<and> sc_lock u = None"
    by (rule step_piece [OF next_step.hyps(2)]) blast
  note sd = shutdown_step [OF next_step.hyps(2) h(1)]
  have one: "length (filter is_write_piece ps) + of_bool (writing u) \<le> (of_bool (writing t) :: nat)"
  proof (cases "filter is_write_piece ps = []")
    case True
    then show ?thesis using sd by auto
  next
    case False
    then obtain x where "x \<in> set ps" "is_write_piece x" by (auto simp: filter_empty_conv)
    with p(3) have "writing t" "sc_lock u = None" by blast+
    moreover then have "\<not> writing u" using writing_lock [OF inv(2)] by auto
    moreover have "length (filter is_write_piece ps) \<le> 1" using p(2) le_trans [OF length_filter_le] by blast
    ultimately show ?thesis by simp
  qed
  show ?case
    using sd h p(1) one by (intro conjI exI [of _ "hist @ ps"]) (simp_all add: serial_append)
qed

text \<open>Only requests that need a slot are ever queued.\<close>

definition queued_need :: "'w sched \<Rightarrow> bool" where
  "queued_need s \<longleftrightarrow> (\<forall>t r peer. t \<in> set (sc_tasks s) \<longrightarrow> t = Waiting r peer \<or> t = Holding r peer \<longrightarrow> needs_slot r)"

lemma queued_need_update:
  "queued_need s \<Longrightarrow> (\<And>r peer. t = Waiting r peer \<or> t = Holding r peer \<Longrightarrow> needs_slot r) \<Longrightarrow> queued_need (settle i t l sv s)"
  using set_update_subset_insert [of "sc_tasks s" i t] unfolding queued_need_def settle_fields by blast

lemma queued_need_step: "sched_step L rfc D s t \<Longrightarrow> queued_need s \<Longrightarrow> queued_need t"
proof (induction rule: sched_step.induct)
  case (arrive r s x sv peer)
  then show ?case by (cases "(r, peer, x)" rule: entered.cases) (auto simp: queued_need_def)
next
  case (answer r peer ck s x sv)
  then show ?case by (auto simp: queued_need_def)
next
  case (acquire i s r peer)
  then have "needs_slot r" unfolding queued_need_def by (metis nth_mem)
  with acquire show ?case by (intro queued_need_update) auto
next
  case (signal s)
  then show ?case by (simp add: queued_need_def)
next
  case (drain s)
  then show ?case by (simp add: queued_need_def)
qed (auto intro!: queued_need_update)

lemma queued_need_steps: "sched_steps L rfc D s t \<Longrightarrow> queued_need s \<Longrightarrow> queued_need t"
  by (induction rule: sched_steps.induct) (auto intro: queued_need_step)

text \<open>The holder of the lock can always finish.\<close>

lemma lock_released:
  assumes "sched_inv D s" "queued_need s" "sc_lock s = Some (Conn i)"
  obtains t where "sched_step L rfc D s t" "sc_lock t = None"
proof -
  have i: "i < length (sc_tasks s)" "holding (sc_tasks s ! i)" using assms(1, 3) lock_iff by blast+
  then obtain r peer where t: "sc_tasks s ! i = Holding r peer" by (cases "sc_tasks s ! i") auto
  then have need: "needs_slot r" using assms(2) i(1) unfolding queued_need_def by (metis nth_mem)
  show thesis
  proof (cases "is_write r")
    case True
    obtain x sv where "on_data (request_work L rfc D peer undefined r) (sc_server s) = (x, sv)" by (rule prod.exhaust)
    from sched_step.work [OF i(1) t True this] show thesis by (rule that) simp
  next
    case False
    then obtain a b where r: "r = RDiff a b" using need by (cases r) auto
    obtain x sv where x: "on_data (beside_log (freeze_refs L D)) (sc_server s) = (x, sv)" by (rule prod.exhaust)
    show thesis
    proof (cases x)
      case (Inl e)
      show thesis by (rule that [OF sched_step.freeze_fails [OF i(1) t [unfolded r] x [unfolded Inl]]]) simp
    next
      case (Inr S)
      show thesis by (rule that [OF sched_step.freeze [OF i(1) t [unfolded r] x [unfolded Inr]]]) simp
    qed
  qed
qed

lemma can_drain:
  assumes "sched_inv D s" "queued_need s" "sv_shutdown (sc_server s)"
  shows "\<exists>t. sched_steps L rfc D s t \<and> sc_lock t = Some Drain"
proof (cases "sc_lock s")
  case None
  then show ?thesis using next_step [OF stay drain] assms(3) by fastforce
next
  case (Some h)
  show ?thesis
  proof (cases h)
    case Drain
    then show ?thesis using Some stay by blast
  next
    case (Conn i)
    obtain t where t: "sched_step L rfc D s t" "sc_lock t = None"
      using lock_released [OF assms(1, 2)] Some Conn by blast
    have "sv_shutdown (sc_server t)" using shutdown_step [OF t(1) assms(3)] by blast
    with t(2) have "sched_step L rfc D t (t\<lparr>sc_lock := Some Drain\<rparr>)" by (intro drain)
    from next_step [OF next_step [OF stay t(1)] this]
    have "sched_steps L rfc D s (t\<lparr>sc_lock := Some Drain\<rparr>)" .
    moreover have "sc_lock (t\<lparr>sc_lock := Some Drain\<rparr>) = Some Drain" by simp
    ultimately show ?thesis by blast
  qed
qed

text \<open>A single write request, from its arrival to its answer.\<close>

lemma lone_write:
  assumes "is_write r" "sl_permits (d_slots D) \<noteq> 0" "request_work L rfc D peer ck r (w, []) = (x, y)"
  obtains s where "sched_steps L rfc D (sched_start D w) s" "sc_tasks s = [Answered x]" "data_of s = y"
    "sc_lock s = None" "\<not> sv_shutdown (sc_server s)"
proof -
  let ?s0 = "sched_start D w"
  let ?sv0 = "server_start D w"
  obtain sl where sl: "try_commit_slot (d_slots D) = Some sl" using assms(2) by (simp add: try_commit_slot_def)
  define sv1 where "sv1 = ?sv0\<lparr>sv_slots := sl\<rparr>"
  have need: "needs_slot r" using assms(1) by (cases r) simp_all
  have "enter_queue r (sc_server ?s0) = (Inr True, sv1)"
    using assms(1) sl by (simp add: enter_queue_def not_shutting_down_def check_shutdown_def bindA_def take_slot_def
        sched_start_def server_start_def sv1_def)
  from arrive [OF need this, of L rfc D peer]
  have 1: "sched_step L rfc D ?s0 \<lparr>sc_server = sv1, sc_lock = None, sc_tasks = [Waiting r peer]\<rparr>"
    by (simp add: sched_start_def)
  have open1: "check_shutdown sv1 = Inr ()" by (simp add: check_shutdown_def sv1_def server_start_def)
  have 2: "sched_step L rfc D \<lparr>sc_server = sv1, sc_lock = None, sc_tasks = [Waiting r peer]\<rparr>
      \<lparr>sc_server = sv1, sc_lock = Some (Conn 0), sc_tasks = [Holding r peer]\<rparr>"
    using acquire [of 0 "\<lparr>sc_server = sv1, sc_lock = None, sc_tasks = [Waiting r peer]\<rparr>" r peer L rfc D] open1
    by (simp add: settle_def)
  define sv2 where "sv2 = sv1\<lparr>sv_data := y\<rparr>"
  have "on_data (request_work L rfc D peer ck r) sv1 = (x, sv2)"
    using assms(3) by (simp add: on_data_def sv1_def sv2_def server_start_def)
  then have 3: "sched_step L rfc D \<lparr>sc_server = sv1, sc_lock = Some (Conn 0), sc_tasks = [Holding r peer]\<rparr>
      \<lparr>sc_server = release_slot sv2, sc_lock = None, sc_tasks = [Answered x]\<rparr>"
    using work [of 0 "\<lparr>sc_server = sv1, sc_lock = Some (Conn 0), sc_tasks = [Holding r peer]\<rparr>" r peer L rfc D ck x sv2] assms(1)
    by (simp add: settle_def)
  show thesis
    by (rule that [OF next_step [OF next_step [OF next_step [OF stay 1] 2] 3]])
      (simp_all add: data_of_def sv2_def sv1_def server_start_def)
qed

section \<open>Properties\<close>





end
