(* ===== verification/Recovery.thy ===== *)
theory Recovery
  imports Lifecycle
begin

text \<open>
  What the ordering of a commit buys: under every interleaving of requests and every failure,
  crashes included, no branch ever names a commit that is not in the store, so the
  reconciliation of the next start finds nothing to complain about.
\<close>

section \<open>Tips and the objects they name\<close>

text \<open>The hash a ref file is read as.\<close>

definition line_hash :: "lib \<Rightarrow> bytes \<Rightarrow> hash option" where
  "line_hash L c =
     (if utf8_ok c then (case hash_from_str L (str_trim (bytes_str c)) of Inr h \<Rightarrow> Some h | Inl _ \<Rightarrow> None) else None)"

definition present :: "lib \<Rightarrow> refs \<Rightarrow> allowlist \<Rightarrow> fs \<Rightarrow> hash \<Rightarrow> bool" where
  "present L R al s h \<longleftrightarrow> path_exists s (path_for L (beside R al) h)"

definition tips_ok :: "lib \<Rightarrow> refs \<Rightarrow> allowlist \<Rightarrow> fs \<Rightarrow> bool" where
  "tips_ok L R al s \<longleftrightarrow>
     (\<forall>b p c h. branch_path R b = Inr p \<and> map_of (entries s) p = Some (FFile c) \<and> line_hash L c = Some h \<longrightarrow>
        present L R al s h)"

lemma line_hash_hex [simp]: "hex_law L \<Longrightarrow> line_hash L (str_bytes (to_hex L h @ newline)) = Some h"
  using hex_line [of L h] hash_from_str_to_hex [of L h] by (simp add: line_hash_def del: str_bytes_append)

text \<open>The refs keep their content, and what is in the store stays there.\<close>

definition grows :: "lib \<Rightarrow> refs \<Rightarrow> allowlist \<Rightarrow> fs \<Rightarrow> fs \<Rightarrow> bool" where
  "grows L R al s t \<longleftrightarrow> (\<forall>h. present L R al s h \<longrightarrow> present L R al t h)"

definition steady :: "lib \<Rightarrow> refs \<Rightarrow> allowlist \<Rightarrow> fs \<Rightarrow> fs \<Rightarrow> bool" where
  "steady L R al s t \<longleftrightarrow> ref_same R s t \<and> grows L R al s t"

lemma grows_rel [simp]: "reflp (grows L R al)" "transp (grows L R al)"
  by (auto simp: grows_def reflp_def transp_def)

lemma steady_rel [simp]: "reflp (steady L R al)" "transp (steady L R al)"
proof -
  show "reflp (steady L R al)"
    using ref_same_rel(1) [of R] grows_rel(1) [of L R al] by (simp add: reflp_def steady_def)
  show "transp (steady L R al)"
    using ref_same_rel(2) [of R] grows_rel(2) [of L R al] unfolding transp_def steady_def by blast
qed

lemma keeps_steady: "keeps (ref_same R) m \<Longrightarrow> keeps (grows L R al) m \<Longrightarrow> keeps (steady L R al) m"
  by (simp add: keeps_def steady_def)

lemma present_frame:
  assumes "frame P s t" "\<not> P (path_for L (beside R al) h)" "present L R al s h"
  shows "present L R al t h"
proof -
  let ?p = "path_for L (beside R al) h"
  obtain e where e: "map_of (entries s) ?p = Some e" "e \<noteq> FLink"
    using assms(3) by (cases "map_of (entries s) ?p") (auto simp: present_def path_exists_def lookup_map_of split: entry.splits)
  from frame_file [OF assms(1, 2) e(1)] e(2) show ?thesis
    by (cases e) (simp_all add: present_def path_exists_def lookup_map_of)
qed

lemma frame_grows: "frame P s t \<Longrightarrow> (\<And>h. \<not> P (path_for L (beside R al) h)) \<Longrightarrow> grows L R al s t"
  unfolding grows_def using present_frame by blast

lemma frame_steady:
  assumes "keeps (frame P) m" "\<And>q. ref_file R q \<Longrightarrow> \<not> P q" "\<And>h. \<not> P (path_for L (beside R al) h)"
  shows "keeps (steady L R al) m"
  unfolding keeps_def
proof
  fix s
  have f: "frame P s (snd (m s))" using assms(1) by (simp add: keeps_def)
  show "steady L R al s (snd (m s))"
    unfolding steady_def ref_same_def using frame_moved [OF f assms(2)] frame_grows [OF f assms(3)] ..
qed

lemma write_if_absent_grows:
  assumes "hex_law L"
  shows "keeps (grows L R al) (write_if_absent L (path_for L (beside R al) h) bs)"
  unfolding keeps_def
proof
  fix s
  let ?m = "write_if_absent L (path_for L (beside R al) h) bs"
  have f: "frame (address_of L (beside R al) h) s (snd (?m s))" using write_if_absent_frame by (simp add: keeps_def)
  show "grows L R al s (snd (?m s))"
  proof (cases "path_exists s (path_for L (beside R al) h)")
    case True
    then show ?thesis by (simp add: write_if_absent_def reflpD [OF grows_rel(1)])
  next
    case False
    show ?thesis
      unfolding grows_def
    proof (intro allI impI)
      fix k assume k: "present L R al s k"
      with False have "k \<noteq> h" by (auto simp: present_def)
      then have "\<not> address_of L (beside R al) h (path_for L (beside R al) k)"
        using assms tmp_not_path_for [OF assms, of "beside R al" h k] by (auto simp: address_of_def path_for_inj)
      from present_frame [OF f this k] show "present L R al (snd (?m s)) k" .
    qed
  qed
qed

lemma store_steady:
  assumes "hex_law L"
  shows "keeps (steady L R al) (st_put (fs_store_ops L (beside R al)) x p)"
    "keeps (steady L R al) (st_put_raw (fs_store_ops L (beside R al)) k bs)"
    "keeps (steady L R al) (st_get (fs_store_ops L (beside R al)) h)"
    "keeps (steady L R al) (st_get_raw (fs_store_ops L (beside R al)) h)"
proof -
  have "keeps (grows L R al) (put_with_policy L (beside R al) x p)" "keeps (grows L R al) (put_raw L (beside R al) k bs)"
    unfolding put_with_policy_def put_raw_def Let_def
    by (intro keeps_bindA keeps_basic write_if_absent_grows [OF assms] grows_rel)+
  then show "keeps (steady L R al) (st_put (fs_store_ops L (beside R al)) x p)"
    "keeps (steady L R al) (st_put_raw (fs_store_ops L (beside R al)) k bs)"
    using fs_store_files(1, 2) [OF assms] by (auto intro: keeps_steady simp: fs_store_ops_def)
  show "keeps (steady L R al) (st_get (fs_store_ops L (beside R al)) h)"
    "keeps (steady L R al) (st_get_raw (fs_store_ops L (beside R al)) h)"
    using frame_steady [OF store_get_frame [of "\<lambda>_. False"]] frame_steady [OF get_raw_frame [of "\<lambda>_. False"]]
    by (simp_all add: fs_store_ops_def)
qed

lemma put_present:
  assumes "hex_law L" "zstd_law L" "st_put (fs_store_ops L (beside R al)) x p s = (Inr h, t)"
  shows "present L R al t h"
proof -
  have w: "write_if_absent L (path_for L (beside R al) h) (object_bytes L x) s = (Inr (), t)"
    using assms(3) put_with_policy_okE by (fastforce simp: fs_store_ops_def)
  show ?thesis
  proof (cases "path_exists s (path_for L (beside R al) h)")
    case True
    with w show ?thesis by (simp add: write_if_absent_def present_def)
  next
    case False
    from write_if_absent_ok [OF assms(1, 2) w this] show ?thesis
      unfolding present_def by (rule stored_exists)
  qed
qed

lemma tips_moved:
  assumes "tips_ok L R al s" "ref_moved R W s t" "grows L R al s t"
    and "\<And>b p c h. branch_path R b = Inr p \<Longrightarrow> (p, c) \<in> W \<Longrightarrow> line_hash L c = Some h \<Longrightarrow> present L R al t h"
  shows "tips_ok L R al t"
  unfolding tips_ok_def
proof (intro allI impI, elim conjE)
  fix b p c h assume b: "branch_path R b = Inr p" "map_of (entries t) p = Some (FFile c)" "line_hash L c = Some h"
  have "ref_file R p" using b(1) by (auto simp: ref_file_def)
  with assms(2) b(2) have "map_of (entries s) p = Some (FFile c) \<or> (p, c) \<in> W" by (simp add: ref_moved_def)
  with assms(1, 3, 4) b show "present L R al t h" unfolding tips_ok_def grows_def by blast
qed

lemma tips_steady: "tips_ok L R al s \<Longrightarrow> steady L R al s t \<Longrightarrow> tips_ok L R al t"
  using tips_moved [where W = "{}"] by (simp add: steady_def ref_same_def)

section \<open>Requests keep the tips\<close>

text \<open>Staging keeps what every put keeps.\<close>

lemma stage_keeps:
  assumes "reflp Q" "transp Q" "\<And>x p. keeps Q (st_put S x p)"
  shows "keeps Q (stage_blobs S i now)"
proof -
  have put: "keeps Q (put_default S x)" for x
    unfolding put_default_def by (rule assms(3))
  have entries: "keeps Q (stage_entries S ex es t)" for ex es t
    by (induction es arbitrary: t) (auto intro!: keeps_rules assms)
  have trees: "keeps Q (stage_blob_tree S es ex)" for es ex
    unfolding stage_blob_tree_def by (auto intro!: keeps_rules entries put assms)
  have opt: "keeps Q (stage_optional_blob S b)" for b
    unfolding stage_optional_blob_def by (cases b) (auto intro!: keeps_rules put assms)
  show ?thesis
    unfolding stage_blobs_def by (intro keeps_rules trees opt assms)
qed

lemma write_head_frame: "keeps (frame (ref_paths (head_path R))) (write_head_symbolic R b)"
  unfolding write_head_symbolic_def write_atomic_def
  by (intro keeps_rules keeps_replace_file transp_frame reflp_frame) (simp_all add: ref_paths_def)

lemma preserves_ignore: "preserves I m \<Longrightarrow> preserves I (ignore_error m)"
  by (simp add: preserves_def ignore_error_def)

text \<open>Listing and snapshotting the refs only reads, and so does a diff.\<close>

lemma read_dir_entries: "keeps same_entries (fs_read_dir p)"
proof -
  have "entries t = entries s" if "fs_read_dir p s = (r, t)" for r s t
    using that unfolding fs_read_dir_def
    by (cases rule: prim_cases [of whole "read_dir_e p" s]) (auto simp: whole_def)
  then show ?thesis unfolding keeps_def same_entries_def by (metis prod.collapse)
qed

lemma collect_entries: "keeps same_entries (collect_branch_files n base d)"
proof (induction n arbitrary: d)
  case 0
  show ?case unfolding collect_branch_files.simps by (rule keeps_basic(2) [OF same_entries_rel(1)])
next
  case (Suc n)
  then show ?case
    unfolding collect_branch_files.simps
    by (intro keeps_rules read_dir_entries same_entries_rel) (auto intro!: keeps_rules split: entry.splits)
qed

lemma list_entries: "keeps same_entries (list_branches R)" "keeps same_entries (snapshot L R)"
proof -
  show list: "keeps same_entries (list_branches R)"
    using collect_entries
    by (simp add: keeps_def list_branches_def same_entries_def del: collect_branch_files.simps)
  have "keeps same_entries (snapshot_branches L R ns acc)" for ns acc
  proof (induction ns arbitrary: acc)
    case Nil
    show ?case unfolding snapshot_branches.simps by (rule keeps_basic(1) [OF same_entries_rel(1)])
  next
    case (Cons n ns)
    then show ?case unfolding snapshot_branches.simps by (intro keeps_rules refs_entries same_entries_rel)
  qed
  then show "keeps same_entries (snapshot L R)"
    unfolding snapshot_def by (intro keeps_rules list refs_entries same_entries_rel)
qed

lemma keeps_diff:
  assumes "reflp Q" "transp Q" "\<And>h. keeps Q (st_get S h)"
  shows "keeps Q (diff S a b)" "keeps Q (walk_log S a n)"
proof -
  have load: "keeps Q (load_commit S h)" "keeps Q (load_tree S h)" "keeps Q (load_blob S h)" for h
    unfolding load_commit_def load_tree_def load_blob_def
    by (auto intro!: keeps_rules assms split: obj.splits)
  have entries: "keeps Q (load_entries S x)" for x
    unfolding load_entries_def by (auto intro!: keeps_rules load assms split: option.splits)
  have tree: "keeps Q (diff_tree S x y)" for x y
    unfolding diff_tree_def Let_def by (auto intro!: keeps_rules entries assms)
  have str: "keeps Q (model_string S x)" for x
    unfolding model_string_def by (auto intro!: keeps_rules load assms split: option.splits)
  have model: "keeps Q (diff_model_blob S x y)" for x y
    unfolding diff_model_blob_def by (auto intro!: keeps_rules str assms)
  show "keeps Q (diff S a b)"
    unfolding diff_def by (intro keeps_rules load tree model assms)
  have none: "keeps Q (walk_from S m None)" for m
    unfolding walk_from.simps by (rule keeps_basic(1) [OF assms(1)])
  have "keeps Q (walk_from S n x)" for n x
  proof (induction n arbitrary: x)
    case 0
    show ?case by (cases x) (simp_all only: none walk_from.simps keeps_basic(1) [OF assms(1)])
  next
    case (Suc n)
    show ?case
    proof (cases x)
      case (Some h)
      then show ?thesis
        unfolding Some walk_from.simps by (auto intro!: keeps_rules assms Suc.IH split: obj.splits)
    qed (simp only: none)
  qed
  then show "keeps Q (walk_log S a n)" unfolding walk_log_def .
qed

text \<open>The layout of \<open>main.rs\<close>: the daemon's files are in \<open>.agentic\<close> of the repository.\<close>

definition agentic_layout :: "'w daemon \<Rightarrow> bool" where
  "agentic_layout D \<longleftrightarrow> d_refs D = d_repo D @ [''.agentic'']"

lemma prompts_apart:
  assumes "agentic_layout D" "below (d_repo D @ [''prompts'']) q"
  shows "\<not> ref_file (d_refs D) q" "q \<noteq> path_for L (beside (d_refs D) al) h"
  using assms
  by (auto simp: agentic_layout_def below_def ref_file_def head_path_def heads_dir_def path_for_eq beside_def
      dest!: branch_path_ok(1))

context local_instance
begin

definition calmly :: "fs im \<Rightarrow> fs im \<Rightarrow> bool" where
  "calmly = first_rel (steady L (d_refs D) al)"

definition tips :: "fs im \<Rightarrow> bool" where
  "tips x \<longleftrightarrow> tips_ok L (d_refs D) al (fst x)"

lemma calmly_rel [simp]: "reflp calmly" "transp calmly"
  unfolding calmly_def by (simp_all add: first_rel_rel)

lemma calmly_reads: "keeps reads m \<Longrightarrow> keeps calmly m"
  unfolding calmly_def first_rel_def
  by (fastforce simp: keeps_def reads_def steady_def ref_same_def ref_moved_def grows_def present_def path_exists_def)

lemma calmly_first: "keeps (steady L (d_refs D) al) m \<Longrightarrow> keeps calmly (on_first m)"
  unfolding calmly_def by (rule keeps_on_first)

lemma calmly_store:
  "keeps calmly (st_put (d_store D) x p)" "keeps calmly (st_put_raw (d_store D) k bs)"
  "keeps calmly (st_get (d_store D) h)" "keeps calmly (st_get_raw (d_store D) h)"
  unfolding parts(1) im_store_def by (simp_all add: calmly_first store_steady [OF hex])

lemma calmly_memory:
  assumes "d_memory D = Some M"
  shows "keeps calmly (ad_snapshot M)" "keeps calmly (ad_current_schema M)" "keeps calmly (ad_migrations_after M v)"
    "keeps calmly (ad_begin_restore M)" "keeps calmly (ad_restore_with_guard M sh)" "keeps calmly (ad_apply_reverse M steps)"
    "calmly x (ad_end_restore M x)"
  unfolding parts(3) [OF assms] calmly_def
  by (rule im_ops_files, simp_all add: store_steady [OF hex])+

lemma calmly_snapshot: "keeps calmly (snapshot_memory L D nm)"
  unfolding snapshot_memory_def
  by (auto intro!: keeps_rules keeps_any calmly_memory calmly_store split: option.splits)

lemma preserves_calmly: "keeps calmly m \<Longrightarrow> preserves tips m"
  unfolding keeps_def preserves_def calmly_def first_rel_def tips_def using tips_steady by blast

lemma tips_stage: "preserves tips (stage_and_commit_with_now L (d_store D) (d_view D) (d_refs D) b i now)"
  unfolding preserves_def
proof (intro allI impI)
  fix s assume s: "tips s"
  obtain q t where run: "stage_and_commit_with_now L (d_store D) (d_view D) (d_refs D) b i now s = (q, t)"
    by (rule prod.exhaust)
  obtain r1 u where 1: "stage_blobs (d_store D) i now s = (r1, u)" by (rule prod.exhaust)
  have "preserves tips (stage_blobs (d_store D) i now)"
    by (rule preserves_calmly, rule stage_keeps) (simp_all add: calmly_store)
  from preservesD [OF this s 1] have u: "tips u" .
  show "tips (snd (stage_and_commit_with_now L (d_store D) (d_view D) (d_refs D) b i now s))"
  proof (cases r1)
    case (Inl e)
    with 1 u show ?thesis by (simp add: stage_and_commit_with_now_def)
  next
    case (Inr c)
    obtain r2 v where 2: "put_default (d_store D) (OCommit c) u = (r2, v)" by (rule prod.exhaust)
    have "preserves tips (put_default (d_store D) (OCommit c))"
      unfolding put_default_def by (rule preserves_calmly) (rule calmly_store)
    from preservesD [OF this u 2] have v: "tips v" .
    show ?thesis
    proof (cases r2)
      case (Inl e)
      with 1 2 v \<open>r1 = Inr c\<close> show ?thesis by (simp add: stage_and_commit_with_now_def)
    next
      case (Inr h)
      have h: "present L (d_refs D) al (fst v) h"
        using 2 put_present [OF hex zstd] unfolding Inr parts(1) im_store_def put_default_def by (cases u) auto
      obtain r3 f where 3: "write_branch L (d_refs D) b h (fst v) = (r3, f)" by (rule prod.exhaust)
      have w: "on_first (write_branch L (d_refs D) b h) v = (r3, f, snd v)" using 3 by (cases v) auto
      have t: "snd (stage_and_commit_with_now L (d_store D) (d_view D) (d_refs D) b i now s) = (f, snd v)"
        using 1 2 w \<open>r1 = Inr c\<close> Inr
        by (cases r3) (simp_all add: stage_and_commit_with_now_def parts(2) on_fs_im bindA_def)
      have "grows L (d_refs D) al (fst v) f"
      proof (cases "branch_path (d_refs D) b")
        case (Inl e)
        with 3 show ?thesis by (auto simp: write_branch_def bindA_def reflpD [OF grows_rel(1)])
      next
        case (Inr p)
        from keepsD [OF write_branch_frame [OF Inr] 3] address_not_branch(2) [OF hex Inr] show ?thesis
          by (rule frame_grows)
      qed
      moreover have "tips_ok L (d_refs D) al (fst v)" using v by (simp add: tips_def)
      moreover have "present L (d_refs D) al f k" if "grows L (d_refs D) al (fst v) f"
        "line_hash L (str_bytes (to_hex L h @ newline)) = Some k" for k
        using that h by (simp add: grows_def hex del: str_bytes_append)
      ultimately have "tips_ok L (d_refs D) al f"
        by (intro tips_moved [OF _ conjunct2 [OF write_branch_moved [OF 3]]]) auto
      then show ?thesis unfolding t by (simp add: tips_def)
    qed
  qed
qed

lemma tips_publish: "preserves tips (publish_head D b needs)"
proof (cases needs)
  case True
  have "tips (snd (on_first (write_head_symbolic (d_refs D) b) x))" if x: "tips x" for x
  proof -
    obtain r f where h: "write_head_symbolic (d_refs D) b (fst x) = (r, f)" by (rule prod.exhaust)
    have "frame (ref_paths (head_path (d_refs D))) (fst x) f"
      using keepsD [OF write_head_frame h] .
    moreover have "\<not> ref_paths (head_path (d_refs D)) (path_for L (beside (d_refs D) al) k)" for k
      by (auto simp: ref_paths_def path_for_eq beside_def head_path_def with_extension_def)
    ultimately have "grows L (d_refs D) al (fst x) f" by (rule frame_grows)
    then have "tips_ok L (d_refs D) al f"
      using x branch_not_head by (intro tips_moved [OF _ write_head_moved [OF h]]) (auto simp: tips_def)
    then show ?thesis using h by (cases x) (simp add: tips_def)
  qed
  then have "preserves tips (on_fs (d_view D) (write_head_symbolic (d_refs D) b))"
    by (simp add: preserves_def parts(2) on_fs_im)
  with True show ?thesis by (simp add: publish_head_def preserves_ignore)
qed (simp add: publish_head_def pres_intros)

lemma tips_commit: "preserves tips (commit_execute_with_now L D input peer now)"
proof -
  have "preserves tips (on_fs (d_view D) (read_head L (d_refs D)))" "preserves tips (on_fs (d_view D) (read_branch L (d_refs D) b))"
    for b by (simp_all add: preserves_calmly calmly_reads reads_refs)
  then show ?thesis
    unfolding commit_execute_with_now_def Let_def
    by (auto intro!: pres_intros preserves_calmly [OF calmly_snapshot] tips_stage tips_publish)
qed

lemma calmly_prompts:
  assumes "agentic_layout D"
  shows "keeps calmly (restore_prompts (d_store D) (d_view D) (d_repo D) h)"
proof -
  let ?d = "d_repo D @ [''prompts'']"
  have fs: "keeps calmly (on_fs (d_view D) m)" if "keeps (frame (below ?d)) m" for m :: "(fs, anyhow, 'b) act"
    unfolding parts(2) on_fs_im
    by (rule calmly_first, rule frame_steady [OF that]) (use prompts_apart [OF assms] in blast)+
  note fs = this
  have blob: "keeps calmly (on_fs (d_view D) (write_blob_safely (path_join ?d n) b))" if "below ?d (path_join ?d n)" for n b
    by (rule fs, rule keeps_write_blob) (use that below_tmp in blast)+
  have entries: "keeps calmly (write_entries (d_store D) (d_view D) ?d es ws)" for es ws
  proof (induction es arbitrary: ws)
    case (Cons x es)
    obtain n r where x: "x = (n, r)" by (cases x)
    show ?case
    proof (cases "validate_tree_entry_name n")
      case (Inl e)
      then show ?thesis by (simp add: x keeps_def bindA_def reflpD [OF calmly_rel(1)])
    next
      case (Inr u)
      then have "below ?d (path_join ?d n)" by (rule entry_below)
      then show ?thesis
        unfolding x write_entries.simps Let_def
        by (intro keeps_rules fs keeps_any keeps_fs_create_dir_all calmly_reads reads_loaders blob Cons.IH calmly_rel)
    qed
  qed (simp add: keeps_rules)
  have "keeps (frame (below ?d)) (sweep_all ?d ws)" for ws
    using sweep_frame [of "below ?d" ?d] by (simp add: keeps_def sweep_all_def below_def del: sweep_orphans.simps)
  then show ?thesis
    unfolding restore_prompts_def Let_def
    by (intro keeps_rules fs keeps_any keeps_fs_create_dir_all calmly_reads reads_loaders entries calmly_rel)
qed

lemma calmly_state: "keeps calmly (state_phase L D a c)"
proof -
  have schema: "keeps calmly (schema_phase D M a sv)" if "d_memory D = Some M" for M sv
    unfolding schema_phase_def
    by (auto intro!: keeps_rules keeps_any calmly_memory [OF that] calmly_reads [OF reads_refs(4)])
  have window: "keeps calmly (restore_window M sh)" if M: "d_memory D = Some M" for M sh
  proof -
    have "keeps calmly (\<lambda>s. case with_context ''restoring memory snapshot'' (mem_any (ad_restore_with_guard M sh)) s of
        (r, t) \<Rightarrow> (r, ad_end_restore M t))"
      unfolding keeps_def
    proof
      fix s
      obtain r t where t: "with_context ''restoring memory snapshot'' (mem_any (ad_restore_with_guard M sh)) s = (r, t)"
        by (rule prod.exhaust)
      have "keeps calmly (with_context ''restoring memory snapshot'' (mem_any (ad_restore_with_guard M sh)))"
        by (intro keeps_any calmly_memory [OF M])
      from keepsD [OF this t] calmly_memory(7) [OF M, of t]
      show "calmly s (snd (case with_context ''restoring memory snapshot'' (mem_any (ad_restore_with_guard M sh)) s of
          (r, t) \<Rightarrow> (r, ad_end_restore M t)))"
        unfolding t using transpD [OF calmly_rel(2)] by simp
    qed
    then show ?thesis
      unfolding restore_window_def by (intro keeps_rules keeps_any calmly_memory [OF M] calmly_rel)
  qed
  have manifest: "keeps calmly (load_manifest L (d_store D) mh)" for mh
    unfolding load_manifest_def by (auto intro!: keeps_rules keeps_any calmly_store)
  have memory: "keeps calmly (memory_phase L D M a sv snap)" if "d_memory D = Some M" for M sv snap
    unfolding memory_phase_def
    by (auto intro!: keeps_rules manifest window [OF that] split: option.splits)
  show ?thesis
    unfolding state_phase_def by (auto intro!: keeps_rules keeps_any schema memory split: option.splits)
qed

lemma tips_rollback:
  assumes "agentic_layout D" "ra_repo a = d_repo D"
  shows "preserves (\<lambda>x. tips (fst x)) (rollback_execute L D a peer secs now)"
proof -
  have read: "keeps calmly (read_text_blobs (d_store D) x)" for x
  proof -
    have "keeps reads (tree_to_map (d_store D) es)" for es
    proof (induction es)
      case (Cons e es)
      then show ?case by (cases e) (auto intro!: keeps_rules keeps_any reads_loaders)
    qed (simp add: keeps_def reads_def)
    then show ?thesis
      unfolding read_text_blobs_def by (auto intro!: calmly_reads keeps_rules reads_loaders split: option.splits)
  qed
  have model: "keeps calmly (read_model_text (d_store D) c)" for c
    unfolding read_model_text_def
    by (auto intro!: keeps_rules keeps_any calmly_reads [OF reads_loaders(3)] split: option.splits)
  have forward: "preserves tips (forward_record L D h c b tip peer now)" for h c b tip
    unfolding forward_record_def
    by (intro pres_intros preserves_calmly read model tips_stage)
  have prompts: "keeps calmly (prompts_phase L D a c)" for c
    using calmly_prompts [OF assms(1)] unfolding prompts_phase_def assms(2)
    by (cases "c_prompts c") (auto intro!: keeps_rules)
  note steps = preserves_calmly [OF calmly_reads [OF reads_loaders(1)]] preserves_calmly [OF calmly_reads [OF reads_current]]
    preserves_calmly [OF calmly_reads [OF reads_refs(1)]] preserves_calmly [OF prompts] preserves_calmly [OF calmly_state]
  have "preserves tips (rollback_approved L D a peer now h)" for h
    unfolding rollback_approved_def Let_def by (auto intro!: pres_intros forward steps)
  moreover have "preserves tips (on_fs (d_view D) (resolve L (d_refs D) n))" for n
    by (intro preserves_calmly calmly_reads reads_refs)
  moreover have beside: "preserves (\<lambda>x. tips (fst x)) (beside_log m)" if "preserves tips m" for m :: "(fs im, anyhow, 'b) act"
    using that by (fastforce simp: preserves_def beside_log_def split: prod.splits)
  note beside = this
  moreover have "preserves (\<lambda>x. tips (fst x)) (approval_gate L D h peer tok secs)" for h tok
    by (simp add: preserves_def approval_gate_def Let_def split: prod.splits)
  ultimately show ?thesis
    unfolding rollback_execute_def
    by (auto intro!: pres_intros beside split: option.splits)
qed

lemma reads_requests:
  "keeps reads (freeze_refs L D)" "keeps reads (render_diff L D S a b)" "keeps reads (resolve_ref L D n)"
  "keeps reads (log_request L rfc D k)" "keeps reads (read_object L D x)"
proof -
  have snap: "keeps reads (on_fs (d_view D) (snapshot L (d_refs D)))"
    by (simp add: parts(2) on_fs_im reads_on_first list_entries)
  show "keeps reads (freeze_refs L D)"
    unfolding freeze_refs_def by (intro keeps_any snap)
  show "keeps reads (render_diff L D S a b)"
    unfolding render_diff_def handle_diff_def
    by (intro keeps_rules keeps_any keeps_diff reads_get reads_rel)
  show "keeps reads (resolve_ref L D n)"
    unfolding resolve_ref_def by (intro keeps_rules keeps_any reads_refs reads_rel)
  show "keeps reads (log_request L rfc D k)"
    unfolding log_request_def
    by (auto intro!: keeps_rules keeps_any reads_refs keeps_diff reads_get split: option.splits)
  show "keeps reads (read_object L D x)"
    unfolding read_object_def Let_def
    by (auto intro!: keeps_rules keeps_any reads_get split: prod.splits)
qed

definition good :: "fs im \<times> audit_event list \<Rightarrow> bool" where
  "good x \<longleftrightarrow> tips (fst x)"

lemma good_beside: "preserves tips m \<Longrightarrow> preserves good (beside_log m)"
  by (fastforce simp: preserves_def good_def beside_log_def split: prod.splits)

lemma good_reads: "keeps reads m \<Longrightarrow> preserves good (beside_log m)"
  by (intro good_beside preserves_calmly calmly_reads)

lemma good_request:
  assumes "agentic_layout D"
  shows "preserves good (request_work L rfc D peer ck r)"
proof (cases r)
  case (RCommit i)
  show ?thesis
    unfolding RCommit request_work.simps locked_commit_def
    by (intro pres_intros good_beside tips_commit)
next
  case (RRollback t dry acc tok)
  have "preserves good (rollback_execute L D
      \<lparr>ra_target = t, ra_dry_run = dry, ra_accept = acc, ra_token = tok, ra_repo = d_repo D\<rparr> peer (ck_secs ck) (ck_now ck))"
    using tips_rollback [OF assms] by (simp add: preserves_def good_def)
  then show ?thesis
    unfolding RRollback request_work.simps locked_rollback_def by (intro pres_intros)
qed (simp_all add: pres_intros good_reads reads_requests)

lemma good_piece:
  assumes "agentic_layout D" "good x"
  shows "good (snd (piece_run L rfc D p x))"
proof (cases p)
  case (Whole r peer ck)
  show ?thesis
    using preservesD [OF good_request [OF assms(1)] assms(2)] by (simp add: Whole split: prod.splits)
next
  case Freeze
  show ?thesis
    using preservesD [OF good_reads [OF reads_requests(1)] assms(2)] by (simp add: Freeze split: prod.splits)
next
  case (Render S a b)
  show ?thesis
    using preservesD [OF good_reads [OF reads_requests(2)] assms(2)] by (simp add: Render split: prod.splits)
qed

lemma good_serial: "agentic_layout D \<Longrightarrow> good x \<Longrightarrow> good (snd (serial L rfc D ps x))"
proof (induction ps arbitrary: x)
  case (Cons q ps)
  obtain i p where q: "q = (i, p)" by (cases q)
  obtain a y where y: "piece_run L rfc D p x = (a, y)" by (rule prod.exhaust)
  have "good y" using good_piece [OF Cons.prems, of rfc p] y by simp
  from Cons.IH [OF Cons.prems(1) this] y show ?case by (cases "serial L rfc D ps y") (simp add: q)
qed simp

text \<open>The reconciliation reads the same tips.\<close>

lemma branch_read_tip:
  assumes "read_branch L (d_refs D) b s = (Inr (Some h), t)"
  obtains p c where "branch_path (d_refs D) b = Inr p" "map_of (entries s) p = Some (FFile c)" "line_hash L c = Some h"
proof -
  obtain p where p: "branch_path (d_refs D) b = Inr p"
    using assms by (auto simp: read_branch_def bindA_ok_iff)
  obtain raw u where raw: "fs_read_to_string p s = (Inr raw, u)" "parse_hash L (str_trim raw) = Inr h"
    using assms p by (auto simp: read_branch_def bindA_ok_iff read_ref_file_def split: if_splits)
  obtain c where c: "fs_read p s = (Inr c, u)" "utf8_ok c" "raw = bytes_str c"
    using raw(1) by (auto simp: fs_read_to_string_def bindA_ok_iff split: if_splits)
  have "p \<noteq> []" using branch_path_last(1) [OF p] .
  with fs_read_content [OF c(1)] have "map_of (entries s) p = Some (FFile c)" by (simp add: lookup_map_of)
  moreover have "line_hash L c = Some h"
    using c(2, 3) raw(2) unfolding line_hash_def parse_hash_def map_err_Inr_iff by simp
  ultimately show thesis using p by (intro that)
qed

lemma no_broken_tip:
  assumes "tips x" "broken_tip L (d_store D) (d_view D) (d_refs D) b x = (Inr r, y)"
  shows "r = None \<and> tips y"
proof -
  obtain o1 u where o1: "on_first (read_branch L (d_refs D) b) x = (Inr o1, u)" and
    k: "(case o1 of None \<Rightarrow> ret None
       | Some tip \<Rightarrow> bindA (has_object (d_store D) tip) (\<lambda>ok. ret (if ok then None else Some (b, to_hex L tip)))) u = (Inr r, y)"
    using assms(2) unfolding broken_tip_def bindA_ok_iff any_ok_iff parts(2) on_fs_im by blast
  have "preserves tips (on_first (read_branch L (d_refs D) b))"
    using preserves_calmly [OF calmly_reads [OF reads_refs(1)]] by (simp add: parts(2) on_fs_im)
  from preservesD [OF this assms(1) o1] have u: "tips u" .
  show ?thesis
  proof (cases o1)
    case None
    with k u show ?thesis by simp
  next
    case (Some h)
    obtain f where f: "read_branch L (d_refs D) b (fst x) = (Inr (Some h), f)" "u = (f, snd x)"
      using o1 Some by (cases x) auto
    obtain p c where "branch_path (d_refs D) b = Inr p" "map_of (entries (fst x)) p = Some (FFile c)" "line_hash L c = Some h"
      using branch_read_tip [OF f(1)] by blast
    then have "present L (d_refs D) al (fst x) h" using assms(1) unfolding tips_def tips_ok_def by blast
    moreover have "entries f = entries (fst x)"
      using keepsD [OF refs_entries(2) f(1)] by (simp add: same_entries_def)
    ultimately have "fst (st_has (d_store D) h u)" "snd (st_has (d_store D) h u) = u"
      by (simp_all add: f(2) parts(1) im_store_def fs_store_ops_def Object_Store.store_has_def present_def path_exists_def)
    then have "has_object (d_store D) h u = (Inr True, u)"
      unfolding has_object_def by (simp add: prod.case_eq_if)
    with k u Some show ?thesis by (auto simp: bindA_def)
  qed
qed

lemma no_broken_tips:
  "tips x \<Longrightarrow> mapA (broken_tip L (d_store D) (d_view D) (d_refs D)) bs x = (Inr rs, y) \<Longrightarrow> somes rs = []"
proof (induction bs arbitrary: x rs)
  case (Cons b bs)
  obtain r u rs' where "broken_tip L (d_store D) (d_view D) (d_refs D) b x = (Inr r, u)"
    "mapA (broken_tip L (d_store D) (d_view D) (d_refs D)) bs u = (Inr rs', y)" "rs = r # rs'"
    using Cons.prems(2) by (auto simp: bindA_ok_iff)
  note st = this
  have "r = None" "tips u" using no_broken_tip [OF Cons.prems(1) st(1)] by simp_all
  with Cons.IH [OF _ st(2)] st(3) show ?case by simp
qed simp

lemma reconciles:
  assumes "tips x"
  shows "case broken_tips L (d_store D) (d_view D) (d_refs D) x of (r, y) \<Rightarrow>
     reconcile_refs_on_startup L (d_store D) (d_view D) (d_refs D) x = (map_sum id (\<lambda>_. ()) r, y) \<and> (\<forall>xs. r = Inr xs \<longrightarrow> xs = [])"
proof -
  obtain r y where b: "broken_tips L (d_store D) (d_view D) (d_refs D) x = (r, y)" by (rule prod.exhaust)
  show ?thesis
  proof (cases r)
    case (Inl e)
    then show ?thesis by (simp add: b reconcile_refs_on_startup_def)
  next
    case (Inr xs)
    obtain bs u rs where r: "with_context ''listing branches at startup'' (core_any (on_fs (d_view D) (list_branches (d_refs D)))) x = (Inr bs, u)"
      "mapA (broken_tip L (d_store D) (d_view D) (d_refs D)) bs u = (Inr rs, y)" "xs = somes rs"
      using b Inr by (auto simp: broken_tips_def bindA_ok_iff)
    have "keeps reads (with_context ''listing branches at startup'' (core_any (on_fs (d_view D) (list_branches (d_refs D)))))"
      by (intro keeps_any) (simp add: parts(2) on_fs_im reads_on_first list_entries)
    from preservesD [OF preserves_calmly [OF calmly_reads [OF this]] assms r(1)] have "tips u" .
    with no_broken_tips r(2, 3) have "xs = []" by simp
    then show ?thesis by (simp add: b Inr reconcile_refs_on_startup_def)
  qed
qed

end

lemma tips_throughout:
  assumes "lib_ok L" "local_daemon L al D" "agentic_layout D" "tips_ok L (d_refs D) al (fst w)"
    and "sched_steps L rfc D (sched_start D w) s"
  shows "tips_ok L (d_refs D) al (fst (fst (data_of s)))"
proof -
  have I: "local_instance L al D"
    using assms(1, 2) by (simp add: local_instance_def local_instance_axioms_def lib_laws_iff)
  have w: "local_instance.good L al D (w, [])"
    using assms(4) local_instance.good_def [OF I] local_instance.tips_def [OF I] by simp
  obtain hist where "data_of s = snd (serial L rfc D hist (data_of (sched_start D w)))"
    using steps_serial [OF assms(5)] by blast
  then have "local_instance.good L al D (data_of s)"
    using local_instance.good_serial [OF I assms(3) w] by (simp add: data_of_def sched_start_def server_start_def)
  then show ?thesis by (simp add: local_instance.good_def [OF I] local_instance.tips_def [OF I])
qed

section \<open>Properties\<close>

text \<open>
  C6. No branch ever names a missing commit. Start a daemon over the local store, with the
  in-memory backend or none, on a repository whose branch tips are all stored. After any
  interleaving of any requests, whatever operations failed or were torn on the way, the tips are
  all stored; so the reconciliation of the next start, under whatever faults, succeeds unless one of
  its own reads fails, and never finds a broken tip.
\<close>

theorem restart_finds_no_broken_tip:
  assumes "lib_ok L" "local_daemon L al D" "agentic_layout D" "tips_ok L (d_refs D) al (fst w)"
    and "sched_steps L rfc D (sched_start D w) s" "entries f = entries (fst (fst (data_of s)))"
    and "broken_tips L (d_store D) (d_view D) (d_refs D) (f, m) = (r, y)"
  shows "tips_ok L (d_refs D) al f \<and> (\<forall>xs. r = Inr xs \<longrightarrow> xs = []) \<and>
     reconcile_refs_on_startup L (d_store D) (d_view D) (d_refs D) (f, m) = (map_sum id (\<lambda>_. ()) r, y)"
proof -
  have I: "local_instance L al D"
    using assms(1, 2) by (simp add: local_instance_def local_instance_axioms_def lib_laws_iff)
  have "tips_ok L (d_refs D) al f"
    using tips_throughout [OF assms(1-5)] assms(6) by (simp add: tips_ok_def present_def path_exists_def)
  then show ?thesis
    using local_instance.reconciles [OF I, of "(f, m)"] assms(7) by (simp add: local_instance.tips_def [OF I])
qed

definition laid_daemon :: "fs im daemon" where
  "laid_daemon = sample_daemon\<lparr>d_store := im_store (fs_store_ops sample_lib (beside [''.agentic''] [])), d_refs := [''.agentic'']\<rparr>"

lemma laid_daemon_ok: "local_daemon sample_lib [] laid_daemon" "agentic_layout laid_daemon"
  by (simp_all add: local_daemon_def agentic_layout_def laid_daemon_def sample_daemon_def)

theorem restart_finds_no_broken_tip_witness:
  "\<exists>s x. sched_steps sample_lib (\<lambda>_. []) laid_daemon (sched_start laid_daemon (empty_fs, im_new)) s \<and>
     sc_tasks s = [Answered x] \<and> tips_ok sample_lib [''.agentic''] [] (fst (fst (data_of s)))"
proof -
  obtain x y where r: "request_work sample_lib (\<lambda>_. []) laid_daemon None \<lparr>ck_secs = 0, ck_now = 0\<rparr> (RCommit first_input)
      ((empty_fs, im_new), []) = (x, y)" by (rule prod.exhaust)
  have slots: "sl_permits (d_slots laid_daemon) \<noteq> 0"
    by (simp add: laid_daemon_def sample_daemon_def slots_new_def default_limits_def)
  obtain s where s: "sched_steps sample_lib (\<lambda>_. []) laid_daemon (sched_start laid_daemon (empty_fs, im_new)) s"
    "sc_tasks s = [Answered x]"
    by (rule lone_write [OF _ slots r]) simp_all
  obtain q z where b: "broken_tips sample_lib (d_store laid_daemon) (d_view laid_daemon) (d_refs laid_daemon)
      (fst (fst (data_of s)), im_new) = (q, z)" by (rule prod.exhaust)
  have "tips_ok sample_lib (d_refs laid_daemon) [] (fst (empty_fs, im_new))" by (simp add: tips_ok_def empty_fs_def)
  from restart_finds_no_broken_tip [OF sample_ok laid_daemon_ok this s(1) refl b] s show ?thesis
    by (auto simp: laid_daemon_def)
qed

end
