(* ===== verification/Gcs_Store.thy ===== *)
theory Gcs_Store
  imports Object_Store
begin

text \<open>
  The object store on a Google Cloud Storage bucket with a local cache (\<open>gcs_store.rs\<close>). The
  HTTP client is the parameter \<open>http\<close>: what it answers and how the network changes is up to it.
  The cache directory has the layout of the local store. The world is the file system beside the
  network. Building the client is a parameter of \<open>gcs_new\<close>; error texts are abbreviated.
\<close>

section \<open>The client and the store\<close>

record reply =
  rp_status :: nat
  rp_body :: "string + bytes"

record 'n http =
  ht_post :: "string option \<Rightarrow> (string \<times> string) list \<Rightarrow> string \<Rightarrow> bytes \<Rightarrow> ('n, string, reply) act"
  ht_get :: "string option \<Rightarrow> string \<Rightarrow> ('n, string, reply) act"
  ht_head :: "string option \<Rightarrow> string \<Rightarrow> ('n, string, reply) act"

definition success :: "reply \<Rightarrow> bool" where
  "success r \<longleftrightarrow> 200 \<le> rp_status r \<and> rp_status r < 300"

definition default_gcs_endpoint :: string where
  "default_gcs_endpoint = ''https://storage.googleapis.com''"

definition storage_class :: string where
  "storage_class = ''STANDARD''"

record gcs_store =
  gc_bucket :: string
  gc_prefix :: string
  gc_cache_dir :: path
  gc_endpoint :: string
  gc_token :: "string option"
  gc_allow :: allowlist

definition gcs_new :: "string + unit \<Rightarrow> string \<Rightarrow> string \<Rightarrow> path \<Rightarrow> string option \<Rightarrow> string option \<Rightarrow>
    (fs, core_error, gcs_store) act" where
  "gcs_new client bucket prefix cache_dir endpoint token =
     bindA (map_errA Io (fs_create_dir_all cache_dir)) (\<lambda>_.
     bindA (lift_res (map_err (\<lambda>m. Other (''building HTTP client: '' @ m)) client)) (\<lambda>_.
     ret \<lparr>gc_bucket = bucket, gc_prefix = prefix, gc_cache_dir = cache_dir,
          gc_endpoint = (case endpoint of None \<Rightarrow> default_gcs_endpoint | Some e \<Rightarrow> e),
          gc_token = token, gc_allow = []\<rparr>))"

definition gcs_with_allowlist :: "allowlist \<Rightarrow> gcs_store \<Rightarrow> gcs_store" where
  "gcs_with_allowlist al g = g\<lparr>gc_allow := al\<rparr>"

section \<open>Names\<close>

definition trim_end_matches :: "'a \<Rightarrow> 'a list \<Rightarrow> 'a list" where
  "trim_end_matches c s = rev (dropWhile (\<lambda>x. x = c) (rev s))"

definition trim_matches :: "'a \<Rightarrow> 'a list \<Rightarrow> 'a list" where
  "trim_matches c s = trim_end_matches c (dropWhile (\<lambda>x. x = c) s)"

definition hex_upper :: "nat \<Rightarrow> char" where
  "hex_upper n = (if n < 10 then char_of (48 + n) else char_of (55 + n))"

definition unreserved :: "char \<Rightarrow> bool" where
  "unreserved c \<longleftrightarrow> is_alnum c \<or> c \<in> {CHR ''-'', CHR ''_'', CHR ''.'', CHR ''~''}"

definition urlencode_char :: "char \<Rightarrow> string" where
  "urlencode_char c =
     (if unreserved c then [c]
      else if c = CHR ''/'' then ''%2F''
      else [CHR ''%'', hex_upper (of_char c div 16), hex_upper (of_char c mod 16)])"

definition urlencode :: "string \<Rightarrow> string" where
  "urlencode s = concat (map urlencode_char s)"

definition object_name :: "lib \<Rightarrow> gcs_store \<Rightarrow> hash \<Rightarrow> string" where
  "object_name L g h =
     (case shard L h of (a, b) \<Rightarrow>
        let p = trim_matches (CHR ''/'') (gc_prefix g) in
        if p = [] then a @ ''/'' @ b @ ''.zst'' else p @ ''/'' @ a @ ''/'' @ b @ ''.zst'')"

definition upload_url :: "gcs_store \<Rightarrow> string \<Rightarrow> string" where
  "upload_url g name =
     trim_end_matches (CHR ''/'') (gc_endpoint g) @ ''/upload/storage/v1/b/'' @ gc_bucket g @
     ''/o?uploadType=media&name='' @ urlencode name"

definition metadata_url :: "gcs_store \<Rightarrow> string \<Rightarrow> string" where
  "metadata_url g name =
     trim_end_matches (CHR ''/'') (gc_endpoint g) @ ''/storage/v1/b/'' @ gc_bucket g @ ''/o/'' @ urlencode name"

definition download_url :: "gcs_store \<Rightarrow> string \<Rightarrow> string" where
  "download_url g name =
     trim_end_matches (CHR ''/'') (gc_endpoint g) @ ''/storage/v1/b/'' @ gc_bucket g @ ''/o/'' @ urlencode name @
     ''?alt=media''"

section \<open>The cache\<close>

definition cache_of :: "gcs_store \<Rightarrow> fs_store" where
  "cache_of g = \<lparr>st_root = gc_cache_dir g, st_allow = gc_allow g\<rparr>"

definition cache_path :: "lib \<Rightarrow> gcs_store \<Rightarrow> hash \<Rightarrow> path" where
  "cache_path L g h = path_for L (cache_of g) h"

definition cache_read :: "lib \<Rightarrow> gcs_store \<Rightarrow> hash \<Rightarrow> fs \<Rightarrow> bytes option \<times> fs" where
  "cache_read L g h s =
     (case fs_read (cache_path L g h) s of
        (Inl e, t) \<Rightarrow> (None, t)
      | (Inr c, t) \<Rightarrow> (unzstd L c, t))"

definition cache_write_compressed :: "lib \<Rightarrow> gcs_store \<Rightarrow> hash \<Rightarrow> bytes \<Rightarrow> (fs, core_error, unit) act" where
  "cache_write_compressed L g h c = map_errA Io (replace_file (cache_path L g h) c)"

definition evict_cache_entry :: "path \<Rightarrow> fs \<Rightarrow> fs" where
  "evict_cache_entry p s =
     (case fs_remove_file p s of
        (Inr _, t) \<Rightarrow> t
      | (Inl e, t) \<Rightarrow>
          if io_kind_of e = IoNotFound then t
          else if is_dir (entries t) p then snd (fs_remove_dir_all p t) else t)"

section \<open>Requests\<close>

definition on_disk :: "(fs, 'e, 'a) act \<Rightarrow> (fs \<times> 'n, 'e, 'a) act" where
  "on_disk m = (\<lambda>(s, n). case m s of (r, t) \<Rightarrow> (r, (t, n)))"

definition on_net :: "('n, 'e, 'a) act \<Rightarrow> (fs \<times> 'n, 'e, 'a) act" where
  "on_net m = (\<lambda>(s, n). case m n of (r, k) \<Rightarrow> (r, (s, k)))"

definition http_err :: "string \<Rightarrow> reply \<Rightarrow> core_error" where
  "http_err context r =
     Other (context @ '': HTTP '' @ show_nat (rp_status r) @ '': '' @
       (case rp_body r of Inl _ \<Rightarrow> [] | Inr b \<Rightarrow> utf8_lossy (bytes_str b)))"

definition upload_compressed :: "lib \<Rightarrow> 'n http \<Rightarrow> gcs_store \<Rightarrow> hash \<Rightarrow> bytes \<Rightarrow> ('n, core_error, unit) act" where
  "upload_compressed L H g h c =
     (let url = upload_url g (object_name L g h) in
      bindA (map_errA (\<lambda>m. Other (''upload '' @ url @ '': '' @ m))
               (ht_post H (gc_token g)
                  [(''Content-Type'', ''application/octet-stream''), (''x-goog-storage-class'', storage_class)] url c)) (\<lambda>r.
      if success r then ret () else fail (http_err ''uploading object'' r)))"

definition download_compressed :: "lib \<Rightarrow> 'n http \<Rightarrow> gcs_store \<Rightarrow> hash \<Rightarrow> ('n, core_error, (bytes \<times> bytes) option) act" where
  "download_compressed L H g h =
     (let url = download_url g (object_name L g h) in
      bindA (map_errA (\<lambda>m. Other (''GET '' @ url @ '': '' @ m)) (ht_get H (gc_token g) url)) (\<lambda>r.
      if rp_status r = 404 then ret None
      else if \<not> success r then fail (http_err ''downloading object'' r)
      else bindA (lift_res (map_err (\<lambda>m. Other (''reading body: '' @ m)) (rp_body r))) (\<lambda>c.
           case unzstd L c of
             None \<Rightarrow> fail (Io (IoError IoOther []))
           | Some bs \<Rightarrow> ret (Some (bs, c)))))"

definition remote_exists :: "lib \<Rightarrow> 'n http \<Rightarrow> gcs_store \<Rightarrow> hash \<Rightarrow> 'n \<Rightarrow> bool \<times> 'n" where
  "remote_exists L H g h n =
     (case ht_head H (gc_token g) (metadata_url g (object_name L g h)) n of
        (Inl e, k) \<Rightarrow> (False, k)
      | (Inr r, k) \<Rightarrow> (success r, k))"

section \<open>Operations\<close>

text \<open>The cached value, if the entry is readable and passes the check; else it is evicted.\<close>

definition cached_value :: "lib \<Rightarrow> gcs_store \<Rightarrow> hash \<Rightarrow> (bytes \<Rightarrow> core_error + 'a) \<Rightarrow> fs \<Rightarrow> 'a option \<times> fs" where
  "cached_value L g h check s =
     (let p = cache_path L g h in
      if \<not> path_exists s p then (None, s)
      else case cache_read L g h s of
        (None, t) \<Rightarrow> (None, evict_cache_entry p t)
      | (Some bs, t) \<Rightarrow> (case check bs of Inr v \<Rightarrow> (Some v, t) | Inl e \<Rightarrow> (None, evict_cache_entry p t)))"

definition fetch_remote :: "lib \<Rightarrow> 'n http \<Rightarrow> gcs_store \<Rightarrow> hash \<Rightarrow> (bytes \<Rightarrow> core_error + 'a) \<Rightarrow>
    (fs \<times> 'n, core_error, 'a) act" where
  "fetch_remote L H g h check =
     bindA (on_net (download_compressed L H g h)) (\<lambda>x.
     case x of
       None \<Rightarrow> fail (NotFound h)
     | Some (bs, c) \<Rightarrow>
         bindA (lift_res (check bs)) (\<lambda>v.
         (\<lambda>(s, n). (Inr v, (snd (cache_write_compressed L g h c s), n)))))"

definition fetch_map :: "lib \<Rightarrow> 'n http \<Rightarrow> gcs_store \<Rightarrow> hash \<Rightarrow> (bytes \<Rightarrow> core_error + 'a) \<Rightarrow>
    (fs \<times> 'n, core_error, 'a) act" where
  "fetch_map L H g h check = (\<lambda>(s, n).
     case cached_value L g h check s of
       (Some v, t) \<Rightarrow> (Inr v, (t, n))
     | (None, t) \<Rightarrow> fetch_remote L H g h check (t, n))"

definition roll_back_cache :: "lib \<Rightarrow> gcs_store \<Rightarrow> hash \<Rightarrow> fs \<Rightarrow> fs" where
  "roll_back_cache L g h s = snd (fs_remove_file (cache_path L g h) s)"

text \<open>Cache first, then upload; a failed upload takes the entry out again.\<close>

definition upload_cached :: "lib \<Rightarrow> 'n http \<Rightarrow> gcs_store \<Rightarrow> hash \<Rightarrow> bytes \<Rightarrow> (fs \<times> 'n, core_error, hash) act" where
  "upload_cached L H g h c =
     bindA (on_disk (cache_write_compressed L g h c)) (\<lambda>_ (s, n).
     case upload_compressed L H g h c n of
       (Inr _, k) \<Rightarrow> (Inr h, (s, k))
     | (Inl e, k) \<Rightarrow> (Inl e, (roll_back_cache L g h s, k)))"

definition gcs_put :: "lib \<Rightarrow> 'n http \<Rightarrow> gcs_store \<Rightarrow> obj \<Rightarrow> scan_policy \<Rightarrow> (fs \<times> 'n, core_error, hash) act" where
  "gcs_put L H g x policy =
     bindA (lift_res (scan_object L (cache_of g) x policy)) (\<lambda>_.
     upload_cached L H g (object_hash L x) (zstd L (object_bytes L x)))"

definition gcs_put_raw :: "lib \<Rightarrow> 'n http \<Rightarrow> gcs_store \<Rightarrow> object_kind \<Rightarrow> bytes \<Rightarrow> (fs \<times> 'n, core_error, hash) act" where
  "gcs_put_raw L H g kind bs =
     bindA (lift_res (scan_gate (cache_of g) (hash_of L bs) (scan L bs))) (\<lambda>_.
     upload_cached L H g (hash_of L bs) (zstd L bs))"

definition object_check :: "lib \<Rightarrow> hash \<Rightarrow> bytes \<Rightarrow> core_error + obj" where
  "object_check L h bs =
     res_bind (ok_or Serialize (object_parse L bs)) (\<lambda>x.
     res_bind (check_integrity h (object_hash L x)) (\<lambda>_. Inr x))"

definition raw_check :: "lib \<Rightarrow> hash \<Rightarrow> bytes \<Rightarrow> core_error + bytes" where
  "raw_check L h bs = res_bind (check_integrity h (hash_of L bs)) (\<lambda>_. Inr bs)"

definition gcs_get :: "lib \<Rightarrow> 'n http \<Rightarrow> gcs_store \<Rightarrow> hash \<Rightarrow> (fs \<times> 'n, core_error, obj) act" where
  "gcs_get L H g h = fetch_map L H g h (object_check L h)"

definition gcs_get_raw :: "lib \<Rightarrow> 'n http \<Rightarrow> gcs_store \<Rightarrow> hash \<Rightarrow> (fs \<times> 'n, core_error, bytes) act" where
  "gcs_get_raw L H g h = fetch_map L H g h (raw_check L h)"

definition gcs_has :: "lib \<Rightarrow> 'n http \<Rightarrow> gcs_store \<Rightarrow> hash \<Rightarrow> fs \<times> 'n \<Rightarrow> bool \<times> (fs \<times> 'n)" where
  "gcs_has L H g h = (\<lambda>(s, n).
     if path_exists s (cache_path L g h) then (True, (s, n))
     else case remote_exists L H g h n of (b, k) \<Rightarrow> (b, (s, k)))"

definition gcs_ops :: "lib \<Rightarrow> 'n http \<Rightarrow> gcs_store \<Rightarrow> (fs \<times> 'n) store_ops" where
  "gcs_ops L H g =
     \<lparr>st_put = gcs_put L H g, st_put_raw = gcs_put_raw L H g, st_get = gcs_get L H g,
      st_get_raw = gcs_get_raw L H g, st_has = gcs_has L H g\<rparr>"

section \<open>Stores whose reads are verified\<close>

text \<open>What both stores promise: addresses are hashes, and a read returns only what hashes to its
  address.\<close>

locale verified_store =
  fixes L :: lib and S :: "'s store_ops" and inv :: "'s \<Rightarrow> bool"
  assumes put_name: "inv s \<Longrightarrow> st_put S x p s = (Inr h, t) \<Longrightarrow> h = object_hash L x"
    and put_raw_name: "inv s \<Longrightarrow> st_put_raw S k bs s = (Inr h, t) \<Longrightarrow> h = hash_of L bs"
    and get_verified: "inv s \<Longrightarrow> st_get S h s = (Inr x, t) \<Longrightarrow> object_hash L x = h"
    and get_raw_verified: "inv s \<Longrightarrow> st_get_raw S h s = (Inr bs, t) \<Longrightarrow> hash_of L bs = h"
begin

lemma reads_agree:
  "inv s \<Longrightarrow> inv t \<Longrightarrow> st_get_raw S h s = (Inr a, s') \<Longrightarrow> st_get_raw S h t = (Inr b, t') \<Longrightarrow> hash_of L a = hash_of L b"
  using get_raw_verified by metis

lemma read_back:
  "inv s \<Longrightarrow> inv u \<Longrightarrow> st_put S x p s = (Inr h, t) \<Longrightarrow> st_get S h u = (Inr y, v) \<Longrightarrow> object_hash L y = object_hash L x"
  using put_name get_verified by metis

lemma raw_read_back:
  "inv s \<Longrightarrow> inv u \<Longrightarrow> st_put_raw S k a s = (Inr h, t) \<Longrightarrow> st_get_raw S h u = (Inr b, v) \<Longrightarrow> hash_of L b = hash_of L a"
  using put_raw_name get_raw_verified by metis

end

sublocale object_store < verified: verified_store L S inv
  by unfold_locales (use put_result put_raw_result get_sound get_raw_sound in blast)+

lemma cached_value_checked: "cached_value L g h check s = (Some v, t) \<Longrightarrow> \<exists>bs. check bs = Inr v"
  by (auto simp: cached_value_def Let_def split: if_splits prod.splits option.splits sum.splits)

lemma fetch_map_checked: "fetch_map L H g h check w = (Inr v, u) \<Longrightarrow> \<exists>bs. check bs = Inr v"
  by (cases w) (auto simp: fetch_map_def fetch_remote_def bindA_ok_iff dest: cached_value_checked
      split: prod.splits option.splits)

lemma object_check_iff: "object_check L h bs = Inr x \<longleftrightarrow> object_parse L bs = Some x \<and> object_hash L x = h"
  by (auto simp: object_check_def res_bind_Inr_iff check_integrity_def)

lemma raw_check_iff: "raw_check L h bs = Inr b \<longleftrightarrow> b = bs \<and> hash_of L bs = h"
  by (auto simp: raw_check_def res_bind_Inr_iff check_integrity_def)

lemma upload_cached_cases:
  assumes "upload_cached L H g h c (s, n) = (r, (t, k))"
  obtains e where "r = Inl e" "cache_write_compressed L g h c s = (Inl e, t)" "k = n"
  | e s1 where "r = Inl e" "cache_write_compressed L g h c s = (Inr (), s1)"
      "upload_compressed L H g h c n = (Inl e, k)" "t = roll_back_cache L g h s1"
  | "r = Inr h" "cache_write_compressed L g h c s = (Inr (), t)" "upload_compressed L H g h c n = (Inr (), k)"
proof -
  obtain x s1 where x: "cache_write_compressed L g h c s = (x, s1)" by (rule prod.exhaust)
  obtain y m where y: "upload_compressed L H g h c n = (y, m)" by (rule prod.exhaust)
  show thesis
    by (cases x; cases y) (use x y assms that in \<open>auto simp: upload_cached_def on_disk_def bindA_def\<close>)
qed

lemma upload_cached_name: "upload_cached L H g h c w = (Inr h', u) \<Longrightarrow> h' = h"
  by (cases w; cases u) (auto elim: upload_cached_cases)

interpretation gcs: verified_store L "gcs_ops L H g" "\<lambda>_. True" for L H g
  by unfold_locales
    (auto simp: gcs_ops_def gcs_put_def gcs_put_raw_def gcs_get_def gcs_get_raw_def bindA_ok_iff object_check_iff raw_check_iff
      dest!: upload_cached_name fetch_map_checked)

section \<open>What stays in the cache\<close>

text \<open>The only file that may be at \<open>p\<close> afterwards is the one that was there.\<close>

definition only_loses :: "path \<Rightarrow> fs \<Rightarrow> fs \<Rightarrow> bool" where
  "only_loses p s t \<longleftrightarrow> (\<forall>c. map_of (entries t) p = Some (FFile c) \<longrightarrow> map_of (entries s) p = Some (FFile c))"

lemma only_loses_rel: "only_loses p s s" "only_loses p s t \<Longrightarrow> only_loses p t u \<Longrightarrow> only_loses p s u"
  by (simp_all add: only_loses_def)

lemma remove_file_only_loses: "only_loses p s (snd (fs_remove_file q s))"
  unfolding fs_remove_file_def
  by (cases rule: prim_cases [of whole "remove_file_e q" s])
    (auto simp: only_loses_def whole_def split: option.splits if_splits)

lemma map_of_filter_keys: "map_of (filter (\<lambda>(q, _). P q) es) p = (if P p then map_of es p else None)"
  using map_of_filter_key [of P es p] by (simp add: case_prod_unfold)

lemma remove_dir_all_only_loses: "only_loses p s (snd (fs_remove_dir_all q s))"
  unfolding fs_remove_dir_all_def
  by (cases rule: prim_cases [of "\<lambda>k es. es" "remove_dir_all_e q" s])
    (auto simp: only_loses_def map_of_filter_keys split: option.splits if_splits)

lemma evict_only_loses: "only_loses p s (evict_cache_entry q s)"
proof -
  obtain r t where r: "fs_remove_file q s = (r, t)" by (rule prod.exhaust)
  have "only_loses p s t" using remove_file_only_loses [of p s q] r by simp
  then show ?thesis
    using r remove_dir_all_only_loses [of p t q] by (auto simp: evict_cache_entry_def intro: only_loses_rel split: sum.splits)
qed

lemma cache_read_only_loses: "cache_read L g h s = (r, t) \<Longrightarrow> only_loses p s t"
  by (auto simp: cache_read_def only_loses_def dest: fs_read_entries split: prod.splits sum.splits)

lemma cached_value_only_loses: "only_loses p s (snd (cached_value L g h check s))"
proof -
  obtain r t where r: "cache_read L g h s = (r, t)" by (rule prod.exhaust)
  with cache_read_only_loses [OF r] evict_only_loses [of p t] show ?thesis
    by (auto simp: cached_value_def Let_def intro: only_loses_rel split: option.splits sum.splits)
qed

lemma cache_path_facts:
  assumes "hex_law L"
  shows "cache_path L g h \<noteq> []" "with_extension (cache_path L g h) ''tmp'' \<noteq> cache_path L g h"
  using tmp_not_path_for [OF assms] by (simp_all add: cache_path_def)

lemma cache_write_entry:
  assumes "hex_law L" "cache_write_compressed L g h c s = (r, t)"
    "map_of (entries t) (cache_path L g h) = Some (FFile b)"
  shows "b = c \<or> map_of (entries s) (cache_path L g h) = Some (FFile b)"
proof -
  obtain q where "replace_file (cache_path L g h) c s = (q, t)"
    using assms(2) by (auto simp: cache_write_compressed_def map_errA_def split: prod.splits)
  from replace_file_atomic [OF this cache_path_facts [OF assms(1)]] assms(3) show ?thesis by auto
qed

lemma download_decodes: "download_compressed L H g h n = (Inr (Some (bs, c)), k) \<Longrightarrow> unzstd L c = Some bs"
  by (auto simp: download_compressed_def Let_def bindA_ok_iff split: if_splits option.splits)

lemma fetch_remote_cases:
  assumes "fetch_remote L H g h check (s, n) = (r, (t, k))"
  obtains "t = s" "\<exists>e. r = Inl e"
  | bs c v where "download_compressed L H g h n = (Inr (Some (bs, c)), k)" "check bs = Inr v" "r = Inr v"
      "t = snd (cache_write_compressed L g h c s)"
proof -
  obtain x m where d: "download_compressed L H g h n = (x, m)" by (rule prod.exhaust)
  show thesis
  proof (cases "\<exists>bs c v. x = Inr (Some (bs, c)) \<and> check bs = Inr v")
    case True
    then obtain bs c v where x: "x = Inr (Some (bs, c))" "check bs = Inr v" by blast
    show thesis by (rule that(2) [of bs c v]) (use d assms x in \<open>auto simp: fetch_remote_def on_net_def bindA_def\<close>)
  next
    case False
    have "t = s \<and> (\<exists>e. r = Inl e)"
    proof (cases x)
      case (Inl e)
      with d assms show ?thesis by (auto simp: fetch_remote_def on_net_def bindA_def)
    next
      case (Inr y)
      show ?thesis
      proof (cases y)
        case None
        with d Inr assms show ?thesis by (auto simp: fetch_remote_def on_net_def bindA_def)
      next
        case (Some z)
        obtain bs c where z: "z = (bs, c)" by (rule prod.exhaust)
        with False Inr Some obtain e where "check bs = Inl e" by (cases "check bs") auto
        with d Inr Some z assms have "r = Inl e" "t = s" by (simp_all add: fetch_remote_def on_net_def bindA_def)
        then show ?thesis by blast
      qed
    qed
    with that(1) show thesis by blast
  qed
qed

text \<open>A read leaves the entry it found, none, or one that passes its check.\<close>

lemma fetch_map_entry:
  assumes "hex_law L" "fetch_map L H g h check (s, n) = (r, (t, k))"
    "map_of (entries t) (cache_path L g h) = Some (FFile c)"
  shows "map_of (entries s) (cache_path L g h) = Some (FFile c) \<or> (\<exists>bs v. unzstd L c = Some bs \<and> check bs = Inr v)"
proof -
  obtain x s1 where x: "cached_value L g h check s = (x, s1)" by (rule prod.exhaust)
  have s1: "only_loses (cache_path L g h) s s1" using cached_value_only_loses [of _ s L g h check] x by (metis snd_conv)
  show ?thesis
  proof (cases x)
    case (Some v)
    with assms(2, 3) x s1 show ?thesis by (simp add: fetch_map_def only_loses_def)
  next
    case None
    with assms(2) x have f: "fetch_remote L H g h check (s1, n) = (r, (t, k))" by (simp add: fetch_map_def)
    show ?thesis
    proof (rule fetch_remote_cases [OF f])
      assume "t = s1"
      with assms(3) s1 show ?thesis by (simp add: only_loses_def)
    next
      fix bs d v
      assume d: "download_compressed L H g h n = (Inr (Some (bs, d)), k)" "check bs = Inr v"
        and t: "t = snd (cache_write_compressed L g h d s1)"
      obtain q where "cache_write_compressed L g h d s1 = (q, t)" using t by (metis prod.collapse)
      from cache_write_entry [OF assms(1) this assms(3)] s1 d download_decodes [OF d(1)] show ?thesis
        by (auto simp: only_loses_def)
    qed
  qed
qed

section \<open>Healing\<close>

text \<open>The address can be used: its ancestors are directories or missing, the temporary file is not
  in the way. What is at the address itself does not matter: a directory there is evicted, too.\<close>

definition usable :: "lib \<Rightarrow> gcs_store \<Rightarrow> hash \<Rightarrow> fs \<Rightarrow> bool" where
  "usable L g h s \<longleftrightarrow>
     replaceable (del_entry (cache_path L g h) (entries s)) (cache_path L g h) \<and>
     map_of (entries s) (cache_path L g h) \<noteq> Some FSpecial"

definition cache_fails :: "lib \<Rightarrow> gcs_store \<Rightarrow> hash \<Rightarrow> (bytes \<Rightarrow> core_error + 'a) \<Rightarrow> fs \<Rightarrow> bool" where
  "cache_fails L g h check s \<longleftrightarrow>
     (\<forall>c bs. map_of (entries s) (cache_path L g h) = Some (FFile c) \<longrightarrow> unzstd L c = Some bs \<longrightarrow> isl (check bs))"

lemma starts_with_prefix: "starts_with p q \<Longrightarrow> length p \<le> length q"
  by (auto simp: starts_with_iff)

lemma evict_quiet:
  assumes "quiet s" "p \<noteq> []"
  shows "quiet (evict_cache_entry p s)" "map_of (entries (evict_cache_entry p s)) p = None"
    "\<not> starts_with p q \<Longrightarrow> map_of (entries (evict_cache_entry p s)) q = map_of (entries s) q"
proof -
  have p: "starts_with p p" by (simp add: starts_with_iff)
  have nq: "p \<noteq> q" if "\<not> starts_with p q" using that p by blast
  have "quiet (evict_cache_entry p s) \<and> map_of (entries (evict_cache_entry p s)) p = None \<and>
      (\<not> starts_with p q \<longrightarrow> map_of (entries (evict_cache_entry p s)) q = map_of (entries s) q)"
    using assms p nq
    by (cases "map_of (entries s) p")
      (auto simp: evict_cache_entry_def fs_remove_file_def fs_remove_dir_all_def prim_quiet quiet_def lookup_map_of
        is_dir_def map_of_filter_keys nf_def)
  then show "quiet (evict_cache_entry p s)" "map_of (entries (evict_cache_entry p s)) p = None"
    "\<not> starts_with p q \<Longrightarrow> map_of (entries (evict_cache_entry p s)) q = map_of (entries s) q" by auto
qed

lemma ancestor_shorter: "p \<noteq> [] \<Longrightarrow> take n (butlast p) \<noteq> p"
  by (cases p rule: rev_cases) (auto dest: arg_cong [where f = length])

lemma replaceable_evicted:
  assumes "quiet s" "replaceable (del_entry p (entries s)) p"
  shows "replaceable (entries (evict_cache_entry p s)) p"
proof -
  let ?t = "evict_cache_entry p s" and ?tmp = "with_extension p ''tmp''"
  have p: "p \<noteq> []" "?tmp \<noteq> p" using assms(2) by (auto simp: replaceable_def)
  have "\<not> starts_with p ?tmp" using p(2) by (auto simp: starts_with_iff) (metis append_eq_conv_conj length_with_extension take_all_iff append_Nil2 order_refl)
  moreover have "\<not> starts_with p (take (Suc n) (butlast p))" for n
    using p(1) by (cases p rule: rev_cases) (auto dest: starts_with_prefix)
  ultimately show ?thesis
    using assms p ancestor_shorter [OF p(1)] evict_quiet(2) [OF assms(1) p(1)] evict_quiet(3) [OF assms(1) p(1)]
    by (simp add: replaceable_def)
qed

lemma cached_value_fails:
  assumes "quiet s" "usable L g h s" "cache_fails L g h check s"
  obtains t where "cached_value L g h check s = (None, t)" "quiet t" "replaceable (entries t) (cache_path L g h)"
proof -
  let ?p = "cache_path L g h"
  have p: "?p \<noteq> []" using assms(2) by (auto simp: usable_def replaceable_def)
  show thesis
  proof (cases "path_exists s ?p")
    case False
    then have "replaceable (entries s) ?p"
      using assms(2) p ancestor_shorter [OF p]
      by (auto simp: usable_def replaceable_def path_exists_def lookup_map_of split: if_splits option.splits)
    with False assms(1) that show thesis by (simp add: cached_value_def)
  next
    case True
    obtain x where x: "cache_read L g h s = (x, s)" "\<And>bs. x = Some bs \<Longrightarrow> isl (check bs)"
      using assms(1, 3) p
      by (cases "read_e ?p (entries s)")
        (auto simp: cache_read_def fs_read_def prim_quiet quiet_def cache_fails_def lookup_map_of
          split: option.splits entry.splits sum.splits)
    then have "cached_value L g h check s = (None, evict_cache_entry ?p s)"
      using True by (auto simp: cached_value_def Let_def split: option.splits sum.splits)
    with that evict_quiet(1) [OF assms(1) p] replaceable_evicted [OF assms(1)] assms(2) show thesis
      by (simp add: usable_def)
  qed
qed

lemma fetch_heals:
  assumes "hex_law L" "quiet s" "usable L g h s" "cache_fails L g h check s"
    "download_compressed L H g h n = (Inr (Some (bs, c)), k)" "check bs = Inr v"
  obtains t where "fetch_map L H g h check (s, n) = (Inr v, (t, k))" "quiet t"
    "map_of (entries t) (cache_path L g h) = Some (FFile c)"
proof -
  obtain u where u: "cached_value L g h check s = (None, u)" "quiet u" "replaceable (entries u) (cache_path L g h)"
    by (rule cached_value_fails [OF assms(2-4)])
  obtain t where t: "replace_file (cache_path L g h) c u = (Inr (), t)" "quiet t"
    by (rule replace_file_quiet [OF u(2, 3)])
  have "map_of (entries t) (cache_path L g h) = Some (FFile c)"
    using replace_file_atomic [OF t(1) cache_path_facts [OF assms(1)]] by auto
  moreover have "fetch_map L H g h check (s, n) = (Inr v, (t, k))"
    using u(1) assms(5, 6) t(1)
    by (simp add: fetch_map_def fetch_remote_def on_net_def bindA_def cache_write_compressed_def map_errA_def)
  ultimately show thesis using that t(2) by blast
qed

section \<open>URLs\<close>

definition the_nibble :: "char \<Rightarrow> nat" where
  "the_nibble c = (if of_char c < (58 :: nat) then of_char c - 48 else of_char c - 55)"

fun urldecode :: "string \<Rightarrow> string" where
  "urldecode (c # a # b # s) =
     (if c = CHR ''%'' then char_of (16 * the_nibble a + the_nibble b) # urldecode s else c # urldecode (a # b # s))"
| "urldecode s = s"

lemma nibble_upper: "n < 16 \<Longrightarrow> the_nibble (hex_upper n) = n"
  by (simp add: the_nibble_def hex_upper_def)

lemma urldecode_escape:
  "c = CHR ''%'' \<Longrightarrow> urldecode (c # a # b # s) = char_of (16 * the_nibble a + the_nibble b) # urldecode s"
  by simp

lemma urldecode_plain: "c \<noteq> CHR ''%'' \<Longrightarrow> urldecode (c # s) = c # urldecode s"
  by (cases s; cases "tl s") auto

lemma slash_escape: "''%2F'' = [CHR ''%'', hex_upper (of_char (CHR ''/'') div 16), hex_upper (of_char (CHR ''/'') mod 16)]"
  by code_simp

lemma urldecode_char: "urldecode (urlencode_char c @ s) = c # urldecode s"
proof (cases "unreserved c")
  case True
  then have "c \<noteq> CHR ''%''" by (auto simp: unreserved_def is_alnum_def is_alpha_def is_lower_def is_upper_def is_digit_def)
  with True show ?thesis by (simp add: urlencode_char_def urldecode_plain)
next
  case False
  then have e: "urlencode_char c = [CHR ''%'', hex_upper (of_char c div 16), hex_upper (of_char c mod 16)]"
    using slash_escape by (simp add: urlencode_char_def)
  have "of_char c div 16 < (16 :: nat)" using of_char_lt_256 [of c] by linarith
  then have "char_of (16 * the_nibble (hex_upper (of_char c div 16)) + the_nibble (hex_upper (of_char c mod 16))) = c"
    by (simp add: nibble_upper)
  then show ?thesis by (simp add: e)
qed

lemma urldecode_urlencode: "urldecode (urlencode s) = s"
  by (induction s) (simp_all add: urlencode_def urldecode_char)

lemma urlencode_clean:
  assumes "x \<in> set (urlencode s)"
  shows "unreserved x \<or> x = CHR ''%''"
proof -
  obtain c where "x \<in> set (urlencode_char c)" using assms by (auto simp: urlencode_def)
  moreover have "unreserved (hex_upper n)" if "n < 16" for n
    using that by (auto simp: hex_upper_def unreserved_def is_alnum_def is_alpha_def is_upper_def is_digit_def)
  moreover have "of_char c div 16 < (16 :: nat)" using of_char_lt_256 [of c] by linarith
  moreover have "unreserved (CHR ''2'')" "unreserved (CHR ''F'')"
    by (simp_all add: unreserved_def is_alnum_def is_alpha_def is_upper_def is_digit_def)
  ultimately show ?thesis by (auto simp: urlencode_char_def split: if_splits)
qed

lemma object_name_inj:
  assumes "hex_law L" "object_name L g h = object_name L g k"
  shows "h = k"
proof -
  have l: "length (take 2 (to_hex L x)) = 2" for x using length_to_hex [OF assms(1), of x] by simp
  have "take 2 (to_hex L h) = take 2 (to_hex L k) \<and> drop 2 (to_hex L h) = drop 2 (to_hex L k)"
    using assms(2) l [of h] l [of k]
    by (cases "trim_matches (CHR ''/'') (gc_prefix g) = []") (simp_all add: object_name_def shard_def Let_def)
  then show ?thesis using to_hex_inj [OF assms(1)] by (metis append_take_drop_id)
qed

section \<open>Properties\<close>

text \<open>
  C22. Whatever the cache holds, whatever fails and whatever the network answers, a read returns
  only content that hashes to the address asked for, and a download that fails the check is
  never cached: the file at the address afterwards is the one that was there or one that passes
  the check of the read.\<close>

theorem gcs_reads_verified:
  assumes "hex_law L"
  shows "(\<forall>x u. gcs_get L H g h (s, n) = (Inr x, u) \<longrightarrow> object_hash L x = h) \<and>
    (\<forall>bs u. gcs_get_raw L H g h (s, n) = (Inr bs, u) \<longrightarrow> hash_of L bs = h) \<and>
    (\<forall>r t k c. gcs_get_raw L H g h (s, n) = (r, (t, k)) \<and> map_of (entries t) (cache_path L g h) = Some (FFile c) \<longrightarrow>
       map_of (entries s) (cache_path L g h) = Some (FFile c) \<or> (\<exists>bs. unzstd L c = Some bs \<and> hash_of L bs = h)) \<and>
    (\<forall>r t k c. gcs_get L H g h (s, n) = (r, (t, k)) \<and> map_of (entries t) (cache_path L g h) = Some (FFile c) \<longrightarrow>
       map_of (entries s) (cache_path L g h) = Some (FFile c) \<or>
       (\<exists>bs x. unzstd L c = Some bs \<and> object_parse L bs = Some x \<and> object_hash L x = h))"
proof (intro conjI allI impI; (elim conjE)?)
  fix r t k c
  assume "gcs_get_raw L H g h (s, n) = (r, (t, k))" "map_of (entries t) (cache_path L g h) = Some (FFile c)"
  from fetch_map_entry [OF assms this(1) [unfolded gcs_get_raw_def] this(2)]
  show "map_of (entries s) (cache_path L g h) = Some (FFile c) \<or> (\<exists>bs. unzstd L c = Some bs \<and> hash_of L bs = h)"
    by (auto simp: raw_check_iff)
next
  fix r t k c
  assume "gcs_get L H g h (s, n) = (r, (t, k))" "map_of (entries t) (cache_path L g h) = Some (FFile c)"
  from fetch_map_entry [OF assms this(1) [unfolded gcs_get_def] this(2)]
  show "map_of (entries s) (cache_path L g h) = Some (FFile c) \<or>
      (\<exists>bs x. unzstd L c = Some bs \<and> object_parse L bs = Some x \<and> object_hash L x = h)"
    by (auto simp: object_check_iff)
qed (use gcs.get_verified [where L = L and H = H and g = g] gcs.get_raw_verified [where L = L and H = H and g = g]
    in \<open>auto simp: gcs_ops_def\<close>)

text \<open>The network the witnesses use: one object, whatever its name.\<close>

definition slot_http :: "bytes option http" where
  "slot_http =
     \<lparr>ht_post = (\<lambda>tok hs url c n. (Inr \<lparr>rp_status = 200, rp_body = Inr []\<rparr>, Some c)),
      ht_get = (\<lambda>tok url n. (Inr (case n of None \<Rightarrow> \<lparr>rp_status = 404, rp_body = Inr []\<rparr>
                                     | Some c \<Rightarrow> \<lparr>rp_status = 200, rp_body = Inr c\<rparr>), n)),
      ht_head = (\<lambda>tok url n. (Inr \<lparr>rp_status = (if n = None then 404 else 200), rp_body = Inr []\<rparr>, n))\<rparr>"

definition sample_gcs :: gcs_store where
  "sample_gcs = \<lparr>gc_bucket = ''b'', gc_prefix = ''p/'', gc_cache_dir = [''cache''], gc_endpoint = default_gcs_endpoint,
                 gc_token = None, gc_allow = []\<rparr>"

lemma slot_download:
  "unzstd L c = Some bs \<Longrightarrow> download_compressed L slot_http g h (Some c) = (Inr (Some (bs, c)), Some c)"
  by (simp add: download_compressed_def slot_http_def success_def bindA_def Let_def map_errA_def)

lemma sample_usable: "usable sample_lib g h empty_fs" "cache_fails sample_lib g h check empty_fs"
  using empty_replaceable [OF sample_hex, of "cache_of g" h]
  by (simp_all add: usable_def cache_fails_def cache_path_def empty_fs_def del_entry_def)

theorem gcs_reads_verified_witness:
  "\<exists>h u. gcs_get_raw sample_lib slot_http sample_gcs h (empty_fs, Some [9]) = (Inr [9], u) \<and> hash_of sample_lib [9] = h"
proof -
  let ?h = "hash_of sample_lib [9]"
  have d: "download_compressed sample_lib slot_http sample_gcs ?h (Some [9]) = (Inr (Some ([9], [9])), Some [9])"
    by (rule slot_download) (simp add: sample_lib_def)
  obtain t where "fetch_map sample_lib slot_http sample_gcs ?h (raw_check sample_lib ?h) (empty_fs, Some [9]) = (Inr [9], (t, Some [9]))"
    by (rule fetch_heals [OF sample_hex quiet_empty sample_usable d, where check = "raw_check sample_lib ?h" and v = "[9]"])
      (simp_all add: raw_check_iff)
  then have g: "gcs_get_raw sample_lib slot_http sample_gcs ?h (empty_fs, Some [9]) = (Inr [9], (t, Some [9]))"
    by (simp add: gcs_get_raw_def)
  from gcs_reads_verified [OF sample_hex, of slot_http sample_gcs ?h empty_fs "Some [9]"] g show ?thesis by blast
qed

text \<open>
  A poisoned cache heals. When the disk works, the cached entry is missing, unreadable or fails
  the check of the read, and the bucket still has the object, the read returns the object and puts
  the bucket's copy into the cache, so that the next read is served from it.\<close>

theorem gcs_cache_heals:
  assumes "hex_law L" "quiet s" "usable L g h s" "cache_fails L g h (raw_check L h) s"
    and "download_compressed L H g h n = (Inr (Some (bs, c)), k)" "hash_of L bs = h"
  shows "\<exists>t. gcs_get_raw L H g h (s, n) = (Inr bs, (t, k)) \<and>
    (\<forall>m. gcs_get_raw L H g h (t, m) = (Inr bs, (t, m)))"
proof -
  have "raw_check L h bs = Inr bs" by (simp add: raw_check_iff assms(6))
  then obtain t where t: "fetch_map L H g h (raw_check L h) (s, n) = (Inr bs, (t, k))" "quiet t"
    "map_of (entries t) (cache_path L g h) = Some (FFile c)"
    by (rule fetch_heals [OF assms(1-5)])
  have "cache_read L g h t = (Some bs, t)"
    using t(2, 3) download_decodes [OF assms(5)] cache_path_facts(1) [OF assms(1)]
    by (simp add: cache_read_def fs_read_def prim_quiet quiet_def lookup_map_of)
  then have "cached_value L g h (raw_check L h) t = (Some bs, t)"
    using t(3) \<open>raw_check L h bs = Inr bs\<close> cache_path_facts(1) [OF assms(1)]
    by (simp add: cached_value_def file_exists)
  with t(1) show ?thesis by (auto simp: gcs_get_raw_def fetch_map_def)
qed

theorem gcs_cache_heals_witness:
  "\<exists>t. gcs_get_raw sample_lib slot_http sample_gcs (hash_of sample_lib [9]) (empty_fs, Some [9]) = (Inr [9], (t, Some [9])) \<and>
     (\<forall>m. gcs_get_raw sample_lib slot_http sample_gcs (hash_of sample_lib [9]) (t, m) = (Inr [9], (t, m)))"
  by (rule gcs_cache_heals [OF sample_hex quiet_empty sample_usable slot_download refl]) (simp add: sample_lib_def)

text \<open>What the sources rely on of the bucket: an acknowledged upload is what the reader's client
  downloads next.\<close>

definition gcs_law :: "'n http \<Rightarrow> gcs_store \<Rightarrow> bool" where
  "gcs_law H g \<longleftrightarrow>
     (\<forall>tok hs name c n r k. ht_post H tok hs (upload_url g name) c n = (Inr r, k) \<and> success r \<longrightarrow>
       (\<exists>q k'. ht_get H (gc_token g) (download_url g name) k = (Inr q, k') \<and> success q \<and> rp_body q = Inr c))"

definition same_bucket :: "gcs_store \<Rightarrow> gcs_store \<Rightarrow> bool" where
  "same_bucket g k \<longleftrightarrow> gc_bucket g = gc_bucket k \<and> gc_prefix g = gc_prefix k \<and> gc_endpoint g = gc_endpoint k"

lemma uploaded_downloads:
  assumes "gcs_law H g'" "same_bucket g g'" "upload_compressed L H g h c n = (Inr (), k)" "unzstd L c = Some bs"
  shows "\<exists>k'. download_compressed L H g' h k = (Inr (Some (bs, c)), k')"
proof -
  have name: "object_name L g' h = object_name L g h" "upload_url g' x = upload_url g x" for x
    using assms(2) by (simp_all add: same_bucket_def object_name_def upload_url_def)
  obtain r where r: "ht_post H (gc_token g) [(''Content-Type'', ''application/octet-stream''), (''x-goog-storage-class'', storage_class)]
      (upload_url g' (object_name L g' h)) c n = (Inr r, k)" "success r"
    using assms(3) by (auto simp: upload_compressed_def Let_def bindA_ok_iff name split: if_splits)
  with assms(1) obtain q k' where q: "ht_get H (gc_token g') (download_url g' (object_name L g' h)) k = (Inr q, k')"
    "success q" "rp_body q = Inr c" unfolding gcs_law_def by blast
  moreover have "rp_status q \<noteq> 404" using q(2) by (simp add: success_def)
  ultimately have "download_compressed L H g' h k = (Inr (Some (bs, c)), k')"
    using assms(4) by (simp add: download_compressed_def Let_def bindA_def map_errA_def)
  then show ?thesis ..
qed

lemma roll_back_quiet:
  assumes "quiet s" "cache_path L g h \<noteq> []" "map_of (entries s) (cache_path L g h) = Some (FFile c)"
  shows "map_of (entries (roll_back_cache L g h s)) (cache_path L g h) = None"
  using assms by (simp add: roll_back_cache_def fs_remove_file_def prim_quiet quiet_def lookup_map_of)

text \<open>
  A put is durable or leaves no trace. When it succeeds its address is the hash of the bytes and every
  other daemon on the same bucket and prefix, with a cache of its own, reads the bytes there;
  when it fails and the disk works, the cache gains no entry, so the failed put is not taken for a
  stored object.\<close>

theorem gcs_put_durable:
  assumes "hex_law L" "zstd_law L" "gcs_law H g'" "same_bucket g g'"
    and "gcs_put_raw L H g kind bs (s, n) = (r, (t, k))"
  shows "(\<forall>h. r = Inr h \<longrightarrow> h = hash_of L bs \<and>
      (\<forall>u. quiet u \<and> usable L g' h u \<and> cache_fails L g' h (raw_check L h) u \<longrightarrow>
         (\<exists>v. gcs_get_raw L H g' h (u, k) = (Inr bs, v)))) \<and>
    (\<forall>e c. r = Inl e \<and> quiet s \<and> map_of (entries t) (cache_path L g (hash_of L bs)) = Some (FFile c) \<longrightarrow>
       map_of (entries s) (cache_path L g (hash_of L bs)) = Some (FFile c))"
proof -
  let ?h = "hash_of L bs" and ?c = "zstd L bs"
  have z: "unzstd L ?c = Some bs" using assms(2) by (simp add: zstd_law_def)
  consider (refused) e where "r = Inl e" "t = s" | (sent) "upload_cached L H g ?h ?c (s, n) = (r, (t, k))"
    using assms(5) by (cases "scan_gate (cache_of g) ?h (scan L bs)") (auto simp: gcs_put_raw_def bindA_def)
  then show ?thesis
  proof cases
    case refused
    then show ?thesis by simp
  next
    case sent
    show ?thesis
    proof (rule upload_cached_cases [OF sent])
      fix e assume e: "r = Inl e" "cache_write_compressed L g ?h ?c s = (Inl e, t)"
      obtain e' where f: "replace_file (cache_path L g ?h) ?c s = (Inl e', t)"
        using e(2) by (auto simp: cache_write_compressed_def map_errA_def map_err_def split: prod.splits sum.splits)
      from replace_file_atomic [OF f cache_path_facts [OF assms(1)]] e(1) show ?thesis by auto
    next
      fix e s1
      assume e: "r = Inl e" "cache_write_compressed L g ?h ?c s = (Inr (), s1)" "t = roll_back_cache L g ?h s1"
      have f: "replace_file (cache_path L g ?h) ?c s = (Inr (), s1)" using e(2) by (simp add: cache_write_compressed_def)
      have m: "map_of (entries s1) (cache_path L g ?h) = Some (FFile ?c)"
        using replace_file_atomic [OF f cache_path_facts [OF assms(1)]] by auto
      have "quiet s1" if "quiet s" by (rule preservesD [OF preserves_quiet_replace_file that f])
      with e(1, 3) roll_back_quiet [OF _ cache_path_facts(1) [OF assms(1)] m] show ?thesis by auto
    next
      assume ok: "r = Inr ?h" "upload_compressed L H g ?h ?c n = (Inr (), k)"
      obtain k' where k': "download_compressed L H g' ?h k = (Inr (Some (bs, ?c)), k')"
        using uploaded_downloads [OF assms(3, 4) ok(2) z] by blast
      have "\<exists>v. gcs_get_raw L H g' ?h (u, k) = (Inr bs, v)"
        if "quiet u" "usable L g' ?h u" "cache_fails L g' ?h (raw_check L ?h) u" for u
        by (rule fetch_heals [OF assms(1) that k', of bs]) (auto simp: raw_check_iff gcs_get_raw_def)
      with ok(1) show ?thesis by auto
    qed
  qed
qed

lemma slot_law: "gcs_law slot_http g"
  by (simp add: gcs_law_def slot_http_def success_def)

theorem gcs_put_durable_witness:
  "\<exists>t k v. gcs_put_raw sample_lib slot_http sample_gcs KSegment [9] (empty_fs, None) = (Inr (hash_of sample_lib [9]), (t, k)) \<and>
     gcs_get_raw sample_lib slot_http (sample_gcs\<lparr>gc_cache_dir := [''other'']\<rparr>) (hash_of sample_lib [9]) (empty_fs, k) = (Inr [9], v)"
proof -
  let ?h = "hash_of sample_lib [9]"
  have "scan sample_lib [9] = []" by (rule scan_sample) simp
  then have g: "scan_gate (cache_of sample_gcs) ?h (scan sample_lib [9]) = Inr ()" by (simp add: scan_gate_def)
  obtain t where t: "replace_file (cache_path sample_lib sample_gcs ?h) (zstd sample_lib [9]) empty_fs = (Inr (), t)"
    using replace_file_quiet [OF quiet_empty] empty_replaceable [OF sample_hex] unfolding cache_path_def by blast
  have p: "gcs_put_raw sample_lib slot_http sample_gcs KSegment [9] (empty_fs, None) = (Inr ?h, (t, Some (zstd sample_lib [9])))"
    using g t by (simp add: gcs_put_raw_def upload_cached_def on_disk_def bindA_def cache_write_compressed_def map_errA_def
        upload_compressed_def Let_def slot_http_def success_def)
  have b: "same_bucket sample_gcs (sample_gcs\<lparr>gc_cache_dir := [''other'']\<rparr>)" by (simp add: same_bucket_def)
  from gcs_put_durable [OF sample_hex sample_zstd slot_law b p] sample_usable quiet_empty p show ?thesis by blast
qed

text \<open>
  Unlike the local store, which keeps the first content of an address, a bucket keeps the last:
  putting a blob over raw bytes with the same address replaces them by the blob's document,
  and the raw bytes cannot be read back.\<close>

theorem gcs_blob_replaces_raw:
  assumes "hex_law L" "zstd_law L" "gcs_law H g'" "same_bucket g g'"
    and "gcs_put L H g (OBlob bs) policy (s, n) = (Inr h, (t, k))"
    and "quiet u" "usable L g' h u" "cache_fails L g' h (raw_check L h) u"
    and "hash_of L (object_bytes L (OBlob bs)) \<noteq> hash_of L bs"
  shows "h = hash_of L bs \<and> (\<exists>v. gcs_get_raw L H g' h (u, k) = (Inl (IntegrityError h (hash_of L (object_bytes L (OBlob bs)))), v))"
proof -
  let ?d = "object_bytes L (OBlob bs)"
  have up: "upload_cached L H g (object_hash L (OBlob bs)) (zstd L ?d) (s, n) = (Inr h, (t, k))"
    using assms(5) by (auto simp: gcs_put_def bindA_ok_iff)
  from upload_cached_name [OF up] have h: "h = hash_of L bs" by (simp add: blob_hash_def)
  have "upload_compressed L H g h (zstd L ?d) n = (Inr (), k)"
    using up h by (auto elim!: upload_cached_cases simp: blob_hash_def)
  from uploaded_downloads [OF assms(3, 4) this, of ?d] assms(2)
  obtain k' where k': "download_compressed L H g' h k = (Inr (Some (?d, zstd L ?d)), k')" by (auto simp: zstd_law_def)
  obtain w where w: "cached_value L g' h (raw_check L h) u = (None, w)"
    by (rule cached_value_fails [OF assms(6-8)])
  have "raw_check L h ?d = Inl (IntegrityError h (hash_of L ?d))"
    using assms(9) h by (simp add: raw_check_def check_integrity_def)
  then have "gcs_get_raw L H g' h (u, k) = (Inl (IntegrityError h (hash_of L ?d)), (w, k'))"
    using w k' by (simp add: gcs_get_raw_def fetch_map_def fetch_remote_def on_net_def bindA_def)
  with h show ?thesis by blast
qed

text \<open>
  Object names survive the trip through a URL: percent-encoding is undone by percent-decoding, leaves
  only unreserved characters and escapes, so that a slash of a name never splits the path of the
  request, and two addresses never share an object.\<close>

theorem gcs_urls_exact:
  "urldecode (urlencode s) = s \<and> (\<forall>x\<in>set (urlencode s). unreserved x \<or> x = CHR ''%'') \<and>
   (hex_law L \<longrightarrow> object_name L g h = object_name L g k \<longrightarrow> h = k)"
  using urldecode_urlencode urlencode_clean object_name_inj by blast

theorem gcs_urls_exact_witness:
  "urldecode (urlencode ''a/b.zst'') = ''a/b.zst'' \<and> object_name sample_lib sample_gcs 0 \<noteq> object_name sample_lib sample_gcs 1"
  using gcs_urls_exact [of "''a/b.zst''" sample_lib sample_gcs 0 1] sample_hex by auto

end
