(* ===== verification/Streamer.thy ===== *)
theory Streamer
  imports Memory_Adapter
begin

text \<open>
  The streamer (\<open>streamer.rs\<close>): one task that turns change events into sealed segments. A command
  of its channel is a value of \<open>cmd\<close>; \<open>streamer_step\<close> is one turn of the task, with the reply it
  sends if the command asks for one, and \<open>streamer_run\<close> the task on the commands in the order of
  the channel. The heads and the primary keys are the two \<open>BTreeMap\<close>s. Log messages and error
  texts are abbreviated.
\<close>

section \<open>Events and heads\<close>

definition default_channel_depth :: nat where
  "default_channel_depth = 1024"

datatype op = Insert | Update | Delete

record change_event =
  ev_table :: string
  ev_row :: json
  ev_op :: op
  ev_schema :: string

record table_head =
  th_table :: string
  th_active :: segment
  th_sealed :: "segment_ref list"
  th_threshold :: nat

definition blank_segment :: "string \<Rightarrow> string \<Rightarrow> segment" where
  "blank_segment t sv =
     \<lparr>sg_table = t, sg_schema = sv, sg_pk_lo = JNull, sg_pk_hi = JNull, sg_row_count = 0, sg_rows = [],
      sg_embeddings = [], sg_metadata = []\<rparr>"

definition head_new :: "string \<Rightarrow> string \<Rightarrow> nat \<Rightarrow> table_head" where
  "head_new t sv n = \<lparr>th_table = t, th_active = blank_segment t sv, th_sealed = [], th_threshold = n\<rparr>"

fun op_name :: "op \<Rightarrow> string" where
  "op_name Insert = ''insert''"
| "op_name Update = ''update''"
| "op_name Delete = ''delete''"

definition envelope_of :: "op \<Rightarrow> json \<Rightarrow> json" where
  "envelope_of x row = JObj [(''op'', JStr (op_name x)), (''row'', row)]"

text \<open>\<open>apply\<close>: the schema of an empty head follows the event even when the event is refused.\<close>

definition adopt_schema :: "change_event \<Rightarrow> segment \<Rightarrow> segment" where
  "adopt_schema ev g = (if sg_schema g \<noteq> ev_schema ev \<and> sg_rows g = [] then g\<lparr>sg_schema := ev_schema ev\<rparr> else g)"

definition event_pk :: "change_event \<Rightarrow> string \<Rightarrow> mem_error + json" where
  "event_pk ev pk_col =
     (case json_get pk_col (ev_row ev) of
        None \<Rightarrow> Inl (Backend ''streamer event: PK column is absent from event row'')
      | Some v \<Rightarrow> if v = JNull then Inl (Backend ''streamer event: PK column is NULL'') else Inr v)"

definition push_row :: "json \<Rightarrow> json \<Rightarrow> segment \<Rightarrow> segment" where
  "push_row pk row g =
     g\<lparr>sg_pk_lo := (if sg_rows g = [] then pk else sg_pk_lo g), sg_pk_hi := pk, sg_rows := sg_rows g @ [row],
       sg_row_count := of_nat (length (sg_rows g @ [row]))\<rparr>"

definition head_apply :: "change_event \<Rightarrow> string \<Rightarrow> (table_head, mem_error, unit) act" where
  "head_apply ev pk_col h =
     (let g = adopt_schema ev (th_active h) in
      case event_pk ev pk_col of
        Inl e \<Rightarrow> (Inl e, h\<lparr>th_active := g\<rparr>)
      | Inr pk \<Rightarrow> (Inr (), h\<lparr>th_active := push_row pk (envelope_of (ev_op ev) (ev_row ev)) g\<rparr>))"

definition ref_of :: "lib \<Rightarrow> segment \<Rightarrow> hash \<Rightarrow> segment_ref" where
  "ref_of L g h = \<lparr>sr_table = sg_table g, sr_pk_lo = sg_pk_lo g, sr_pk_hi = sg_pk_hi g, sr_segment = h,
                   sr_row_count = sg_row_count g\<rparr>"

definition seal_if_nonempty :: "lib \<Rightarrow> 'w store_ops \<Rightarrow> ('w \<times> table_head, mem_error, segment_ref option) act" where
  "seal_if_nonempty L S = (\<lambda>(w, h).
     let g = th_active h in
     if sg_rows g = [] then (Inr None, (w, h))
     else case st_put_raw S KSegment (segment_bytes L g) w of
       (Inl e, v) \<Rightarrow> (Inl (Backend ''persisting segment''), (v, h))
     | (Inr x, v) \<Rightarrow>
         (Inr (Some (ref_of L g x)),
          (v, h\<lparr>th_sealed := th_sealed h @ [ref_of L g x], th_active := blank_segment (th_table h) (sg_schema g)\<rparr>)))"

definition maybe_seal_on_threshold :: "lib \<Rightarrow> 'w store_ops \<Rightarrow> ('w \<times> table_head, mem_error, unit) act" where
  "maybe_seal_on_threshold L S = (\<lambda>(w, h).
     if canonical_size L (th_active h) \<ge> th_threshold h
     then bindA (seal_if_nonempty L S) (\<lambda>_. ret ()) (w, h)
     else (Inr (), (w, h)))"

section \<open>The task\<close>

record streamer =
  sm_heads :: "(string \<times> table_head) list"
  sm_pk :: "(string \<times> string) list"

datatype cmd = Event change_event | SeedSealed "segment_ref list" | TakeSnapshot string

definition spawn :: "tracked_table list \<Rightarrow> nat \<Rightarrow> string \<Rightarrow> streamer" where
  "spawn tables n sv =
     \<lparr>sm_heads = bt_of_list (map (\<lambda>t. (tt_name t, head_new (tt_name t) sv n)) tables),
      sm_pk = bt_of_list (map (\<lambda>t. (tt_name t, tt_pk t)) tables)\<rparr>"

definition set_head :: "string \<Rightarrow> table_head \<Rightarrow> streamer \<Rightarrow> streamer" where
  "set_head t h s = s\<lparr>sm_heads := bt_insert t h (sm_heads s)\<rparr>"

text \<open>An event of an untracked table, or one whose row lacks its key, is dropped; a failed seal
  leaves the rows in the head.\<close>

definition on_event :: "lib \<Rightarrow> 'w store_ops \<Rightarrow> change_event \<Rightarrow> 'w \<times> streamer \<Rightarrow> 'w \<times> streamer" where
  "on_event L S ev = (\<lambda>(w, s).
     case map_of (sm_heads s) (ev_table ev) of
       None \<Rightarrow> (w, s)
     | Some h \<Rightarrow>
         (case map_of (sm_pk s) (ev_table ev) of
            None \<Rightarrow> (w, s)
          | Some pk \<Rightarrow>
              (case head_apply ev pk h of
                 (Inl e, h1) \<Rightarrow> (w, set_head (ev_table ev) h1 s)
               | (Inr _, h1) \<Rightarrow>
                   (case snd (maybe_seal_on_threshold L S (w, h1)) of
                      (v, h2) \<Rightarrow> (v, set_head (ev_table ev) h2 s)))))"

fun seed_sealed :: "segment_ref list \<Rightarrow> streamer \<Rightarrow> streamer" where
  "seed_sealed [] s = s"
| "seed_sealed (r # rs) s =
     seed_sealed rs
       (case map_of (sm_heads s) (sr_table r) of
          None \<Rightarrow> s
        | Some h \<Rightarrow> set_head (sr_table r) (h\<lparr>th_sealed := th_sealed h @ [r]\<rparr>) s)"

text \<open>Sealing the heads in the order of the map stops at the first failure.\<close>

fun seal_heads :: "lib \<Rightarrow> 'w store_ops \<Rightarrow> (string \<times> table_head) list \<Rightarrow> 'w \<Rightarrow>
    (mem_error + unit) \<times> 'w \<times> (string \<times> table_head) list" where
  "seal_heads L S [] w = (Inr (), w, [])"
| "seal_heads L S ((t, h) # hs) w =
     (case seal_if_nonempty L S (w, h) of
        (Inl e, (v, h1)) \<Rightarrow> (Inl e, v, (t, h1) # hs)
      | (Inr _, (v, h1)) \<Rightarrow> (case seal_heads L S hs v of (r, u, hs1) \<Rightarrow> (r, u, (t, h1) # hs1)))"

definition manifest_of_heads :: "lib \<Rightarrow> string \<Rightarrow> (string \<times> table_head) list \<Rightarrow> segment_manifest" where
  "manifest_of_heads L sv hs =
     foldl (\<lambda>m r. manifest_push L r m) (manifest_new sv) (concat (map (\<lambda>(t, h). th_sealed h) hs))"

definition streamer_snapshot :: "lib \<Rightarrow> 'w store_ops \<Rightarrow> string \<Rightarrow> ('w \<times> streamer, mem_error, segment_manifest) act" where
  "streamer_snapshot L S sv = (\<lambda>(w, s).
     case seal_heads L S (sm_heads s) w of
       (Inl e, v, hs) \<Rightarrow> (Inl e, (v, s\<lparr>sm_heads := hs\<rparr>))
     | (Inr _, v, hs) \<Rightarrow> (Inr (manifest_of_heads L sv hs), (v, s\<lparr>sm_heads := hs\<rparr>)))"

fun streamer_step :: "lib \<Rightarrow> 'w store_ops \<Rightarrow> cmd \<Rightarrow> 'w \<times> streamer \<Rightarrow>
    (mem_error + segment_manifest) option \<times> ('w \<times> streamer)" where
  "streamer_step L S (Event ev) x = (None, on_event L S ev x)"
| "streamer_step L S (SeedSealed rs) (w, s) = (None, (w, seed_sealed rs s))"
| "streamer_step L S (TakeSnapshot sv) x = (case streamer_snapshot L S sv x of (r, y) \<Rightarrow> (Some r, y))"

fun streamer_run :: "lib \<Rightarrow> 'w store_ops \<Rightarrow> cmd list \<Rightarrow> 'w \<times> streamer \<Rightarrow>
    (mem_error + segment_manifest) list \<times> ('w \<times> streamer)" where
  "streamer_run L S [] x = ([], x)"
| "streamer_run L S (c # cs) x =
     (case streamer_step L S c x of (r, y) \<Rightarrow>
        (case streamer_run L S cs y of (rs, z) \<Rightarrow> ((case r of None \<Rightarrow> rs | Some q \<Rightarrow> q # rs), z)))"

section \<open>The specification: a log of rows per table\<close>

text \<open>An event adds its envelope to the log of its table if its row has a key that is not null.\<close>

definition logged_row :: "(string \<times> string) list \<Rightarrow> string \<Rightarrow> change_event \<Rightarrow> json list" where
  "logged_row pks t ev =
     (if ev_table ev \<noteq> t then []
      else case map_of pks t of
        None \<Rightarrow> []
      | Some pk \<Rightarrow> (case event_pk ev pk of Inl _ \<Rightarrow> [] | Inr _ \<Rightarrow> [envelope_of (ev_op ev) (ev_row ev)]))"

fun logged :: "(string \<times> string) list \<Rightarrow> string \<Rightarrow> cmd list \<Rightarrow> json list" where
  "logged pks t [] = []"
| "logged pks t (Event ev # cs) = logged_row pks t ev @ logged pks t cs"
| "logged pks t (_ # cs) = logged pks t cs"

fun seeded :: "string \<Rightarrow> cmd list \<Rightarrow> segment_ref list" where
  "seeded t [] = []"
| "seeded t (SeedSealed rs # cs) = filter (\<lambda>r. sr_table r = t) rs @ seeded t cs"
| "seeded t (_ # cs) = seeded t cs"

text \<open>A sealed reference is one the adapter seeded, or a segment the task sealed.\<close>

datatype item = Seeded segment_ref | Own segment

fun item_ref :: "lib \<Rightarrow> item \<Rightarrow> segment_ref" where
  "item_ref L (Seeded r) = r"
| "item_ref L (Own g) = ref_of L g (segment_hash L g)"

fun item_rows :: "item \<Rightarrow> json list" where
  "item_rows (Seeded r) = []"
| "item_rows (Own g) = sg_rows g"

fun item_seed :: "item \<Rightarrow> segment_ref list" where
  "item_seed (Seeded r) = [r]"
| "item_seed (Own g) = []"

text \<open>A segment of a table: its count is its rows, its range is the keys of its first and last row.\<close>

definition row_key :: "string \<Rightarrow> json \<Rightarrow> json option" where
  "row_key pk env = Option.bind (json_get ''row'' env) (json_get pk)"

definition segment_ok :: "string \<Rightarrow> string \<Rightarrow> segment \<Rightarrow> bool" where
  "segment_ok t pk g \<longleftrightarrow>
     sg_table g = t \<and> sg_row_count g = of_nat (length (sg_rows g)) \<and> sg_embeddings g = [] \<and> sg_metadata g = [] \<and>
     (sg_rows g \<noteq> [] \<longrightarrow>
        row_key pk (hd (sg_rows g)) = Some (sg_pk_lo g) \<and> row_key pk (last (sg_rows g)) = Some (sg_pk_hi g) \<and>
        sg_pk_lo g \<noteq> JNull \<and> sg_pk_hi g \<noteq> JNull)"

definition acked :: "lib \<Rightarrow> 'w store_ops \<Rightarrow> segment \<Rightarrow> bool" where
  "acked L S g \<longleftrightarrow> (\<exists>w v. st_put_raw S KSegment (segment_bytes L g) w = (Inr (segment_hash L g), v))"

definition put_named :: "lib \<Rightarrow> 'w store_ops \<Rightarrow> bool" where
  "put_named L S \<longleftrightarrow> (\<forall>k bs w h v. st_put_raw S k bs w = (Inr h, v) \<longrightarrow> h = hash_of L bs)"

definition items_ok :: "lib \<Rightarrow> 'w store_ops \<Rightarrow> string \<Rightarrow> string \<Rightarrow> item list \<Rightarrow> bool" where
  "items_ok L S t pk xs \<longleftrightarrow> (\<forall>g. Own g \<in> set xs \<longrightarrow> segment_ok t pk g \<and> sg_rows g \<noteq> [] \<and> acked L S g)"

definition head_inv :: "lib \<Rightarrow> 'w store_ops \<Rightarrow> string \<Rightarrow> string \<Rightarrow> json list \<Rightarrow> segment_ref list \<Rightarrow> table_head \<Rightarrow> bool" where
  "head_inv L S t pk rows seeds h \<longleftrightarrow>
     th_table h = t \<and> segment_ok t pk (th_active h) \<and>
     (\<exists>xs. th_sealed h = map (item_ref L) xs \<and> concat (map item_rows xs) @ sg_rows (th_active h) = rows \<and>
           concat (map item_seed xs) = seeds \<and> items_ok L S t pk xs)"

section \<open>The heads keep the log\<close>

lemma row_key_envelope [simp]: "row_key pk (envelope_of x row) = json_get pk row"
  by (simp add: row_key_def envelope_of_def json_get_def)

lemma blank_ok [simp]: "segment_ok t pk (blank_segment t sv)" "sg_rows (blank_segment t sv) = []"
  by (simp_all add: segment_ok_def blank_segment_def)

lemma adopt_schema_ok [simp]: "segment_ok t pk (adopt_schema ev g) = segment_ok t pk g" "sg_rows (adopt_schema ev g) = sg_rows g"
  by (simp_all add: adopt_schema_def segment_ok_def)

lemma push_row_ok:
  "segment_ok t pk g \<Longrightarrow> row_key pk row = Some k \<Longrightarrow> k \<noteq> JNull \<Longrightarrow> segment_ok t pk (push_row k row g)"
  by (cases "sg_rows g") (auto simp: segment_ok_def push_row_def)

lemma event_pk_key: "event_pk ev pk = Inr k \<Longrightarrow> json_get pk (ev_row ev) = Some k \<and> k \<noteq> JNull"
  by (auto simp: event_pk_def split: option.splits if_splits)

lemma head_new_inv: "head_inv L S t pk [] [] (head_new t sv n)"
  by (auto simp: head_inv_def head_new_def items_ok_def intro!: exI [of _ "[]"])

lemma head_apply_inv:
  assumes "head_inv L S t pk rows seeds h" "head_apply ev pk h = (r, h')"
  shows "head_inv L S t pk (rows @ (case r of Inl _ \<Rightarrow> [] | Inr _ \<Rightarrow> [envelope_of (ev_op ev) (ev_row ev)])) seeds h'"
    "isl r = isl (event_pk ev pk)"
proof -
  show "isl r = isl (event_pk ev pk)" using assms(2) by (auto simp: head_apply_def Let_def split: sum.splits)
  let ?row = "envelope_of (ev_op ev) (ev_row ev)"
  show "head_inv L S t pk (rows @ (case r of Inl _ \<Rightarrow> [] | Inr _ \<Rightarrow> [?row])) seeds h'"
  proof (cases "event_pk ev pk")
    case (Inl e)
    then have "r = Inl e" "h' = h\<lparr>th_active := adopt_schema ev (th_active h)\<rparr>"
      using assms(2) by (simp_all add: head_apply_def Let_def)
    with assms(1) show ?thesis by (simp add: head_inv_def)
  next
    case (Inr k)
    let ?g = "push_row k ?row (adopt_schema ev (th_active h))"
    have rh: "r = Inr ()" "h' = h\<lparr>th_active := ?g\<rparr>"
      using assms(2) Inr by (simp_all add: head_apply_def Let_def)
    have "sg_rows ?g = sg_rows (th_active h) @ [?row]" by (simp add: push_row_def)
    moreover have "segment_ok t pk ?g"
      using assms(1) event_pk_key [OF Inr] by (intro push_row_ok) (simp_all add: head_inv_def)
    ultimately show ?thesis using assms(1) rh by (auto simp: head_inv_def)
  qed
qed

lemma seal_inv:
  assumes "put_named L S" "head_inv L S t pk rows seeds h" "seal_if_nonempty L S (w, h) = (r, (v, h'))"
  shows "head_inv L S t pk rows seeds h'" "r = Inr x \<Longrightarrow> sg_rows (th_active h') = []"
proof -
  let ?g = "th_active h"
  obtain y u where y: "st_put_raw S KSegment (segment_bytes L ?g) w = (y, u)" by (rule prod.exhaust)
  have "head_inv L S t pk rows seeds h' \<and> (r = Inr x \<longrightarrow> sg_rows (th_active h') = [])"
  proof (cases "sg_rows ?g = [] \<or> isl y")
    case True
    with assms(2, 3) y show ?thesis by (cases y) (auto simp: seal_if_nonempty_def Let_def split: if_splits)
  next
    case False
    then obtain q where q: "y = Inr q" by (cases y) auto
    have h: "q = segment_hash L ?g" using assms(1) y unfolding put_named_def segment_hash_def q by blast
    have h': "h' = h\<lparr>th_sealed := th_sealed h @ [item_ref L (Own ?g)], th_active := blank_segment t (sg_schema ?g)\<rparr>"
      using assms(2, 3) y q h False by (auto simp: seal_if_nonempty_def Let_def head_inv_def)
    obtain xs where xs: "th_sealed h = map (item_ref L) xs" "concat (map item_rows xs) @ sg_rows ?g = rows"
      "concat (map item_seed xs) = seeds" "items_ok L S t pk xs" "th_table h = t" "segment_ok t pk ?g"
      using assms(2) by (auto simp: head_inv_def)
    have "items_ok L S t pk (xs @ [Own ?g])"
      using xs(4, 6) False y q h by (auto simp: items_ok_def acked_def)
    then have "head_inv L S t pk rows seeds h'"
      using xs unfolding head_inv_def h' by (intro conjI exI [of _ "xs @ [Own ?g]"]) simp_all
    then show ?thesis by (simp add: h')
  qed
  then show "head_inv L S t pk rows seeds h'" "r = Inr x \<Longrightarrow> sg_rows (th_active h') = []" by blast+
qed

lemma maybe_seal_inv:
  assumes "put_named L S" "head_inv L S t pk rows seeds h" "snd (maybe_seal_on_threshold L S (w, h)) = (v, h')"
  shows "head_inv L S t pk rows seeds h'"
proof (cases "canonical_size L (th_active h) \<ge> th_threshold h")
  case True
  obtain r w1 h1 where s: "seal_if_nonempty L S (w, h) = (r, (w1, h1))" by (metis prod.exhaust)
  with True assms(3) have "h1 = h'" by (auto simp: maybe_seal_on_threshold_def bindA_def split: sum.splits)
  with seal_inv(1) [OF assms(1, 2) s] show ?thesis by simp
next
  case False
  with assms(2, 3) show ?thesis by (simp add: maybe_seal_on_threshold_def)
qed

definition streamer_inv :: "lib \<Rightarrow> 'w store_ops \<Rightarrow> (string \<times> string) list \<Rightarrow> (string \<Rightarrow> json list) \<Rightarrow>
    (string \<Rightarrow> segment_ref list) \<Rightarrow> streamer \<Rightarrow> bool" where
  "streamer_inv L S pks rows seeds s \<longleftrightarrow>
     sm_pk s = pks \<and> bt_ok (sm_heads s) \<and> (\<forall>t. map_of (sm_heads s) t = None \<longleftrightarrow> map_of pks t = None) \<and>
     (\<forall>t pk h. map_of pks t = Some pk \<longrightarrow> map_of (sm_heads s) t = Some h \<longrightarrow> head_inv L S t pk (rows t) (seeds t) h)"

lemma set_head_inv:
  assumes "streamer_inv L S pks rows seeds s" "map_of pks t = Some pk" "head_inv L S t pk (rows' t) (seeds' t) h"
    "\<And>u. u \<noteq> t \<Longrightarrow> rows' u = rows u \<and> seeds' u = seeds u"
  shows "streamer_inv L S pks rows' seeds' (set_head t h s)"
  using assms by (auto simp: streamer_inv_def set_head_def bt_insert_ok)

lemma tracked_head:
  assumes "streamer_inv L S pks rows seeds s" "map_of (sm_heads s) t = Some h"
  obtains pk where "map_of pks t = Some pk" "head_inv L S t pk (rows t) (seeds t) h"
  using assms unfolding streamer_inv_def by (metis not_None_eq)

lemma tracked_some: "streamer_inv L S pks rows seeds s \<Longrightarrow> map_of pks t = Some pk \<Longrightarrow> \<exists>h. map_of (sm_heads s) t = Some h"
  unfolding streamer_inv_def by (metis not_None_eq)

lemma on_event_inv:
  assumes "put_named L S" "streamer_inv L S pks rows seeds s" "on_event L S ev (w, s) = (v, s')"
  shows "streamer_inv L S pks (\<lambda>t. rows t @ logged_row pks t ev) seeds s'"
proof (cases "map_of (sm_heads s) (ev_table ev)")
  case None
  then have "map_of pks (ev_table ev) = None" using assms(2) by (simp add: streamer_inv_def)
  then have "logged_row pks t ev = []" for t by (auto simp: logged_row_def)
  with None assms(2, 3) show ?thesis by (simp add: on_event_def)
next
  case (Some h)
  obtain pk where pk: "map_of pks (ev_table ev) = Some pk"
    "head_inv L S (ev_table ev) pk (rows (ev_table ev)) (seeds (ev_table ev)) h"
    by (rule tracked_head [OF assms(2) Some])
  have sm: "map_of (sm_pk s) (ev_table ev) = Some pk" using assms(2) pk(1) by (simp add: streamer_inv_def)
  obtain r h1 where a: "head_apply ev pk h = (r, h1)" by (rule prod.exhaust)
  note h1 = head_apply_inv [OF pk(2) a]
  have row: "logged_row pks (ev_table ev) ev = (case r of Inl _ \<Rightarrow> [] | Inr _ \<Rightarrow> [envelope_of (ev_op ev) (ev_row ev)])"
    using pk(1) h1(2) by (cases r; cases "event_pk ev pk") (auto simp: logged_row_def)
  have other: "u \<noteq> ev_table ev \<Longrightarrow> logged_row pks u ev = []" for u by (simp add: logged_row_def)
  obtain v2 h2 where m: "snd (maybe_seal_on_threshold L S (w, h1)) = (v2, h2)" by (rule prod.exhaust)
  have "s' = set_head (ev_table ev) (if isl r then h1 else h2) s"
    using assms(3) Some sm a m by (cases r) (auto simp: on_event_def)
  moreover have "head_inv L S (ev_table ev) pk (rows (ev_table ev) @ logged_row pks (ev_table ev) ev) (seeds (ev_table ev))
      (if isl r then h1 else h2)"
    using h1(1) maybe_seal_inv [OF assms(1) _ m] row by simp
  ultimately show ?thesis
    using set_head_inv [OF assms(2) pk(1), where rows' = "\<lambda>t. rows t @ logged_row pks t ev" and seeds' = seeds] other by simp
qed

lemma seed_head:
  "head_inv L S t pk rows seeds h \<Longrightarrow> head_inv L S t pk rows (seeds @ [r]) (h\<lparr>th_sealed := th_sealed h @ [r]\<rparr>)"
proof -
  assume "head_inv L S t pk rows seeds h"
  then obtain xs where "th_table h = t" "segment_ok t pk (th_active h)" "th_sealed h = map (item_ref L) xs"
    "concat (map item_rows xs) @ sg_rows (th_active h) = rows" "concat (map item_seed xs) = seeds" "items_ok L S t pk xs"
    by (auto simp: head_inv_def)
  then show ?thesis
    unfolding head_inv_def by (intro conjI exI [of _ "xs @ [Seeded r]"]) (auto simp: items_ok_def)
qed

lemma seed_sealed_inv:
  "streamer_inv L S pks rows seeds s \<Longrightarrow>
     streamer_inv L S pks rows (\<lambda>t. seeds t @ (if map_of pks t = None then [] else filter (\<lambda>r. sr_table r = t) rs)) (seed_sealed rs s)"
proof (induction rs arbitrary: s seeds)
  case Nil
  then show ?case by (simp add: streamer_inv_def)
next
  case (Cons r rs)
  show ?case
  proof (cases "map_of (sm_heads s) (sr_table r)")
    case None
    then have "map_of pks (sr_table r) = None" using Cons.prems by (simp add: streamer_inv_def)
    then have "(if map_of pks t = None then [] else filter (\<lambda>q. sr_table q = t) (r # rs)) =
        (if map_of pks t = None then [] else filter (\<lambda>q. sr_table q = t) rs)" for t by auto
    with None Cons.IH [OF Cons.prems] show ?thesis by simp
  next
    case (Some h)
    let ?t = "sr_table r"
    obtain pk where pk: "map_of pks ?t = Some pk" "head_inv L S ?t pk (rows ?t) (seeds ?t) h"
      by (rule tracked_head [OF Cons.prems Some])
    let ?s = "set_head ?t (h\<lparr>th_sealed := th_sealed h @ [r]\<rparr>) s" and ?seeds = "seeds(?t := seeds ?t @ [r])"
    have "streamer_inv L S pks rows ?seeds ?s"
      using seed_head [OF pk(2), of r] by (intro set_head_inv [OF Cons.prems pk(1)]) simp_all
    from Cons.IH [OF this] have "streamer_inv L S pks rows
        (\<lambda>t. ?seeds t @ (if map_of pks t = None then [] else filter (\<lambda>q. sr_table q = t) rs)) (seed_sealed rs ?s)" .
    moreover have "(\<lambda>t. ?seeds t @ (if map_of pks t = None then [] else filter (\<lambda>q. sr_table q = t) rs)) =
        (\<lambda>t. seeds t @ (if map_of pks t = None then [] else filter (\<lambda>q. sr_table q = t) (r # rs)))"
      using pk(1) by auto
    ultimately show ?thesis using Some by simp
  qed
qed

lemma seal_heads_inv:
  assumes "put_named L S" "seal_heads L S hs w = (r, v, hs')"
    "\<And>t h. (t, h) \<in> set hs \<Longrightarrow> \<exists>pk. map_of pks t = Some pk \<and> head_inv L S t pk (rows t) (seeds t) h"
  shows "map fst hs' = map fst hs"
    "\<And>t h. (t, h) \<in> set hs' \<Longrightarrow> \<exists>pk. map_of pks t = Some pk \<and> head_inv L S t pk (rows t) (seeds t) h"
    "r = Inr () \<Longrightarrow> (t, h) \<in> set hs' \<Longrightarrow> sg_rows (th_active h) = []"
proof -
  have "map fst hs' = map fst hs \<and>
      (\<forall>(t, h)\<in>set hs'. (\<exists>pk. map_of pks t = Some pk \<and> head_inv L S t pk (rows t) (seeds t) h) \<and>
         (r = Inr () \<longrightarrow> sg_rows (th_active h) = []))"
    using assms(2, 3)
  proof (induction hs arbitrary: w hs')
    case (Cons x hs)
    obtain t h where x: "x = (t, h)" by (rule prod.exhaust)
    obtain pk where pk: "map_of pks t = Some pk" "head_inv L S t pk (rows t) (seeds t) h"
      using Cons.prems(2) x by auto
    obtain q u h1 where q: "seal_if_nonempty L S (w, h) = (q, (u, h1))" by (metis prod.exhaust)
    note h1 = seal_inv [OF assms(1) pk(2) q]
    show ?case
    proof (cases q)
      case (Inl e)
      with Cons.prems x q h1(1) pk(1) show ?thesis by auto
    next
      case (Inr o')
      obtain r2 v2 hs2 where r2: "seal_heads L S hs u = (r2, v2, hs2)" by (metis prod.exhaust)
      with Cons.prems(1) x q Inr have e: "r2 = r" "v2 = v" "hs' = (t, h1) # hs2" by auto
      from Cons.IH [OF r2 [unfolded e(1, 2)]] Cons.prems(2) have "map fst hs2 = map fst hs \<and>
          (\<forall>(t, h)\<in>set hs2. (\<exists>pk. map_of pks t = Some pk \<and> head_inv L S t pk (rows t) (seeds t) h) \<and>
             (r = Inr () \<longrightarrow> sg_rows (th_active h) = []))" by simp
      with e(3) show ?thesis using x h1(1) h1(2) [OF Inr] pk(1) by auto
    qed
  qed simp
  then show "map fst hs' = map fst hs"
    "\<And>t h. (t, h) \<in> set hs' \<Longrightarrow> \<exists>pk. map_of pks t = Some pk \<and> head_inv L S t pk (rows t) (seeds t) h"
    "r = Inr () \<Longrightarrow> (t, h) \<in> set hs' \<Longrightarrow> sg_rows (th_active h) = []" by auto
qed

lemma streamer_inv_cong:
  "streamer_inv L S pks rows seeds s \<Longrightarrow> (\<And>t. map_of pks t \<noteq> None \<Longrightarrow> rows' t = rows t \<and> seeds' t = seeds t) \<Longrightarrow>
     streamer_inv L S pks rows' seeds' s"
  by (simp add: streamer_inv_def)

lemma keys_bt_of_list: "fst ` set (bt_of_list xs) = fst ` set xs"
proof (induction xs rule: rev_induct)
  case (snoc x xs)
  then show ?case by (cases x) (simp del: set_map)
qed simp

lemma spawn_inv:
  "streamer_inv L S (bt_of_list (map (\<lambda>t. (tt_name t, tt_pk t)) tables)) (\<lambda>_. []) (\<lambda>_. []) (spawn tables n sv)"
proof -
  let ?hs = "map (\<lambda>t. (tt_name t, head_new (tt_name t) sv n)) tables"
  have "map_of (bt_of_list ?hs) t = None \<longleftrightarrow> map_of (bt_of_list (map (\<lambda>t. (tt_name t, tt_pk t)) tables)) t = None" for t
    by (simp add: map_of_eq_None_iff keys_bt_of_list image_image)
  moreover have "head_inv L S t pk [] [] h" if "map_of (bt_of_list ?hs) t = Some h" for t pk h
    using bt_of_list_set [OF map_of_SomeD [OF that]] head_new_inv by auto
  ultimately show ?thesis
    unfolding streamer_inv_def spawn_def streamer.simps
    by (intro conjI allI impI refl bt_of_list_ok) (simp_all only:)
qed

lemma snapshot_inv:
  assumes "put_named L S" "streamer_inv L S pks rows seeds s" "streamer_snapshot L S sv (w, s) = (r, (v, s'))"
  shows "streamer_inv L S pks rows seeds s'"
    "r = Inr m \<Longrightarrow> m = manifest_of_heads L sv (sm_heads s') \<and> (\<forall>(t, h)\<in>set (sm_heads s'). sg_rows (th_active h) = [])"
proof -
  obtain q u hs where q: "seal_heads L S (sm_heads s) w = (q, u, hs)" by (metis prod.exhaust)
  have ok: "bt_ok (sm_heads s)" using assms(2) by (simp add: streamer_inv_def)
  have pre: "\<exists>pk. map_of pks t = Some pk \<and> head_inv L S t pk (rows t) (seeds t) h" if "(t, h) \<in> set (sm_heads s)" for t h
    using tracked_head [OF assms(2)] that bt_ok_map_of [OF ok] by metis
  note hs = seal_heads_inv [OF assms(1) q pre]
  have s': "s' = s\<lparr>sm_heads := hs\<rparr>" using assms(3) q by (auto simp: streamer_snapshot_def split: sum.splits)
  have ok': "bt_ok hs" using ok hs(1) by (simp add: bt_ok_def)
  have "map_of hs t = None \<longleftrightarrow> map_of (sm_heads s) t = None" for t
    using hs(1) by (metis map_of_eq_None_iff list.set_map)
  moreover have "head_inv L S t pk (rows t) (seeds t) h" if "map_of pks t = Some pk" "map_of hs t = Some h" for t pk h
    using hs(2) [of t h] that bt_ok_map_of [OF ok'] by auto
  ultimately show "streamer_inv L S pks rows seeds s'"
    using assms(2) ok' by (simp add: streamer_inv_def s')
  show "r = Inr m \<Longrightarrow> m = manifest_of_heads L sv (sm_heads s') \<and> (\<forall>(t, h)\<in>set (sm_heads s'). sg_rows (th_active h) = [])"
    using assms(3) q hs(3) by (auto simp: streamer_snapshot_def s' split: sum.splits)
qed

lemma streamer_step_inv:
  assumes "put_named L S" "streamer_inv L S pks rows seeds s" "streamer_step L S c (w, s) = (r, (v, s'))"
  shows "streamer_inv L S pks (\<lambda>t. rows t @ logged pks t [c]) (\<lambda>t. seeds t @ seeded t [c]) s'"
proof (cases c)
  case (Event ev)
  with assms(3) have "on_event L S ev (w, s) = (v, s')" by simp
  from on_event_inv [OF assms(1, 2) this] Event show ?thesis by simp
next
  case (SeedSealed rs)
  with assms(3) have "s' = seed_sealed rs s" by simp
  with seed_sealed_inv [OF assms(2), of rs] have "streamer_inv L S pks rows
      (\<lambda>t. seeds t @ (if map_of pks t = None then [] else filter (\<lambda>r. sr_table r = t) rs)) s'" by simp
  then show ?thesis by (rule streamer_inv_cong) (auto simp: SeedSealed)
next
  case (TakeSnapshot sv)
  obtain q y where q: "streamer_snapshot L S sv (w, s) = (q, y)" by (rule prod.exhaust)
  with TakeSnapshot assms(3) have "y = (v, s')" by simp
  with snapshot_inv(1) [OF assms(1, 2), of sv w q v s'] q TakeSnapshot show ?thesis by simp
qed

lemma logged_append: "logged pks t (cs @ ds) = logged pks t cs @ logged pks t ds"
  by (induction cs rule: logged.induct) auto

lemma seeded_append: "seeded t (cs @ ds) = seeded t cs @ seeded t ds"
  by (induction cs rule: seeded.induct) auto

lemma streamer_run_inv:
  assumes "put_named L S" "streamer_inv L S pks rows seeds s" "streamer_run L S cs (w, s) = (rs, (v, s'))"
  shows "streamer_inv L S pks (\<lambda>t. rows t @ logged pks t cs) (\<lambda>t. seeds t @ seeded t cs) s'"
  using assms(2, 3)
proof (induction cs arbitrary: w s rows seeds rs)
  case (Cons c cs)
  obtain r w1 s1 where c: "streamer_step L S c (w, s) = (r, (w1, s1))" by (metis prod.exhaust)
  obtain rs1 where "streamer_run L S cs (w1, s1) = (rs1, (v, s'))"
    using Cons.prems(2) c by (auto split: prod.splits)
  from Cons.IH [OF streamer_step_inv [OF assms(1) Cons.prems(1) c] this] show ?case
    by (simp only: append_assoc logged_append [of pks _ "[c]" cs, unfolded append.simps, symmetric]
        seeded_append [of _ "[c]" cs, unfolded append.simps, symmetric])
qed simp

lemma streamer_run_append:
  "streamer_run L S (cs @ ds) x =
     (case streamer_run L S cs x of (rs, y) \<Rightarrow> case streamer_run L S ds y of (qs, z) \<Rightarrow> (rs @ qs, z))"
  by (induction cs arbitrary: x) (auto split: prod.splits option.splits)

lemma manifest_pushes:
  "mset (mf_entries (foldl (\<lambda>m r. manifest_push L r m) m rs)) = mset (mf_entries m) + mset rs \<and>
   (push_sorted L (mf_entries m) \<longrightarrow> push_sorted L (mf_entries (foldl (\<lambda>m r. manifest_push L r m) m rs)))"
  by (induction rs arbitrary: m) (auto simp: manifest_push_def mset_insert_before insert_before_sorted)

section \<open>Properties\<close>

text \<open>
  The streamer loses and invents nothing. At every moment, whatever seals have failed, the rows of the
  segments a table has sealed, in seal order, followed by the rows of its active head, are
  exactly the envelopes of the events accepted so far, in the order they came; the seeded
  references stand among the sealed ones in their order; and every sealed segment was acknowledged by the
  store, is not empty, counts its rows and has the keys of its first and last row, neither null.\<close>

theorem streamer_keeps_every_event:
  assumes "put_named L S" "streamer_run L S cs (w, spawn tables n sv) = (rs, (v, s))" "map_of (sm_pk s) t = Some pk"
  shows "\<exists>h xs. map_of (sm_heads s) t = Some h \<and> th_sealed h = map (item_ref L) xs \<and>
    concat (map item_rows xs) @ sg_rows (th_active h) = logged (sm_pk s) t cs \<and>
    concat (map item_seed xs) = seeded t cs \<and> items_ok L S t pk xs \<and> segment_ok t pk (th_active h)"
proof -
  let ?pks = "bt_of_list (map (\<lambda>t. (tt_name t, tt_pk t)) tables)"
  have inv: "streamer_inv L S ?pks (\<lambda>t. logged ?pks t cs) (\<lambda>t. seeded t cs) s"
    using streamer_run_inv [OF assms(1) spawn_inv assms(2)] by simp
  then have pks: "sm_pk s = ?pks" by (simp add: streamer_inv_def)
  obtain h where h: "map_of (sm_heads s) t = Some h" using tracked_some [OF inv] assms(3) pks by auto
  then have "head_inv L S t pk (logged ?pks t cs) (seeded t cs) h"
    using inv assms(3) by (simp add: streamer_inv_def)
  with h pks show ?thesis by (auto simp: head_inv_def)
qed

lemma snapshot_items:
  assumes "put_named L S" "streamer_run L S (cs @ [TakeSnapshot sv']) (w, spawn tables n sv) = (rs @ [Inr m], (v, s))"
  shows "\<exists>xs. mset (mf_entries m) = mset (concat (map (\<lambda>(t, h). map (item_ref L) (xs t)) (sm_heads s))) \<and>
    (\<forall>t pk. map_of (sm_pk s) t = Some pk \<longrightarrow> t \<in> fst ` set (sm_heads s) \<and>
       concat (map item_rows (xs t)) = logged (sm_pk s) t cs \<and> concat (map item_seed (xs t)) = seeded t cs \<and>
       items_ok L S t pk (xs t)) \<and>
    mf_schema m = sv' \<and> push_sorted L (mf_entries m)"
proof -
  let ?pks = "bt_of_list (map (\<lambda>t. (tt_name t, tt_pk t)) tables)"
  obtain rs1 w1 s1 where 1: "streamer_run L S cs (w, spawn tables n sv) = (rs1, (w1, s1))" by (metis prod.exhaust)
  have inv1: "streamer_inv L S ?pks (\<lambda>t. logged ?pks t cs) (\<lambda>t. seeded t cs) s1"
    using streamer_run_inv [OF assms(1) spawn_inv 1] by simp
  have snap: "streamer_snapshot L S sv' (w1, s1) = (Inr m, (v, s))"
    using assms(2) by (auto simp: streamer_run_append 1 split: prod.splits option.splits)
  note inv = snapshot_inv(1) [OF assms(1) inv1 snap] and full = snapshot_inv(2) [OF assms(1) inv1 snap refl]
  have pks: "sm_pk s = ?pks" and ok: "bt_ok (sm_heads s)" using inv by (simp_all add: streamer_inv_def)
  have "\<exists>xs. \<forall>h pk. map_of (sm_heads s) t = Some h \<longrightarrow> map_of ?pks t = Some pk \<longrightarrow> th_sealed h = map (item_ref L) xs \<and>
      concat (map item_rows xs) = logged ?pks t cs \<and> concat (map item_seed xs) = seeded t cs \<and> items_ok L S t pk xs" for t
  proof (cases "map_of (sm_heads s) t")
    case (Some h)
    obtain pk where "map_of ?pks t = Some pk" "head_inv L S t pk (logged ?pks t cs) (seeded t cs) h"
      by (rule tracked_head [OF inv Some])
    moreover have "sg_rows (th_active h) = []" using full map_of_SomeD [OF Some] by auto
    ultimately show ?thesis using Some by (auto simp: head_inv_def)
  qed simp
  then have "\<forall>t. \<exists>xs. \<forall>h pk. map_of (sm_heads s) t = Some h \<longrightarrow> map_of ?pks t = Some pk \<longrightarrow> th_sealed h = map (item_ref L) xs \<and>
      concat (map item_rows xs) = logged ?pks t cs \<and> concat (map item_seed xs) = seeded t cs \<and> items_ok L S t pk xs" ..
  from choice [OF this] obtain xs where xs: "\<And>t h pk. map_of (sm_heads s) t = Some h \<Longrightarrow> map_of ?pks t = Some pk \<Longrightarrow>
      th_sealed h = map (item_ref L) (xs t) \<and> concat (map item_rows (xs t)) = logged ?pks t cs \<and>
      concat (map item_seed (xs t)) = seeded t cs \<and> items_ok L S t pk (xs t)" by blast
  have "map (\<lambda>(t, h). th_sealed h) (sm_heads s) = map (\<lambda>(t, h). map (item_ref L) (xs t)) (sm_heads s)"
  proof (rule map_cong [OF refl], clarify)
    fix t h assume "(t, h) \<in> set (sm_heads s)"
    then have h: "map_of (sm_heads s) t = Some h" using bt_ok_map_of [OF ok] by simp
    show "th_sealed h = map (item_ref L) (xs t)" by (rule tracked_head [OF inv h]) (use xs [OF h] in blast)
  qed
  then have "mset (mf_entries m) = mset (concat (map (\<lambda>(t, h). map (item_ref L) (xs t)) (sm_heads s)))"
    using full manifest_pushes [of L "manifest_new sv'"] by (simp only: manifest_of_heads_def) (simp add: manifest_new_def)
  moreover have "push_sorted L (mf_entries m)" "mf_schema m = sv'"
  proof -
    have "mf_schema (foldl (\<lambda>m r. manifest_push L r m) k qs) = mf_schema k" for k qs
      by (induction qs arbitrary: k) (simp_all add: manifest_push_def)
    then show "mf_schema m = sv'" using full by (simp add: manifest_of_heads_def manifest_new_def)
    show "push_sorted L (mf_entries m)"
      using full manifest_pushes [of L "manifest_new sv'"]
      by (simp add: manifest_of_heads_def manifest_new_def push_sorted_def)
  qed
  moreover have "t \<in> fst ` set (sm_heads s) \<and> concat (map item_rows (xs t)) = logged ?pks t cs \<and>
      concat (map item_seed (xs t)) = seeded t cs \<and> items_ok L S t pk (xs t)" if tracked: "map_of ?pks t = Some pk" for t pk
  proof -
    obtain h where h: "map_of (sm_heads s) t = Some h" using tracked_some [OF inv tracked] ..
    have "t \<in> fst ` set (sm_heads s)" using imageI [OF map_of_SomeD [OF h], of fst] by simp
    with xs [OF h tracked] show ?thesis by blast
  qed
  ultimately show ?thesis unfolding pks by blast
qed

text \<open>
  A snapshot is complete. The manifest a snapshot command answers with has, up to order, the
  references of all tables; those of a table are its seeded ones and segments whose rows, in seal
  order, are all the envelopes of the events accepted before the command; and the manifest
  is sorted by table and lower key.\<close>

theorem streamer_snapshot_complete:
  assumes "put_named L S" "streamer_run L S (cs @ [TakeSnapshot sv']) (w, spawn tables n sv) = (rs @ [Inr m], (v, s))"
  shows "\<exists>xs. mset (mf_entries m) = mset (concat (map (\<lambda>(t, h). map (item_ref L) (xs t)) (sm_heads s))) \<and>
    (\<forall>t pk. map_of (sm_pk s) t = Some pk \<longrightarrow> t \<in> fst ` set (sm_heads s) \<and>
       concat (map item_rows (xs t)) = logged (sm_pk s) t cs \<and> concat (map item_seed (xs t)) = seeded t cs \<and>
       items_ok L S t pk (xs t)) \<and>
    mf_schema m = sv' \<and> push_sorted L (mf_entries m)"
  by (rule snapshot_items [OF assms])

text \<open>A store that keeps what is put, for the witnesses.\<close>

definition shelf :: "lib \<Rightarrow> (hash \<times> bytes) list store_ops" where
  "shelf L =
     \<lparr>st_put = (\<lambda>x p w. (Inr (object_hash L x), (object_hash L x, object_bytes L x) # w)),
      st_put_raw = (\<lambda>k bs w. (Inr (hash_of L bs), (hash_of L bs, bs) # w)),
      st_get = (\<lambda>h w. (Inl (NotFound h), w)),
      st_get_raw = (\<lambda>h w. (ok_or (NotFound h) (map_of w h), w)),
      st_has = (\<lambda>h w. (map_of w h \<noteq> None, w))\<rparr>"

lemma shelf_named: "put_named L (shelf L)"
  by (simp add: put_named_def shelf_def)

definition sample_table :: tracked_table where
  "sample_table = \<lparr>tt_name = ''t'', tt_pk = ''id''\<rparr>"

definition sample_event :: change_event where
  "sample_event = \<lparr>ev_table = ''t'', ev_row = JObj [(''id'', of_u64 7)], ev_op = Insert, ev_schema = ''1''\<rparr>"

lemma sample_logged: "logged [(''t'', ''id'')] ''t'' [Event sample_event] = [envelope_of Insert (JObj [(''id'', of_u64 7)])]"
  by (simp add: logged_row_def sample_event_def event_pk_def json_get_def of_u64_def)

lemma sample_spawn: "sm_pk (spawn [sample_table] n sv) = [(''t'', ''id'')]"
  by (simp add: spawn_def sample_table_def bt_of_list_def)

lemma on_event_pk: "sm_pk (snd (on_event L S ev x)) = sm_pk (snd x)"
  by (cases x) (auto simp: on_event_def set_head_def split: option.splits prod.splits sum.splits)

lemma sample_streamed: "\<exists>w s. streamer_run sample_lib (shelf sample_lib) [Event sample_event] ([], spawn [sample_table] 0 ''1'') = ([], (w, s)) \<and>
    sm_pk s = [(''t'', ''id'')]"
proof -
  obtain w s where ws: "on_event sample_lib (shelf sample_lib) sample_event ([], spawn [sample_table] 0 ''1'') = (w, s)" by (rule prod.exhaust)
  with on_event_pk [of sample_lib "shelf sample_lib" sample_event "([], spawn [sample_table] 0 ''1'')"] show ?thesis
    by (simp add: sample_spawn)
qed

theorem streamer_keeps_every_event_witness:
  "\<exists>w s h xs. streamer_run sample_lib (shelf sample_lib) [Event sample_event] ([], spawn [sample_table] 0 ''1'') = ([], (w, s)) \<and>
     map_of (sm_heads s) ''t'' = Some h \<and>
     concat (map item_rows xs) @ sg_rows (th_active h) = [envelope_of Insert (JObj [(''id'', of_u64 7)])]"
proof -
  obtain w s where ws: "streamer_run sample_lib (shelf sample_lib) [Event sample_event] ([], spawn [sample_table] 0 ''1'') = ([], (w, s))"
    "sm_pk s = [(''t'', ''id'')]" using sample_streamed by blast
  have "map_of (sm_pk s) ''t'' = Some ''id''" by (simp add: ws(2))
  from streamer_keeps_every_event [OF shelf_named ws(1) this] show ?thesis
    using ws sample_logged by auto
qed

lemma shelf_seals: "\<exists>v hs'. seal_heads L (shelf K) hs w = (Inr (), v, hs')"
proof (induction hs arbitrary: w)
  case (Cons x hs)
  obtain t h where x: "x = (t, h)" by (rule prod.exhaust)
  obtain q v h1 where q: "seal_if_nonempty L (shelf K) (w, h) = (Inr q, (v, h1))"
    by (cases "sg_rows (th_active h) = []") (simp_all add: seal_if_nonempty_def shelf_def Let_def)
  from Cons [of v] obtain u hs' where "seal_heads L (shelf K) hs v = (Inr (), u, hs')" by blast
  with q x show ?case by simp
qed simp

theorem streamer_snapshot_complete_witness:
  "\<exists>m w s xs. streamer_run sample_lib (shelf sample_lib) [Event sample_event, TakeSnapshot ''1''] ([], spawn [sample_table] 0 ''1'') = ([Inr m], (w, s)) \<and>
     concat (map item_rows (xs ''t'')) = [envelope_of Insert (JObj [(''id'', of_u64 7)])] \<and> mf_schema m = ''1''"
proof -
  obtain w s where ws: "streamer_run sample_lib (shelf sample_lib) [Event sample_event] ([], spawn [sample_table] 0 ''1'') = ([], (w, s))"
    "sm_pk s = [(''t'', ''id'')]" using sample_streamed by blast
  obtain v hs where "seal_heads sample_lib (shelf sample_lib) (sm_heads s) w = (Inr (), v, hs)" using shelf_seals by blast
  then have run: "streamer_run sample_lib (shelf sample_lib) ([Event sample_event] @ [TakeSnapshot ''1'']) ([], spawn [sample_table] 0 ''1'') =
      ([] @ [Inr (manifest_of_heads sample_lib ''1'' hs)], (v, s\<lparr>sm_heads := hs\<rparr>))"
    by (simp only: streamer_run_append ws(1)) (simp add: streamer_snapshot_def)
  from streamer_snapshot_complete [OF shelf_named this] obtain xs where
    xs: "\<forall>t pk. map_of (sm_pk (s\<lparr>sm_heads := hs\<rparr>)) t = Some pk \<longrightarrow>
       concat (map item_rows (xs t)) = logged (sm_pk (s\<lparr>sm_heads := hs\<rparr>)) t [Event sample_event]"
      "mf_schema (manifest_of_heads sample_lib ''1'' hs) = ''1''" by blast
  have "concat (map item_rows (xs ''t'')) = [envelope_of Insert (JObj [(''id'', of_u64 7)])]"
    using spec [OF xs(1), of "''t''"] ws(2) sample_logged by simp
  with run xs(2) show ?thesis
    by (intro exI [of _ "manifest_of_heads sample_lib ''1'' hs"] exI [of _ v] exI [of _ "s\<lparr>sm_heads := hs\<rparr>"] exI [of _ xs]) simp
qed

end
