(* ===== verification/Restore.thy ===== *)
theory Restore
  imports Streamer
begin

text \<open>
  Restoring a manifest into Postgres (\<open>restore.rs\<close>). The statements the module sends are values of
  \<open>stmt\<close>, with their text and their bound arguments; executing one is the parameter \<open>X\<close>, an
  action on the database. A transaction that is not committed leaves the database as it was. What
  the module relies on of Postgres is the predicate \<open>pg_law\<close> over the rows of a table, a map from the bound
  primary key to the bound columns. Error texts are abbreviated.
\<close>

section \<open>Identifiers\<close>

definition validate_identifier :: "string \<Rightarrow> mem_error + unit" where
  "validate_identifier s =
     (if s = [] then Inl (Backend ''empty identifier'')
      else if list_all (\<lambda>c. is_alnum c \<or> c = CHR ''_'' \<or> c = CHR ''.'') s then Inr ()
      else Inl (Backend ''invalid character in identifier''))"

definition dq :: "string \<Rightarrow> string" where
  "dq s = [CHR 0x22] @ s @ [CHR 0x22]"

definition quote_qualified :: "string \<Rightarrow> string" where
  "quote_qualified s =
     (case split_once (CHR ''.'') s of
        Some (schema, table) \<Rightarrow> dq schema @ ''.'' @ dq table
      | None \<Rightarrow> dq s)"

section \<open>Envelopes\<close>

definition peel_envelope :: "json \<Rightarrow> mem_error + op \<times> json" where
  "peel_envelope v =
     (case (json_get ''op'' v, json_get ''row'' v) of
        (Some x, Some row) \<Rightarrow>
          (case to_str x of
             None \<Rightarrow> Inl (Backend ''segment envelope has a non-string op field'')
           | Some s \<Rightarrow>
               if s = ''insert'' then Inr (Insert, row)
               else if s = ''update'' then Inr (Update, row)
               else if s = ''delete'' then Inr (Delete, row)
               else Inl (Backend ''unknown op in segment envelope''))
      | _ \<Rightarrow> Inr (Insert, v))"

type_synonym row_obj = "(string \<times> json) list"

fun decode_rows :: "json list \<Rightarrow> mem_error + (op \<times> row_obj) list" where
  "decode_rows [] = Inr []"
| "decode_rows (env # rest) =
     res_bind (peel_envelope env) (\<lambda>(x, row).
     case row of
       JObj obj \<Rightarrow>
         if obj = [] then
           (if x = Delete then Inl (Backend ''delete envelope row is empty'') else decode_rows rest)
         else res_bind (decode_rows rest) (\<lambda>es. Inr ((x, obj) # es))
     | _ \<Rightarrow> Inl (Backend ''segment row is not a JSON object''))"

section \<open>Planning batches\<close>

datatype batch_mode = UpsertMode | DeleteMode

fun batch_mode_of :: "op \<Rightarrow> batch_mode" where
  "batch_mode_of Insert = UpsertMode"
| "batch_mode_of Update = UpsertMode"
| "batch_mode_of Delete = DeleteMode"

definition batch_max_rows :: nat where
  "batch_max_rows = 1000"

definition batch_max_params :: nat where
  "batch_max_params = 60000"

definition pk_signature :: "lib \<Rightarrow> json \<Rightarrow> string" where
  "pk_signature L v = bytes_str (json_print L v)"

definition batch_cap :: "batch_mode \<Rightarrow> string list \<Rightarrow> nat" where
  "batch_cap m cols =
     (let per_row = (case m of UpsertMode \<Rightarrow> length cols | DeleteMode \<Rightarrow> 1)
      in max (min batch_max_rows (batch_max_params div max per_row 1)) 1)"

text \<open>How many more entries join the batch: the inner loop, with the room left under the cap.\<close>

fun run_more :: "lib \<Rightarrow> string \<Rightarrow> batch_mode \<Rightarrow> string list \<Rightarrow> nat \<Rightarrow> string list \<Rightarrow> (op \<times> row_obj) list \<Rightarrow> nat" where
  "run_more L pk m cols room seen [] = 0"
| "run_more L pk m cols room seen ((x, obj) # es) =
     (if room = 0 \<or> batch_mode_of x \<noteq> m then 0
      else if m = UpsertMode then
        (if length obj \<noteq> length cols \<or> \<not> list_all (\<lambda>k. k \<in> set cols) (map fst obj) then 0
         else case map_of obj pk of
           None \<Rightarrow> 0
         | Some v \<Rightarrow>
             if pk_signature L v \<in> set seen then 0
             else Suc (run_more L pk m cols (room - 1) (pk_signature L v # seen) es))
      else Suc (run_more L pk m cols (room - 1) seen es))"

record batch =
  b_mode :: batch_mode
  b_cols :: "string list"
  b_rows :: "(op \<times> row_obj) list"

definition first_batch :: "lib \<Rightarrow> string \<Rightarrow> op \<Rightarrow> row_obj \<Rightarrow> (op \<times> row_obj) list \<Rightarrow> batch" where
  "first_batch L pk x obj es =
     (let m = batch_mode_of x; cols = map fst obj;
          seen = (case map_of obj pk of None \<Rightarrow> [] | Some v \<Rightarrow> [pk_signature L v]);
          n = run_more L pk m cols (batch_cap m cols - 1) seen es
      in \<lparr>b_mode = m, b_cols = cols, b_rows = (x, obj) # take n es\<rparr>)"

lemma first_batch_length: "length (b_rows (first_batch L pk x obj es)) > 0"
  by (simp add: first_batch_def Let_def)

function plan_batches :: "lib \<Rightarrow> string \<Rightarrow> (op \<times> row_obj) list \<Rightarrow> batch list" where
  "plan_batches L pk [] = []"
| "plan_batches L pk ((x, obj) # es) =
     (let b = first_batch L pk x obj es
      in b # plan_batches L pk (drop (length (b_rows b)) ((x, obj) # es)))"
  by pat_completeness auto
termination
  by (relation "measure (\<lambda>(L, pk, es). length es)") (auto simp: first_batch_def Let_def)

section \<open>Statements\<close>

datatype arg = ArgNull | ArgBool bool | ArgI64 u64 | ArgF64 u64 | ArgText string | ArgJson json

fun bind_json :: "lib \<Rightarrow> json \<Rightarrow> arg" where
  "bind_json L JNull = ArgNull"
| "bind_json L (JBool b) = ArgBool b"
| "bind_json L (JNum (PosInt n)) = (if unat n < 2 ^ 63 then ArgI64 n else ArgF64 (f64_of_u64 L n))"
| "bind_json L (JNum (NegInt n)) = ArgI64 n"
| "bind_json L (JNum (Float b)) = ArgF64 b"
| "bind_json L (JStr s) = ArgText s"
| "bind_json L v = ArgJson v"

datatype stmt =
    TruncateTable string
  | UpsertRows string string "string list" "arg list list"
  | DeleteIn string string "arg list"
  | TruncateLog

fun stmt_args :: "stmt \<Rightarrow> arg list" where
  "stmt_args (UpsertRows q pk cols rows) = concat rows"
| "stmt_args (DeleteIn q pk keys) = keys"
| "stmt_args _ = []"

definition placeholder :: "nat \<Rightarrow> string" where
  "placeholder n = CHR ''$'' # show_nat n"

fun values_sql :: "nat \<Rightarrow> nat \<Rightarrow> nat \<Rightarrow> string list" where
  "values_sql width n 0 = []"
| "values_sql width n (Suc k) =
     (CHR ''('' # join_with '', '' (map placeholder [n..<n + width]) @ '')'') # values_sql width (n + width) k"

definition update_set :: "string \<Rightarrow> string list \<Rightarrow> string" where
  "update_set pk cols = join_with '', '' (map (\<lambda>c. dq c @ '' = EXCLUDED.'' @ dq c) (filter (\<lambda>c. c \<noteq> pk) cols))"

fun stmt_text :: "stmt \<Rightarrow> string" where
  "stmt_text (TruncateTable q) = ''TRUNCATE TABLE '' @ q"
| "stmt_text (UpsertRows q pk cols rows) =
     ''INSERT INTO '' @ q @ '' ('' @ join_with '', '' (map dq cols) @ '') VALUES '' @
     join_with '', '' (values_sql (length cols) 1 (length rows)) @ '' ON CONFLICT ('' @ dq pk @
     (if filter (\<lambda>c. c \<noteq> pk) cols = [] then '') DO NOTHING'' else '') DO UPDATE SET '' @ update_set pk cols)"
| "stmt_text (DeleteIn q pk keys) =
     ''DELETE FROM '' @ q @ '' WHERE '' @ dq pk @ '' IN ('' @
     join_with '', '' (map placeholder [1..<Suc (length keys)]) @ '')''"
| "stmt_text TruncateLog = ''TRUNCATE public.agentic_change_log''"

definition row_args :: "lib \<Rightarrow> string list \<Rightarrow> row_obj \<Rightarrow> mem_error + arg list" where
  "row_args L cols obj =
     try_map (\<lambda>c. res_bind (ok_or (Backend ''row unexpectedly missing column after column-set match'') (map_of obj c))
                (\<lambda>v. Inr (bind_json L v))) cols"

definition batch_upsert :: "lib \<Rightarrow> string \<Rightarrow> string \<Rightarrow> string list \<Rightarrow> (op \<times> row_obj) list \<Rightarrow> mem_error + stmt" where
  "batch_upsert L q pk cols rows =
     res_bind (try_map validate_identifier cols) (\<lambda>_.
     res_bind (try_map (\<lambda>(x, obj). row_args L cols obj) rows) (\<lambda>args.
     Inr (UpsertRows q pk cols args)))"

definition delete_key :: "lib \<Rightarrow> string \<Rightarrow> row_obj \<Rightarrow> mem_error + arg" where
  "delete_key L pk obj =
     (case map_of obj pk of
        None \<Rightarrow> Inl (Backend ''batch delete: PK column is absent'')
      | Some v \<Rightarrow> if v = JNull then Inl (Backend ''batch delete: PK column is NULL'') else Inr (bind_json L v))"

definition batch_delete :: "lib \<Rightarrow> string \<Rightarrow> string \<Rightarrow> (op \<times> row_obj) list \<Rightarrow> mem_error + stmt" where
  "batch_delete L q pk rows =
     res_bind (validate_identifier pk) (\<lambda>_.
     res_bind (try_map (\<lambda>(x, obj). delete_key L pk obj) rows) (\<lambda>keys. Inr (DeleteIn q pk keys)))"

definition batch_stmt :: "lib \<Rightarrow> string \<Rightarrow> string \<Rightarrow> batch \<Rightarrow> mem_error + stmt" where
  "batch_stmt L q pk b =
     (case b_mode b of
        UpsertMode \<Rightarrow> batch_upsert L q pk (b_cols b) (b_rows b)
      | DeleteMode \<Rightarrow> batch_delete L q pk (b_rows b))"

section \<open>Restoring\<close>

type_synonym 'd exec = "stmt \<Rightarrow> ('d, mem_error, unit) act"

fun run_batches :: "lib \<Rightarrow> 'd exec \<Rightarrow> string \<Rightarrow> string \<Rightarrow> batch list \<Rightarrow> ('d, mem_error, unit) act" where
  "run_batches L X q pk [] = ret ()"
| "run_batches L X q pk (b # bs) =
     bindA (lift_res (batch_stmt L q pk b)) (\<lambda>st. bindA (X st) (\<lambda>_. run_batches L X q pk bs))"

definition apply_segment_rows :: "lib \<Rightarrow> 'd exec \<Rightarrow> string \<Rightarrow> string \<Rightarrow> json list \<Rightarrow> ('d, mem_error, unit) act" where
  "apply_segment_rows L X q pk rows =
     (if rows = [] then ret ()
      else bindA (lift_res (validate_identifier pk)) (\<lambda>_.
           bindA (lift_res (decode_rows rows)) (\<lambda>es.
           run_batches L X q pk (plan_batches L pk es))))"

definition load_segment :: "lib \<Rightarrow> 'w store_ops \<Rightarrow> segment_ref \<Rightarrow> ('w, mem_error, hash \<times> segment) act" where
  "load_segment L S e =
     bindA (map_errA (\<lambda>_. Backend ''loading segment'') (st_get_raw S (sr_segment e))) (\<lambda>bs.
     case segment_parse L bs of
       None \<Rightarrow> fail (Backend ''decoding segment'')
     | Some g \<Rightarrow> ret (sr_segment e, g))"

fun apply_entries :: "lib \<Rightarrow> 'd exec \<Rightarrow> (hash \<times> segment) list \<Rightarrow> string \<Rightarrow> string \<Rightarrow> segment_ref list \<Rightarrow>
    ('d, mem_error, unit) act" where
  "apply_entries L X segs q pk [] = ret ()"
| "apply_entries L X segs q pk (e # es) =
     bindA (apply_segment_rows L X q pk (case map_of segs (sr_segment e) of None \<Rightarrow> [] | Some g \<Rightarrow> sg_rows g)) (\<lambda>_.
     apply_entries L X segs q pk es)"

definition restore_table :: "lib \<Rightarrow> 'd exec \<Rightarrow> (hash \<times> segment) list \<Rightarrow> segment_ref list \<Rightarrow> tracked_table \<Rightarrow>
    ('d, mem_error, unit) act" where
  "restore_table L X segs es t =
     bindA (lift_res (validate_identifier (tt_name t))) (\<lambda>_.
     bindA (lift_res (validate_identifier (tt_pk t))) (\<lambda>_.
     bindA (X (TruncateTable (quote_qualified (tt_name t)))) (\<lambda>_.
     apply_entries L X segs (quote_qualified (tt_name t)) (tt_pk t) (filter (\<lambda>e. sr_table e = tt_name t) es))))"

text \<open>The transaction: what was done is kept only when the commit succeeds.\<close>

definition in_transaction :: "('d, 'e, unit) act \<Rightarrow> ('d, 'e, unit) act \<Rightarrow> ('d, 'e, unit) act" where
  "in_transaction commit body d =
     (case bindA body (\<lambda>_. commit) d of (Inl e, _) \<Rightarrow> (Inl e, d) | (Inr u, d') \<Rightarrow> (Inr u, d'))"

definition restore_manifest :: "lib \<Rightarrow> 'w store_ops \<Rightarrow> 'd exec \<Rightarrow> ('d, mem_error, unit) act \<Rightarrow> ('d, mem_error, unit) act \<Rightarrow>
    segment_manifest \<Rightarrow> tracked_table list \<Rightarrow> ('w \<times> 'd, mem_error, unit) act" where
  "restore_manifest L S X start commit m tables = (\<lambda>(w, d).
     case mapA (load_segment L S) (mf_entries m) w of
       (Inl e, v) \<Rightarrow> (Inl e, (v, d))
     | (Inr segs, v) \<Rightarrow>
         (case bindA start (\<lambda>_. in_transaction commit
                  (bindA (mapA (restore_table L X (bt_of_list segs) (mf_entries m)) tables) (\<lambda>_. X TruncateLog))) d of
            (r, d') \<Rightarrow> (r, (v, d'))))"

section \<open>The batches\<close>

definition signature_of :: "lib \<Rightarrow> string \<Rightarrow> op \<times> row_obj \<Rightarrow> string" where
  "signature_of L pk e = (case map_of (snd e) pk of None \<Rightarrow> [] | Some v \<Rightarrow> pk_signature L v)"

definition same_shape :: "string list \<Rightarrow> op \<times> row_obj \<Rightarrow> bool" where
  "same_shape cols e \<longleftrightarrow> length (snd e) = length cols \<and> fst ` set (snd e) \<subseteq> set cols"

definition batch_ok :: "lib \<Rightarrow> string \<Rightarrow> batch \<Rightarrow> bool" where
  "batch_ok L pk b \<longleftrightarrow>
     b_rows b \<noteq> [] \<and> length (b_rows b) \<le> batch_cap (b_mode b) (b_cols b) \<and>
     list_all (\<lambda>e. batch_mode_of (fst e) = b_mode b) (b_rows b) \<and>
     (b_mode b = UpsertMode \<longrightarrow>
        list_all (same_shape (b_cols b)) (b_rows b) \<and>
        (list_all (\<lambda>e. map_of (snd e) pk \<noteq> None) (b_rows b) \<longrightarrow> distinct (map (signature_of L pk) (b_rows b))))"

lemma run_more_facts:
  "run_more L pk m cols room seen es \<le> room \<and> run_more L pk m cols room seen es \<le> length es \<and>
   list_all (\<lambda>e. batch_mode_of (fst e) = m) (take (run_more L pk m cols room seen es) es) \<and>
   (m = UpsertMode \<longrightarrow>
      list_all (same_shape cols) (take (run_more L pk m cols room seen es) es) \<and>
      distinct (map (signature_of L pk) (take (run_more L pk m cols room seen es) es)) \<and>
      signature_of L pk ` set (take (run_more L pk m cols room seen es) es) \<inter> set seen = {})"
  by (induction L pk m cols room seen es rule: run_more.induct)
    (auto simp: signature_of_def same_shape_def list_all_iff split: option.splits)

lemma batch_cap_pos [simp]: "0 < batch_cap m cols"
  by (simp add: batch_cap_def Let_def)

lemma first_batch_ok: "batch_ok L pk (first_batch L pk x obj es)"
proof -
  let ?m = "batch_mode_of x" and ?cols = "map fst obj"
  let ?seen = "case map_of obj pk of None \<Rightarrow> [] | Some v \<Rightarrow> [pk_signature L v]"
  let ?n = "run_more L pk ?m ?cols (batch_cap ?m ?cols - 1) ?seen es"
  note f = run_more_facts [of L pk ?m ?cols "batch_cap ?m ?cols - 1" ?seen es]
  have len: "Suc ?n \<le> batch_cap ?m ?cols" using f batch_cap_pos [of ?m ?cols] by linarith
  moreover have "distinct (map (signature_of L pk) ((x, obj) # take ?n es))"
    if "?m = UpsertMode" "map_of obj pk \<noteq> None"
    using f that by (auto simp: signature_of_def split: option.splits)
  ultimately show ?thesis
    using f by (auto simp: batch_ok_def first_batch_def Let_def same_shape_def)
qed

lemma first_batch_rows: "b_rows (first_batch L pk x obj es) = take (length (b_rows (first_batch L pk x obj es))) ((x, obj) # es)"
  by (simp add: first_batch_def Let_def min_def)

lemma plan_concat: "concat (map b_rows (plan_batches L pk es)) = es"
proof (induction L pk es rule: plan_batches.induct)
  case (2 L pk x obj es)
  then show ?case using first_batch_rows [of L pk x obj es] by (simp add: Let_def) (metis append_take_drop_id)
qed simp

lemma plan_ok: "b \<in> set (plan_batches L pk es) \<Longrightarrow> batch_ok L pk b"
  by (induction L pk es rule: plan_batches.induct) (auto simp: Let_def first_batch_ok)

section \<open>What the statements do\<close>

text \<open>A row is a map from columns to values, a table a map from keys to rows.\<close>

type_synonym pg_row = "string \<Rightarrow> arg option"
type_synonym pg_table = "arg \<Rightarrow> pg_row option"

definition upsert_map :: "string \<Rightarrow> pg_table \<Rightarrow> pg_row \<Rightarrow> pg_table" where
  "upsert_map pk t row =
     (case row pk of
        None \<Rightarrow> t
      | Some k \<Rightarrow> t(k \<mapsto> (case t k of None \<Rightarrow> row | Some old \<Rightarrow> old ++ (row |` (- {pk})))))"

definition upsert_row :: "string \<Rightarrow> string list \<Rightarrow> pg_table \<Rightarrow> arg list \<Rightarrow> pg_table" where
  "upsert_row pk cols t args = upsert_map pk t (map_of (zip cols args))"

text \<open>What Postgres documents: a multi-row insert with a conflict clause does its rows one after the other
  when no key comes twice; and a delete removes the listed keys.\<close>

definition pg_law :: "'d exec \<Rightarrow> ('d \<Rightarrow> string \<Rightarrow> pg_table) \<Rightarrow> bool" where
  "pg_law X T \<longleftrightarrow>
     (\<forall>q d. \<exists>d'. X (TruncateTable q) d = (Inr (), d') \<and> T d' = (T d)(q := Map.empty)) \<and>
     (\<forall>q pk cols rows d. pk \<in> set cols \<and> (\<forall>r\<in>set rows. length r = length cols) \<and>
        distinct (map (\<lambda>r. map_of (zip cols r) pk) rows) \<longrightarrow>
        (\<exists>d'. X (UpsertRows q pk cols rows) d = (Inr (), d') \<and> T d' = (T d)(q := foldl (upsert_row pk cols) (T d q) rows))) \<and>
     (\<forall>q pk keys d. \<exists>d'. X (DeleteIn q pk keys) d = (Inr (), d') \<and> T d' = (T d)(q := foldl (\<lambda>t k. t(k := None)) (T d q) keys)) \<and>
     (\<forall>d. \<exists>d'. X TruncateLog d = (Inr (), d') \<and> T d' = T d)"

text \<open>The specification: the rows one at a time, the last writer wins.\<close>

definition bound_row :: "lib \<Rightarrow> row_obj \<Rightarrow> pg_row" where
  "bound_row L obj = map_option (bind_json L) \<circ> map_of obj"

definition replay_row :: "lib \<Rightarrow> string \<Rightarrow> pg_table \<Rightarrow> op \<times> row_obj \<Rightarrow> pg_table" where
  "replay_row L pk t e =
     (case batch_mode_of (fst e) of
        UpsertMode \<Rightarrow> upsert_map pk t (bound_row L (snd e))
      | DeleteMode \<Rightarrow> (case map_of (snd e) pk of None \<Rightarrow> t | Some v \<Rightarrow> t(bind_json L v := None)))"

text \<open>Keys Postgres tells apart as the signatures do: texts, and integers that fit a \<open>bigint\<close>.\<close>

fun key_ok :: "json \<Rightarrow> bool" where
  "key_ok (JStr s) \<longleftrightarrow> True"
| "key_ok (JNum (PosInt n)) \<longleftrightarrow> unat n < 2 ^ 63"
| "key_ok (JNum (NegInt n)) \<longleftrightarrow> sint n < 0"
| "key_ok _ \<longleftrightarrow> False"

definition row_good :: "string \<Rightarrow> op \<times> row_obj \<Rightarrow> bool" where
  "row_good pk e \<longleftrightarrow>
     distinct (map fst (snd e)) \<and> (\<exists>v. map_of (snd e) pk = Some v \<and> key_ok v) \<and>
     (\<forall>c\<in>fst ` set (snd e). validate_identifier c = Inr ())"

lemma key_exact: "key_ok v \<Longrightarrow> json_exact v"
  by (cases v rule: key_ok.cases) (auto simp: json_exact_def)

lemma signature_inj: "json_law L \<Longrightarrow> key_ok v \<Longrightarrow> key_ok u \<Longrightarrow> pk_signature L v = pk_signature L u \<Longrightarrow> v = u"
  unfolding pk_signature_def json_law_def by (metis key_exact option.inject str_bytes_bytes_str)

lemma sint_small: "unat (n :: u64) < 2 ^ 63 \<Longrightarrow> 0 \<le> sint n"
proof -
  assume a: "unat n < 2 ^ 63"
  have "int (unat n) < 2 ^ 63" using a by (metis of_nat_less_iff of_nat_numeral of_nat_power)
  then have "uint n < 2 ^ 63" by (simp only: uint_nat)
  moreover have "- (2 ^ 63) \<le> uint n" using order_trans [OF _ unsigned_greater_eq [of n], of "- (2 ^ 63) :: int"] by simp
  ultimately have "signed_take_bit 63 (uint n) = uint n" by (intro signed_take_bit_int_eq_self)
  moreover have "sint n = signed_take_bit 63 (uint n)" using sint_uint [of n] by simp
  ultimately show ?thesis by simp
qed

lemma bind_inj: "key_ok v \<Longrightarrow> key_ok u \<Longrightarrow> bind_json L v = bind_json L u \<Longrightarrow> v = u"
  using sint_small by (cases v rule: key_ok.cases; cases u rule: key_ok.cases) (fastforce split: if_splits)+

section \<open>Batched replay is row-by-row replay\<close>

lemma pg_lawD:
  assumes "pg_law X T"
  shows "\<exists>d'. X (TruncateTable q) d = (Inr (), d') \<and> T d' = (T d)(q := Map.empty)"
    "pk \<in> set cols \<Longrightarrow> \<forall>r\<in>set rows. length r = length cols \<Longrightarrow> distinct (map (\<lambda>r. map_of (zip cols r) pk) rows) \<Longrightarrow>
       \<exists>d'. X (UpsertRows q pk cols rows) d = (Inr (), d') \<and> T d' = (T d)(q := foldl (upsert_row pk cols) (T d q) rows)"
    "\<exists>d'. X (DeleteIn q pk keys) d = (Inr (), d') \<and> T d' = (T d)(q := foldl (\<lambda>t k. t(k := None)) (T d q) keys)"
    "\<exists>d'. X TruncateLog d = (Inr (), d') \<and> T d' = T d"
  using assms unfolding pg_law_def by blast+

lemma shape_keys:
  assumes "distinct (map fst obj)" "length obj = length cols" "fst ` set obj \<subseteq> set cols"
  shows "fst ` set obj = set cols"
proof (rule card_subset_eq [OF finite_set assms(3)])
  have "card (fst ` set obj) = length obj" using assms(1) distinct_card [of "map fst obj"] by simp
  moreover have "card (set cols) \<le> length cols" by (rule card_length)
  moreover have "card (fst ` set obj) \<le> card (set cols)" by (rule card_mono [OF finite_set assms(3)])
  ultimately show "card (fst ` set obj) = card (set cols)" using assms(2) by linarith
qed

lemma row_args_ok:
  assumes "fst ` set obj = set cols"
  shows "row_args L cols obj = Inr (map (\<lambda>c. bind_json L (the (map_of obj c))) cols)"
  unfolding row_args_def
proof (rule try_map_all_ok)
  fix c assume "c \<in> set cols"
  then obtain v where "map_of obj c = Some v" using assms by (metis map_of_eq_None_iff not_None_eq)
  then show "res_bind (ok_or (Backend ''row unexpectedly missing column after column-set match'') (map_of obj c))
      (\<lambda>v. Inr (bind_json L v)) = Inr (bind_json L (the (map_of obj c)))" by simp
qed

lemma args_map:
  assumes "fst ` set obj = set cols"
  shows "map_of (zip cols (map (\<lambda>c. bind_json L (the (map_of obj c))) cols)) = bound_row L obj"
proof
  fix c
  show "map_of (zip cols (map (\<lambda>c. bind_json L (the (map_of obj c))) cols)) c = bound_row L obj c"
  proof (cases "c \<in> set cols")
    case True
    then obtain v where "map_of obj c = Some v" using assms by (metis map_of_eq_None_iff not_None_eq)
    with True show ?thesis by (simp add: map_of_zip_map bound_row_def)
  next
    case False
    then have "map_of obj c = None" using assms by (simp add: map_of_eq_None_iff)
    with False show ?thesis by (simp add: map_of_zip_map bound_row_def)
  qed
qed

lemma foldl_map_rows: "foldl f t (map g xs) = foldl (\<lambda>t x. f t (g x)) t xs"
  by (induction xs arbitrary: t) simp_all

lemma upsert_batch:
  assumes "json_law L" "pg_law X T" "batch_ok L pk b" "b_mode b = UpsertMode" "\<forall>e\<in>set (b_rows b). row_good pk e"
  shows "\<exists>st d'. batch_stmt L q pk b = Inr st \<and> X st d = (Inr (), d') \<and>
    T d' = (T d)(q := foldl (replay_row L pk) (T d q) (b_rows b))"
proof -
  let ?cols = "b_cols b" and ?es = "b_rows b"
  have keys: "fst ` set (snd e) = set ?cols" if "e \<in> set ?es" for e
    using assms(3-5) that by (intro shape_keys) (auto simp: batch_ok_def list_all_iff same_shape_def row_good_def)
  obtain e0 where e0: "e0 \<in> set ?es" using assms(3) by (cases ?es) (auto simp: batch_ok_def)
  have cols: "try_map validate_identifier ?cols = Inr (map (\<lambda>_. ()) ?cols)"
  proof (rule try_map_all_ok)
    fix c assume "c \<in> set ?cols"
    then have "c \<in> fst ` set (snd e0)" using keys [OF e0] by simp
    then show "validate_identifier c = Inr ()" using assms(5) e0 unfolding row_good_def by blast
  qed
  let ?args = "\<lambda>e. map (\<lambda>c. bind_json L (the (map_of (snd e) c))) ?cols"
  have args: "try_map (\<lambda>(x, obj). row_args L ?cols obj) ?es = Inr (map ?args ?es)"
    using row_args_ok [OF keys] by (intro try_map_all_ok) auto
  have stmt: "batch_stmt L q pk b = Inr (UpsertRows q pk ?cols (map ?args ?es))"
    using assms(4) cols args by (simp add: batch_stmt_def batch_upsert_def)
  have row: "map_of (zip ?cols (?args e)) = bound_row L (snd e)" if "e \<in> set ?es" for e by (rule args_map [OF keys [OF that]])
  have pk: "pk \<in> set ?cols"
    using assms(5) e0 keys [OF e0] by (metis image_eqI map_of_SomeD row_good_def fst_conv)
  have "distinct (map (\<lambda>e. bound_row L (snd e) pk) ?es)"
  proof -
    have "map_of (snd e) pk \<noteq> None" if "e \<in> set ?es" for e
      using assms(5) that unfolding row_good_def by (metis option.distinct(1))
    then have "list_all (\<lambda>e. map_of (snd e) pk \<noteq> None) ?es" unfolding list_all_iff by blast
    then have d: "distinct (map (signature_of L pk) ?es)" using assms(3, 4) by (simp add: batch_ok_def)
    have "inj_on (\<lambda>e. bound_row L (snd e) pk) (set ?es)"
    proof (rule inj_onI)
      fix e f assume ef: "e \<in> set ?es" "f \<in> set ?es" "bound_row L (snd e) pk = bound_row L (snd f) pk"
      obtain v where v: "map_of (snd e) pk = Some v" "key_ok v"
        using bspec [OF assms(5) ef(1)] unfolding row_good_def by blast
      obtain u where u: "map_of (snd f) pk = Some u" "key_ok u"
        using bspec [OF assms(5) ef(2)] unfolding row_good_def by blast
      note vu = v u
      then have "bind_json L v = bind_json L u" using ef(3) by (simp add: bound_row_def)
      then have "v = u" by (rule bind_inj [OF vu(2, 4)])
      with vu have "signature_of L pk e = signature_of L pk f" by (simp add: signature_of_def)
      with d ef(1, 2) show "e = f" unfolding distinct_map by (meson inj_onD)
    qed
    with d show ?thesis by (simp add: distinct_map)
  qed
  then have "distinct (map (\<lambda>r. map_of (zip ?cols r) pk) (map ?args ?es))"
    using row by (simp add: comp_def cong: map_cong)
  with pg_lawD(2) [OF assms(2) pk, of "map ?args ?es" q d] obtain d' where
    d': "X (UpsertRows q pk ?cols (map ?args ?es)) d = (Inr (), d')"
      "T d' = (T d)(q := foldl (upsert_row pk ?cols) (T d q) (map ?args ?es))" by auto
  have "foldl (upsert_row pk ?cols) (T d q) (map ?args ?es) = foldl (replay_row L pk) (T d q) ?es"
    unfolding foldl_map_rows
    using row assms(3, 4) by (intro foldl_cong) (auto simp: upsert_row_def replay_row_def batch_ok_def list_all_iff)
  with stmt d' show ?thesis by auto
qed

lemma delete_batch:
  assumes "pg_law X T" "batch_ok L pk b" "b_mode b = DeleteMode" "\<forall>e\<in>set (b_rows b). row_good pk e" "validate_identifier pk = Inr ()"
  shows "\<exists>st d'. batch_stmt L q pk b = Inr st \<and> X st d = (Inr (), d') \<and>
    T d' = (T d)(q := foldl (replay_row L pk) (T d q) (b_rows b))"
proof -
  let ?es = "b_rows b" and ?key = "\<lambda>e. bind_json L (the (map_of (snd e) pk))"
  have "delete_key L pk (snd e) = Inr (?key e)" if "e \<in> set ?es" for e
    using assms(4) that by (fastforce simp: row_good_def delete_key_def)
  then have "try_map (\<lambda>(x, obj). delete_key L pk obj) ?es = Inr (map ?key ?es)" by (intro try_map_all_ok) auto
  then have stmt: "batch_stmt L q pk b = Inr (DeleteIn q pk (map ?key ?es))"
    using assms(3, 5) by (simp add: batch_stmt_def batch_delete_def)
  obtain d' where d': "X (DeleteIn q pk (map ?key ?es)) d = (Inr (), d')"
      "T d' = (T d)(q := foldl (\<lambda>t k. t(k := None)) (T d q) (map ?key ?es))" using pg_lawD(3) [OF assms(1)] by blast
  have "foldl (\<lambda>t k. t(k := None)) (T d q) (map ?key ?es) = foldl (replay_row L pk) (T d q) ?es"
    unfolding foldl_map_rows
  proof (rule foldl_cong [OF refl refl])
    fix t e assume "e \<in> set ?es"
    then obtain v where "map_of (snd e) pk = Some v" "batch_mode_of (fst e) = DeleteMode"
      using assms(2-4) by (fastforce simp: row_good_def batch_ok_def list_all_iff)
    then show "t(?key e := None) = replay_row L pk t e" by (simp add: replay_row_def)
  qed
  with stmt d' show ?thesis by auto
qed

lemma run_batches_replay:
  assumes "json_law L" "pg_law X T" "validate_identifier pk = Inr ()"
  shows "(\<And>b. b \<in> set bs \<Longrightarrow> batch_ok L pk b \<and> (\<forall>e\<in>set (b_rows b). row_good pk e)) \<Longrightarrow>
    \<exists>d'. run_batches L X q pk bs d = (Inr (), d') \<and> T d' = (T d)(q := foldl (replay_row L pk) (T d q) (concat (map b_rows bs)))"
proof (induction bs arbitrary: d)
  case (Cons b bs)
  have b: "batch_ok L pk b" "\<forall>e\<in>set (b_rows b). row_good pk e" using Cons.prems by auto
  obtain st d1 where 1: "batch_stmt L q pk b = Inr st" "X st d = (Inr (), d1)"
    "T d1 = (T d)(q := foldl (replay_row L pk) (T d q) (b_rows b))"
    using upsert_batch [OF assms(1, 2) b(1) _ b(2), of q d] delete_batch [OF assms(2) b(1) _ b(2) assms(3), of q d]
    by (cases "b_mode b") auto
  obtain d2 where 2: "run_batches L X q pk bs d1 = (Inr (), d2)"
    "T d2 = (T d1)(q := foldl (replay_row L pk) (T d1 q) (concat (map b_rows bs)))"
    using Cons.IH [of d1] Cons.prems by (meson list.set_intros(2))
  have q: "T d1 q = foldl (replay_row L pk) (T d q) (b_rows b)" using 1(3) by simp
  have "T d2 = (T d)(q := foldl (replay_row L pk) (T d q) (concat (map b_rows (b # bs))))"
    unfolding 2(2) q 1(3) by simp
  moreover have "run_batches L X q pk (b # bs) d = (Inr (), d2)" using 1(1, 2) 2(1) by simp
  ultimately show ?case by blast
qed simp

section \<open>Whole tables\<close>

lemma apply_rows_replay:
  assumes "json_law L" "pg_law X T" "validate_identifier pk = Inr ()" "decode_rows rows = Inr es" "\<forall>e\<in>set es. row_good pk e"
  shows "\<exists>d'. apply_segment_rows L X q pk rows d = (Inr (), d') \<and> T d' = (T d)(q := foldl (replay_row L pk) (T d q) es)"
proof (cases "rows = []")
  case True
  with assms(4) show ?thesis by (simp add: apply_segment_rows_def)
next
  case False
  have "batch_ok L pk b \<and> (\<forall>e\<in>set (b_rows b). row_good pk e)" if "b \<in> set (plan_batches L pk es)" for b
  proof -
    have "set (b_rows b) \<subseteq> set (concat (map b_rows (plan_batches L pk es)))" using that by auto
    then show ?thesis using plan_ok [OF that] assms(5) unfolding plan_concat by blast
  qed
  from run_batches_replay [OF assms(1-3) this, of "plan_batches L pk es" q d]
  show ?thesis using False assms(3, 4) by (simp add: apply_segment_rows_def plan_concat)
qed

definition entry_rows :: "(hash \<times> segment) list \<Rightarrow> segment_ref \<Rightarrow> json list" where
  "entry_rows segs e = (case map_of segs (sr_segment e) of None \<Rightarrow> [] | Some g \<Rightarrow> sg_rows g)"

definition decoded :: "json list \<Rightarrow> (op \<times> row_obj) list" where
  "decoded rows = (case decode_rows rows of Inl _ \<Rightarrow> [] | Inr es \<Rightarrow> es)"

definition rows_good :: "string \<Rightarrow> json list \<Rightarrow> bool" where
  "rows_good pk rows \<longleftrightarrow> \<not> isl (decode_rows rows) \<and> (\<forall>e\<in>set (decoded rows). row_good pk e)"

lemma apply_entries_replay:
  assumes "json_law L" "pg_law X T" "validate_identifier pk = Inr ()"
  shows "(\<And>e. e \<in> set es \<Longrightarrow> rows_good pk (entry_rows segs e)) \<Longrightarrow>
    \<exists>d'. apply_entries L X segs q pk es d = (Inr (), d') \<and>
      T d' = (T d)(q := foldl (replay_row L pk) (T d q) (concat (map (decoded \<circ> entry_rows segs) es)))"
proof (induction es arbitrary: d)
  case (Cons e es)
  obtain xs where xs: "decode_rows (entry_rows segs e) = Inr xs" "\<forall>x\<in>set xs. row_good pk x" "decoded (entry_rows segs e) = xs"
    using Cons.prems [of e] by (cases "decode_rows (entry_rows segs e)") (auto simp: rows_good_def decoded_def)
  obtain d1 where 1: "apply_segment_rows L X q pk (entry_rows segs e) d = (Inr (), d1)"
    "T d1 = (T d)(q := foldl (replay_row L pk) (T d q) xs)" using apply_rows_replay [OF assms xs(1, 2)] by blast
  obtain d2 where 2: "apply_entries L X segs q pk es d1 = (Inr (), d2)"
    "T d2 = (T d1)(q := foldl (replay_row L pk) (T d1 q) (concat (map (decoded \<circ> entry_rows segs) es)))"
    using Cons.IH [of d1] Cons.prems by (meson list.set_intros(2))
  have q: "T d1 q = foldl (replay_row L pk) (T d q) xs" using 1(2) by simp
  have "T d2 = (T d)(q := foldl (replay_row L pk) (T d q) (concat (map (decoded \<circ> entry_rows segs) (e # es))))"
    unfolding 2(2) q 1(2) using xs(3) by simp
  moreover have "apply_entries L X segs q pk (e # es) d = (Inr (), d2)"
    using 1(1) 2(1) by (simp add: entry_rows_def)
  ultimately show ?case by blast
qed simp

definition table_good :: "(hash \<times> segment) list \<Rightarrow> segment_ref list \<Rightarrow> tracked_table \<Rightarrow> bool" where
  "table_good segs es t \<longleftrightarrow>
     validate_identifier (tt_name t) = Inr () \<and> validate_identifier (tt_pk t) = Inr () \<and>
     (\<forall>e\<in>set es. sr_table e = tt_name t \<longrightarrow> rows_good (tt_pk t) (entry_rows segs e))"

text \<open>What a restored table holds: the entries of the table in the order of the manifest, replayed.\<close>

definition restored :: "lib \<Rightarrow> (hash \<times> segment) list \<Rightarrow> segment_ref list \<Rightarrow> tracked_table \<Rightarrow> pg_table" where
  "restored L segs es t =
     foldl (replay_row L (tt_pk t)) Map.empty
       (concat (map (decoded \<circ> entry_rows segs) (filter (\<lambda>e. sr_table e = tt_name t) es)))"

abbreviation qname :: "tracked_table \<Rightarrow> string" where
  "qname t \<equiv> quote_qualified (tt_name t)"

lemma restore_table_replay:
  assumes "json_law L" "pg_law X T" "table_good segs es t"
  shows "\<exists>d'. restore_table L X segs es t d = (Inr (), d') \<and> T d' = (T d)(qname t := restored L segs es t)"
proof -
  obtain d1 where 1: "X (TruncateTable (qname t)) d = (Inr (), d1)" "T d1 = (T d)(qname t := Map.empty)"
    using pg_lawD(1) [OF assms(2)] by blast
  obtain d2 where 2: "apply_entries L X segs (qname t) (tt_pk t) (filter (\<lambda>e. sr_table e = tt_name t) es) d1 = (Inr (), d2)"
    "T d2 = (T d1)(qname t := foldl (replay_row L (tt_pk t)) (T d1 (qname t))
       (concat (map (decoded \<circ> entry_rows segs) (filter (\<lambda>e. sr_table e = tt_name t) es))))"
    using apply_entries_replay [OF assms(1, 2), of "tt_pk t" "filter (\<lambda>e. sr_table e = tt_name t) es" segs "qname t" d1]
      assms(3) by (auto simp: table_good_def)
  have "T d2 = (T d)(qname t := restored L segs es t)" unfolding 2(2) 1(2) restored_def by simp
  with 1(1) 2(1) assms(3) show ?thesis by (simp add: restore_table_def table_good_def)
qed

lemma restore_tables_replay:
  assumes "json_law L" "pg_law X T"
  shows "(\<And>t. t \<in> set ts \<Longrightarrow> table_good segs es t) \<Longrightarrow> distinct (map qname ts) \<Longrightarrow>
    \<exists>us d'. mapA (restore_table L X segs es) ts d = (Inr us, d') \<and>
      (\<forall>t\<in>set ts. T d' (qname t) = restored L segs es t) \<and> (\<forall>q. q \<notin> qname ` set ts \<longrightarrow> T d' q = T d q)"
proof (induction ts arbitrary: d)
  case (Cons t ts)
  obtain d1 where 1: "restore_table L X segs es t d = (Inr (), d1)" "T d1 = (T d)(qname t := restored L segs es t)"
    using restore_table_replay [OF assms, of segs es t d] Cons.prems by auto
  obtain us d2 where 2: "mapA (restore_table L X segs es) ts d1 = (Inr us, d2)"
    "\<forall>u\<in>set ts. T d2 (qname u) = restored L segs es u" "\<forall>q. q \<notin> qname ` set ts \<longrightarrow> T d2 q = T d1 q"
    using Cons.IH [of d1] Cons.prems by (auto simp: image_iff)
  have "T d2 (qname t) = T d1 (qname t)" using 2(3) Cons.prems(2) by (auto simp: image_iff)
  with 1 2 show ?case by auto
qed simp

section \<open>Properties\<close>

text \<open>
  C17. Batching does not change what a restore does. Applying the rows of a segment in batches
  succeeds and leaves the table as writing the rows one at a time in their order would, the last
  writer of a key winning and deletes in their place, and no other table is touched; in particular no
  statement ever updates a row twice.\<close>

theorem batched_restore_replays:
  assumes "json_law L" "pg_law X T" "validate_identifier pk = Inr ()" "decode_rows rows = Inr es" "\<forall>e\<in>set es. row_good pk e"
  shows "\<exists>d'. apply_segment_rows L X q pk rows d = (Inr (), d') \<and> T d' = (T d)(q := foldl (replay_row L pk) (T d q) es)"
  using apply_rows_replay [OF assms] .

text \<open>The database of the witnesses: the tables themselves.\<close>

fun sample_exec :: "(string \<Rightarrow> pg_table) exec" where
  "sample_exec (TruncateTable q) d = (Inr (), d(q := Map.empty))"
| "sample_exec (UpsertRows q pk cols rows) d = (Inr (), d(q := foldl (upsert_row pk cols) (d q) rows))"
| "sample_exec (DeleteIn q pk keys) d = (Inr (), d(q := foldl (\<lambda>t k. t(k := None)) (d q) keys))"
| "sample_exec TruncateLog d = (Inr (), d)"

lemma sample_pg_law: "pg_law sample_exec (\<lambda>d. d)"
  by (simp add: pg_law_def)

definition sample_row :: "u64 \<Rightarrow> u64 \<Rightarrow> row_obj" where
  "sample_row k n = [(''id'', of_u64 k), (''v'', of_u64 n)]"

lemma sample_names: "validate_identifier ''id'' = Inr ()" "validate_identifier ''v'' = Inr ()" "validate_identifier ''t'' = Inr ()"
  by (simp_all add: validate_identifier_def is_alnum_def is_alpha_def is_lower_def)

lemma sample_row_good: "unat k < 2 ^ 63 \<Longrightarrow> row_good ''id'' (x, sample_row k n)"
  by (simp add: row_good_def sample_row_def sample_names of_u64_def)

lemma decode_sample:
  "decode_rows [envelope_of x (JObj (sample_row k n))] = Inr [(x, sample_row k n)]"
  by (cases x) (simp_all add: peel_envelope_def envelope_of_def json_get_def sample_row_def)

theorem batched_restore_replays_witness:
  "\<exists>d'. apply_segment_rows sample_lib sample_exec ''q'' ''id'' [envelope_of Insert (JObj (sample_row 7 1))] (\<lambda>_. Map.empty) = (Inr (), d') \<and>
     d' ''q'' (ArgI64 7) \<noteq> None"
proof -
  obtain d' where "apply_segment_rows sample_lib sample_exec ''q'' ''id'' [envelope_of Insert (JObj (sample_row 7 1))] (\<lambda>_. Map.empty) = (Inr (), d')"
    "d' = (\<lambda>_. Map.empty)(''q'' := foldl (replay_row sample_lib ''id'') Map.empty [(Insert, sample_row 7 1)])"
    using batched_restore_replays [OF sample_json sample_pg_law sample_names(1) decode_sample, of Insert 7 1 "''q''" "\<lambda>_. Map.empty"]
      sample_row_good by auto
  then show ?thesis
    by (intro exI [of _ d']) (simp add: replay_row_def upsert_map_def bound_row_def sample_row_def of_u64_def)
qed

lemma upsert_size:
  assumes "batch_upsert L q pk cols rows = Inr st"
  shows "length (stmt_args st) = length rows * length cols" "list_all (\<lambda>c. validate_identifier c = Inr ()) cols"
proof -
  obtain us args where u: "try_map validate_identifier cols = Inr us" "try_map (\<lambda>(x, obj). row_args L cols obj) rows = Inr args"
    "st = UpsertRows q pk cols args" using assms by (auto simp: batch_upsert_def res_bind_Inr_iff)
  have "length a = length cols" if "a \<in> set args" for a
    using try_map_Inr_set [OF u(2) that] by (auto simp: row_args_def dest: try_map_Inr_length)
  then have "map length args = map (\<lambda>_. length cols) args" by simp
  then have "length (concat args) = length args * length cols"
    by (simp add: length_concat sum_list_triv map_replicate_const sum_list_replicate)
  with u try_map_Inr_length [OF u(2)] show "length (stmt_args st) = length rows * length cols" by simp
  have "try_map f xs = Inr ys \<Longrightarrow> list_all (\<lambda>x. f x = Inr ()) xs" for f :: "string \<Rightarrow> mem_error + unit" and xs ys
    by (induction xs arbitrary: ys) (auto simp: res_bind_Inr_iff)
  from this [OF u(1)] show "list_all (\<lambda>c. validate_identifier c = Inr ()) cols" .
qed

lemma batch_params:
  assumes "n \<le> batch_cap UpsertMode cols"
  shows "n \<le> 1 \<or> n * length cols \<le> 60000"
proof (cases "n \<le> 1")
  case False
  let ?c = "max (length cols) 1"
  have "n \<le> 60000 div ?c"
    using assms False by (auto simp: batch_cap_def batch_max_rows_def batch_max_params_def Let_def)
  then have "n * ?c \<le> 60000 div ?c * ?c" by (rule mult_le_mono1)
  also have "\<dots> \<le> 60000" by simp
  finally have "n * ?c \<le> 60000" .
  moreover have "n * length cols \<le> n * ?c" by simp
  ultimately show ?thesis by linarith
qed simp

text \<open>
  C38. The statements of a restore are within Postgres's limits, and the planning loop ends with
  every row in exactly one batch, in order: a batch has between 1 and 1000 rows, all of one
  mode, and unless it is a single row its statement binds at most 60000 parameters; and the columns it
  names are plain identifiers, so that no name of a segment reaches the text of a statement unchecked.\<close>

theorem batches_bounded:
  "concat (map b_rows (plan_batches L pk es)) = es \<and>
   (\<forall>b\<in>set (plan_batches L pk es).
      0 < length (b_rows b) \<and> length (b_rows b) \<le> 1000 \<and> list_all (\<lambda>e. batch_mode_of (fst e) = b_mode b) (b_rows b) \<and>
      (\<forall>q st. batch_stmt L q pk b = Inr st \<longrightarrow>
         (length (b_rows b) = 1 \<or> length (stmt_args st) \<le> 60000) \<and>
         (b_mode b = UpsertMode \<longrightarrow> list_all (\<lambda>c. validate_identifier c = Inr ()) (b_cols b))))"
proof (intro conjI ballI plan_concat)
  fix b assume "b \<in> set (plan_batches L pk es)"
  then have ok: "batch_ok L pk b" by (rule plan_ok)
  show "0 < length (b_rows b)" "list_all (\<lambda>e. batch_mode_of (fst e) = b_mode b) (b_rows b)"
    using ok by (simp_all add: batch_ok_def)
  have cap: "length (b_rows b) \<le> batch_cap (b_mode b) (b_cols b)" "batch_cap (b_mode b) (b_cols b) \<le> 1000"
    using ok by (simp_all add: batch_ok_def batch_cap_def batch_max_rows_def Let_def)
  then show le: "length (b_rows b) \<le> 1000" by simp
  show "\<forall>q st. batch_stmt L q pk b = Inr st \<longrightarrow>
         (length (b_rows b) = 1 \<or> length (stmt_args st) \<le> 60000) \<and>
         (b_mode b = UpsertMode \<longrightarrow> list_all (\<lambda>c. validate_identifier c = Inr ()) (b_cols b))"
  proof (intro allI impI)
    fix q st assume st: "batch_stmt L q pk b = Inr st"
    show "(length (b_rows b) = 1 \<or> length (stmt_args st) \<le> 60000) \<and>
         (b_mode b = UpsertMode \<longrightarrow> list_all (\<lambda>c. validate_identifier c = Inr ()) (b_cols b))"
    proof (cases "b_mode b")
      case UpsertMode
      with st have "batch_upsert L q pk (b_cols b) (b_rows b) = Inr st" by (simp add: batch_stmt_def)
      note u = upsert_size [OF this]
      have "length (b_rows b) = 1 \<or> length (b_rows b) * length (b_cols b) \<le> 60000"
        using batch_params [of "length (b_rows b)" "b_cols b"] cap(1) UpsertMode ok by (auto simp: batch_ok_def le_Suc_eq)
      with u UpsertMode show ?thesis by simp
    next
      case DeleteMode
      with st obtain keys where "try_map (\<lambda>(x, obj). delete_key L pk obj) (b_rows b) = Inr keys" "st = DeleteIn q pk keys"
        by (auto simp: batch_stmt_def batch_delete_def res_bind_Inr_iff)
      with try_map_Inr_length le DeleteMode show ?thesis by fastforce
    qed
  qed
qed

theorem batches_bounded_witness:
  "\<exists>b. plan_batches sample_lib ''id'' [(Insert, sample_row 7 1)] = [b] \<and> b_rows b = [(Insert, sample_row 7 1)]"
proof -
  obtain b where b: "plan_batches sample_lib ''id'' [(Insert, sample_row 7 1)] = [b]"
    by (simp add: first_batch_def Let_def)
  with batches_bounded [of sample_lib "''id''" "[(Insert, sample_row 7 1)]"] show ?thesis by auto
qed

lemma failed_restore_rolled_back:
  "restore_manifest L S X start commit m tables (w, d) = (Inl e, (v, d')) \<Longrightarrow> d' = d \<or> d' = snd (start d)"
  by (auto simp: restore_manifest_def in_transaction_def bindA_def split: prod.splits sum.splits)

lemma manifest_replayed:
  assumes "json_law L" "pg_law X T" "mapA (load_segment L S) (mf_entries m) w = (Inr segs, v)"
    "\<forall>t\<in>set tables. table_good (bt_of_list segs) (mf_entries m) t" "distinct (map qname tables)"
    "start d = (Inr (), d0)" "T d0 = T d" "\<forall>a. \<exists>b. commit a = (Inr (), b) \<and> T b = T a"
  shows "\<exists>d'. restore_manifest L S X start commit m tables (w, d) = (Inr (), (v, d')) \<and>
      (\<forall>t\<in>set tables. T d' (qname t) = restored L (bt_of_list segs) (mf_entries m) t) \<and>
      (\<forall>q. q \<notin> qname ` set tables \<longrightarrow> T d' q = T d q)"
proof -
  obtain us d1 where 1: "mapA (restore_table L X (bt_of_list segs) (mf_entries m)) tables d0 = (Inr us, d1)"
    "\<forall>t\<in>set tables. T d1 (qname t) = restored L (bt_of_list segs) (mf_entries m) t"
    "\<forall>q. q \<notin> qname ` set tables \<longrightarrow> T d1 q = T d0 q"
    using restore_tables_replay [OF assms(1, 2) _ assms(5), of "bt_of_list segs" "mf_entries m" d0] assms(4) by auto
  obtain d2 where 2: "X TruncateLog d1 = (Inr (), d2)" "T d2 = T d1" using pg_lawD(4) [OF assms(2)] by blast
  obtain d3 where 3: "commit d2 = (Inr (), d3)" "T d3 = T d2" using assms(8) by blast
  have "restore_manifest L S X start commit m tables (w, d) = (Inr (), (v, d3))"
    using assms(3, 6) 1(1) 2(1) 3(1) by (simp add: restore_manifest_def in_transaction_def bindA_def)
  with 1 2 3 assms(7) show "\<exists>d'. restore_manifest L S X start commit m tables (w, d) = (Inr (), (v, d')) \<and>
      (\<forall>t\<in>set tables. T d' (qname t) = restored L (bt_of_list segs) (mf_entries m) t) \<and>
      (\<forall>q. q \<notin> qname ` set tables \<longrightarrow> T d' q = T d q)" by auto
qed

section \<open>The order of the manifest is not the order of the changes\<close>

text \<open>Events that write \<open>n\<close> under the key \<open>k\<close>, and the segment that a run of them makes.\<close>

type_synonym change = "op \<times> u64 \<times> u64"

fun change_entry :: "change \<Rightarrow> op \<times> row_obj" where
  "change_entry (x, k, n) = (x, sample_row k n)"

fun change_env :: "change \<Rightarrow> json" where
  "change_env (x, k, n) = envelope_of x (JObj (sample_row k n))"

fun change_key :: "change \<Rightarrow> json" where
  "change_key (x, k, n) = of_u64 k"

fun row_event :: "change \<Rightarrow> change_event" where
  "row_event (x, k, n) = \<lparr>ev_table = ''t'', ev_row = JObj (sample_row k n), ev_op = x, ev_schema = ''1''\<rparr>"

definition rows_segment :: "change list \<Rightarrow> segment" where
  "rows_segment xs =
     \<lparr>sg_table = ''t'', sg_schema = ''1'', sg_pk_lo = (if xs = [] then JNull else change_key (hd xs)),
      sg_pk_hi = (if xs = [] then JNull else change_key (last xs)), sg_row_count = of_nat (length xs),
      sg_rows = map change_env xs, sg_embeddings = [], sg_metadata = []\<rparr>"

definition rows_ref :: "lib \<Rightarrow> change list \<Rightarrow> segment_ref" where
  "rows_ref L xs = ref_of L (rows_segment xs) (segment_hash L (rows_segment xs))"

definition busy :: "nat \<Rightarrow> segment_ref list \<Rightarrow> change list \<Rightarrow> streamer" where
  "busy n rs xs =
     \<lparr>sm_heads = [(''t'', \<lparr>th_table = ''t'', th_active = rows_segment xs, th_sealed = rs, th_threshold = n\<rparr>)],
      sm_pk = [(''t'', ''id'')]\<rparr>"

lemma blank_rows: "blank_segment ''t'' ''1'' = rows_segment []"
  by (simp add: blank_segment_def rows_segment_def)

lemma spawn_busy: "spawn [sample_table] n ''1'' = busy n [] []"
  by (simp add: spawn_def sample_table_def bt_of_list_def busy_def head_new_def blank_rows)

lemma busy_event:
  assumes "canonical_size L (rows_segment (xs @ [c])) < n"
  shows "on_event L S (row_event c) (w, busy n rs xs) = (w, busy n rs (xs @ [c]))"
proof -
  obtain x k m where c: "c = (x, k, m)" by (rule prod_cases3)
  let ?h = "\<lambda>xs. \<lparr>th_table = ''t'', th_active = rows_segment xs, th_sealed = rs, th_threshold = n\<rparr>"
  have "head_apply (row_event c) ''id'' (?h xs) = (Inr (), ?h (xs @ [c]))"
    by (simp add: c head_apply_def event_pk_def json_get_def sample_row_def of_u64_def adopt_schema_def push_row_def rows_segment_def)
  moreover have "maybe_seal_on_threshold L S (w, ?h (xs @ [c])) = (Inr (), (w, ?h (xs @ [c])))"
    using assms by (simp add: maybe_seal_on_threshold_def)
  ultimately show ?thesis by (simp add: on_event_def busy_def set_head_def c)
qed

text \<open>A snapshot seals the rows of the head.\<close>

lemma busy_snapshot:
  assumes "xs \<noteq> []"
  shows "streamer_snapshot L (shelf L) ''1'' (w, busy n rs xs) =
     (Inr (foldl (\<lambda>m r. manifest_push L r m) (manifest_new ''1'') (rs @ [rows_ref L xs])),
      ((segment_hash L (rows_segment xs), segment_bytes L (rows_segment xs)) # w, busy n (rs @ [rows_ref L xs]) []))"
proof -
  have "sg_rows (rows_segment xs) \<noteq> []" "sg_schema (rows_segment xs) = ''1''" using assms by (simp_all add: rows_segment_def)
  then show ?thesis
    by (simp add: streamer_snapshot_def busy_def seal_if_nonempty_def shelf_def Let_def manifest_of_heads_def rows_ref_def
        segment_hash_def blank_rows)
qed

lemma rows_segment_parse:
  assumes "json_law L" shows "segment_parse L (segment_bytes L (rows_segment xs)) = Some (rows_segment xs)"
proof (rule segment_parse_bytes [OF assms])
  have env: "good_value (change_env c)" and key: "good_value (change_key c)" for c
    by (cases c; simp add: good_value_def envelope_of_def sample_row_def of_u64_def bt_ok_def list_less_def)+
  have "good_value JNull" by (simp add: good_value_def)
  then show "good_value (sg_pk_lo (rows_segment xs))" "good_value (sg_pk_hi (rows_segment xs))"
    using key by (simp_all add: rows_segment_def)
  show "list_all good_value (sg_rows (rows_segment xs))" using env by (simp add: rows_segment_def list_all_iff)
qed (simp_all add: rows_segment_def)

lemma rows_load:
  "json_law L \<Longrightarrow> map_of w (segment_hash L (rows_segment xs)) = Some (segment_bytes L (rows_segment xs)) \<Longrightarrow>
     load_segment L (shelf L) (rows_ref L xs) w = (Inr (segment_hash L (rows_segment xs), rows_segment xs), w)"
  by (simp add: load_segment_def shelf_def rows_ref_def ref_of_def rows_segment_parse bindA_def map_errA_def)

lemma decode_changes: "decode_rows (map change_env xs) = Inr (map change_entry xs)"
proof (induction xs)
  case (Cons c xs)
  obtain x k n where "c = (x, k, n)" by (rule prod_cases3)
  with Cons show ?case by (cases x) (simp_all add: peel_envelope_def envelope_of_def json_get_def sample_row_def)
qed simp

lemma decoded_changes: "decoded (map change_env xs) = map change_entry xs"
  unfolding decoded_def decode_changes by simp

lemma changes_good:
  assumes "\<forall>c\<in>set xs. unat (fst (snd c)) < 2 ^ 63"
  shows "rows_good ''id'' (map change_env xs)"
proof -
  have "row_good ''id'' (change_entry c)" if "c \<in> set xs" for c
    using assms that sample_row_good by (cases c) fastforce
  then show ?thesis by (auto simp: rows_good_def decode_changes decoded_changes)
qed

lemma rows_entry:
  "map_of segs (segment_hash L (rows_segment xs)) = Some (rows_segment xs) \<Longrightarrow>
     entry_rows segs (rows_ref L xs) = map change_env xs"
  by (simp add: entry_rows_def rows_ref_def ref_of_def) (simp add: rows_segment_def)

lemma rows_ref_fields [simp]:
  "sr_table (rows_ref L xs) = ''t''" "sr_pk_lo (rows_ref L xs) = (if xs = [] then JNull else change_key (hd xs))"
  "sr_pk_hi (rows_ref L xs) = (if xs = [] then JNull else change_key (last xs))"
  by (simp_all add: rows_ref_def ref_of_def rows_segment_def)

lemma restored_changes:
  assumes "\<forall>xs\<in>set xss. entry_rows segs (rows_ref L xs) = map change_env xs"
  shows "restored L segs (map (rows_ref L) xss) sample_table = foldl (replay_row L ''id'') Map.empty (map change_entry (concat xss))"
proof -
  have "concat (map (decoded \<circ> entry_rows segs) (map (rows_ref L) xss)) = map change_entry (concat xss)"
    using assms by (induction xss) (simp_all add: decoded_changes)
  moreover have "filter (\<lambda>e. sr_table e = ''t'') (map (rows_ref L) xss) = map (rows_ref L) xss"
    by (induction xss) simp_all
  ultimately show ?thesis by (simp only: restored_def sample_table_def tracked_table.simps)
qed

lemma changes_table_good:
  assumes "\<forall>xs\<in>set xss. entry_rows segs (rows_ref L xs) = map change_env xs" "\<forall>c\<in>set (concat xss). unat (fst (snd c)) < 2 ^ 63"
  shows "table_good segs (map (rows_ref L) xss) sample_table"
proof -
  have "rows_good ''id'' (map change_env xs)" if xs: "xs \<in> set xss" for xs
    by (rule changes_good) (use assms(2) xs in \<open>unfold set_concat, blast\<close>)
  with assms(1) show ?thesis by (auto simp: table_good_def sample_table_def sample_names)
qed

text \<open>The overwritten row: a segment with two inserts, and one with the update of the first.\<close>

abbreviation inserted :: "change list" where
  "inserted \<equiv> [(Insert, 7, 1), (Insert, 8, 3)]"

abbreviation updated :: "change list" where
  "updated \<equiv> [(Update, 7, 2)]"

abbreviation reverting_manifest :: "lib \<Rightarrow> segment_manifest" where
  "reverting_manifest L \<equiv> \<lparr>mf_schema = ''1'', mf_entries = [rows_ref L updated, rows_ref L inserted]\<rparr>"

lemma pushed_refs:
  "foldl (\<lambda>m r. manifest_push L r m) (manifest_new ''1'') [rows_ref L inserted] = \<lparr>mf_schema = ''1'', mf_entries = [rows_ref L inserted]\<rparr>"
  "foldl (\<lambda>m r. manifest_push L r m) (manifest_new ''1'') [rows_ref L inserted, rows_ref L updated] = reverting_manifest L"
  by (simp_all add: manifest_push_def manifest_new_def push_key_def of_u64_def)

lemma reverting_manifest_valid: "validate_invariants L (reverting_manifest L) = Inr ()"
  by (simp add: validate_invariants_def range_key_def of_u64_def less_prod_def less_pk_key_def)

text \<open>Reading a column of a restored row.\<close>

definition column_of :: "pg_table \<Rightarrow> arg \<Rightarrow> string \<Rightarrow> arg option" where
  "column_of t k c = (case t k of None \<Rightarrow> None | Some row \<Rightarrow> row c)"

lemma replay_changes:
  "column_of (foldl (replay_row L ''id'') Map.empty (map change_entry (updated @ inserted))) (ArgI64 7) ''v'' = Some (ArgI64 1)"
  "column_of (foldl (replay_row L ''id'') Map.empty (map change_entry (inserted @ updated))) (ArgI64 7) ''v'' = Some (ArgI64 2)"
  by (simp_all add: column_of_def replay_row_def upsert_map_def bound_row_def sample_row_def of_u64_def)

text \<open>A digest that tells the two segments apart.\<close>

definition telling_lib :: lib where
  "telling_lib = sample_lib\<lparr>blake3 := \<lambda>bs. if bs = segment_bytes sample_lib (rows_segment inserted) then 0 else 1\<rparr>"

lemma telling_ok:
  "json_law telling_lib" "segment_hash telling_lib (rows_segment inserted) \<noteq> segment_hash telling_lib (rows_segment updated)"
proof -
  have "json_print telling_lib = json_print sample_lib" "json_parse telling_lib = json_parse sample_lib"
    by (simp_all add: telling_lib_def)
  then have bytes: "segment_bytes telling_lib (rows_segment xs) = segment_bytes sample_lib (rows_segment xs)" for xs
    by (simp add: segment_bytes_def segment_to_json_def rows_segment_def of_vec_def)
  have "rows_segment inserted \<noteq> rows_segment updated" by (simp add: rows_segment_def)
  then have "segment_bytes sample_lib (rows_segment inserted) \<noteq> segment_bytes sample_lib (rows_segment updated)"
    using rows_segment_parse [OF sample_json] by (metis option.inject)
  then show "segment_hash telling_lib (rows_segment inserted) \<noteq> segment_hash telling_lib (rows_segment updated)"
    by (simp add: segment_hash_def bytes hash_of_def) (simp add: telling_lib_def)
  show "json_law telling_lib" using sample_json by (simp add: json_law_def telling_lib_def)
qed



text \<open>
  C19. A restore can bring back a value that was overwritten. A streamer takes the inserts of two rows,
  seals them for a snapshot, then takes an update of the first row and seals it for a second snapshot.
  Since a reference is pushed in front of those of the same first key, the second manifest lists the
  newer segment first; it is a valid manifest, and a restore of it, which applies the entries in that
  order, succeeds and leaves the row with the inserted value, although replaying the events in their
  order gives the updated one.\<close>

theorem restore_reverts_update:
  assumes "json_law L" "pg_law X T" "segment_hash L (rows_segment inserted) \<noteq> segment_hash L (rows_segment updated)"
    "canonical_size L (rows_segment [(Insert, 7, 1)]) < n" "canonical_size L (rows_segment inserted) < n"
    "canonical_size L (rows_segment updated) < n"
  shows "\<exists>m1 m w s d'.
      streamer_run L (shelf L)
        [Event (row_event (Insert, 7, 1)), Event (row_event (Insert, 8, 3)), TakeSnapshot ''1'',
         Event (row_event (Update, 7, 2)), TakeSnapshot ''1''] ([], spawn [sample_table] n ''1'') = ([Inr m1, Inr m], (w, s)) \<and>
      validate_invariants L m = Inr () \<and>
      restore_manifest L (shelf L) X (ret ()) (ret ()) m [sample_table] (w, d) = (Inr (), (w, d')) \<and>
      column_of (T d' (quote_qualified ''t'')) (ArgI64 7) ''v'' = Some (ArgI64 1) \<and>
      column_of (foldl (replay_row L ''id'') Map.empty (map change_entry [(Insert, 7, 1), (Insert, 8, 3), (Update, 7, 2)]))
        (ArgI64 7) ''v'' = Some (ArgI64 2)"
proof -
  let ?h1 = "segment_hash L (rows_segment inserted)" and ?h2 = "segment_hash L (rows_segment updated)"
  let ?w = "[(?h2, segment_bytes L (rows_segment updated)), (?h1, segment_bytes L (rows_segment inserted))]"
  let ?m = "reverting_manifest L"
  let ?segs = "bt_of_list [(?h2, rows_segment updated), (?h1, rows_segment inserted)]"
  have run: "streamer_run L (shelf L)
        [Event (row_event (Insert, 7, 1)), Event (row_event (Insert, 8, 3)), TakeSnapshot ''1'',
         Event (row_event (Update, 7, 2)), TakeSnapshot ''1''] ([], spawn [sample_table] n ''1'') =
      ([Inr \<lparr>mf_schema = ''1'', mf_entries = [rows_ref L inserted]\<rparr>, Inr ?m], (?w, busy n [rows_ref L inserted, rows_ref L updated] []))"
    using assms(4-6)
    by (simp add: spawn_busy busy_event busy_snapshot pushed_refs del: foldl.simps row_event.simps)
  have load: "mapA (load_segment L (shelf L)) (mf_entries ?m) ?w =
      (Inr [(?h2, rows_segment updated), (?h1, rows_segment inserted)], ?w)"
    using assms(3) by (simp add: rows_load [OF assms(1)] bindA_def)
  have "entry_rows ?segs (rows_ref L updated) = map change_env updated"
    by (rule rows_entry) (use assms(3) in \<open>simp add: bt_of_list_map_of\<close>)
  moreover have "entry_rows ?segs (rows_ref L inserted) = map change_env inserted"
    by (rule rows_entry) (use assms(3) in \<open>simp add: bt_of_list_map_of\<close>)
  ultimately have er: "entry_rows ?segs (rows_ref L updated) = map change_env updated"
    "entry_rows ?segs (rows_ref L inserted) = map change_env inserted" by blast+
  have good: "\<forall>t\<in>set [sample_table]. table_good ?segs (mf_entries ?m) t"
    using changes_table_good [of "[updated, inserted]" ?segs L] er by simp
  obtain d' where d: "restore_manifest L (shelf L) X (ret ()) (ret ()) ?m [sample_table] (?w, d) = (Inr (), (?w, d'))"
    "T d' (quote_qualified ''t'') = restored L ?segs (mf_entries ?m) sample_table"
    using manifest_replayed [where commit = "ret ()" and start = "ret ()" and tables = "[sample_table]" and d = d,
        OF assms(1, 2) load good] by (auto simp: sample_table_def)
  have "restored L ?segs (mf_entries ?m) sample_table = foldl (replay_row L ''id'') Map.empty (map change_entry (updated @ inserted))"
    using restored_changes [of "[updated, inserted]" ?segs L] er by simp
  then have "column_of (T d' (quote_qualified ''t'')) (ArgI64 7) ''v'' = Some (ArgI64 1)"
    using d(2) replay_changes(1) by metis
  with run reverting_manifest_valid d(1) replay_changes(2) show ?thesis unfolding append.simps by blast
qed

theorem restore_reverts_update_witness:
  "\<exists>n m1 m w s d'.
      streamer_run telling_lib (shelf telling_lib)
        [Event (row_event (Insert, 7, 1)), Event (row_event (Insert, 8, 3)), TakeSnapshot ''1'',
         Event (row_event (Update, 7, 2)), TakeSnapshot ''1''] ([], spawn [sample_table] n ''1'') = ([Inr m1, Inr m], (w, s)) \<and>
      restore_manifest telling_lib (shelf telling_lib) sample_exec (ret ()) (ret ()) m [sample_table] (w, \<lambda>_. Map.empty) = (Inr (), (w, d'))"
proof -
  let ?n = "Suc (canonical_size telling_lib (rows_segment [(Insert, 7, 1)]) + canonical_size telling_lib (rows_segment inserted) +
      canonical_size telling_lib (rows_segment updated))"
  show ?thesis
    using restore_reverts_update [OF telling_ok(1) sample_pg_law telling_ok(2), of ?n "\<lambda>_. Map.empty"] by (simp del: streamer_run.simps) blast
qed

end
