(* ===== verification/Triggers.thy ===== *)
theory Triggers
  imports Restore "HOL-Library.Multiset"
begin

text \<open>
  The trigger capture of \<open>crates/agentic-memory/src/triggers.rs\<close>: the table
  \<open>agentic_change_log\<close>, the names a trigger and the streamer call a table by, one batch of a
  drain in its lenient and strict modes, the drain to completion that fences a snapshot, and the
  logging state of the poller. The database is the record \<open>pg\<close>; each statement is one step of it,
  before which the environment may fail the connection or let other sessions commit rows.
\<close>

section \<open>The database\<close>

text \<open>A row of the change log; a column that does not decode is \<open>None\<close>. The keys are a
  \<open>bigserial\<close>, so they start at one.\<close>

record change_row =
  cr_id :: int
  cr_table :: "string option"
  cr_op :: "string option"
  cr_row :: "json option"

datatype env = Quiet | Fault sqlx_error | Commits "change_row list"

record pg =
  pg_env :: "env list"
  pg_log :: "change_row list"
  pg_migs :: "(int \<times> string) list"
  pg_queue :: "change_event list"
  pg_up :: bool

definition db_call :: "('z pg_scheme, mem_error, 'a) act \<Rightarrow> ('z pg_scheme, mem_error, 'a) act" where
  "db_call f = (\<lambda>d.
     case pg_env d of
       [] \<Rightarrow> f d
     | Quiet # es \<Rightarrow> f (d\<lparr>pg_env := es\<rparr>)
     | Fault x # es \<Rightarrow> (Inl (Sqlx x), d\<lparr>pg_env := es\<rparr>)
     | Commits rs # es \<Rightarrow> f (d\<lparr>pg_env := es, pg_log := pg_log d @ rs\<rparr>))"

text \<open>The statements of the drain.\<close>

definition select_log :: "nat \<Rightarrow> ('z pg_scheme, mem_error, change_row list) act" where
  "select_log n = db_call (\<lambda>d. (Inr (take n (sort_key cr_id (pg_log d))), d))"

definition delete_log :: "int \<Rightarrow> ('z pg_scheme, mem_error, unit) act" where
  "delete_log k = db_call (\<lambda>d. (Inr (), d\<lparr>pg_log := filter (\<lambda>r. \<not> cr_id r \<le> k) (pg_log d)\<rparr>))"

text \<open>\<open>agentic_schema_version()\<close>: the name of the last migration, or the baseline.\<close>

definition last_migration :: "(int \<times> string) list \<Rightarrow> string" where
  "last_migration ms = (case rev (sort_key fst ms) of [] \<Rightarrow> ''0.0.0'' | (i, n) # _ \<Rightarrow> n)"

definition schema_version :: "('z pg_scheme, mem_error, string) act" where
  "schema_version = db_call (\<lambda>d. (Inr (last_migration (pg_migs d)), d))"

definition send_event :: "change_event \<Rightarrow> ('z pg_scheme, mem_error, unit) act" where
  "send_event ev = (\<lambda>d. if pg_up d then (Inr (), d\<lparr>pg_queue := pg_queue d @ [ev]\<rparr>) else (Inl StreamerShutdown, d))"

text \<open>What the capture function writes for a change of a row.\<close>

definition capture :: "int \<Rightarrow> string \<Rightarrow> string \<Rightarrow> op \<Rightarrow> json \<Rightarrow> json \<Rightarrow> change_row" where
  "capture i sch t x old new =
     \<lparr>cr_id = i, cr_table = Some (sch @ ''.'' @ t), cr_op = Some (op_name x),
      cr_row = Some (case x of Delete \<Rightarrow> old | _ \<Rightarrow> new)\<rparr>"

section \<open>Names of tables\<close>

definition bare_name :: "string \<Rightarrow> string" where
  "bare_name s = (case rsplit_once CHR ''.'' s of None \<Rightarrow> s | Some (_, n) \<Rightarrow> n)"

definition trigger_name_for :: "string \<Rightarrow> string" where
  "trigger_name_for t = ''agentic_capture_'' @ bare_name t"

definition key_of :: "tracked_table list \<Rightarrow> (string \<times> string) list" where
  "key_of ts = bt_of_list (map (\<lambda>t. (tt_name t, tt_name t)) ts)"

definition bare_counts :: "tracked_table list \<Rightarrow> (string \<times> string list) list" where
  "bare_counts ts =
     foldl (\<lambda>m t. bt_insert (bare_name (tt_name t))
         ((case map_of m (bare_name (tt_name t)) of None \<Rightarrow> [] | Some xs \<Rightarrow> xs) @ [tt_name t]) m) [] ts"

definition bare_lookup :: "tracked_table list \<Rightarrow> (string \<times> string) list" where
  "bare_lookup ts =
     bt_of_list (concat (map (\<lambda>(b, os). case os of [x] \<Rightarrow> [(b, x)] | _ \<Rightarrow> []) (bare_counts ts)))"

definition resolve_table :: "tracked_table list \<Rightarrow> string \<Rightarrow> string option" where
  "resolve_table ts n =
     (case map_of (key_of ts) n of Some k \<Rightarrow> Some k | None \<Rightarrow> map_of (bare_lookup ts) (bare_name n))"

section \<open>Installing the triggers\<close>

datatype ddl = CreateLog | CreateCapture | DropTrigger string string | CreateTrigger string string

definition install_triggers :: "(ddl \<Rightarrow> ('d, mem_error, unit) act) \<Rightarrow> tracked_table list \<Rightarrow> ('d, mem_error, unit) act" where
  "install_triggers X ts =
     bindA (X CreateLog) (\<lambda>_.
     bindA (X CreateCapture) (\<lambda>_.
     bindA (mapA (\<lambda>t.
         bindA (lift_res (validate_identifier (tt_name t))) (\<lambda>_.
         bindA (X (DropTrigger (trigger_name_for (tt_name t)) (quote_qualified (tt_name t)))) (\<lambda>_.
         X (CreateTrigger (trigger_name_for (tt_name t)) (quote_qualified (tt_name t)))))) ts) (\<lambda>_.
     ret ())))"

section \<open>One batch\<close>

definition poll_batch_size :: nat where
  "poll_batch_size = 1000"

datatype drain_mode = Lenient | Strict

record drain_outcome =
  dn_processed :: nat
  dn_forwarded :: nat

definition parse_op :: "string \<Rightarrow> op option" where
  "parse_op s =
     (if s = ''insert'' then Some Insert else if s = ''update'' then Some Update
      else if s = ''delete'' then Some Delete else None)"

definition strict_check :: "tracked_table list \<Rightarrow> change_row \<Rightarrow> mem_error + unit" where
  "strict_check ts r =
     (case cr_table r of
        None \<Rightarrow> Inl (Backend ''drain (strict): table_name failed to decode'')
      | Some t \<Rightarrow>
     (case cr_op r of
        None \<Rightarrow> Inl (Backend ''drain (strict): op failed to decode'')
      | Some x \<Rightarrow>
          if cr_row r = None then Inl (Backend ''drain (strict): row JSONB failed to decode'')
          else if resolve_table ts t = None then Inl (Backend ''drain (strict): untracked table'')
          else if x \<notin> {''insert'', ''update'', ''delete''} then Inl (Backend ''drain (strict): unknown op'')
          else Inr ()))"

text \<open>The event of a row, or \<open>None\<close> where the loop skips it.\<close>

definition event_of :: "tracked_table list \<Rightarrow> string \<Rightarrow> change_row \<Rightarrow> change_event option" where
  "event_of ts sv r =
     Option.bind (cr_table r) (\<lambda>t.
     Option.bind (cr_op r) (\<lambda>s.
     Option.bind (cr_row r) (\<lambda>j.
     Option.bind (resolve_table ts t) (\<lambda>k.
     Option.bind (parse_op s) (\<lambda>x.
     Some \<lparr>ev_table = k, ev_row = j, ev_op = x, ev_schema = sv\<rparr>)))))"

fun forward_rows :: "tracked_table list \<Rightarrow> string \<Rightarrow> change_row list \<Rightarrow> int \<Rightarrow> nat \<Rightarrow> nat \<Rightarrow>
    ('z pg_scheme, mem_error, int \<times> nat \<times> nat) act" where
  "forward_rows ts sv [] m p f = ret (m, p, f)"
| "forward_rows ts sv (r # rs) m p f =
     (case event_of ts sv r of
        None \<Rightarrow> forward_rows ts sv rs (max m (cr_id r)) (Suc p) f
      | Some ev \<Rightarrow> bindA (send_event ev) (\<lambda>_. forward_rows ts sv rs (max m (cr_id r)) (Suc p) (Suc f)))"

definition drain_once :: "tracked_table list \<Rightarrow> drain_mode \<Rightarrow> ('z pg_scheme, mem_error, drain_outcome) act" where
  "drain_once ts mode =
     bindA (select_log poll_batch_size) (\<lambda>rows.
     if rows = [] then ret \<lparr>dn_processed = 0, dn_forwarded = 0\<rparr>
     else
       bindA (map_errA (\<lambda>_. MemOther ''drain: failed to fetch live schema_version'') schema_version) (\<lambda>sv.
       bindA (if mode = Strict then lift_res (try_map (strict_check ts) rows) else ret []) (\<lambda>_.
       bindA (forward_rows ts sv rows 0 0 0) (\<lambda>(m, p, f).
       bindA (delete_log m) (\<lambda>_.
       ret \<lparr>dn_processed = p, dn_forwarded = f\<rparr>)))))"

partial_function (option) drain_loop ::
    "tracked_table list \<Rightarrow> nat \<Rightarrow> 'z pg_scheme \<Rightarrow> ((mem_error + nat) \<times> 'z pg_scheme) option" where
  "drain_loop ts n d =
     (case drain_once ts Strict d of
        (Inl e, d') \<Rightarrow> Some (Inl e, d')
      | (Inr out, d') \<Rightarrow>
          if dn_processed out = 0 then Some (Inr n, d')
          else drain_loop ts (n + dn_forwarded out) d')"

definition drain_to_completion :: "tracked_table list \<Rightarrow> 'z pg_scheme \<Rightarrow> ((mem_error + nat) \<times> 'z pg_scheme) option" where
  "drain_to_completion ts = drain_loop ts 0"

section \<open>The poller\<close>

definition poller_escalate_after :: u32 where
  "poller_escalate_after = 50"

definition poller_error_heartbeat :: u32 where
  "poller_error_heartbeat = 50"

datatype poll_log = PollRecovered u32 | PollDrained nat nat nat | PollWarn u32 | PollError u32 | PollTerminated

definition saturating_inc :: "u32 \<Rightarrow> u32" where
  "saturating_inc c = (if c = - 1 then c else c + 1)"

text \<open>What a tick logs, and the counter it leaves; \<open>None\<close> ends the task.\<close>

definition poll_tick :: "mem_error + drain_outcome \<Rightarrow> u32 \<Rightarrow> poll_log list \<times> u32 option" where
  "poll_tick r c =
     (case r of
        Inr out \<Rightarrow>
          if dn_processed out = 0 then ([], Some c)
          else ((if 0 < c then [PollRecovered c] else []) @
                [PollDrained (dn_processed out) (dn_forwarded out) (dn_processed out - dn_forwarded out)], Some 0)
      | Inl StreamerShutdown \<Rightarrow> ([PollTerminated], None)
      | Inl e \<Rightarrow>
          let c' = saturating_inc c in
          (if c' < poller_escalate_after then [PollWarn c']
           else if c' = poller_escalate_after \<or> (c' - poller_escalate_after) mod poller_error_heartbeat = 0 then [PollError c']
           else [], Some c'))"

fun poll_ticks :: "(mem_error + drain_outcome) list \<Rightarrow> u32 \<Rightarrow> poll_log list \<times> u32 option" where
  "poll_ticks [] c = ([], Some c)"
| "poll_ticks (r # rs) c =
     (case poll_tick r c of
        (ls, None) \<Rightarrow> (ls, None)
      | (ls, Some c') \<Rightarrow> (case poll_ticks rs c' of (ls', q) \<Rightarrow> (ls @ ls', q)))"

text \<open>The task, with the lock a restore holds while it rewrites the tables. A step is labelled
  with the rows it commits to the log.\<close>

record poller =
  pl_paused :: bool
  pl_failures :: "u32 option"

inductive poller_step :: "tracked_table list \<Rightarrow> change_row list \<Rightarrow> poller \<times> 'z pg_scheme \<Rightarrow> poller \<times> 'z pg_scheme \<Rightarrow> bool"
  for ts where
  Tick: "\<not> pl_paused p \<Longrightarrow> pl_failures p = Some c \<Longrightarrow> drain_once ts Lenient d = (r, d') \<Longrightarrow> poll_tick r c = (ls, c') \<Longrightarrow>
    poller_step ts [] (p, d) (p\<lparr>pl_failures := c'\<rparr>, d')"
| Pause: "\<not> pl_paused p \<Longrightarrow> poller_step ts [] (p, d) (p\<lparr>pl_paused := True\<rparr>, d)"
| Resume: "pl_paused p \<Longrightarrow> poller_step ts [] (p, d) (p\<lparr>pl_paused := False\<rparr>, d)"
| Truncate: "pl_paused p \<Longrightarrow> poller_step ts [] (p, d) (p, d\<lparr>pg_log := []\<rparr>)"
| Client: "poller_step ts rs (p, d) (p, d\<lparr>pg_log := pg_log d @ rs\<rparr>)"

inductive poller_run :: "tracked_table list \<Rightarrow> change_row list \<Rightarrow> poller \<times> 'z pg_scheme \<Rightarrow> poller \<times> 'z pg_scheme \<Rightarrow> bool"
  for ts where
  Start: "poller_run ts [] s s"
| More: "poller_run ts as s t \<Longrightarrow> poller_step ts rs t u \<Longrightarrow> poller_run ts (as @ rs) s u"

section \<open>Resolution of names\<close>

lemma map_of_key_of: "map_of (key_of ts) n = (if n \<in> tt_name ` set ts then Some n else None)"
  unfolding key_of_def by (induction ts rule: rev_induct) auto

lemma map_of_bare_counts:
  "map_of (bare_counts ts) b =
     (case filter (\<lambda>n. bare_name n = b) (map tt_name ts) of [] \<Rightarrow> None | ns \<Rightarrow> Some ns)"
proof (induction ts rule: rev_induct)
  case (snoc t ts)
  then show ?case by (auto simp: bare_counts_def split: list.splits)
qed (simp add: bare_counts_def)

lemma bare_counts_ok: "bt_ok (bare_counts ts)"
proof (induction ts rule: rev_induct)
  case (snoc t ts)
  then show ?case by (simp add: bare_counts_def bt_insert_ok)
qed (simp add: bare_counts_def bt_ok_def)

lemma map_of_singles:
  "distinct (map fst m) \<Longrightarrow>
     map_of (concat (map (\<lambda>(b, os). case os of [x] \<Rightarrow> [(b, x)] | _ \<Rightarrow> []) m)) b = Some k \<longleftrightarrow> map_of m b = Some [k]"
  "distinct (map fst m) \<Longrightarrow> distinct (map fst (concat (map (\<lambda>(b, os). case os of [x] \<Rightarrow> [(b, x)] | _ \<Rightarrow> []) m)))"
proof (induction m)
  case (Cons p m)
  obtain b' os where p: "p = (b', os)" by (rule prod.exhaust)
  have n: "b' \<notin> fst ` set (concat (map (\<lambda>(b, os). case os of [x] \<Rightarrow> [(b, x)] | _ \<Rightarrow> []) m))" if "distinct (map fst (p # m))"
    using that p by (force split: list.splits)
  { case 1
    then have "map_of m b' = None" using p by (simp add: map_of_eq_None_iff)
    moreover have "map_of (concat (map (\<lambda>(b, os). case os of [x] \<Rightarrow> [(b, x)] | _ \<Rightarrow> []) m)) b' = None"
      using n [OF 1] by (simp add: map_of_eq_None_iff)
    ultimately show ?case using Cons(1) 1 p by (auto split: list.splits)
  next
    case 2
    then show ?case using Cons(2) n [OF 2] p by (auto split: list.splits)
  }
qed simp_all

lemma map_of_bare_lookup:
  "map_of (bare_lookup ts) b = Some k \<longleftrightarrow> filter (\<lambda>n. bare_name n = b) (map tt_name ts) = [k]"
proof -
  have d: "distinct (map fst (bare_counts ts))" by (rule bt_ok_distinct [OF bare_counts_ok])
  show ?thesis
    unfolding bare_lookup_def bt_of_list_map_of [OF map_of_singles(2) [OF d]] map_of_singles(1) [OF d] map_of_bare_counts
    by (auto split: list.splits)
qed

section \<open>Statements and batches\<close>

definition arrivals :: "env list \<Rightarrow> change_row list" where
  "arrivals es = concat (map (\<lambda>e. case e of Commits rs \<Rightarrow> rs | _ \<Rightarrow> []) es)"

lemma arrivals_simps [simp]:
  "arrivals [] = []" "arrivals (Quiet # es) = arrivals es" "arrivals (Fault x # es) = arrivals es"
  "arrivals (Commits rs # es) = rs @ arrivals es"
  by (simp_all add: arrivals_def)

text \<open>A statement runs after the arrivals of its turn, or fails.\<close>

lemma db_call_cases:
  obtains (run) as es where "db_call f d = f (d\<lparr>pg_env := es, pg_log := pg_log d @ as\<rparr>)" "arrivals (pg_env d) = as @ arrivals es"
  | (fault) x es where "db_call f d = (Inl (Sqlx x), d\<lparr>pg_env := es\<rparr>)" "arrivals (pg_env d) = arrivals es"
proof (cases "pg_env d")
  case Nil
  then have "d\<lparr>pg_env := [], pg_log := pg_log d @ []\<rparr> = d" by (intro pg.equality) simp_all
  then have "db_call f d = f (d\<lparr>pg_env := [], pg_log := pg_log d @ []\<rparr>)" using Nil by (simp only:) (simp add: db_call_def)
  with Nil show ?thesis by (intro run [of "[]" "[]"]) simp_all
next
  case (Cons e es)
  show ?thesis
  proof (cases e)
    case Quiet
    have "d\<lparr>pg_env := es, pg_log := pg_log d @ []\<rparr> = d\<lparr>pg_env := es\<rparr>" by simp
    with Cons Quiet show ?thesis by (intro run [of "[]" es]) (simp_all add: db_call_def)
  next
    case (Fault x)
    with Cons show ?thesis by (intro fault [of x es]) (simp_all add: db_call_def)
  next
    case (Commits rs)
    with Cons show ?thesis by (intro run [of rs es]) (simp_all add: db_call_def)
  qed
qed

lemma parse_op_iff: "parse_op s = None \<longleftrightarrow> s \<notin> {''insert'', ''update'', ''delete''}"
  by (auto simp: parse_op_def)

lemma strict_check_iff: "strict_check ts r = Inr () \<longleftrightarrow> event_of ts sv r \<noteq> None"
proof (cases "cr_table r")
  case t: (Some t)
  show ?thesis
  proof (cases "cr_op r")
    case x: (Some x)
    show ?thesis
      by (cases "cr_row r"; cases "resolve_table ts t"; cases "parse_op x")
        (use parse_op_iff [of x] in \<open>simp_all add: strict_check_def event_of_def t x\<close>)
  qed (simp add: strict_check_def event_of_def t)
qed (simp add: strict_check_def event_of_def)

definition events_of :: "tracked_table list \<Rightarrow> string \<Rightarrow> change_row list \<Rightarrow> change_event list" where
  "events_of ts sv rs = List.map_filter (event_of ts sv) rs"

lemma events_of_simps [simp]:
  "events_of ts sv [] = []"
  "events_of ts sv (r # rs) = (case event_of ts sv r of None \<Rightarrow> [] | Some ev \<Rightarrow> [ev]) @ events_of ts sv rs"
  "events_of ts sv (xs @ ys) = events_of ts sv xs @ events_of ts sv ys"
  by (auto simp: events_of_def List.map_filter_def split: option.splits)

text \<open>What the loop over a batch does: all of it when the streamer is up, else nothing before its first event.\<close>

lemma forward_up:
  "pg_up d \<Longrightarrow> forward_rows ts sv rs m p f d =
     (Inr (foldl max m (map cr_id rs), p + length rs, f + length (events_of ts sv rs)),
      d\<lparr>pg_queue := pg_queue d @ events_of ts sv rs\<rparr>)"
  by (induction rs arbitrary: d m p f) (auto simp: bindA_def send_event_def split: option.splits)

lemma forward_down:
  "\<not> pg_up d \<Longrightarrow> forward_rows ts sv rs m p f d =
     (if events_of ts sv rs = [] then (Inr (foldl max m (map cr_id rs), p + length rs, f), d) else (Inl StreamerShutdown, d))"
  by (induction rs arbitrary: m p f) (auto simp: bindA_def send_event_def split: option.splits)

lemma checks_iff: "(\<exists>us. try_map (strict_check ts) rs = Inr us) \<longleftrightarrow> (\<forall>z\<in>set rs. event_of ts sv z \<noteq> None)"
proof (induction rs)
  case (Cons r rs)
  have "(\<exists>us. try_map (strict_check ts) (r # rs) = Inr us) \<longleftrightarrow>
      strict_check ts r = Inr () \<and> (\<exists>us. try_map (strict_check ts) rs = Inr us)"
    by (auto simp: res_bind_Inr_iff)
  then show ?case using Cons strict_check_iff [of ts r sv] by simp
qed simp

text \<open>The greatest key of a batch.\<close>

lemma foldl_max_ge: "m \<le> foldl max m xs" for m :: "'a::linorder"
proof (induction xs arbitrary: m)
  case (Cons x xs)
  show ?case using order_trans [OF max.cobounded1 Cons [of "max m x"]] by simp
qed simp

lemma foldl_max: "x \<in> set xs \<Longrightarrow> x \<le> foldl max m xs" for x :: "'a::linorder"
proof (induction xs arbitrary: m)
  case (Cons y xs)
  then show ?case using order_trans [OF max.cobounded2 foldl_max_ge [of "max m y" xs]] by auto
qed simp

lemma foldl_max_in: "foldl max m xs = m \<or> foldl max m xs \<in> set xs" for m :: "'a::linorder"
proof (induction xs arbitrary: m)
  case (Cons x xs)
  have "max m x = m \<or> max m x = x" by (simp add: max_def)
  with Cons [of "max m x"] show ?case by auto
qed simp

lemma batch_below:
  assumes "sorted (map f l)" "distinct (map f l)" "k \<in> f ` set (take n l)" "\<forall>x\<in>set (take n l). f x \<le> k"
  shows "filter (\<lambda>x. f x \<le> k) l = take n l"
proof -
  obtain xs ys where l: "l = xs @ ys" "take n l = xs" using append_take_drop_id by metis
  then obtain x where x: "x \<in> set xs" "k = f x" using assms(3) by auto
  have "\<not> f y \<le> k" if y: "y \<in> set ys" for y
  proof
    assume "f y \<le> k"
    moreover have "f x \<le> f y" "f x \<noteq> f y" using assms(1, 2) x(1) y unfolding l(1) by (auto simp: sorted_append)
    ultimately show False using x(2) by simp
  qed
  then have "filter (\<lambda>x. f x \<le> k) ys = []" by (simp add: filter_empty_conv)
  moreover have "filter (\<lambda>x. f x \<le> k) xs = xs" using assms(4) l(2) by (simp add: filter_id_conv)
  ultimately show ?thesis using l(2) by (simp add: l(1))
qed

definition batch_of :: "change_row list \<Rightarrow> change_row list" where
  "batch_of l = take poll_batch_size (sort_key cr_id l)"

definition batch_max :: "change_row list \<Rightarrow> int" where
  "batch_max rows = foldl max 0 (map cr_id rows)"

lemma batch_nonempty: "batch_of l = [] \<longleftrightarrow> l = []"
proof -
  have "sort_key cr_id l = [] \<longleftrightarrow> l = []" by (metis set_empty set_sort)
  then show ?thesis by (simp add: batch_of_def poll_batch_size_def)
qed

text \<open>What one batch does: it stops before its first event, or with the events sent and the rows still in
  the log, or it deletes what it read and whatever else has come in below its greatest key.\<close>

definition settled :: "'z pg_scheme \<Rightarrow> 'z pg_scheme \<Rightarrow> change_row list \<Rightarrow> bool" where
  "settled d d' as \<longleftrightarrow>
     pg_migs d' = pg_migs d \<and> pg_up d' = pg_up d \<and> arrivals (pg_env d) = as @ arrivals (pg_env d')"

definition batch_idle :: "'z pg_scheme \<Rightarrow> 'z pg_scheme \<Rightarrow> mem_error + drain_outcome \<Rightarrow> change_row list \<Rightarrow> bool" where
  "batch_idle d d' r as \<longleftrightarrow>
     pg_queue d' = pg_queue d \<and> pg_log d' = pg_log d @ as \<and>
     (\<forall>out. r = Inr out \<longrightarrow> out = \<lparr>dn_processed = 0, dn_forwarded = 0\<rparr> \<and> pg_log d' = [])"

definition batch_sent :: "tracked_table list \<Rightarrow> 'z pg_scheme \<Rightarrow> 'z pg_scheme \<Rightarrow> change_row list \<Rightarrow> bool" where
  "batch_sent ts d d' rows \<longleftrightarrow> pg_queue d' = pg_queue d @ events_of ts (last_migration (pg_migs d)) rows"

definition batch_done :: "tracked_table list \<Rightarrow> drain_mode \<Rightarrow> 'z pg_scheme \<Rightarrow> 'z pg_scheme \<Rightarrow> mem_error + drain_outcome \<Rightarrow>
    change_row list \<Rightarrow> change_row list \<Rightarrow> change_row list \<Rightarrow> bool" where
  "batch_done ts mode d d' r as rows bs \<longleftrightarrow>
     rows = batch_of (pg_log d @ as) \<and> rows \<noteq> [] \<and>
     r = Inr \<lparr>dn_processed = length rows, dn_forwarded = length (events_of ts (last_migration (pg_migs d)) rows)\<rparr> \<and>
     pg_log d' = filter (\<lambda>x. \<not> cr_id x \<le> batch_max rows) (pg_log d @ as @ bs) \<and>
     (mode = Strict \<longrightarrow> (\<forall>x\<in>set rows. event_of ts (last_migration (pg_migs d)) x \<noteq> None))"

lemma forward_cases:
  obtains (sent) "forward_rows ts sv rs 0 0 0 d =
      (Inr (batch_max rs, length rs, length (events_of ts sv rs)), d\<lparr>pg_queue := pg_queue d @ events_of ts sv rs\<rparr>)"
  | (stuck) "forward_rows ts sv rs 0 0 0 d = (Inl StreamerShutdown, d)"
proof (cases "pg_up d")
  case True
  with forward_up [OF this, of ts sv rs 0 0 0] show ?thesis by (intro sent) (simp add: batch_max_def)
next
  case False
  show ?thesis
  proof (cases "events_of ts sv rs = []")
    case True
    then have "d\<lparr>pg_queue := pg_queue d @ events_of ts sv rs\<rparr> = d" by (intro pg.equality) simp_all
    with forward_down [OF False, of ts sv rs 0 0 0] True show ?thesis by (intro sent) (simp only:, simp add: batch_max_def)
  qed (use forward_down [OF False, of ts sv rs 0 0 0] stuck in simp)
qed

lemma drain_once_cases:
  fixes d :: "'z pg_scheme"
  assumes "drain_once ts mode d = (r, d')"
  obtains (idle) as where "settled d d' as" "batch_idle d d' r as"
  | (sent) as bs e where "settled d d' (as @ bs)" "r = Inl e" "pg_log d' = pg_log d @ as @ bs"
      "batch_sent ts d d' (batch_of (pg_log d @ as))"
  | (done_) as bs rows where "settled d d' (as @ bs)" "batch_sent ts d d' rows" "batch_done ts mode d d' r as rows bs"
proof -
  let ?sv = "last_migration (pg_migs d)"
  show ?thesis
  proof (cases rule: db_call_cases [of "\<lambda>d. (Inr (batch_of (pg_log d)), d)" d, case_names select fault])
    case (fault x es)
    then have "r = Inl (Sqlx x)" "d' = d\<lparr>pg_env := es\<rparr>"
      using assms by (simp_all add: drain_once_def select_log_def batch_of_def bindA_def)
    with fault show ?thesis by (intro idle [of "[]"]) (simp_all add: settled_def batch_idle_def)
  next
    case (select as es)
    let ?d1 = "d\<lparr>pg_env := es, pg_log := pg_log d @ as\<rparr>" and ?rows = "batch_of (pg_log d @ as)"
    have sel: "select_log poll_batch_size d = (Inr ?rows, ?d1)"
      using select(1) by (simp add: select_log_def batch_of_def)
    show ?thesis
    proof (cases "?rows = []")
      case True
      then have "r = Inr \<lparr>dn_processed = 0, dn_forwarded = 0\<rparr>" "d' = ?d1" using assms sel by (simp_all add: drain_once_def bindA_def)
      with True select(2) show ?thesis by (intro idle [of as]) (simp_all add: settled_def batch_idle_def batch_nonempty)
    next
      case rows: False
      show ?thesis
      proof (cases rule: db_call_cases [of "\<lambda>d. (Inr (last_migration (pg_migs d)), d)" ?d1, case_names ver fault])
        case (fault x es')
        then have "\<exists>e. r = Inl e" "d' = ?d1\<lparr>pg_env := es'\<rparr>"
          using assms sel rows by (auto simp: drain_once_def bindA_def map_errA_def schema_version_def)
        with fault select(2) show ?thesis by (intro idle [of as]) (auto simp: settled_def batch_idle_def)
      next
        case (ver bs fs)
        let ?d2 = "?d1\<lparr>pg_env := fs, pg_log := pg_log ?d1 @ bs\<rparr>"
        have sv: "map_errA (\<lambda>_. MemOther ''drain: failed to fetch live schema_version'') schema_version ?d1 = (Inr ?sv, ?d2)"
          using ver(1) by (simp add: schema_version_def map_errA_def)
        have settled2: "settled d ?d2 (as @ bs)" using select(2) ver(2) by (simp add: settled_def)
        define checks where "checks = (if mode = Strict then try_map (strict_check ts) ?rows else Inr [])"
        have body: "drain_once ts mode d =
            bindA (lift_res checks) (\<lambda>_. bindA (forward_rows ts ?sv ?rows 0 0 0) (\<lambda>(m, p, f).
              bindA (delete_log m) (\<lambda>_. ret \<lparr>dn_processed = p, dn_forwarded = f\<rparr>))) ?d2"
          unfolding drain_once_def
          by (subst bindA_Inr, rule sel, subst if_not_P, rule rows, subst bindA_Inr, rule sv) (simp add: checks_def)
        show ?thesis
        proof (cases checks)
          case (Inl e)
          then have "r = Inl e" "d' = ?d2" using assms body by simp_all
          with settled2 show ?thesis by (intro idle [of "as @ bs"]) (simp_all add: batch_idle_def)
        next
          case checked: (Inr us)
          then have strict: "mode = Strict \<longrightarrow> (\<forall>x\<in>set ?rows. event_of ts ?sv x \<noteq> None)"
            using checks_iff [of ts ?rows ?sv] by (auto simp: checks_def)
          show ?thesis
          proof (cases rule: forward_cases [of ts ?sv ?rows ?d2, case_names fwd stuck])
            case stuck
            then have "r = Inl StreamerShutdown" "d' = ?d2" using assms body checked by simp_all
            with settled2 show ?thesis by (intro idle [of "as @ bs"]) (simp_all add: batch_idle_def)
          next
            case fwd
            let ?d3 = "?d2\<lparr>pg_queue := pg_queue ?d2 @ events_of ts ?sv ?rows\<rparr>"
            have del: "drain_once ts mode d = bindA (delete_log (batch_max ?rows))
                (\<lambda>_. ret \<lparr>dn_processed = length ?rows, dn_forwarded = length (events_of ts ?sv ?rows)\<rparr>) ?d3"
              using body checked fwd by (simp add: bindA_def)
            show ?thesis
            proof (cases rule: db_call_cases [of "\<lambda>d. (Inr (), d\<lparr>pg_log := filter (\<lambda>r. \<not> cr_id r \<le> batch_max ?rows) (pg_log d)\<rparr>)" ?d3,
                  case_names run fault])
              case (fault x es')
              then have "r = Inl (Sqlx x)" "d' = ?d3\<lparr>pg_env := es'\<rparr>"
                using assms del by (simp_all add: delete_log_def bindA_def)
              with fault settled2 show ?thesis by (intro sent [of as bs]) (simp_all add: settled_def batch_sent_def)
            next
              case (run cs gs)
              then have "r = Inr \<lparr>dn_processed = length ?rows, dn_forwarded = length (events_of ts ?sv ?rows)\<rparr>"
                "d' = ?d3\<lparr>pg_env := gs, pg_log := filter (\<lambda>r. \<not> cr_id r \<le> batch_max ?rows) (pg_log ?d3 @ cs)\<rparr>"
                using assms del by (simp_all add: delete_log_def bindA_def)
              with run(2) settled2 rows strict show ?thesis
                by (intro done_ [of as "bs @ cs" ?rows]) (simp_all add: settled_def batch_sent_def batch_done_def)
            qed
          qed
        qed
      qed
    qed
  qed
qed

section \<open>The fence\<close>

definition ids_ok :: "change_row list \<Rightarrow> bool" where
  "ids_ok l \<longleftrightarrow> distinct (map cr_id l) \<and> (\<forall>r\<in>set l. 1 \<le> cr_id r)"

lemma batch_set: "set (batch_of l) \<subseteq> set l"
  using set_take_subset [of poll_batch_size "sort_key cr_id l"] by (simp add: batch_of_def)

lemma batch_max_ge: "x \<in> set rows \<Longrightarrow> cr_id x \<le> batch_max rows"
  unfolding batch_max_def by (rule foldl_max) simp

lemma batch_max_in: "rows \<noteq> [] \<Longrightarrow> \<forall>r\<in>set rows. 1 \<le> cr_id r \<Longrightarrow> batch_max rows \<in> cr_id ` set rows"
proof -
  assume r: "rows \<noteq> []" "\<forall>r\<in>set rows. 1 \<le> cr_id r"
  then have "1 \<le> cr_id (hd rows)" by simp
  then have "batch_max rows \<noteq> 0" using batch_max_ge [OF hd_in_set [OF r(1)]] by linarith
  then show ?thesis using foldl_max_in [of 0 "map cr_id rows"] by (simp add: batch_max_def)
qed

lemma pair_up: "a = r + n \<Longrightarrow> b = p + m \<Longrightarrow> a + b = r + p + (n + m)" for a :: "'a multiset"
  by (simp add: ac_simps)

lemma pair_chain:
  fixes a :: "'a multiset"
  assumes "a = r + p + d" "d + b = r' + l + e"
  shows "a + b = (r + r') + (p + l) + e"
proof -
  have "a + b = (r + p) + (d + b)" using assms(1) by (simp add: add.assoc)
  then show ?thesis using assms(2) by (simp add: ac_simps)
qed

lemma batch_split:
  assumes "ids_ok (l @ bs)" "rows = batch_of l" "rows \<noteq> []"
  shows "mset (l @ bs) = mset rows + mset (filter (\<lambda>x. cr_id x \<le> batch_max rows) bs) +
      mset (filter (\<lambda>x. \<not> cr_id x \<le> batch_max rows) (l @ bs))"
proof -
  have ids: "distinct (map cr_id l)" "\<forall>r\<in>set rows. 1 \<le> cr_id r"
    using assms(1, 2) batch_set [of l] by (auto simp: ids_ok_def)
  have "distinct (map cr_id (sort_key cr_id l))" using ids(1) by (simp add: distinct_map)
  with batch_below [of cr_id "sort_key cr_id l" "batch_max rows" poll_batch_size] batch_max_in [OF assms(3) ids(2)] batch_max_ge
  have "filter (\<lambda>x. cr_id x \<le> batch_max rows) (sort_key cr_id l) = rows"
    using assms(2) by (auto simp: batch_of_def)
  then have "mset (filter (\<lambda>x. cr_id x \<le> batch_max rows) (sort_key cr_id l)) = mset rows" by simp
  then have "filter_mset (\<lambda>x. cr_id x \<le> batch_max rows) (mset l) = mset rows" by simp
  then have "mset l = mset rows + mset (filter (\<lambda>x. \<not> cr_id x \<le> batch_max rows) l)"
    using multiset_partition [of "mset l" "\<lambda>x. cr_id x \<le> batch_max rows"] by simp
  moreover have "mset bs = mset (filter (\<lambda>x. cr_id x \<le> batch_max rows) bs) + mset (filter (\<lambda>x. \<not> cr_id x \<le> batch_max rows) bs)"
    using multiset_partition [of "mset bs" "\<lambda>x. cr_id x \<le> batch_max rows"] by simp
  ultimately show ?thesis unfolding mset_append filter_append by (rule pair_up)
qed

text \<open>Every batch that goes on takes rows out of the log for good.\<close>

definition waiting :: "'z pg_scheme \<Rightarrow> nat" where
  "waiting d = length (pg_log d) + length (arrivals (pg_env d))"

lemma batch_done_less:
  assumes "settled d d' (as @ bs)" "batch_done ts mode d d' r as rows bs"
  shows "waiting d' < waiting d"
proof -
  obtain x where x: "x \<in> set rows" using assms(2) by (cases rows) (auto simp: batch_done_def)
  then have "x \<in> set (pg_log d @ as @ bs)" "cr_id x \<le> batch_max rows"
    using assms(2) batch_set [of "pg_log d @ as"] batch_max_ge by (auto simp: batch_done_def)
  then have "length (filter (\<lambda>x. \<not> cr_id x \<le> batch_max rows) (pg_log d @ as @ bs)) < length (pg_log d @ as @ bs)"
    by (intro length_filter_less [of x]) simp_all
  with assms show ?thesis by (simp add: waiting_def settled_def batch_done_def)
qed

lemma drain_loop_ends: "\<exists>r d'. drain_loop ts n d = Some (r, d')"
proof (induction "waiting d" arbitrary: d n rule: less_induct)
  case less
  obtain r d1 where d1: "drain_once ts Strict d = (r, d1)" by (rule prod.exhaust)
  show ?case
  proof (cases r)
    case (Inl e)
    with d1 show ?thesis by (subst drain_loop.simps) simp
  next
    case (Inr out)
    show ?thesis
    proof (cases "dn_processed out = 0")
      case True
      with d1 Inr show ?thesis by (subst drain_loop.simps) simp
    next
      case False
      from d1 have "waiting d1 < waiting d"
        by (cases rule: drain_once_cases) (use Inr False batch_done_less in \<open>auto simp: batch_idle_def\<close>)
      from less [OF this] d1 Inr False show ?thesis by (subst drain_loop.simps) simp
    qed
  qed
qed

definition fenced :: "tracked_table list \<Rightarrow> nat \<Rightarrow> 'z pg_scheme \<Rightarrow> mem_error + nat \<Rightarrow> 'z pg_scheme \<Rightarrow>
    change_row list \<Rightarrow> change_row list \<Rightarrow> change_row list \<Rightarrow> change_row list \<Rightarrow> bool" where
  "fenced ts n d r d' as rows lost again \<longleftrightarrow>
     settled d d' as \<and> mset (pg_log d @ as) = mset rows + mset lost + mset (pg_log d') \<and>
     pg_queue d' = pg_queue d @ events_of ts (last_migration (pg_migs d)) (rows @ again) \<and>
     (\<forall>x\<in>set rows. event_of ts (last_migration (pg_migs d)) x \<noteq> None) \<and>
     (\<forall>x\<in>set lost. x \<in> set as \<and> (\<exists>y\<in>set rows. cr_id x < cr_id y)) \<and> set again \<subseteq> set (pg_log d') \<and>
     (\<forall>m. r = Inr m \<longrightarrow> m = n + length rows \<and> pg_log d' = [])"

lemma events_of_all: "\<forall>x\<in>set rows. event_of ts sv x \<noteq> None \<Longrightarrow> length (events_of ts sv rows) = length rows"
  by (induction rows) auto

lemma fenced_step:
  assumes step: "settled d d1 (as @ bs)" "batch_sent ts d d1 rows" "batch_done ts Strict d d1 (Inr out) as rows bs"
    and ids: "ids_ok (pg_log d @ arrivals (pg_env d))"
    and rest: "fenced ts (n + dn_forwarded out) d1 r d' as' rows' lost' again'"
  shows "fenced ts n d r d' (as @ bs @ as') (rows @ rows')
    (filter (\<lambda>x. cr_id x \<le> batch_max rows) bs @ lost') again'"
proof -
  let ?P = "\<lambda>x. cr_id x \<le> batch_max rows"
  have done_: "rows = batch_of (pg_log d @ as)" "rows \<noteq> []" "pg_log d1 = filter (\<lambda>x. \<not> ?P x) (pg_log d @ as @ bs)"
    "\<forall>x\<in>set rows. event_of ts (last_migration (pg_migs d)) x \<noteq> None"
    "dn_forwarded out = length (events_of ts (last_migration (pg_migs d)) rows)"
    using step(3) by (auto simp: batch_done_def)
  have ids2: "ids_ok ((pg_log d @ as) @ bs)" using ids step(1) by (auto simp: ids_ok_def settled_def)
  have ge: "\<forall>r\<in>set rows. 1 \<le> cr_id r" "set rows \<subseteq> set (pg_log d @ as)"
    using ids2 done_(1) batch_set [of "pg_log d @ as"] by (auto simp: ids_ok_def)
  have late: "x \<in> set bs \<and> (\<exists>y\<in>set rows. cr_id x < cr_id y)" if x: "x \<in> set (filter ?P bs)" for x
  proof -
    obtain y where y: "y \<in> set rows" "batch_max rows = cr_id y" using batch_max_in [OF done_(2) ge(1)] by blast
    have "cr_id y \<in> cr_id ` set (pg_log d @ as)" using ge(2) y(1) by blast
    moreover have "cr_id x \<in> cr_id ` set bs" using x by auto
    moreover have "cr_id ` set (pg_log d @ as) \<inter> cr_id ` set bs = {}"
      using ids2 unfolding ids_ok_def map_append [of cr_id "pg_log d @ as"] distinct_append set_map by blast
    ultimately have "cr_id x \<noteq> cr_id y" by auto
    moreover have "x \<in> set bs" "cr_id x \<le> cr_id y" using x y(2) by simp_all
    ultimately show ?thesis using y(1) by (intro conjI bexI [of _ y]) simp_all
  qed
  have m: "mset (pg_log d @ as @ bs) = mset rows + mset (filter ?P bs) + mset (pg_log d1)"
    using batch_split [OF ids2 done_(1, 2)] done_(3) by simp
  have r: "settled d1 d' as'" "mset (pg_log d1 @ as') = mset rows' + mset lost' + mset (pg_log d')"
    "pg_queue d' = pg_queue d1 @ events_of ts (last_migration (pg_migs d)) (rows' @ again')"
    "\<forall>x\<in>set rows'. event_of ts (last_migration (pg_migs d)) x \<noteq> None"
    "\<forall>x\<in>set lost'. x \<in> set as' \<and> (\<exists>y\<in>set rows'. cr_id x < cr_id y)" "set again' \<subseteq> set (pg_log d')"
    "\<forall>m. r = Inr m \<longrightarrow> m = n + dn_forwarded out + length rows' \<and> pg_log d' = []"
    using rest step(1) by (simp_all add: fenced_def settled_def)
  show ?thesis
    unfolding fenced_def
  proof (intro conjI)
    show "settled d d' (as @ bs @ as')" using step(1) r(1) by (simp add: settled_def)
    show "mset (pg_log d @ as @ bs @ as') = mset (rows @ rows') + mset (filter ?P bs @ lost') + mset (pg_log d')"
      using pair_chain [OF m r(2) [unfolded mset_append]] by (simp add: add.assoc)
    show "pg_queue d' = pg_queue d @ events_of ts (last_migration (pg_migs d)) ((rows @ rows') @ again')"
      using step(2) r(3) by (simp add: batch_sent_def)
    show "\<forall>x\<in>set (rows @ rows'). event_of ts (last_migration (pg_migs d)) x \<noteq> None" using done_(4) r(4) by auto
    show "\<forall>x\<in>set (filter ?P bs @ lost'). x \<in> set (as @ bs @ as') \<and> (\<exists>y\<in>set (rows @ rows'). cr_id x < cr_id y)"
      using late r(5) by fastforce
    show "set again' \<subseteq> set (pg_log d')" by (rule r(6))
    show "\<forall>m. r = Inr m \<longrightarrow> m = n + length (rows @ rows') \<and> pg_log d' = []"
      using r(7) done_(5) events_of_all [OF done_(4)] by (simp add: add.assoc)
  qed
qed

lemma drain_loop_fenced:
  "ids_ok (pg_log d @ arrivals (pg_env d)) \<Longrightarrow>
     \<exists>r d' as rows lost again. drain_loop ts n d = Some (r, d') \<and> fenced ts n d r d' as rows lost again"
proof (induction "waiting d" arbitrary: d n rule: less_induct)
  case less
  obtain q d1 where d1: "drain_once ts Strict d = (q, d1)" by (rule prod.exhaust)
  from d1 show ?case
  proof (cases rule: drain_once_cases)
    case (idle as)
    let ?r = "case q of Inl e \<Rightarrow> Inl e | Inr _ \<Rightarrow> Inr n"
    have "drain_loop ts n d = Some (?r, d1)"
      by (subst drain_loop.simps) (use d1 idle(2) in \<open>auto simp: batch_idle_def split: sum.splits\<close>)
    moreover have "fenced ts n d ?r d1 as [] [] []"
      using idle by (auto simp: fenced_def batch_idle_def split: sum.splits)
    ultimately show ?thesis by blast
  next
    case (sent as bs e)
    have "drain_loop ts n d = Some (Inl e, d1)" using d1 sent(2) by (subst drain_loop.simps) simp
    moreover have "fenced ts n d (Inl e :: mem_error + nat) d1 (as @ bs) [] [] (batch_of (pg_log d @ as))"
      using sent(1, 3, 4) batch_set [of "pg_log d @ as"] by (auto simp: fenced_def batch_sent_def)
    ultimately show ?thesis by blast
  next
    case (done_ as bs rows)
    then obtain out where out: "q = Inr out" "dn_processed out \<noteq> 0" by (auto simp: batch_done_def)
    have "set (pg_log d1) \<subseteq> set (pg_log d @ as @ bs)" "distinct (map cr_id (pg_log d @ as @ bs @ arrivals (pg_env d1)))"
      "\<forall>r\<in>set (pg_log d @ as @ bs @ arrivals (pg_env d1)). 1 \<le> cr_id r"
      using done_ less.prems by (auto simp: batch_done_def settled_def ids_ok_def)
    moreover have "pg_log d1 = filter (\<lambda>x. \<not> cr_id x \<le> batch_max rows) (pg_log d @ as @ bs)"
      using done_(3) by (simp add: batch_done_def)
    ultimately have "ids_ok (pg_log d1 @ arrivals (pg_env d1))"
      by (auto simp: ids_ok_def distinct_map_filter)
    from less.hyps [OF batch_done_less [OF done_(1, 3)] this, of "n + dn_forwarded out"] obtain r d' as' rows' lost' again' where
      rec: "drain_loop ts (n + dn_forwarded out) d1 = Some (r, d')"
      "fenced ts (n + dn_forwarded out) d1 r d' as' rows' lost' again'" by blast
    have "drain_loop ts n d = Some (r, d')" using d1 out rec(1) by (subst drain_loop.simps) simp
    with fenced_step [OF done_(1, 2) done_(3) [unfolded out(1)] less.prems rec(2)] show ?thesis by blast
  qed
qed

section \<open>The poller\<close>

lemma drain_quiet:
  assumes "drain_once ts mode d = (r, d')" "arrivals (pg_env d) = []"
  shows "arrivals (pg_env d') = [] \<and> pg_migs d' = pg_migs d \<and> set (pg_log d') \<subseteq> set (pg_log d) \<and>
    (\<exists>new. pg_queue d' = pg_queue d @ events_of ts (last_migration (pg_migs d)) new \<and> set new \<subseteq> set (pg_log d))"
  using assms(1)
proof (cases rule: drain_once_cases)
  case (idle as)
  with assms(2) show ?thesis by (auto simp: settled_def batch_idle_def intro!: exI [of _ "[]"])
next
  case (sent as bs e)
  with assms(2) batch_set [of "pg_log d"] show ?thesis
    by (auto simp: settled_def batch_sent_def intro!: exI [of _ "batch_of (pg_log d)"])
next
  case (done_ as bs rows)
  with assms(2) batch_set [of "pg_log d"] show ?thesis
    by (auto simp: settled_def batch_sent_def batch_done_def intro!: exI [of _ "batch_of (pg_log d)"])
qed

definition isolated :: "tracked_table list \<Rightarrow> 'z pg_scheme \<Rightarrow> change_row list \<Rightarrow> 'z pg_scheme \<Rightarrow> bool" where
  "isolated ts d as d' \<longleftrightarrow>
     arrivals (pg_env d') = [] \<and> pg_migs d' = pg_migs d \<and> set (pg_log d') \<subseteq> set as \<and>
     (\<exists>new. pg_queue d' = pg_queue d @ events_of ts (last_migration (pg_migs d)) new \<and> set new \<subseteq> set as)"

lemma isolated_step:
  assumes "poller_step ts rs t u" "isolated ts d as (snd t)"
  shows "isolated ts d (as @ rs) (snd u)"
  using assms
proof cases
  case (Tick p c e r e' ls c')
  obtain new where new: "pg_queue e = pg_queue d @ events_of ts (last_migration (pg_migs d)) new" "set new \<subseteq> set as"
    using assms(2) Tick(2) by (auto simp: isolated_def)
  obtain new' where new': "pg_queue e' = pg_queue e @ events_of ts (last_migration (pg_migs e)) new'" "set new' \<subseteq> set (pg_log e)"
    using drain_quiet [OF Tick(6)] assms(2) Tick(2) by (auto simp: isolated_def)
  have "pg_queue e' = pg_queue d @ events_of ts (last_migration (pg_migs d)) (new @ new') \<and> set (new @ new') \<subseteq> set (as @ rs)"
    using new new' assms(2) Tick(2) by (auto simp: isolated_def)
  then have "\<exists>new. pg_queue e' = pg_queue d @ events_of ts (last_migration (pg_migs d)) new \<and> set new \<subseteq> set (as @ rs)" by blast
  moreover have "arrivals (pg_env e') = []" "pg_migs e' = pg_migs d" "set (pg_log e') \<subseteq> set (as @ rs)"
    using drain_quiet [OF Tick(6)] assms(2) Tick(2) by (auto simp: isolated_def)
  ultimately show ?thesis unfolding isolated_def Tick(3) snd_conv by blast
qed (auto simp: isolated_def)

lemma isolated_run: "poller_run ts as s t \<Longrightarrow> pg_log (snd s) = [] \<Longrightarrow> arrivals (pg_env (snd s)) = [] \<Longrightarrow> isolated ts (snd s) as (snd t)"
proof (induction rule: poller_run.induct)
  case (Start s)
  then show ?case by (auto simp: isolated_def intro!: exI [of _ "[]"])
next
  case (More as s t rs u)
  then show ?case using isolated_step by blast
qed

section \<open>Properties\<close>

text \<open>
  C16. A drain to completion always comes back, whatever the log holds and whatever the other sessions
  commit and however the connection fails meanwhile: every batch that makes it go on has taken at
  least one row out of the log for good.\<close>

theorem drain_terminates: "\<exists>r d'. drain_to_completion ts d = Some (r, d')"
  unfolding drain_to_completion_def by (rule drain_loop_ends)

text \<open>
  C15. The fence of a snapshot. When the keys of the log are a sequence, a drain to completion accounts
  for every row that was in the log or came in: the streamer is sent the events of exactly the rows
  taken out, each of which was valid, except those that came in below a key already read, which are lost;
  success means the log is empty and counts the rows sent, and after a failure the rows not
  accounted for are still in the log, some of whose events may have been sent.\<close>

theorem drain_accounts_for_every_row:
  assumes "ids_ok (pg_log d @ arrivals (pg_env d))" "drain_to_completion ts d = Some (r, d')"
  shows "\<exists>as rows lost again.
     arrivals (pg_env d) = as @ arrivals (pg_env d') \<and>
     mset (pg_log d @ as) = mset rows + mset lost + mset (pg_log d') \<and>
     pg_queue d' = pg_queue d @ events_of ts (last_migration (pg_migs d)) (rows @ again) \<and>
     (\<forall>x\<in>set rows. event_of ts (last_migration (pg_migs d)) x \<noteq> None) \<and>
     (\<forall>x\<in>set lost. x \<in> set as \<and> (\<exists>y\<in>set rows. cr_id x < cr_id y)) \<and> set again \<subseteq> set (pg_log d') \<and>
     (\<forall>m. r = Inr m \<longrightarrow> m = length rows \<and> pg_log d' = [])"
proof -
  obtain as rows lost again where "fenced ts 0 d r d' as rows lost again"
    using drain_loop_fenced [OF assms(1), of ts 0] assms(2) by (auto simp: drain_to_completion_def)
  then show ?thesis by (auto simp: fenced_def settled_def)
qed

text \<open>A log of the witnesses: one change of the table \<open>t\<close>.\<close>

definition logged_change :: "int \<Rightarrow> change_row" where
  "logged_change i = capture i ''public'' ''t'' Insert JNull (JObj (sample_row 7 1))"

definition sample_pg :: "env list \<Rightarrow> change_row list \<Rightarrow> pg" where
  "sample_pg es l = \<lparr>pg_env = es, pg_log = l, pg_migs = [], pg_queue = [], pg_up = True\<rparr>"

lemma sample_resolve: "resolve_table [sample_table] ''public.t'' = Some ''t''"
  by (simp add: resolve_table_def map_of_key_of map_of_bare_lookup sample_table_def bare_name_def rsplit_once_def)

lemma sample_change_event:
  "event_of [sample_table] sv (logged_change i) =
     Some \<lparr>ev_table = ''t'', ev_row = JObj (sample_row 7 1), ev_op = Insert, ev_schema = sv\<rparr>"
  by (simp add: event_of_def logged_change_def capture_def sample_resolve parse_op_def)

theorem drain_accounts_for_every_row_witness:
  "\<exists>r d' as rows lost.
     drain_to_completion [sample_table] (sample_pg [Quiet, Commits [logged_change 2]] [logged_change 1]) = Some (r, d') \<and>
     mset ([logged_change 1] @ as) = mset rows + mset lost + mset (pg_log d')"
proof -
  let ?d = "sample_pg [Quiet, Commits [logged_change 2]] [logged_change 1]"
  obtain r d' where d': "drain_to_completion [sample_table] ?d = Some (r, d')"
    unfolding drain_to_completion_def using drain_loop_ends by blast
  moreover have "ids_ok (pg_log ?d @ arrivals (pg_env ?d))"
    by (simp add: ids_ok_def sample_pg_def logged_change_def capture_def)
  from drain_accounts_for_every_row [OF this d'] obtain as rows lost where
    "mset (pg_log ?d @ as) = mset rows + mset lost + mset (pg_log d')" by blast
  moreover have "pg_log ?d = [logged_change 1]" by (simp add: sample_pg_def)
  ultimately show ?thesis by metis
qed

text \<open>
  C20. A change can be lost between the streamer and the log. The keys of the log are drawn when a row is
  written, not when its transaction commits; so a transaction with a smaller key than one already
  read, which commits after the batch was read and before it is deleted, is deleted with it: the
  batch succeeds, the log is empty, and no event of that row was sent.\<close>

theorem late_commit_lost:
  assumes "pg_env d = [Quiet, Quiet, Commits [x]]" "pg_up d" "ids_ok (pg_log d @ [x])"
    "length (pg_log d) \<le> poll_batch_size" "y \<in> set (pg_log d)" "cr_id x < cr_id y"
    "\<forall>z\<in>set (pg_log d). event_of ts (last_migration (pg_migs d)) z \<noteq> None"
  shows "\<exists>d'. drain_once ts mode d =
      (Inr \<lparr>dn_processed = length (pg_log d), dn_forwarded = length (pg_log d)\<rparr>, d') \<and>
    pg_log d' = [] \<and> x \<notin> set (pg_log d) \<and>
    pg_queue d' = pg_queue d @ events_of ts (last_migration (pg_migs d)) (sort_key cr_id (pg_log d))"
proof -
  let ?rows = "batch_of (pg_log d)" and ?sv = "last_migration (pg_migs d)"
  have rows: "?rows = sort_key cr_id (pg_log d)" "?rows \<noteq> []" "length ?rows = length (pg_log d)"
    using assms(4, 5) by (simp_all only: batch_nonempty) (auto simp: batch_of_def)
  have all: "\<forall>z\<in>set ?rows. event_of ts ?sv z \<noteq> None" using assms(7) rows(1) by simp
  obtain us where us: "try_map (strict_check ts) ?rows = Inr us" using all checks_iff [of ts ?rows ?sv] by blast
  have max: "cr_id z \<le> batch_max ?rows" if "z \<in> set (pg_log d @ [x])" for z
    using that assms(5, 6) batch_max_ge [of z ?rows] batch_max_ge [of y ?rows] rows(1) by fastforce
  let ?d' = "d\<lparr>pg_env := [], pg_log := filter (\<lambda>r. \<not> cr_id r \<le> batch_max ?rows) (pg_log d @ [x]),
     pg_queue := pg_queue d @ events_of ts ?sv ?rows\<rparr>"
  have sel: "select_log poll_batch_size d = (Inr ?rows, d\<lparr>pg_env := [Quiet, Commits [x]]\<rparr>)"
    using assms(1) by (simp add: select_log_def db_call_def batch_of_def)
  have "drain_once ts mode d = (Inr \<lparr>dn_processed = length ?rows, dn_forwarded = length (events_of ts ?sv ?rows)\<rparr>, ?d')"
    using rows(2) us assms(2)
    by (simp add: drain_once_def sel bindA_def map_errA_def schema_version_def db_call_def forward_up delete_log_def batch_max_def)
  moreover have "filter (\<lambda>r. \<not> cr_id r \<le> batch_max ?rows) (pg_log d @ [x]) = []" using max by (auto simp: filter_empty_conv)
  moreover have "x \<notin> set (pg_log d)" using assms(3) by (auto simp: ids_ok_def)
  ultimately show ?thesis using rows(1, 3) events_of_all [OF all] by (intro exI [of _ ?d']) simp
qed

theorem late_commit_lost_witness:
  "\<exists>d'. drain_once [sample_table] Strict (sample_pg [Quiet, Quiet, Commits [logged_change 1]] [logged_change 2]) =
      (Inr \<lparr>dn_processed = 1, dn_forwarded = 1\<rparr>, d') \<and> pg_log d' = []"
proof -
  let ?d = "sample_pg [Quiet, Quiet, Commits [logged_change 1]] [logged_change 2]"
  have "ids_ok (pg_log ?d @ [logged_change 1])" "cr_id (logged_change 1) < cr_id (logged_change 2)"
    by (simp_all add: ids_ok_def sample_pg_def logged_change_def capture_def)
  moreover have "length (pg_log ?d) \<le> poll_batch_size" "logged_change 2 \<in> set (pg_log ?d)"
    by (simp_all add: sample_pg_def poll_batch_size_def)
  moreover have "\<forall>z\<in>set (pg_log ?d). event_of [sample_table] (last_migration (pg_migs ?d)) z \<noteq> None"
    by (simp add: sample_pg_def sample_change_event)
  ultimately show ?thesis
    using late_commit_lost [of ?d "logged_change 1" "logged_change 2" "[sample_table]" Strict] by (auto simp: sample_pg_def)
qed

text \<open>
  The two modes of a drain, on a database that answers and a streamer that is up. The lenient drain of
  the poller takes out a whole batch, sending the events of the rows it understands and skipping the
  others; the strict drain of the fence does the same when every row of the batch is understood, and
  otherwise fails without sending or deleting anything.\<close>

theorem drain_modes:
  assumes "pg_env d = []" "pg_up d" "pg_log d \<noteq> []"
  shows "let rows = batch_of (pg_log d); evs = events_of ts (last_migration (pg_migs d)) rows;
      taken = (Inr \<lparr>dn_processed = length rows, dn_forwarded = length evs\<rparr>,
        d\<lparr>pg_queue := pg_queue d @ evs, pg_log := filter (\<lambda>r. \<not> cr_id r \<le> batch_max rows) (pg_log d)\<rparr>) in
    drain_once ts Lenient d = taken \<and>
    (if \<forall>r\<in>set rows. event_of ts (last_migration (pg_migs d)) r \<noteq> None then drain_once ts Strict d = taken
     else \<exists>e. drain_once ts Strict d = (Inl e, d))"
proof -
  let ?rows = "batch_of (pg_log d)" and ?sv = "last_migration (pg_migs d)"
  have rows: "?rows \<noteq> []" using assms(3) by (simp add: batch_nonempty)
  have sel: "select_log poll_batch_size d = (Inr ?rows, d)"
    using assms(1) by (simp add: select_log_def db_call_def batch_of_def)
  have run: "drain_once ts mode d =
      (case (if mode = Strict then try_map (strict_check ts) ?rows else Inr []) of
         Inl e \<Rightarrow> (Inl e, d)
       | Inr _ \<Rightarrow> (Inr \<lparr>dn_processed = length ?rows, dn_forwarded = length (events_of ts ?sv ?rows)\<rparr>,
           d\<lparr>pg_queue := pg_queue d @ events_of ts ?sv ?rows, pg_log := filter (\<lambda>r. \<not> cr_id r \<le> batch_max ?rows) (pg_log d)\<rparr>))" for mode
    using rows assms(1, 2)
    by (simp add: drain_once_def sel bindA_def map_errA_def schema_version_def db_call_def forward_up delete_log_def batch_max_def
        split: sum.splits)
  show ?thesis
  proof (cases "try_map (strict_check ts) ?rows")
    case (Inl e)
    then show ?thesis using run [of Strict] run [of Lenient] checks_iff [of ts ?rows ?sv] by (auto simp: Let_def)
  next
    case (Inr us)
    then show ?thesis using run [of Strict] run [of Lenient] checks_iff [of ts ?rows ?sv] by (auto simp: Let_def)
  qed
qed

theorem drain_modes_witness:
  "\<exists>e. drain_once [] Strict (sample_pg [] [logged_change 1]) = (Inl e, sample_pg [] [logged_change 1])"
proof -
  let ?d = "sample_pg [] [logged_change 1]"
  have rows: "batch_of (pg_log ?d) = [logged_change 1]" by (simp add: batch_of_def poll_batch_size_def sample_pg_def)
  have bad: "event_of [] (last_migration (pg_migs ?d)) (logged_change 1) = None"
    by (simp add: event_of_def logged_change_def capture_def resolve_table_def map_of_key_of map_of_bare_lookup
        option.case_eq_if) (simp add: bare_lookup_def bare_counts_def)
  show ?thesis
    using drain_modes [of ?d "[]"] unfolding Let_def rows by (simp add: bad) (simp add: sample_pg_def)
qed

text \<open>
  The name a trigger writes for a table resolves to a configured table exactly when it is one of
  them, or else when exactly one configured table has its bare name: it is never routed to a table of
  another bare name, nor to one of two that share it.\<close>

theorem table_resolution:
  "resolve_table ts n = Some k \<longleftrightarrow>
     (if n \<in> tt_name ` set ts then k = n else filter (\<lambda>m. bare_name m = bare_name n) (map tt_name ts) = [k])"
  by (auto simp: resolve_table_def map_of_key_of map_of_bare_lookup)

lemma u32_nat: "n < 2 ^ 32 \<Longrightarrow> unat (of_nat n :: u32) = n"
  by (simp add: unat_of_nat)

lemma alert_tick:
  assumes "e \<noteq> StreamerShutdown" "Suc c < 2 ^ 32"
  shows "poll_tick (Inl e) (of_nat c) =
    (if Suc c < 50 then [PollWarn (of_nat (Suc c))] else if Suc c mod 50 = 0 then [PollError (of_nat (Suc c))] else [],
     Some (of_nat (Suc c)))"
proof -
  define w where "w = (of_nat (Suc c) :: u32)"
  have u: "unat w = Suc c" unfolding w_def by (rule u32_nat [OF assms(2)])
  have "(of_nat c :: u32) \<noteq> - 1"
  proof
    assume "(of_nat c :: u32) = - 1"
    then have "w = 0" by (simp add: w_def)
    with u show False by simp
  qed
  then have inc: "saturating_inc (of_nat c) = w" by (simp add: saturating_inc_def w_def add.commute)
  have lt: "w < poller_escalate_after \<longleftrightarrow> Suc c < 50" using u by (simp add: word_less_nat_alt poller_escalate_after_def)
  have eq: "w = poller_escalate_after \<longleftrightarrow> Suc c = 50" using u by (simp add: word_unat_eq_iff poller_escalate_after_def)
  have dv: "(w - poller_escalate_after) mod poller_error_heartbeat = 0 \<longleftrightarrow> Suc c mod 50 = 0" if "50 \<le> Suc c"
  proof -
    have "unat (w - 50) = Suc c - 50" using u that by (simp add: unat_sub word_le_nat_alt)
    then have "unat ((w - 50) mod 50) = (Suc c - 50) mod 50" by (simp add: unat_mod)
    also have "\<dots> = Suc c mod 50" using that by (simp add: le_mod_geq)
    finally show ?thesis by (simp add: word_unat_eq_iff poller_escalate_after_def poller_error_heartbeat_def)
  qed
  have "poll_tick (Inl e) (of_nat c) =
      (if w < poller_escalate_after then [PollWarn w]
       else if w = poller_escalate_after \<or> (w - poller_escalate_after) mod poller_error_heartbeat = 0 then [PollError w] else [], Some w)"
    using assms(1) by (cases e) (simp_all add: poll_tick_def inc Let_def)
  then show ?thesis unfolding w_def [symmetric] using lt eq dv by auto
qed

lemma alert_ticks:
  assumes "\<forall>r\<in>set rs. r \<noteq> Inl StreamerShutdown \<and> (\<forall>out. r = Inr out \<longrightarrow> dn_processed out = 0)"
    "c + length (filter isl rs) < 2 ^ 32"
  shows "\<exists>ls. poll_ticks rs (of_nat c) = (ls, Some (of_nat (c + length (filter isl rs)))) \<and>
    min c 49 + length (filter (\<lambda>l. \<exists>c. l = PollWarn c) ls) = min (c + length (filter isl rs)) 49 \<and>
    c div 50 + length (filter (\<lambda>l. \<exists>c. l = PollError c) ls) = (c + length (filter isl rs)) div 50"
  using assms
proof (induction rs arbitrary: c)
  case (Cons r rs)
  show ?case
  proof (cases r)
    case (Inr out)
    with Cons.prems have "poll_tick r (of_nat c) = ([], Some (of_nat c))" by (simp add: poll_tick_def)
    with Cons.IH [of c] Cons.prems Inr show ?thesis by auto
  next
    case (Inl e)
    then have e: "e \<noteq> StreamerShutdown" "Suc c < 2 ^ 32" using Cons.prems by auto
    obtain ls where ls: "poll_ticks rs (of_nat (Suc c)) = (ls, Some (of_nat (Suc c + length (filter isl rs))))"
      "min (Suc c) 49 + length (filter (\<lambda>l. \<exists>c. l = PollWarn c) ls) = min (Suc c + length (filter isl rs)) 49"
      "Suc c div 50 + length (filter (\<lambda>l. \<exists>c. l = PollError c) ls) = (Suc c + length (filter isl rs)) div 50"
      using Cons.IH [of "Suc c"] Cons.prems Inl by auto
    have "Suc c div 50 = c div 50 + (if Suc c mod 50 = 0 then 1 else 0)" by (simp add: div_Suc)
    then show ?thesis
      using ls Inl alert_tick [OF e] by (auto simp: split_def min_def simp del: of_nat_Suc of_nat_add)
  qed
qed simp

text \<open>
  How loud the poller is. In a run of ticks that fail, or find the log empty, the counter is the number of
  failures; the first forty-nine are warnings, then every fiftieth is one error and the others are
  silent.\<close>

theorem poller_alerts:
  assumes "\<forall>r\<in>set rs. r \<noteq> Inl StreamerShutdown \<and> (\<forall>out. r = Inr out \<longrightarrow> dn_processed out = 0)"
    "length (filter isl rs) < 2 ^ 32"
  shows "\<exists>ls. poll_ticks rs 0 = (ls, Some (of_nat (length (filter isl rs)))) \<and>
    length (filter (\<lambda>l. \<exists>c. l = PollWarn c) ls) = min (length (filter isl rs)) 49 \<and>
    length (filter (\<lambda>l. \<exists>c. l = PollError c) ls) = length (filter isl rs) div 50"
proof -
  have "0 + length (filter isl rs) < 2 ^ 32" using assms(2) by simp
  from alert_ticks [OF assms(1) this] show ?thesis by (simp add: min.commute)
qed

theorem poller_alerts_witness:
  "\<exists>ls. poll_ticks (replicate 100 (Inl (Backend []))) 0 = (ls, Some 100) \<and> length (filter (\<lambda>l. \<exists>c. l = PollError c) ls) = 2"
  using poller_alerts [of "replicate 100 (Inl (Backend []))"] by (simp, blast)

text \<open>
  A restore is not captured as changes. From the moment a restore has emptied the log, while it still
  holds the poller, through whatever the poller, other restores and the clients do afterwards, every
  event sent to the streamer is that of a row committed after that moment.\<close>

theorem restore_window_isolated:
  assumes "poller_run ts as (p, d) (p', d')" "pg_log d = []" "arrivals (pg_env d) = []"
  shows "\<exists>new. pg_queue d' = pg_queue d @ events_of ts (last_migration (pg_migs d)) new \<and> set new \<subseteq> set as"
  using isolated_run [OF assms(1)] assms(2, 3) by (simp add: isolated_def)

theorem restore_window_isolated_witness:
  "\<exists>p d'. poller_run [sample_table] [logged_change 1] (\<lparr>pl_paused = True, pl_failures = Some 0\<rparr>, sample_pg [] []) (p, d') \<and>
     pl_paused p = False \<and> (\<exists>new. pg_queue d' = events_of [sample_table] ''0.0.0'' new \<and> set new \<subseteq> {logged_change 1})"
proof -
  let ?p = "\<lparr>pl_paused = True, pl_failures = Some 0\<rparr>" and ?d = "sample_pg [] []"
  have "poller_run [sample_table] ([] @ [logged_change 1]) (?p, ?d) (?p, ?d\<lparr>pg_log := pg_log ?d @ [logged_change 1]\<rparr>)"
    by (intro poller_run.More [OF poller_run.Start] poller_step.Client)
  then have "poller_run [sample_table] (([] @ [logged_change 1]) @ []) (?p, ?d) (?p\<lparr>pl_paused := False\<rparr>, ?d\<lparr>pg_log := pg_log ?d @ [logged_change 1]\<rparr>)"
    by (rule poller_run.More) (rule poller_step.Resume, simp)
  then have run: "poller_run [sample_table] [logged_change 1] (?p, ?d) (?p\<lparr>pl_paused := False\<rparr>, ?d\<lparr>pg_log := pg_log ?d @ [logged_change 1]\<rparr>)"
    by simp
  from restore_window_isolated [OF this] have q: "\<exists>new. pg_queue (?d\<lparr>pg_log := pg_log ?d @ [logged_change 1]\<rparr>) =
      events_of [sample_table] ''0.0.0'' new \<and> set new \<subseteq> {logged_change 1}"
    by (simp add: sample_pg_def last_migration_def)
  show ?thesis by (rule exI, rule exI, rule conjI, rule run, rule conjI, simp, rule q)
qed

end
