(* ===== verification/Bootstrap.thy ===== *)
theory Bootstrap
  imports Triggers
begin

text \<open>
  The first half of \<open>crates/agentic-memory/src/postgres.rs\<close>: the redaction of a connection URL, the
  JSON a row of a table becomes (\<open>row_to_json\<close>), and the scan of the tracked tables into sealed
  segments (\<open>bootstrap\<close>), with its running count of the encoded size. A row comes as its columns, each
  with the name of its Postgres type and the value sqlx would decode; what another crate renders as a
  text (a UUID, a time) is carried as that text.
\<close>

section \<open>Connection URLs\<close>

fun split_once_str :: "'a list \<Rightarrow> 'a list \<Rightarrow> ('a list \<times> 'a list) option" where
  "split_once_str p [] = (if p = [] then Some ([], []) else None)"
| "split_once_str p (x # xs) =
     (if starts_with p (x # xs) then Some ([], drop (length p) (x # xs))
      else case split_once_str p xs of None \<Rightarrow> None | Some (a, b) \<Rightarrow> Some (x # a, b))"

definition redact_password_in_url :: "string \<Rightarrow> string" where
  "redact_password_in_url raw =
     (case split_once_str ''://'' raw of
        None \<Rightarrow> ''<redacted: unparseable url>''
      | Some (scheme, rest) \<Rightarrow>
          (case split_once CHR ''@'' rest of
             None \<Rightarrow> raw
           | Some (userinfo, hostpart) \<Rightarrow>
               scheme @ ''://'' @
               (case split_once CHR '':'' userinfo of Some (user, _) \<Rightarrow> user @ '':***'' | None \<Rightarrow> userinfo) @
               ''@'' @ hostpart))"

section \<open>Columns\<close>

datatype cell =
    CNull
  | CInt8 u64 | CInt4 u32 | CInt2 u16 | COid u32
  | CFloat4 u64 | CFloat8 u64
  | CBool bool
  | CJson json
  | CUuid string
  | CTimestamptz string | CTimestamp string | CDate string | CTime string
  | CBytea bytes
  | CText string
  | COther

record column =
  co_name :: string
  co_type :: string
  co_cell :: cell

definition to_uppercase :: "string \<Rightarrow> string" where
  "to_uppercase s = map (\<lambda>c. if is_lower c then char_of (of_char c - 32 :: nat) else c) s"

text \<open>\<open>i64::into\<close> for a JSON number, and the \<open>f64\<close> that is one.\<close>

definition of_i64 :: "u64 \<Rightarrow> json" where
  "of_i64 w = JNum (if sint w < 0 then NegInt w else PosInt w)"

definition f64_finite :: "u64 \<Rightarrow> bool" where
  "f64_finite b \<longleftrightarrow> (unat b div 2 ^ 52) mod 2 ^ 11 \<noteq> 2047"

definition from_f64 :: "u64 \<Rightarrow> json option" where
  "from_f64 b = (if f64_finite b then Some (JNum (Float b)) else None)"

definition hex_lower :: "nat \<Rightarrow> char" where
  "hex_lower n = char_of (if n < 10 then 48 + n else 87 + n)"

definition hex_encode :: "bytes \<Rightarrow> string" where
  "hex_encode bs = concat (map (\<lambda>b. [hex_lower (unat b div 16), hex_lower (unat b mod 16)]) bs)"

definition decode_err :: "string \<Rightarrow> mem_error" where
  "decode_err col = Backend (''failed to decode column '' @ col)"

text \<open>The typed reads are strict: a value decodes only as the type it has.\<close>

definition json_for_column :: "string \<Rightarrow> string \<Rightarrow> cell \<Rightarrow> mem_error + json" where
  "json_for_column col ty c =
     (if c = CNull then Inr JNull
      else if ty \<in> {''INT8'', ''BIGINT''} then
        (case c of CInt8 w \<Rightarrow> Inr (of_i64 w) | _ \<Rightarrow> Inl (decode_err col))
      else if ty \<in> {''INT4'', ''INT'', ''INTEGER''} then
        (case c of CInt4 w \<Rightarrow> Inr (of_i64 (scast w)) | _ \<Rightarrow> Inl (decode_err col))
      else if ty \<in> {''INT2'', ''SMALLINT''} then
        (case c of CInt2 w \<Rightarrow> Inr (of_i64 (scast w)) | _ \<Rightarrow> Inl (decode_err col))
      else if ty = ''OID'' then
        (case c of COid w \<Rightarrow> Inr (of_i64 (ucast w)) | _ \<Rightarrow> Inl (decode_err col))
      else if ty \<in> {''FLOAT4'', ''REAL''} then
        (case c of CFloat4 b \<Rightarrow> ok_or (Backend ''non-finite'') (from_f64 b) | _ \<Rightarrow> Inl (decode_err col))
      else if ty \<in> {''FLOAT8'', ''DOUBLE PRECISION''} then
        (case c of CFloat8 b \<Rightarrow> ok_or (Backend ''non-finite'') (from_f64 b) | _ \<Rightarrow> Inl (decode_err col))
      else if ty \<in> {''BOOL'', ''BOOLEAN''} then
        (case c of CBool b \<Rightarrow> Inr (JBool b) | _ \<Rightarrow> Inl (decode_err col))
      else if ty \<in> {''JSON'', ''JSONB''} then
        (case c of CJson j \<Rightarrow> Inr j | _ \<Rightarrow> Inl (decode_err col))
      else if ty = ''UUID'' then
        (case c of CUuid s \<Rightarrow> Inr (JStr s) | _ \<Rightarrow> Inl (decode_err col))
      else if ty = ''TIMESTAMPTZ'' then
        (case c of CTimestamptz s \<Rightarrow> Inr (JStr s) | _ \<Rightarrow> Inl (decode_err col))
      else if ty = ''TIMESTAMP'' then
        (case c of CTimestamp s \<Rightarrow> Inr (JStr s) | _ \<Rightarrow> Inl (decode_err col))
      else if ty = ''DATE'' then
        (case c of CDate s \<Rightarrow> Inr (JStr s) | _ \<Rightarrow> Inl (decode_err col))
      else if ty = ''TIME'' then
        (case c of CTime s \<Rightarrow> Inr (JStr s) | _ \<Rightarrow> Inl (decode_err col))
      else if ty = ''BYTEA'' then
        (case c of CBytea bs \<Rightarrow> Inr (JStr (CHR 0x5C # CHR ''x'' # hex_encode bs)) | _ \<Rightarrow> Inl (decode_err col))
      else (case c of CText s \<Rightarrow> Inr (JStr s) | _ \<Rightarrow> Inl (decode_err col)))"

fun row_fields :: "column list \<Rightarrow> (string \<times> json) list \<Rightarrow> mem_error + (string \<times> json) list" where
  "row_fields [] m = Inr m"
| "row_fields (c # cs) m =
     res_bind (json_for_column (co_name c) (to_uppercase (co_type c)) (co_cell c)) (\<lambda>v.
     row_fields cs (bt_insert (co_name c) v m))"

definition row_to_json :: "column list \<Rightarrow> mem_error + json" where
  "row_to_json cs = res_bind (row_fields cs []) (\<lambda>m. Inr (JObj m))"

section \<open>The scan of a table\<close>

definition quote_ident :: "string \<Rightarrow> string" where
  "quote_ident s = dq s"

definition select_all :: "tracked_table \<Rightarrow> string" where
  "select_all t = ''SELECT * FROM '' @ quote_qualified (tt_name t) @ '' ORDER BY '' @ quote_ident (tt_pk t)"

definition encoded_len :: "lib \<Rightarrow> json \<Rightarrow> nat" where
  "encoded_len L v = length (json_print L v)"

definition pk_of_row :: "tracked_table \<Rightarrow> json \<Rightarrow> mem_error + json" where
  "pk_of_row t row =
     (case json_get (tt_pk t) row of
        Some v \<Rightarrow> if v \<noteq> JNull then Inr v else Inl (Backend ''primary-key column is NULL'')
      | None \<Rightarrow> Inl (Backend ''primary-key column is absent''))"

text \<open>The variables of the loop: the segment being filled, whether it has its first key, the running
  size, the encoded length of its last key, and the manifest.\<close>

record boot =
  bo_current :: segment
  bo_have_lo :: bool
  bo_running :: nat
  bo_prev_hi :: nat
  bo_manifest :: segment_manifest

definition seal_segment :: "lib \<Rightarrow> 'w store_ops \<Rightarrow> string \<Rightarrow> segment \<Rightarrow> segment_manifest \<Rightarrow>
    ('w, mem_error, segment \<times> segment_manifest) act" where
  "seal_segment L S sv g m =
     bindA (map_errA (\<lambda>_. Backend ''persisting segment'') (st_put_raw S KSegment (segment_bytes L g))) (\<lambda>h.
     ret (blank_segment (sg_table g) sv, manifest_push L (ref_of L g h) m))"

text \<open>The running size with a row added, and the segment with the row added.\<close>

definition boot_size :: "lib \<Rightarrow> json \<Rightarrow> json \<Rightarrow> boot \<Rightarrow> nat" where
  "boot_size L pk env b =
     (let g = bo_current b;
          g1 = g\<lparr>sg_pk_lo := (if bo_have_lo b then sg_pk_lo g else pk), sg_pk_hi := pk\<rparr>
      in (if \<not> bo_have_lo b then canonical_size L g1
          else if encoded_len L pk \<noteq> bo_prev_hi b then bo_running b + encoded_len L pk - bo_prev_hi b
          else bo_running b) + (encoded_len L env + 1))"

definition boot_add :: "json \<Rightarrow> json \<Rightarrow> boot \<Rightarrow> segment" where
  "boot_add pk env b =
     (let g = bo_current b
      in g\<lparr>sg_pk_lo := (if bo_have_lo b then sg_pk_lo g else pk), sg_pk_hi := pk, sg_rows := sg_rows g @ [env],
           sg_row_count := of_nat (length (sg_rows g @ [env]))\<rparr>)"

definition boot_row :: "lib \<Rightarrow> 'w store_ops \<Rightarrow> nat \<Rightarrow> string \<Rightarrow> tracked_table \<Rightarrow> column list \<Rightarrow> boot \<Rightarrow>
    ('w, mem_error, boot) act" where
  "boot_row L S target sv t row b =
     bindA (lift_res (row_to_json row)) (\<lambda>j.
     bindA (lift_res (pk_of_row t j)) (\<lambda>pk.
       let env = envelope_of Insert j; g = boot_add pk env b; n = boot_size L pk env b in
       if n \<ge> target
       then bindA (seal_segment L S sv g (bo_manifest b)) (\<lambda>(g', m).
            ret \<lparr>bo_current = g', bo_have_lo = False, bo_running = n, bo_prev_hi = encoded_len L (sg_pk_hi g'), bo_manifest = m\<rparr>)
       else ret \<lparr>bo_current = g, bo_have_lo = True, bo_running = n, bo_prev_hi = encoded_len L pk, bo_manifest = bo_manifest b\<rparr>))"

fun boot_rows :: "lib \<Rightarrow> 'w store_ops \<Rightarrow> nat \<Rightarrow> string \<Rightarrow> tracked_table \<Rightarrow> column list list \<Rightarrow> boot \<Rightarrow>
    ('w, mem_error, boot) act" where
  "boot_rows L S target sv t [] b = ret b"
| "boot_rows L S target sv t (r # rs) b =
     bindA (boot_row L S target sv t r b) (\<lambda>b'. boot_rows L S target sv t rs b')"

definition boot_start :: "lib \<Rightarrow> string \<Rightarrow> tracked_table \<Rightarrow> segment_manifest \<Rightarrow> boot" where
  "boot_start L sv t m =
     (let g = blank_segment (tt_name t) sv
      in \<lparr>bo_current = g, bo_have_lo = False, bo_running = canonical_size L g, bo_prev_hi = encoded_len L (sg_pk_hi g),
          bo_manifest = m\<rparr>)"

text \<open>The tables are read by \<open>fetch\<close>, the rows of a table at once.\<close>

definition bootstrap_table :: "lib \<Rightarrow> 'w store_ops \<Rightarrow> (string \<Rightarrow> ('w, mem_error, column list list) act) \<Rightarrow> nat \<Rightarrow> string \<Rightarrow>
    tracked_table \<Rightarrow> segment_manifest \<Rightarrow> ('w, mem_error, segment_manifest) act" where
  "bootstrap_table L S fetch target sv t m =
     bindA (lift_res (validate_identifier (tt_name t))) (\<lambda>_.
     bindA (lift_res (validate_identifier (tt_pk t))) (\<lambda>_.
     bindA (fetch (select_all t)) (\<lambda>rows.
     bindA (boot_rows L S target sv t rows (boot_start L sv t m)) (\<lambda>b.
     if sg_rows (bo_current b) = [] then ret (bo_manifest b)
     else bindA (seal_segment L S sv (bo_current b) (bo_manifest b)) (\<lambda>(_, m'). ret m')))))"

fun bootstrap_tables :: "lib \<Rightarrow> 'w store_ops \<Rightarrow> (string \<Rightarrow> ('w, mem_error, column list list) act) \<Rightarrow> nat \<Rightarrow> string \<Rightarrow>
    tracked_table list \<Rightarrow> segment_manifest \<Rightarrow> ('w, mem_error, segment_manifest) act" where
  "bootstrap_tables L S fetch target sv [] m = ret m"
| "bootstrap_tables L S fetch target sv (t # ts) m =
     bindA (bootstrap_table L S fetch target sv t m) (\<lambda>m'. bootstrap_tables L S fetch target sv ts m')"

definition bootstrap :: "lib \<Rightarrow> 'w store_ops \<Rightarrow> ('w, mem_error, string) act \<Rightarrow>
    (string \<Rightarrow> ('w, mem_error, column list list) act) \<Rightarrow> nat \<Rightarrow> tracked_table list \<Rightarrow> ('w, mem_error, segment_manifest) act" where
  "bootstrap L S version fetch target ts =
     bindA version (\<lambda>sv. bootstrap_tables L S fetch target sv ts (manifest_new sv))"

section \<open>Lemmas\<close>

lemma split_scheme: "CHR '':'' \<notin> set a \<Longrightarrow> split_once_str ''://'' (a @ ''://'' @ b) = Some (a, b)"
  by (induction a) (auto simp: starts_with_def)

lemma seal_segment_ok:
  assumes "put_named L S" "seal_segment L S sv g m w = (Inr (g', m'), v)"
  shows "g' = blank_segment (sg_table g) sv" "m' = manifest_push L (ref_of L g (segment_hash L g)) m" "acked L S g"
proof -
  obtain h where h: "st_put_raw S KSegment (segment_bytes L g) w = (Inr h, v)" "g' = blank_segment (sg_table g) sv"
    "m' = manifest_push L (ref_of L g h) m"
    using assms(2) by (auto simp: seal_segment_def bindA_ok_iff map_errA_def split: prod.splits)
  moreover have "h = segment_hash L g" using assms(1) h(1) unfolding put_named_def segment_hash_def by blast
  ultimately show "g' = blank_segment (sg_table g) sv" "m' = manifest_push L (ref_of L g (segment_hash L g)) m" "acked L S g"
    by (auto simp: acked_def)
qed

text \<open>The segments sealed so far, the rows read so far.\<close>

definition pushed :: "lib \<Rightarrow> segment list \<Rightarrow> segment_manifest \<Rightarrow> segment_manifest" where
  "pushed L gs m = foldl (\<lambda>m g. manifest_push L (ref_of L g (segment_hash L g)) m) m gs"

definition boot_segment :: "tracked_table \<Rightarrow> string \<Rightarrow> segment \<Rightarrow> bool" where
  "boot_segment t sv g \<longleftrightarrow> segment_ok (tt_name t) (tt_pk t) g \<and> sg_schema g = sv"

definition boot_inv :: "lib \<Rightarrow> 'w store_ops \<Rightarrow> tracked_table \<Rightarrow> string \<Rightarrow> segment_manifest \<Rightarrow> json list \<Rightarrow> segment list \<Rightarrow> boot \<Rightarrow> bool" where
  "boot_inv L S t sv m js gs b \<longleftrightarrow>
     bo_manifest b = pushed L gs m \<and> concat (map sg_rows gs) @ sg_rows (bo_current b) = map (envelope_of Insert) js \<and>
     (\<forall>g\<in>set gs. boot_segment t sv g \<and> sg_rows g \<noteq> [] \<and> acked L S g) \<and> boot_segment t sv (bo_current b) \<and>
     (bo_have_lo b \<longleftrightarrow> sg_rows (bo_current b) \<noteq> [])"

lemma pushed_snoc: "pushed L (gs @ [g]) m = manifest_push L (ref_of L g (segment_hash L g)) (pushed L gs m)"
  by (simp add: pushed_def)

lemma boot_add_ok:
  assumes "boot_segment t sv (bo_current b)" "bo_have_lo b \<longleftrightarrow> sg_rows (bo_current b) \<noteq> []" "pk_of_row t j = Inr pk"
  shows "boot_segment t sv (boot_add pk (envelope_of Insert j) b)"
    "sg_rows (boot_add pk (envelope_of Insert j) b) = sg_rows (bo_current b) @ [envelope_of Insert j]"
proof -
  have "json_get (tt_pk t) j = Some pk" "pk \<noteq> JNull"
    using assms(3) by (auto simp: pk_of_row_def split: option.splits if_splits)
  then show "boot_segment t sv (boot_add pk (envelope_of Insert j) b)"
    using assms(1, 2) by (auto simp: boot_segment_def segment_ok_def boot_add_def Let_def)
qed (simp add: boot_add_def Let_def)

lemma boot_blank: "boot_segment t sv (blank_segment (tt_name t) sv)" "sg_rows (blank_segment x sv) = []"
  by (simp_all add: boot_segment_def segment_ok_def blank_segment_def)

lemma boot_row_inv:
  assumes "put_named L S" "boot_inv L S t sv m js gs b" "boot_row L S n sv t row b w = (Inr b', v)"
  shows "\<exists>j gs'. row_to_json row = Inr j \<and> boot_inv L S t sv m (js @ [j]) gs' b'"
proof -
  obtain j pk where j: "row_to_json row = Inr j" "pk_of_row t j = Inr pk"
    using assms(3) by (auto simp: boot_row_def bindA_ok_iff)
  let ?g = "boot_add pk (envelope_of Insert j) b"
  have cur: "boot_segment t sv (bo_current b)" "bo_have_lo b \<longleftrightarrow> sg_rows (bo_current b) \<noteq> []"
    using assms(2) by (auto simp: boot_inv_def)
  note g = boot_add_ok [OF cur j(2)]
  show ?thesis
  proof (cases "boot_size L pk (envelope_of Insert j) b \<ge> n")
    case True
    then obtain g' m' where seal: "seal_segment L S sv ?g (bo_manifest b) w = (Inr (g', m'), v)"
      "bo_current b' = g'" "\<not> bo_have_lo b'" "bo_manifest b' = m'"
      using assms(3) j by (auto simp: boot_row_def Let_def bindA_ok_iff)
    note s = seal_segment_ok [OF assms(1) seal(1)]
    have "sg_table ?g = tt_name t" using g(1) by (simp add: boot_segment_def segment_ok_def)
    then have "boot_inv L S t sv m (js @ [j]) (gs @ [?g]) b'"
      using assms(2) g s seal(2-4) by (auto simp: boot_inv_def pushed_snoc boot_blank)
    with j(1) show ?thesis by blast
  next
    case False
    then have "bo_current b' = ?g" "bo_have_lo b'" "bo_manifest b' = bo_manifest b"
      using assms(3) j by (auto simp: boot_row_def Let_def)
    then have "boot_inv L S t sv m (js @ [j]) gs b'" using assms(2) g by (simp add: boot_inv_def)
    with j(1) show ?thesis by blast
  qed
qed

lemma boot_rows_inv:
  assumes "put_named L S"
  shows "boot_inv L S t sv m js gs b \<Longrightarrow> boot_rows L S n sv t rows b w = (Inr b', v) \<Longrightarrow>
    \<exists>js' gs'. map row_to_json rows = map Inr js' \<and> boot_inv L S t sv m (js @ js') gs' b'"
proof (induction rows arbitrary: b w js gs)
  case Nil
  then show ?case by auto
next
  case (Cons r rows)
  obtain b1 v1 where 1: "boot_row L S n sv t r b w = (Inr b1, v1)" "boot_rows L S n sv t rows b1 v1 = (Inr b', v)"
    using Cons.prems(2) by (auto simp: bindA_ok_iff)
  obtain j gs1 where j: "row_to_json r = Inr j" "boot_inv L S t sv m (js @ [j]) gs1 b1"
    using boot_row_inv [OF assms Cons.prems(1) 1(1)] by blast
  obtain js' gs' where "map row_to_json rows = map Inr js'" "boot_inv L S t sv m ((js @ [j]) @ js') gs' b'"
    using Cons.IH [OF j(2) 1(2)] by blast
  with j(1) show ?case by (intro exI [of _ "j # js'"] exI [of _ gs']) simp
qed

section \<open>Properties\<close>

text \<open>
  What the log shows of a connection URL. Of a password without an at sign nothing is
  shown; of one with an at sign everything after the first one is.\<close>

theorem redaction:
  assumes "CHR '':'' \<notin> set scheme" "CHR '':'' \<notin> set user" "CHR ''@'' \<notin> set user" "CHR ''@'' \<notin> set a"
  shows "redact_password_in_url (scheme @ ''://'' @ user @ '':'' @ a @ ''@'' @ host) = scheme @ ''://'' @ user @ '':***@'' @ host \<and>
    redact_password_in_url (scheme @ ''://'' @ user @ '':'' @ a @ ''@'' @ b @ ''@'' @ host) =
      scheme @ ''://'' @ user @ '':***@'' @ b @ ''@'' @ host"
proof -
  have "redact_password_in_url (scheme @ ''://'' @ user @ '':'' @ a @ ''@'' @ r) = scheme @ ''://'' @ user @ '':***@'' @ r" for r
  proof -
    have "split_once_str ''://'' (scheme @ ''://'' @ user @ '':'' @ a @ ''@'' @ r) = Some (scheme, user @ '':'' @ a @ ''@'' @ r)"
      by (rule split_scheme [OF assms(1)])
    moreover have "split_once CHR ''@'' (user @ '':'' @ a @ ''@'' @ r) = Some (user @ '':'' @ a, r)"
      using split_once_first [of "CHR ''@''" "user @ '':'' @ a" r] assms(3, 4) by simp
    moreover have "split_once CHR '':'' (user @ '':'' @ a) = Some (user, a)" using assms(2) by simp
    ultimately show ?thesis by (simp add: redact_password_in_url_def)
  qed
  then show ?thesis by simp
qed

theorem redaction_witness:
  "redact_password_in_url ''postgres://u:p@h/d'' = ''postgres://u:***@h/d'' \<and>
   redact_password_in_url ''postgres://u:p@ss@h/d'' = ''postgres://u:***@ss@h/d''"
  using redaction [of "''postgres''" "''u''" "''p''" "''h/d''" "''ss''"] by simp

text \<open>What a restore should bind for a value: the value itself.\<close>

fun cell_arg :: "cell \<Rightarrow> arg" where
  "cell_arg CNull = ArgNull"
| "cell_arg (CInt8 w) = ArgI64 w"
| "cell_arg (CInt4 w) = ArgI64 (scast w)"
| "cell_arg (CInt2 w) = ArgI64 (scast w)"
| "cell_arg (COid w) = ArgI64 (ucast w)"
| "cell_arg (CFloat4 b) = ArgF64 b"
| "cell_arg (CFloat8 b) = ArgF64 b"
| "cell_arg (CBool b) = ArgBool b"
| "cell_arg (CJson j) = ArgJson j"
| "cell_arg (CUuid s) = ArgText s"
| "cell_arg (CTimestamptz s) = ArgText s"
| "cell_arg (CTimestamp s) = ArgText s"
| "cell_arg (CDate s) = ArgText s"
| "cell_arg (CTime s) = ArgText s"
| "cell_arg (CBytea bs) = ArgText (CHR 0x5C # CHR ''x'' # hex_encode bs)"
| "cell_arg (CText s) = ArgText s"
| "cell_arg COther = ArgNull"

fun is_container :: "json \<Rightarrow> bool" where
  "is_container (JArr _) \<longleftrightarrow> True"
| "is_container (JObj _) \<longleftrightarrow> True"
| "is_container _ \<longleftrightarrow> False"

lemma bind_i64: "bind_json L (of_i64 w) = ArgI64 w"
proof (cases "sint w < 0")
  case False
  have "uint w = take_bit 64 (sint w)" using uint_sint [of w] by simp
  also have "\<dots> = sint w" using False sint_lt [of w] by (simp add: take_bit_eq_mod)
  finally have "uint w < 2 ^ 63" using sint_lt [of w] by simp
  then have "int (unat w) < int (2 ^ 63)" by simp
  then have "unat w < 2 ^ 63" by (simp only: of_nat_less_iff)
  with False show ?thesis by (simp add: of_i64_def)
qed (simp add: of_i64_def)

text \<open>The document of a column that decodes, by its value.\<close>

fun cell_json :: "cell \<Rightarrow> json option" where
  "cell_json CNull = Some JNull"
| "cell_json (CInt8 w) = Some (of_i64 w)"
| "cell_json (CInt4 w) = Some (of_i64 (scast w))"
| "cell_json (CInt2 w) = Some (of_i64 (scast w))"
| "cell_json (COid w) = Some (of_i64 (ucast w))"
| "cell_json (CFloat4 b) = Some (JNum (Float b))"
| "cell_json (CFloat8 b) = Some (JNum (Float b))"
| "cell_json (CBool b) = Some (JBool b)"
| "cell_json (CJson j) = Some j"
| "cell_json (CUuid s) = Some (JStr s)"
| "cell_json (CTimestamptz s) = Some (JStr s)"
| "cell_json (CTimestamp s) = Some (JStr s)"
| "cell_json (CDate s) = Some (JStr s)"
| "cell_json (CTime s) = Some (JStr s)"
| "cell_json (CBytea bs) = Some (JStr (CHR 0x5C # CHR ''x'' # hex_encode bs))"
| "cell_json (CText s) = Some (JStr s)"
| "cell_json COther = None"

lemma column_values: "json_for_column col ty c = Inr j \<Longrightarrow> cell_json c = Some j"
  by (cases c)
    (simp_all only: json_for_column_def cell.distinct cell.case cell_json.simps from_f64_def ok_or_def option.case
      if_True if_False simp_thms sum.distinct sum.inject option.inject if_distrib [of "case_option _ _"] split: if_split_asm)



text \<open>
  C23. A bootstrap captures a table. When the scan of a table succeeds, every row it read became JSON, and
  the references pushed to the manifest are those of a run of segments that the store took, each
  non-empty, with the schema of the scan, its row count and the keys of its first and last row, and
  whose rows one after the other are the rows of the table in the order read, as inserts.\<close>

theorem bootstrap_captures_table:
  assumes "put_named L S" "fetch (select_all t) w = (Inr rows, w1)" "bootstrap_table L S fetch n sv t m w = (Inr m', v)"
  shows "\<exists>js gs. map row_to_json rows = map Inr js \<and> m' = pushed L gs m \<and>
    concat (map sg_rows gs) = map (envelope_of Insert) js \<and>
    (\<forall>g\<in>set gs. segment_ok (tt_name t) (tt_pk t) g \<and> sg_schema g = sv \<and> sg_rows g \<noteq> [] \<and> acked L S g)"
proof -
  obtain b w2 where b: "boot_rows L S n sv t rows (boot_start L sv t m) w1 = (Inr b, w2)"
    "(if sg_rows (bo_current b) = [] then ret (bo_manifest b)
      else bindA (seal_segment L S sv (bo_current b) (bo_manifest b)) (\<lambda>(_, m'). ret m')) w2 = (Inr m', v)"
    using assms(2, 3) by (auto simp: bootstrap_table_def bindA_ok_iff)
  have "boot_inv L S t sv m [] [] (boot_start L sv t m)"
    by (simp add: boot_inv_def boot_start_def Let_def pushed_def boot_blank)
  from boot_rows_inv [OF assms(1) this b(1)] obtain js gs where
    js: "map row_to_json rows = map Inr js" "boot_inv L S t sv m js gs b" by auto
  show ?thesis
  proof (cases "sg_rows (bo_current b) = []")
    case True
    then show ?thesis using b(2) js by (auto simp: boot_inv_def boot_segment_def)
  next
    case False
    then obtain g' where seal: "seal_segment L S sv (bo_current b) (bo_manifest b) w2 = (Inr (g', m'), v)"
      using b(2) by (auto simp: bindA_ok_iff)
    note s = seal_segment_ok [OF assms(1) seal]
    have "m' = pushed L (gs @ [bo_current b]) m" "concat (map sg_rows (gs @ [bo_current b])) = map (envelope_of Insert) js"
      "\<forall>g\<in>set (gs @ [bo_current b]). segment_ok (tt_name t) (tt_pk t) g \<and> sg_schema g = sv \<and> sg_rows g \<noteq> [] \<and> acked L S g"
      using js(2) s False by (auto simp: boot_inv_def boot_segment_def pushed_snoc)
    with js(1) show ?thesis by blast
  qed
qed

theorem bootstrap_captures_table_witness:
  "\<exists>m v gs. bootstrap_table sample_lib (shelf sample_lib)
        (\<lambda>_ w. (Inr [[\<lparr>co_name = ''id'', co_type = ''int8'', co_cell = CInt8 7\<rparr>]], w)) 0 ''1'' sample_table (manifest_new ''1'') [] = (Inr m, v) \<and>
     m = pushed sample_lib gs (manifest_new ''1'') \<and>
     concat (map sg_rows gs) = [envelope_of Insert (JObj [(''id'', of_i64 7)])]"
proof -
  let ?rows = "[[\<lparr>co_name = ''id'', co_type = ''int8'', co_cell = CInt8 7\<rparr>]]"
  let ?fetch = "\<lambda>_ w. (Inr ?rows, w)"
  have upper: "to_uppercase ''int8'' = ''INT8''" by code_simp
  have row: "row_to_json (hd ?rows) = Inr (JObj [(''id'', of_i64 7)])"
    using upper by (simp add: row_to_json_def json_for_column_def)
  have pk: "pk_of_row sample_table (JObj [(''id'', of_i64 7)]) = Inr (of_i64 7)"
    by (simp add: pk_of_row_def sample_table_def json_get_def of_i64_def)
  have "\<exists>m v. bootstrap_table sample_lib (shelf sample_lib) ?fetch 0 ''1'' sample_table (manifest_new ''1'') [] = (Inr m, v)"
    using row pk sample_names
    by (simp add: bootstrap_table_def boot_row_def Let_def seal_segment_def map_errA_def shelf_def blank_segment_def bindA_def)
      (simp add: sample_table_def)
  then obtain m v where m: "bootstrap_table sample_lib (shelf sample_lib) ?fetch 0 ''1'' sample_table (manifest_new ''1'') [] = (Inr m, v)"
    by blast
  have "?fetch (select_all sample_table) [] = (Inr ?rows, [])" by simp
  from bootstrap_captures_table [where fetch = ?fetch, OF shelf_named this m] row m show ?thesis by auto
qed

end
