(* ===== verification/Postgres.thy ===== *)
theory Postgres
  imports Bootstrap
begin

text \<open>
  The second half of \<open>crates/agentic-memory/src/postgres.rs\<close>: the adapter. Its state is the
  database of \<open>Triggers\<close> with the tables, the migrations and what \<open>init\<close> looks at, and beside it the
  handles the adapter keeps (the streamer, the poller). How the rows of a table read out as columns
  (\<open>rd\<close>) and what a down script does to the tables (\<open>down\<close>) are parameters; a down script that writes
  the table of migrations itself is not modelled. The statements of a transaction are one step of the
  database, which fails at its beginning or its commit.
\<close>

section \<open>The database and the adapter\<close>

record pga = pg +
  pg_tables :: "string \<Rightarrow> pg_table"
  pg_vector :: bool
  pg_wal :: string
  pg_slots :: "string list"
  pg_may_slot :: bool
  pg_triggers :: "(string \<times> string) list"
  ad_logical :: bool
  ad_streamer :: "streamer option"
  ad_poller :: "poller option"

record pg_config =
  cf_tables :: "tracked_table list"
  cf_target :: nat
  cf_slot :: string

definition pg_config_new :: "tracked_table list \<Rightarrow> pg_config" where
  "pg_config_new ts = \<lparr>cf_tables = ts, cf_target = 64 * 1024 * 1024, cf_slot = ''agentic_slot''\<rparr>"

type_synonym 'w pgw = "'w \<times> pga"

definition on_pg :: "(pga, mem_error, 'a) act \<Rightarrow> ('w pgw, mem_error, 'a) act" where
  "on_pg f = (\<lambda>(w, d). case f d of (r, d') \<Rightarrow> (r, (w, d')))"

definition db_read :: "(pga \<Rightarrow> 'a) \<Rightarrow> (pga, mem_error, 'a) act" where
  "db_read f = db_call (\<lambda>d. (Inr (f d), d))"

definition db_write :: "(pga \<Rightarrow> pga) \<Rightarrow> (pga, mem_error, unit) act" where
  "db_write f = db_call (\<lambda>d. (Inr (), f d))"

section \<open>\<open>init\<close>\<close>

definition validate_pgvector :: "(pga, mem_error, unit) act" where
  "validate_pgvector =
     bindA (db_read pg_vector) (\<lambda>b. if b then ret () else fail (Backend ''pgvector extension is not installed''))"

text \<open>The two helpers are there already, or come to be, without a change the model sees.\<close>

definition install_helpers :: "(pga, mem_error, unit) act" where
  "install_helpers = bindA (db_write (\<lambda>d. d)) (\<lambda>_. db_write (\<lambda>d. d))"

definition set_logical :: "bool \<Rightarrow> (pga, mem_error, unit) act" where
  "set_logical b = (\<lambda>d. (Inr (), d\<lparr>ad_logical := b\<rparr>))"

definition ensure_replication_slot :: "string \<Rightarrow> (pga, mem_error, unit) act" where
  "ensure_replication_slot slot =
     bindA (db_read pg_wal) (\<lambda>wal.
     if wal \<noteq> ''logical'' then set_logical False
     else bindA (db_read (\<lambda>d. slot \<in> set (pg_slots d))) (\<lambda>known.
       if known then set_logical True
       else (\<lambda>d. case db_call (\<lambda>d. if pg_may_slot d then (Inr (), d\<lparr>pg_slots := slot # pg_slots d\<rparr>)
                                  else (Inl (Backend ''create slot''), d)) d of
                   (Inr _, d') \<Rightarrow> set_logical True d'
                 | (Inl _, d') \<Rightarrow> set_logical False d')))"

fun pg_ddl :: "ddl \<Rightarrow> (pga, mem_error, unit) act" where
  "pg_ddl CreateLog = db_write (\<lambda>d. d)"
| "pg_ddl CreateCapture = db_write (\<lambda>d. d)"
| "pg_ddl (DropTrigger n q) = db_write (\<lambda>d. d\<lparr>pg_triggers := removeAll (n, q) (pg_triggers d)\<rparr>)"
| "pg_ddl (CreateTrigger n q) = db_write (\<lambda>d. d\<lparr>pg_triggers := (n, q) # pg_triggers d\<rparr>)"

definition pg_fetch :: "(string \<Rightarrow> (string \<Rightarrow> pg_table) \<Rightarrow> column list list) \<Rightarrow> string \<Rightarrow> ('w pgw, mem_error, column list list) act" where
  "pg_fetch rd q = on_pg (db_read (\<lambda>d. rd q (pg_tables d)))"

text \<open>The store is part of the world; the scan persists its segments there.\<close>

definition on_store :: "('w, core_error, 'a) act \<Rightarrow> ('w pgw, core_error, 'a) act" where
  "on_store f = (\<lambda>(w, d). case f w of (r, w') \<Rightarrow> (r, (w', d)))"

definition lift_store :: "'w store_ops \<Rightarrow> 'w pgw store_ops" where
  "lift_store S =
     \<lparr>st_put = (\<lambda>x p. on_store (st_put S x p)), st_put_raw = (\<lambda>k bs. on_store (st_put_raw S k bs)),
      st_get = (\<lambda>h. on_store (st_get S h)), st_get_raw = (\<lambda>h. on_store (st_get_raw S h)),
      st_has = (\<lambda>h (w, d). case st_has S h w of (b, w') \<Rightarrow> (b, (w', d)))\<rparr>"

definition start_streaming :: "pg_config \<Rightarrow> segment_manifest \<Rightarrow> (pga, mem_error, unit) act" where
  "start_streaming cf base = (\<lambda>d.
     (Inr (), d\<lparr>pg_queue := [], pg_up := True,
        ad_streamer := Some (seed_sealed (mf_entries base) (spawn (cf_tables cf) (cf_target cf) (mf_schema base))),
        ad_poller := Some \<lparr>pl_paused = False, pl_failures = Some 0\<rparr>\<rparr>))"

definition pg_init :: "lib \<Rightarrow> 'w store_ops \<Rightarrow> (string \<Rightarrow> (string \<Rightarrow> pg_table) \<Rightarrow> column list list) \<Rightarrow> pg_config \<Rightarrow>
    ('w pgw, mem_error, unit) act" where
  "pg_init L S rd cf =
     bindA (on_pg validate_pgvector) (\<lambda>_.
     bindA (on_pg install_helpers) (\<lambda>_.
     bindA (on_pg (ensure_replication_slot (cf_slot cf))) (\<lambda>_.
     bindA (on_pg (install_triggers pg_ddl (cf_tables cf))) (\<lambda>_.
     bindA (bootstrap L (lift_store S) (on_pg schema_version) (pg_fetch rd) (cf_target cf) (cf_tables cf)) (\<lambda>base.
     on_pg (start_streaming cf base))))))"

section \<open>Snapshots\<close>

definition pg_drain :: "tracked_table list \<Rightarrow> (pga, mem_error, nat) act" where
  "pg_drain ts = (\<lambda>d. case drain_to_completion ts d of Some x \<Rightarrow> x | None \<Rightarrow> (Inl (Backend ''unreachable''), d))"

text \<open>The streamer works off its queue before it answers the request for a snapshot.\<close>

definition take_snapshot :: "lib \<Rightarrow> 'w store_ops \<Rightarrow> string \<Rightarrow> ('w pgw, mem_error, segment_manifest) act" where
  "take_snapshot L S sv = (\<lambda>(w, d).
     case ad_streamer d of
       None \<Rightarrow> (Inl StreamerShutdown, (w, d))
     | Some s \<Rightarrow>
         if \<not> pg_up d then (Inl StreamerShutdown, (w, d))
         else case streamer_run L S (map Event (pg_queue d) @ [TakeSnapshot sv]) (w, s) of
           (rs, (w', s')) \<Rightarrow> (last rs, (w', d\<lparr>pg_queue := [], ad_streamer := Some s'\<rparr>)))"

definition snapshot_body :: "lib \<Rightarrow> 'w store_ops \<Rightarrow> tracked_table list \<Rightarrow> ('w pgw, mem_error, snapshot_handle) act" where
  "snapshot_body L S ts =
     bindA (on_pg (pg_drain ts)) (\<lambda>_.
     bindA (on_pg schema_version) (\<lambda>sv.
     bindA (take_snapshot L S sv) (\<lambda>m.
     ret \<lparr>sh_manifest = m, sh_schema = sv\<rparr>)))"

text \<open>Whatever the body gives, the advisory lock is released and the answer to that only logged.\<close>

definition pg_snapshot :: "lib \<Rightarrow> 'w store_ops \<Rightarrow> pg_config \<Rightarrow> ('w pgw, mem_error, snapshot_handle) act" where
  "pg_snapshot L S cf = (\<lambda>(w, d).
     if ad_streamer d = None then (Inl (Backend ''snapshot called before init''), (w, d))
     else bindA (on_pg (db_write (\<lambda>d. d))) (\<lambda>_.
          bindA (on_pg (db_write (\<lambda>d. d))) (\<lambda>_ st.
          case snapshot_body L S (cf_tables cf) st of (r, st') \<Rightarrow> (r, snd (on_pg (db_write (\<lambda>d. d)) st')))) (w, d))"

section \<open>Restores\<close>

text \<open>The statements of a restore on the tables.\<close>

fun pg_exec :: "stmt \<Rightarrow> (pga, mem_error, unit) act" where
  "pg_exec (TruncateTable q) d = (Inr (), d\<lparr>pg_tables := (pg_tables d)(q := Map.empty)\<rparr>)"
| "pg_exec (UpsertRows q pk cols rows) d =
     (Inr (), d\<lparr>pg_tables := (pg_tables d)(q := foldl (upsert_row pk cols) (pg_tables d q) rows)\<rparr>)"
| "pg_exec (DeleteIn q pk keys) d =
     (Inr (), d\<lparr>pg_tables := (pg_tables d)(q := foldl (\<lambda>t k. t(k := None)) (pg_tables d q) keys)\<rparr>)"
| "pg_exec TruncateLog d = (Inr (), d\<lparr>pg_log := []\<rparr>)"

definition pg_begin_restore :: "('w pgw, mem_error, unit) act" where
  "pg_begin_restore = on_pg (\<lambda>d.
     case ad_poller d of
       None \<Rightarrow> (Inl (Backend ''begin_restore called before init()''), d)
     | Some p \<Rightarrow> (Inr (), d\<lparr>ad_poller := Some (p\<lparr>pl_paused := True\<rparr>)\<rparr>))"

definition pg_end_restore :: "'w pgw \<Rightarrow> 'w pgw" where
  "pg_end_restore = (\<lambda>(w, d). (w, d\<lparr>ad_poller := map_option (\<lambda>p. p\<lparr>pl_paused := False\<rparr>) (ad_poller d)\<rparr>))"

definition pg_restore_with_guard :: "lib \<Rightarrow> 'w store_ops \<Rightarrow> pg_config \<Rightarrow> snapshot_handle \<Rightarrow> ('w pgw, mem_error, unit) act" where
  "pg_restore_with_guard L S cf h =
     bindA (on_pg schema_version) (\<lambda>live.
     if live \<noteq> sh_schema h then fail (SchemaMismatch live (sh_schema h))
     else restore_manifest L S pg_exec (db_write (\<lambda>d. d)) (db_write (\<lambda>d. d)) (sh_manifest h) (cf_tables cf))"

definition pg_restore :: "lib \<Rightarrow> 'w store_ops \<Rightarrow> pg_config \<Rightarrow> snapshot_handle \<Rightarrow> ('w pgw, mem_error, unit) act" where
  "pg_restore L S cf h = bindA pg_begin_restore (\<lambda>_ st.
     case pg_restore_with_guard L S cf h st of (r, st') \<Rightarrow> (r, pg_end_restore st'))"

section \<open>Migrations\<close>

definition names_desc :: "(int \<times> string) list \<Rightarrow> string list" where
  "names_desc ms = map snd (rev (sort_key fst ms))"

definition pg_migrations_after :: "string \<Rightarrow> (pga, mem_error, string list) act" where
  "pg_migrations_after v =
     (if v = ''0.0.0'' then db_read (\<lambda>d. names_desc (pg_migs d))
      else bindA (db_read (\<lambda>d. find (\<lambda>(i, n). n = v) (pg_migs d))) (\<lambda>known.
        if known = None then fail (MemOther ''target schema_version was never recorded'')
        else db_read (\<lambda>d. case find (\<lambda>(i, n). n = v) (pg_migs d) of
               None \<Rightarrow> []
             | Some (i, _) \<Rightarrow> names_desc (filter (\<lambda>(j, n). j > i) (pg_migs d)))))"

type_synonym down_effect = "string \<Rightarrow> (string \<Rightarrow> pg_table) \<Rightarrow> string + (string \<Rightarrow> pg_table)"

definition apply_down_migration_tx :: "down_effect \<Rightarrow> string \<Rightarrow> string \<Rightarrow> (pga, mem_error, unit) act" where
  "apply_down_migration_tx down name sql = (\<lambda>d.
     case down sql (pg_tables d) of
       Inl e \<Rightarrow> (Inl (MemOther ''executing down migration''), d)
     | Inr tables \<Rightarrow>
         let d1 = d\<lparr>pg_tables := tables, pg_migs := filter (\<lambda>(i, n). n \<noteq> name) (pg_migs d)\<rparr>
         in if length (filter (\<lambda>(i, n). n = name) (pg_migs d)) \<noteq> 1
            then (Inl (MemOther ''expected to delete exactly 1 agentic_migrations row''), d1)
            else (Inr (), d1))"

definition pg_apply_reverse :: "down_effect \<Rightarrow> migration_step list \<Rightarrow> (pga, mem_error, unit) act" where
  "pg_apply_reverse down steps =
     (if steps = [] then ret ()
      else bindA (map_errA (\<lambda>_. MemOther ''opening outer transaction'') (db_write (\<lambda>d. d))) (\<lambda>_.
           in_transaction (map_errA (\<lambda>_. MemOther ''committing reverse-migration sequence'') (db_write (\<lambda>d. d)))
             (bindA (mapA (\<lambda>st. map_errA (\<lambda>_. MemOther ''applying reverse migration'')
                                 (apply_down_migration_tx down (ms_name st) (ms_sql st))) steps) (\<lambda>_. ret ()))))"

definition pg_ops :: "lib \<Rightarrow> 'w store_ops \<Rightarrow> down_effect \<Rightarrow> pg_config \<Rightarrow> 'w pgw mem_ops" where
  "pg_ops L S down cf =
     \<lparr>ad_snapshot = pg_snapshot L S cf, ad_current_schema = on_pg schema_version,
      ad_migrations_after = (\<lambda>v. on_pg (pg_migrations_after v)),
      ad_begin_restore = pg_begin_restore, ad_end_restore = pg_end_restore,
      ad_restore_with_guard = pg_restore_with_guard L S cf,
      ad_apply_reverse = (\<lambda>steps. on_pg (pg_apply_reverse down steps))\<rparr>"

section \<open>What the statements keep\<close>

text \<open>Only a reverse migration changes the table of migrations, and nothing adds a failure to the script.\<close>

definition calm :: "'z pg_scheme \<Rightarrow> 'z pg_scheme \<Rightarrow> bool" where
  "calm d d' \<longleftrightarrow> pg_migs d' = pg_migs d \<and> set (pg_env d') \<subseteq> set (pg_env d) \<and> pg.more d' = pg.more d"

lemma calm_refl: "reflp calm"
  by (simp add: reflp_def calm_def)

lemma calm_trans: "transp calm"
  by (auto simp: transp_def calm_def)

lemmas calm_rules = keeps_basic [OF calm_refl] keeps_bindA [OF calm_trans] keeps_map_errA keeps_mapA [OF calm_refl calm_trans]

lemma calm_call:
  assumes "keeps calm f" shows "keeps calm (db_call f)"
  unfolding keeps_def
proof
  fix d
  have step: "calm d (snd (f e))" if "calm d e" for e
    using transpD [OF calm_trans that] assms by (simp add: keeps_def)
  show "calm d (snd (db_call f d))"
  proof (cases "pg_env d")
    case Nil
    then show ?thesis using assms by (simp add: db_call_def keeps_def)
  next
    case (Cons e es)
    then have "calm d (d\<lparr>pg_env := es\<rparr>)" "calm d (d\<lparr>pg_env := es, pg_log := l\<rparr>)" for l by (auto simp: calm_def)
    with Cons step show ?thesis by (cases e) (simp_all add: db_call_def)
  qed
qed

lemma calm_statements:
  "keeps calm (select_log n)" "keeps calm (delete_log k)" "keeps calm schema_version"
  unfolding select_log_def delete_log_def schema_version_def by (rule calm_call, simp add: keeps_def calm_def)+

lemma calm_send: "keeps calm (send_event ev)"
  by (simp add: send_event_def keeps_def calm_def)

lemma calm_forward: "keeps calm (forward_rows ts sv rs m p f)"
  by (induction rs arbitrary: m p f) (auto intro!: calm_rules calm_send split: option.splits)

lemma calm_drain_once: "keeps calm (drain_once ts mode)"
  unfolding drain_once_def by (auto intro!: calm_rules calm_statements calm_forward split: prod.splits)

lemma calm_drain_loop: "drain_loop ts n d = Some (r, d') \<Longrightarrow> calm d d'"
proof (induction "waiting d" arbitrary: d n rule: less_induct)
  case less
  obtain q d1 where d1: "drain_once ts Strict d = (q, d1)" by (rule prod.exhaust)
  with calm_drain_once have c: "calm d d1" by (rule keepsD)
  have body: "(case (q, d1) of (Inl e, d') \<Rightarrow> Some (Inl e, d')
      | (Inr out, d') \<Rightarrow> if dn_processed out = 0 then Some (Inr n, d') else drain_loop ts (n + dn_forwarded out) d') = Some (r, d')"
    using less.prems by (subst (asm) drain_loop.simps) (simp add: d1)
  show ?case
  proof (cases "\<exists>out. q = Inr out \<and> dn_processed out \<noteq> 0")
    case True
    then obtain out where out: "q = Inr out" "dn_processed out \<noteq> 0" by blast
    from d1 have "waiting d1 < waiting d"
      by (cases rule: drain_once_cases) (use out batch_done_less in \<open>auto simp: batch_idle_def\<close>)
    from less.hyps [OF this] body out have "calm d1 d'" by simp
    with c show ?thesis using transpD [OF calm_trans] by blast
  next
    case False
    with body c show ?thesis by (auto split: sum.splits if_splits)
  qed
qed

lemma calm_db: "(\<And>d. calm d (f d)) \<Longrightarrow> keeps calm (db_write f)" "keeps calm (db_read g)"
  unfolding db_write_def db_read_def by (rule calm_call, simp add: keeps_def calm_def)+

lemma calm_drain: "keeps calm (pg_drain ts)"
  using calm_drain_loop calm_refl
  by (fastforce simp: keeps_def pg_drain_def drain_to_completion_def reflp_def split: option.splits)

text \<open>A statement without a failure in the script answers.\<close>

definition no_faults :: "'z pg_scheme \<Rightarrow> bool" where
  "no_faults d \<longleftrightarrow> (\<forall>x. Fault x \<notin> set (pg_env d))"

lemma version_answers: "no_faults d \<Longrightarrow> \<exists>d'. schema_version d = (Inr (last_migration (pg_migs d)), d') \<and> calm d d'"
  by (auto simp: schema_version_def db_call_def no_faults_def calm_def split: list.splits env.splits)

lemma version_is: "schema_version d = (Inr v, d') \<Longrightarrow> v = last_migration (pg_migs d)"
  by (auto simp: schema_version_def db_call_def split: list.splits env.splits)

section \<open>The errors of a restore\<close>

definition errs :: "('e \<Rightarrow> bool) \<Rightarrow> ('s, 'e, 'a) act \<Rightarrow> bool" where
  "errs Q m \<longleftrightarrow> (\<forall>s e t. m s = (Inl e, t) \<longrightarrow> Q e)"

lemma errsD: "errs Q m \<Longrightarrow> m s = (Inl e, t) \<Longrightarrow> Q e"
  unfolding errs_def by blast

definition res_errs :: "('e \<Rightarrow> bool) \<Rightarrow> 'e + 'a \<Rightarrow> bool" where
  "res_errs Q r \<longleftrightarrow> (\<forall>e. r = Inl e \<longrightarrow> Q e)"

lemma errs_basic: "errs Q (ret a)" "res_errs Q r \<Longrightarrow> errs Q (lift_res r)" "Q e \<Longrightarrow> errs Q (fail e)"
  by (simp_all add: errs_def res_errs_def)

lemma errs_bindA: "errs Q m \<Longrightarrow> (\<And>a. errs Q (f a)) \<Longrightarrow> errs Q (bindA m f)"
  unfolding errs_def bindA_def by (auto split: prod.splits sum.splits)

lemma errs_mapA: "(\<And>x. errs Q (f x)) \<Longrightarrow> errs Q (mapA f xs)"
  by (induction xs) (auto intro!: errs_bindA errs_basic)

lemma res_errs_bind: "res_errs Q r \<Longrightarrow> (\<And>a. res_errs Q (f a)) \<Longrightarrow> res_errs Q (res_bind r f)"
  by (cases r) (auto simp: res_errs_def)

lemma res_errs_try_map:
  fixes f :: "'x \<Rightarrow> 'a + 'b"
  shows "(\<And>x. res_errs Q (f x)) \<Longrightarrow> res_errs Q (try_map f xs)"
proof (induction xs)
  case (Cons x xs)
  have "res_errs Q (Inr (a # as) :: 'a + 'b list)" for a as by (simp add: res_errs_def)
  with Cons show ?case by (auto intro!: res_errs_bind)
qed (simp add: res_errs_def)

abbreviation no_mismatch :: "mem_error \<Rightarrow> bool" where
  "no_mismatch e \<equiv> \<forall>a b. e \<noteq> SchemaMismatch a b"

lemma identifier_errs: "res_errs no_mismatch (validate_identifier s)"
  by (simp add: res_errs_def validate_identifier_def)

lemma envelope_errs: "res_errs no_mismatch (peel_envelope v)"
  by (auto simp: res_errs_def peel_envelope_def split: option.splits if_splits)

lemma row_args_errs: "res_errs no_mismatch (row_args L cols obj)"
  unfolding row_args_def
  by (intro res_errs_try_map res_errs_bind) (auto simp: res_errs_def ok_or_def split: option.splits)

lemma delete_key_errs: "res_errs no_mismatch (delete_key L pk obj)"
  by (auto simp: res_errs_def delete_key_def split: option.splits if_splits)

lemmas restore_res_errs = identifier_errs envelope_errs row_args_errs delete_key_errs

lemma decode_rows_errs: "res_errs no_mismatch (decode_rows rows)"
proof (induction rows)
  case (Cons env rows)
  then show ?case
    by (auto intro!: res_errs_bind restore_res_errs split: prod.splits json.splits) (auto simp: res_errs_def)
qed (simp add: res_errs_def)

lemma batch_stmt_errs: "res_errs no_mismatch (batch_stmt L q pk b)"
  unfolding batch_stmt_def batch_upsert_def batch_delete_def
  by (auto intro!: res_errs_bind res_errs_try_map restore_res_errs split: batch_mode.splits prod.splits) (auto simp: res_errs_def)

lemma run_batches_errs: "(\<And>st. errs no_mismatch (X st)) \<Longrightarrow> errs no_mismatch (run_batches L X q pk bs)"
  by (induction bs) (auto intro!: errs_bindA errs_basic batch_stmt_errs)

lemma apply_entries_errs: "(\<And>st. errs no_mismatch (X st)) \<Longrightarrow> errs no_mismatch (apply_entries L X segs q pk es)"
proof (induction es)
  case (Cons e es)
  then show ?case
    by (auto simp: apply_segment_rows_def intro!: errs_bindA errs_basic restore_res_errs decode_rows_errs run_batches_errs)
qed (simp add: errs_basic)

lemma restore_table_errs: "(\<And>st. errs no_mismatch (X st)) \<Longrightarrow> errs no_mismatch (restore_table L X segs es t)"
  unfolding restore_table_def by (intro errs_bindA errs_basic restore_res_errs apply_entries_errs)

lemma load_segment_errs: "errs no_mismatch (load_segment L S e)"
proof -
  have "errs no_mismatch (map_errA (\<lambda>_. Backend x) m)" for x and m :: "('w, core_error, bytes) act"
    by (auto simp: errs_def map_errA_def map_err_def split: prod.splits sum.splits)
  then show ?thesis
    unfolding load_segment_def by (auto intro!: errs_bindA errs_basic split: option.splits)
qed

lemma restore_manifest_errs:
  assumes "\<And>st. errs no_mismatch (X st)" "errs no_mismatch start" "errs no_mismatch commit"
  shows "errs no_mismatch (restore_manifest L S X start commit m tables)"
proof -
  have load: "errs no_mismatch (mapA (load_segment L S) es)" for es by (intro errs_mapA load_segment_errs)
  have "errs no_mismatch (bindA start (\<lambda>_. in_transaction commit
      (bindA (mapA (restore_table L X segs es) tables) (\<lambda>_. X TruncateLog))))" for segs es
  proof -
    have tx: "errs no_mismatch (in_transaction commit body)" if "errs no_mismatch body" for body
      using errs_bindA [OF that assms(3)]
      by (auto simp: in_transaction_def errs_def split: prod.splits sum.splits)
    show ?thesis by (intro errs_bindA tx assms errs_mapA restore_table_errs)
  qed
  note tx = this
  show ?thesis
    unfolding errs_def
  proof (intro allI impI)
    fix s e t assume a: "restore_manifest L S X start commit m tables s = (Inl e, t)"
    obtain w d where s: "s = (w, d)" by (rule prod.exhaust)
    obtain r v where l: "mapA (load_segment L S) (mf_entries m) w = (r, v)" by (rule prod.exhaust)
    show "e \<noteq> SchemaMismatch x y" for x y
    proof (cases r)
      case (Inl e')
      with a s l errsD [OF load, of "mf_entries m" w e' v] show ?thesis by (auto simp: restore_manifest_def)
    next
      case (Inr segs)
      with a s l errsD [OF tx, of "bt_of_list segs" "mf_entries m" d e] show ?thesis
        by (auto simp: restore_manifest_def split: prod.splits)
    qed
  qed
qed

lemma pg_errs: "errs no_mismatch (pg_exec st)" "errs no_mismatch (db_write f)"
proof -
  show "errs no_mismatch (pg_exec st)" by (cases st) (simp_all add: errs_def)
  show "errs no_mismatch (db_write f)"
    by (auto simp: errs_def db_write_def db_call_def split: list.splits env.splits)
qed

section \<open>Migrations\<close>

definition pg_ok :: "pga \<Rightarrow> bool" where
  "pg_ok d \<longleftrightarrow> distinct (map fst (pg_migs d)) \<and> distinct (map snd (pg_migs d)) \<and> no_faults d"

abbreviation pg_schema :: "pga \<Rightarrow> string" where
  "pg_schema d \<equiv> last_migration (pg_migs d)"

lemma calm_ok: "calm d d' \<Longrightarrow> pg_ok d \<Longrightarrow> pg_ok d'"
  by (auto simp: calm_def pg_ok_def no_faults_def)

lemma sort_max:
  fixes ms :: "(int \<times> string) list"
  assumes "(i, v) \<in> set ms" "\<forall>(j, n)\<in>set ms. j \<le> i" "distinct (map fst ms)"
  shows "last_migration ms = v"
proof -
  let ?s = "sort_key fst ms"
  have ne: "?s \<noteq> []" using assms(1) by (metis empty_iff set_empty set_sort)
  have s: "sorted (map fst ?s)" "set ?s = set ms" by simp_all
  have l: "last ?s \<in> set ms" using last_in_set [OF ne] s(2) by simp
  obtain k where k: "k < length ?s" "?s ! k = (i, v)" using assms(1) s(2) by (metis in_set_conv_nth)
  have "fst (?s ! k) \<le> fst (?s ! (length ?s - 1))"
    using sorted_nth_mono [OF s(1), of k "length ?s - 1"] k(1) by simp
  then have "i \<le> fst (last ?s)" using k(2) ne by (simp add: last_conv_nth)
  moreover have "fst (last ?s) \<le> i" using assms(2) l by auto
  ultimately have "fst (last ?s) = i" by simp
  then have last: "last ?s = (i, v)" using assms(1, 3) l eq_key_imp_eq_value [of ms] by (metis prod.collapse)
  have r: "rev ?s = (i, v) # rev (butlast ?s)"
    using ne last by (metis append_butlast_last_id rev_eq_Cons_iff rev_rev_ident)
  show ?thesis unfolding last_migration_def r by simp
qed

text \<open>The names of the migrations after a recorded one, and what is left when they are reversed.\<close>

lemma find_name: "distinct (map snd ms) \<Longrightarrow> find (\<lambda>(i, n). n = v) ms = Some (i, w) \<longleftrightarrow> w = v \<and> (i, v) \<in> set ms"
proof (induction ms)
  case (Cons m ms)
  then show ?case by (cases m) force
qed simp

lemma reversed_migs:
  fixes ms :: "(int \<times> string) list"
  assumes "distinct (map fst ms)" "distinct (map snd ms)" "(i, v) \<in> set ms"
  shows "last_migration (filter (\<lambda>(j, n). n \<notin> set (names_desc (filter (\<lambda>(j, n). j > i) ms))) ms) = v"
proof -
  have eq: "filter (\<lambda>(j, n). n \<notin> set (names_desc (filter (\<lambda>(j, n). j > i) ms))) ms = filter (\<lambda>(j, n). j \<le> i) ms"
  proof (rule filter_cong [OF refl], clarify)
    fix j n assume m: "(j, n) \<in> set ms"
    have "n \<in> set (names_desc (filter (\<lambda>(j, n). j > i) ms)) \<longleftrightarrow> (\<exists>k. (k, n) \<in> set ms \<and> k > i)"
      by (force simp: names_desc_def)
    also have "\<dots> \<longleftrightarrow> j > i"
    proof -
      have "k = j" if "(k, n) \<in> set ms" for k
        using assms(2) that m by (metis (no_types, lifting) distinct_map inj_onD prod.inject snd_conv)
      with m show ?thesis by blast
    qed
    finally show "(n \<notin> set (names_desc (filter (\<lambda>(j, n). j > i) ms))) = (j \<le> i)" by auto
  qed
  show ?thesis unfolding eq
    by (rule sort_max [of i]) (use assms in \<open>auto simp: distinct_map_filter\<close>)
qed

text \<open>Reversing steps takes their names out of the table, or leaves it as it was.\<close>

lemma down_steps:
  "mapA (\<lambda>st. map_errA (\<lambda>_. MemOther e) (apply_down_migration_tx down (ms_name st) (ms_sql st))) steps d = (Inr us, d') \<Longrightarrow>
     pg_migs d' = filter (\<lambda>(i, n). n \<notin> set (map ms_name steps)) (pg_migs d) \<and> pg_env d' = pg_env d"
proof (induction steps arbitrary: d us)
  case (Cons st steps)
  then obtain us' d1 where 1: "map_errA (\<lambda>_. MemOther e) (apply_down_migration_tx down (ms_name st) (ms_sql st)) d = (Inr (), d1)"
    "mapA (\<lambda>st. map_errA (\<lambda>_. MemOther e) (apply_down_migration_tx down (ms_name st) (ms_sql st))) steps d1 = (Inr us', d')"
    by (auto simp: bindA_ok_iff)
  have "pg_migs d1 = filter (\<lambda>(i, n). n \<noteq> ms_name st) (pg_migs d)" "pg_env d1 = pg_env d"
    using 1(1) by (auto simp: map_errA_def apply_down_migration_tx_def Let_def split: sum.splits prod.splits if_splits)
  with Cons.IH [OF 1(2)] show ?case by (auto intro!: filter_cong)
qed simp

lemma write_cases: "db_write (\<lambda>d. d) d = (r, d') \<Longrightarrow> calm d d'"
  using calm_db(1) [of "\<lambda>d. d"] keepsD reflpD [OF calm_refl] by metis

lemma reverse_result:
  assumes "pg_apply_reverse down steps d = (r, d')"
  shows "(\<forall>e. r = Inl e \<longrightarrow> calm d d') \<and>
    (r = Inr () \<longrightarrow> pg_migs d' = filter (\<lambda>(i, n). n \<notin> set (map ms_name steps)) (pg_migs d) \<and> set (pg_env d') \<subseteq> set (pg_env d))"
proof (cases "steps = []")
  case True
  with assms show ?thesis using reflpD [OF calm_refl] by (auto simp: pg_apply_reverse_def filter_True)
next
  case False
  let ?body = "mapA (\<lambda>st. map_errA (\<lambda>_. MemOther ''applying reverse migration'')
      (apply_down_migration_tx down (ms_name st) (ms_sql st))) steps"
  obtain q d1 where begin_: "db_write (\<lambda>d. d) d = (q, d1)" by (rule prod.exhaust)
  note c1 = write_cases [OF begin_]
  obtain p d2 where body: "?body d1 = (p, d2)" by (rule prod.exhaust)
  obtain q' d3 where commit: "db_write (\<lambda>d. d) d2 = (q', d3)" by (rule prod.exhaust)
  note c3 = write_cases [OF commit]
  show ?thesis
  proof (cases q)
    case (Inl e)
    then show ?thesis using assms False begin_ c1 by (auto simp: pg_apply_reverse_def bindA_def map_errA_def)
  next
    case q: (Inr u)
    show ?thesis
    proof (cases p)
      case (Inl e)
      then show ?thesis
        using assms False begin_ q body c1 by (auto simp: pg_apply_reverse_def bindA_def map_errA_def in_transaction_def)
    next
      case p: (Inr us)
      note d2 = down_steps [OF body [unfolded p]]
      show ?thesis
      proof (cases q')
        case (Inl e)
        then show ?thesis
          using assms False begin_ q body p commit c1
          by (auto simp: pg_apply_reverse_def bindA_def map_errA_def in_transaction_def)
      next
        case (Inr u')
        then have "r = Inr ()" "d' = d3"
          using assms False begin_ q body p commit
          by (auto simp: pg_apply_reverse_def bindA_def map_errA_def in_transaction_def)
        with c1 c3 d2 show ?thesis by (auto simp: calm_def)
      qed
    qed
  qed
qed

text \<open>What a read of the migrations answers.\<close>

lemma read_migs: "db_read (\<lambda>d. f (pg_migs d)) e = (Inr x, e') \<Longrightarrow> x = f (pg_migs e) \<and> pg_migs e' = pg_migs e"
  by (auto simp: db_read_def db_call_def split: list.splits env.splits)

lemma after_calm: "keeps calm (pg_migrations_after v)"
  unfolding pg_migrations_after_def by (auto intro!: calm_rules calm_db)

lemma after_result:
  assumes "pg_migrations_after v d = (Inr ns, d')"
  shows "if v = ''0.0.0'' then ns = names_desc (pg_migs d)
    else \<exists>i w. find (\<lambda>(i, n). n = v) (pg_migs d) = Some (i, w) \<and> ns = names_desc (filter (\<lambda>(j, n). j > i) (pg_migs d))"
proof (cases "v = ''0.0.0''")
  case True
  with assms read_migs [of names_desc d ns d'] show ?thesis by (simp add: pg_migrations_after_def)
next
  case False
  let ?f = "\<lambda>ms. case find (\<lambda>(i, n). n = v) ms of None \<Rightarrow> [] | Some (i, _) \<Rightarrow> names_desc (filter (\<lambda>(j, n). j > i) ms)"
  obtain known d1 where 1: "db_read (\<lambda>d. find (\<lambda>(i, n). n = v) (pg_migs d)) d = (Inr known, d1)" "known \<noteq> None"
    "db_read (\<lambda>d. ?f (pg_migs d)) d1 = (Inr ns, d')"
    using assms False by (auto simp: pg_migrations_after_def bindA_ok_iff split: if_splits)
  from read_migs [of "find (\<lambda>(i, n). n = v)", OF 1(1)] read_migs [of ?f, OF 1(3)] 1(2)
  show ?thesis using False by (auto split: option.splits)
qed

lemma reverse_reaches_target:
  assumes "pg_ok d" "pg_migrations_after v d = (Inr ns, d1)" "map ms_name steps = ns" "pg_apply_reverse down steps d1 = (Inr (), d2)"
  shows "pg_schema d2 = v"
proof -
  have m: "pg_migs d1 = pg_migs d" using keepsD [OF after_calm assms(2)] by (simp add: calm_def)
  then have d2: "pg_migs d2 = filter (\<lambda>(i, n). n \<notin> set ns) (pg_migs d)"
    using reverse_result [OF assms(4)] assms(3) by simp
  show ?thesis
  proof (cases "v = ''0.0.0''")
    case True
    then have "set ns = snd ` set (pg_migs d)" using after_result [OF assms(2)] by (force simp: names_desc_def)
    then have "pg_migs d2 = []" unfolding d2 by (force simp: filter_empty_conv)
    with True show ?thesis by (simp add: last_migration_def)
  next
    case False
    then obtain i w where "find (\<lambda>(i, n). n = v) (pg_migs d) = Some (i, w)"
      "ns = names_desc (filter (\<lambda>(j, n). j > i) (pg_migs d))" using after_result [OF assms(2)] by auto
    with reversed_migs [of "pg_migs d" i v] find_name [of "pg_migs d" v i w] assms(1) show ?thesis
      by (simp add: d2 pg_ok_def)
  qed
qed

section \<open>The adapter as a memory adapter\<close>

lemma on_pg_result: "on_pg f (w, d) = (r, t) \<longleftrightarrow> (\<exists>d'. f d = (r, d') \<and> t = (w, d'))"
  by (auto simp: on_pg_def split: prod.splits)

lemma preserves_on_pg: "(\<And>d r d'. pg_ok d \<Longrightarrow> f d = (r, d') \<Longrightarrow> pg_ok d') \<Longrightarrow> preserves (\<lambda>(w, d). pg_ok d) (on_pg f)"
  by (auto simp: preserves_def on_pg_def split: prod.splits)

lemma reverse_ok:
  assumes "pg_ok d" "pg_apply_reverse down steps d = (r, d')"
  shows "pg_ok d'"
proof (cases r)
  case (Inl e)
  with reverse_result [OF assms(2)] calm_ok assms(1) show ?thesis by blast
next
  case (Inr u)
  with reverse_result [OF assms(2)] assms(1) show ?thesis
    by (auto simp: pg_ok_def no_faults_def distinct_map_filter)
qed

lemma begin_restore_keeps:
  "pg_begin_restore (w, d) = (r, (w', d')) \<Longrightarrow> w' = w \<and> pg_migs d' = pg_migs d \<and> pg_env d' = pg_env d"
  by (auto simp: pg_begin_restore_def on_pg_result split: option.splits)

lemma snapshot_runs:
  assumes "pg_snapshot L S cf (w, d) = (Inr h, t)"
  shows "ad_streamer d \<noteq> None \<and> (\<exists>d1 d2 w3 d3. db_write (\<lambda>d. d) d = (Inr (), d1) \<and> db_write (\<lambda>d. d) d1 = (Inr (), d2) \<and>
    snapshot_body L S (cf_tables cf) (w, d2) = (Inr h, (w3, d3)) \<and> t = (w3, snd (db_write (\<lambda>d. d) d3)))"
proof -
  obtain q1 d1 where 1: "db_write (\<lambda>d. d) d = (q1, d1)" by (rule prod.exhaust)
  obtain q2 d2 where 2: "db_write (\<lambda>d. d) d1 = (q2, d2)" by (rule prod.exhaust)
  obtain r w3 d3 where 3: "snapshot_body L S (cf_tables cf) (w, d2) = (r, (w3, d3))" by (rule prod_cases3)
  obtain q4 d4 where 4: "db_write (\<lambda>d. d) d3 = (q4, d4)" by (rule prod.exhaust)
  from assms 1 2 3 4 show ?thesis
    by (cases q1; cases q2; simp add: pg_snapshot_def bindA_def on_pg_def split: if_splits)
qed

lemma snapshot_version:
  assumes "pg_snapshot L S cf (w, d) = (Inr h, t)"
  shows "sh_schema h = pg_schema d"
proof -
  obtain d1 d2 st where 1: "db_write (\<lambda>d. d) d = (Inr (), d1)" "db_write (\<lambda>d. d) d1 = (Inr (), d2)"
    "snapshot_body L S (cf_tables cf) (w, d2) = (Inr h, st)"
    using snapshot_runs [OF assms] by blast
  then obtain n d3 sv d4 where 2: "pg_drain (cf_tables cf) d2 = (Inr n, d3)" "schema_version d3 = (Inr sv, d4)" "sh_schema h = sv"
    by (auto simp: snapshot_body_def bindA_ok_iff on_pg_result)
  have "calm d d1" "calm d1 d2" "calm d2 d3"
    using write_cases [OF 1(1)] write_cases [OF 1(2)] keepsD [OF calm_drain 2(1)] by blast+
  then have "pg_migs d3 = pg_migs d" by (simp add: calm_def)
  with version_is [OF 2(2)] 2(3) show ?thesis by simp
qed

interpretation pg: memory_adapter "pg_ops L S down cf" "\<lambda>(w, d). pg_ok d" "\<lambda>(w, d). pg_schema d" for L S down cf
proof
  fix v show "preserves (\<lambda>(w, d). pg_ok d) (ad_migrations_after (pg_ops L S down cf) v)"
    unfolding pg_ops_def mem_ops.simps by (rule preserves_on_pg) (rule calm_ok [OF keepsD [OF after_calm]])
next
  fix steps show "preserves (\<lambda>(w, d). pg_ok d) (ad_apply_reverse (pg_ops L S down cf) steps)"
    using reverse_ok by (auto simp: pg_ops_def intro!: preserves_on_pg)
next
  show "preserves (\<lambda>(w, d). pg_ok d) (ad_begin_restore (pg_ops L S down cf))"
    by (auto simp: preserves_def pg_ops_def pg_ok_def no_faults_def pg_begin_restore_def on_pg_def split: prod.splits option.splits)
next
  fix v show "keeps (\<lambda>s t. (case t of (w, d) \<Rightarrow> pg_schema d) = (case s of (w, d) \<Rightarrow> pg_schema d)) (ad_migrations_after (pg_ops L S down cf) v)"
    using keepsD [OF after_calm] by (fastforce simp: keeps_def pg_ops_def on_pg_def calm_def split: prod.splits)
next
  show "keeps (\<lambda>s t. (case t of (w, d) \<Rightarrow> pg_schema d) = (case s of (w, d) \<Rightarrow> pg_schema d)) (ad_begin_restore (pg_ops L S down cf))"
    by (auto simp: keeps_def pg_ops_def pg_begin_restore_def on_pg_def split: prod.splits option.splits)
next
  fix s t :: "'a pgw" and h :: snapshot_handle assume "case s of (w, d) \<Rightarrow> pg_ok d" "ad_snapshot (pg_ops L S down cf) s = (Inr h, t)"
  then show "sh_schema h = (case s of (w, d) \<Rightarrow> pg_schema d)"
    using snapshot_version by (cases s; cases t) (auto simp: pg_ops_def)
next
  fix s v t assume "ad_current_schema (pg_ops L S down cf) s = (Inr v, t)"
  then obtain w d d' where s: "s = (w, d)" "t = (w, d')" "schema_version d = (Inr v, d')"
    by (cases s) (auto simp: pg_ops_def on_pg_result)
  with version_is [OF s(3)] keepsD [OF calm_statements(3) s(3)]
  show "v = (case s of (w, d) \<Rightarrow> pg_schema d) \<and> (case t of (w, d) \<Rightarrow> pg_schema d) = (case s of (w, d) \<Rightarrow> pg_schema d)"
    by (simp add: calm_def)
next
  fix s v ns t steps u
  assume *: "case s of (w, d) \<Rightarrow> pg_ok d" "ad_migrations_after (pg_ops L S down cf) v s = (Inr ns, t)" "map ms_name steps = ns"
    "ad_apply_reverse (pg_ops L S down cf) steps t = (Inr (), u)"
  then show "(case u of (w, d) \<Rightarrow> pg_schema d) = v"
    by (cases s) (auto simp: pg_ops_def on_pg_result intro: reverse_reaches_target)
next
  fix s steps e t
  assume "ad_apply_reverse (pg_ops L S down cf) steps s = (Inl e, t)"
  then show "(case t of (w, d) \<Rightarrow> pg_schema d) = (case s of (w, d) \<Rightarrow> pg_schema d)"
    using reverse_result by (cases s) (fastforce simp: pg_ops_def on_pg_result calm_def)
next
  fix s :: "'a pgw" and h :: snapshot_handle
  assume *: "case s of (w, d) \<Rightarrow> pg_ok d" "(case s of (w, d) \<Rightarrow> pg_schema d) \<noteq> sh_schema h"
  obtain w d where s: "s = (w, d)" by (rule prod.exhaust)
  obtain d' where "schema_version d = (Inr (pg_schema d), d')" "calm d d'"
    using version_answers [of d] * s by (auto simp: pg_ok_def)
  with * s show "\<exists>t. ad_restore_with_guard (pg_ops L S down cf) h s =
      (Inl (SchemaMismatch (case s of (w, d) \<Rightarrow> pg_schema d) (sh_schema h)), t) \<and>
      (case t of (w, d) \<Rightarrow> pg_schema d) = (case s of (w, d) \<Rightarrow> pg_schema d)"
    by (auto simp: pg_ops_def pg_restore_with_guard_def bindA_def on_pg_def calm_def)
next
  fix s t :: "'a pgw" and a b and h :: snapshot_handle
  assume a: "ad_restore_with_guard (pg_ops L S down cf) h s = (Inl (SchemaMismatch a b), t)"
  obtain w d where s: "s = (w, d)" by (rule prod.exhaust)
  obtain r d' where v: "schema_version d = (r, d')" by (rule prod.exhaust)
  have sv: "errs no_mismatch schema_version" for x :: nat
    by (auto simp: errs_def schema_version_def db_call_def split: list.splits env.splits)
  show "(case s of (w, d) \<Rightarrow> pg_schema d) \<noteq> sh_schema h"
  proof (cases r)
    case (Inl e)
    with a s v errsD [OF sv v [unfolded Inl]] show ?thesis
      by (auto simp: pg_ops_def pg_restore_with_guard_def bindA_def on_pg_def)
  next
    case (Inr x)
    have "errs no_mismatch (restore_manifest L S pg_exec (db_write (\<lambda>d. d)) (db_write (\<lambda>d. d)) (sh_manifest h) (cf_tables cf))"
      by (intro restore_manifest_errs pg_errs)
    from errsD [OF this, of "(w, d')" "SchemaMismatch a b" t] a s v Inr version_is [OF v [unfolded Inr]]
    show ?thesis by (auto simp: pg_ops_def pg_restore_with_guard_def bindA_def on_pg_def split: if_splits)
  qed
qed

section \<open>A snapshot of the database\<close>

text \<open>The statements around the drain only let rows arrive.\<close>

definition same_but_log :: "pga \<Rightarrow> pga \<Rightarrow> change_row list \<Rightarrow> bool" where
  "same_but_log d d' as \<longleftrightarrow>
     settled d d' as \<and> pg_log d' = pg_log d @ as \<and> pg_queue d' = pg_queue d \<and> ad_streamer d' = ad_streamer d"

lemma call_same:
  assumes "db_call (\<lambda>d. (Inr (f d), d)) d = (Inr x, d')"
  shows "\<exists>as. same_but_log d d' as"
proof (cases rule: db_call_cases [of "\<lambda>d. (Inr (f d), d)" d])
  case (run as es)
  with assms show ?thesis by (intro exI [of _ as]) (auto simp: same_but_log_def settled_def)
next
  case (fault x es)
  with assms show ?thesis by auto
qed

lemma write_same: "db_write (\<lambda>d. d) d = (Inr u, d') \<Longrightarrow> \<exists>as. same_but_log d d' as"
  unfolding db_write_def by (rule call_same [of "\<lambda>_. ()"]) simp

lemma same_trans: "same_but_log d d1 as \<Longrightarrow> same_but_log d1 d2 bs \<Longrightarrow> same_but_log d d2 (as @ bs)"
  by (simp add: same_but_log_def settled_def)

lemma events_silent: "fst (streamer_run L S (map Event evs) x) = []"
  by (induction evs arbitrary: x) (auto split: prod.splits)

lemma snapshot_reply:
  assumes "streamer_run L S (map Event evs @ [TakeSnapshot sv]) x = (qs, y)"
  shows "qs = [last qs]"
proof -
  obtain z where "streamer_run L S (map Event evs) x = ([], z)" using events_silent [of L S evs x] by (metis prod.collapse)
  with assms show ?thesis by (auto simp: streamer_run_append split: prod.splits)
qed

lemma streamer_kept: "calm d d' \<Longrightarrow> ad_streamer d' = ad_streamer d" for d :: pga
  by (cases d; cases d') (simp add: calm_def)

text \<open>What a successful snapshot has done: the drain, and the requests of the streamer after the queue.\<close>

lemma snapshot_steps:
  assumes "pg_snapshot L S cf (w, d) = (Inr h, t)" "ids_ok (pg_log d @ arrivals (pg_env d))"
  shows "\<exists>as rows lost s w' s'. ad_streamer d = Some s \<and>
    mset (pg_log d @ as) = mset rows + mset lost \<and> (\<exists>bs. arrivals (pg_env d) = as @ bs) \<and>
    (\<forall>x\<in>set rows. event_of (cf_tables cf) (pg_schema d) x \<noteq> None) \<and>
    (\<forall>x\<in>set lost. x \<in> set as \<and> (\<exists>y\<in>set rows. cr_id x < cr_id y)) \<and>
    streamer_run L S (map Event (pg_queue d @ events_of (cf_tables cf) (pg_schema d) rows) @ [TakeSnapshot (sh_schema h)]) (w, s) =
      ([Inr (sh_manifest h)], (w', s')) \<and> fst t = w'"
proof -
  obtain d1 d2 w3 d3 where 1: "db_write (\<lambda>d. d) d = (Inr (), d1)" "db_write (\<lambda>d. d) d1 = (Inr (), d2)"
    "snapshot_body L S (cf_tables cf) (w, d2) = (Inr h, (w3, d3))" "fst t = w3"
    using snapshot_runs [OF assms(1)] by auto
  obtain as where as: "same_but_log d d2 as"
    using write_same [OF 1(1)] write_same [OF 1(2)] same_trans by blast
  obtain n d4 sv d5 where 2: "pg_drain (cf_tables cf) d2 = (Inr n, d4)" "schema_version d4 = (Inr sv, d5)"
    "take_snapshot L S sv (w, d5) = (Inr (sh_manifest h), (w3, d3))" "sh_schema h = sv"
    using 1(3) by (auto simp: snapshot_body_def bindA_ok_iff on_pg_result)
  have ids: "ids_ok (pg_log d2 @ arrivals (pg_env d2))" using assms(2) as by (simp add: same_but_log_def settled_def)
  obtain r e bs rows lost again where drain: "drain_loop (cf_tables cf) 0 d2 = Some (r, e)"
    "fenced (cf_tables cf) 0 d2 r e bs rows lost again" using drain_loop_fenced [OF ids] by blast
  with 2(1) have re: "r = Inr n" "e = d4" by (simp_all add: pg_drain_def drain_to_completion_def)
  have f: "mset (pg_log d2 @ bs) = mset rows + mset lost" "pg_queue d4 = pg_queue d2 @ events_of (cf_tables cf) (pg_schema d2) rows"
    "\<forall>x\<in>set rows. event_of (cf_tables cf) (pg_schema d2) x \<noteq> None"
    "\<forall>x\<in>set lost. x \<in> set bs \<and> (\<exists>y\<in>set rows. cr_id x < cr_id y)" "arrivals (pg_env d2) = bs @ arrivals (pg_env d4)"
    using drain(2) re by (auto simp: fenced_def settled_def)
  obtain cs where cs: "same_but_log d4 d5 cs"
    using 2(2) call_same [of "\<lambda>d. last_migration (pg_migs d)" d4 sv d5] by (auto simp: schema_version_def)
  have st: "ad_streamer d5 = ad_streamer d" "pg_schema d2 = pg_schema d" "pg_queue d2 = pg_queue d"
    using as cs streamer_kept [OF keepsD [OF calm_drain 2(1)]] by (simp_all add: same_but_log_def settled_def)
  obtain s qs s' where s: "ad_streamer d5 = Some s"
    "streamer_run L S (map Event (pg_queue d5) @ [TakeSnapshot sv]) (w, s) = (qs, (w3, s'))" "last qs = Inr (sh_manifest h)"
    using 2(3) by (auto simp: take_snapshot_def split: option.splits if_splits prod.splits)
  have q: "pg_queue d5 = pg_queue d @ events_of (cf_tables cf) (pg_schema d) rows"
    using f(2) cs st by (simp add: same_but_log_def)
  have "qs = [Inr (sh_manifest h)]" using snapshot_reply [OF s(2)] s(3) by simp
  with s(2) q 2(4) have run: "streamer_run L S (map Event (pg_queue d @ events_of (cf_tables cf) (pg_schema d) rows) @ [TakeSnapshot (sh_schema h)]) (w, s) =
      ([Inr (sh_manifest h)], (w3, s'))" by simp
  have l: "pg_log d2 = pg_log d @ as" "arrivals (pg_env d) = as @ arrivals (pg_env d2)"
    using as by (simp_all add: same_but_log_def settled_def)
  have "mset (pg_log d @ as @ bs) = mset rows + mset lost" "arrivals (pg_env d) = (as @ bs) @ arrivals (pg_env d4)"
    "\<forall>x\<in>set lost. x \<in> set (as @ bs) \<and> (\<exists>y\<in>set rows. cr_id x < cr_id y)"
    using f l by auto
  with run s(1) st f(3) 1(4) show ?thesis by (intro exI [of _ "as @ bs"] exI [of _ rows] exI [of _ lost]) auto
qed

section \<open>Properties\<close>


text \<open>An adapter whose streamer has an event to work off.\<close>

definition sample_pga :: "(int \<times> string) list \<Rightarrow> pga" where
  "sample_pga ms =
     \<lparr>pg_env = [], pg_log = [], pg_migs = ms, pg_queue = [sample_event], pg_up = True, pg_tables = \<lambda>_. Map.empty,
      pg_vector = True, pg_wal = ''replica'', pg_slots = [], pg_may_slot = False, pg_triggers = [], ad_logical = False,
      ad_streamer = Some (spawn [sample_table] 0 ''1''), ad_poller = Some \<lparr>pl_paused = False, pl_failures = Some 0\<rparr>\<rparr>"

lemma sample_calls: "db_call f (sample_pga ms) = f (sample_pga ms)"
  by (simp add: db_call_def sample_pga_def)

lemma sample_drain: "pg_drain ts (sample_pga ms) = (Inr 0, sample_pga ms)"
proof -
  have "drain_once ts Strict (sample_pga ms) = (Inr \<lparr>dn_processed = 0, dn_forwarded = 0\<rparr>, sample_pga ms)"
    by (simp add: drain_once_def select_log_def sample_calls bindA_def) (simp add: sample_pga_def)
  then have "drain_loop ts 0 (sample_pga ms) = Some (Inr 0, sample_pga ms)" by (subst drain_loop.simps) simp
  then show ?thesis by (simp add: pg_drain_def drain_to_completion_def)
qed

lemma sample_snapshot: "\<exists>h t. pg_snapshot sample_lib (shelf sample_lib) (pg_config_new [sample_table]) ([], sample_pga ms) = (Inr h, t)"
proof -
  obtain w s where ws: "streamer_run sample_lib (shelf sample_lib) [Event sample_event] ([], spawn [sample_table] 0 ''1'') = ([], (w, s))"
    using sample_streamed by blast
  obtain v hs where hs: "seal_heads sample_lib (shelf sample_lib) (sm_heads s) w = (Inr (), v, hs)" using shelf_seals by blast
  have "streamer_run sample_lib (shelf sample_lib) (map Event [sample_event] @ [TakeSnapshot sv]) ([], spawn [sample_table] 0 ''1'') =
      ([Inr (manifest_of_heads sample_lib sv hs)], (v, s\<lparr>sm_heads := hs\<rparr>))" for sv
    unfolding streamer_run_append using ws hs by (simp add: streamer_snapshot_def)
  then obtain m y where run: "streamer_run sample_lib (shelf sample_lib) (map Event [sample_event] @ [TakeSnapshot (last_migration ms)])
      ([], spawn [sample_table] 0 ''1'') = ([Inr m], y)" by blast
  have fields: "pg_queue (sample_pga ms) = [sample_event]" "pg_up (sample_pga ms)" "pg_migs (sample_pga ms) = ms"
    "ad_streamer (sample_pga ms) = Some (spawn [sample_table] 0 ''1'')" by (simp_all add: sample_pga_def)
  have "\<exists>t. snapshot_body sample_lib (shelf sample_lib) [sample_table] ([], sample_pga ms) = (Inr \<lparr>sh_manifest = m, sh_schema = last_migration ms\<rparr>, t)"
    using run
    by (cases y) (simp add: snapshot_body_def bindA_def on_pg_def sample_drain schema_version_def sample_calls take_snapshot_def fields
        del: streamer_run.simps)
  then show ?thesis
    by (auto simp: pg_snapshot_def bindA_def on_pg_def db_write_def sample_calls fields pg_config_new_def split: prod.splits)
qed


text \<open>
  C39. The schema gate of a rollback on Postgres. A restore to a snapshot of another schema is refused
  and changes no table. When the migrations recorded after the schema of the snapshot are reversed, either
  the database is at that schema and the restore that follows is not refused for its schema, or
  nothing has changed in the tables or in the migrations.\<close>

theorem pg_rollback_gate:
  assumes "pg_ok d" "pg_migrations_after (sh_schema h) d = (Inr ns, d1)" "map ms_name steps = ns"
  shows "(pg_schema d \<noteq> sh_schema h \<longrightarrow>
      (\<exists>d'. pg_restore_with_guard L S cf h (w, d) = (Inl (SchemaMismatch (pg_schema d) (sh_schema h)), (w, d')) \<and> pg_tables d' = pg_tables d)) \<and>
    (\<forall>d2 s3 x y. pg_apply_reverse down steps d1 = (Inr (), d2) \<and> pg_begin_restore (w, d2) = (Inr (), s3) \<longrightarrow>
      pg_schema d2 = sh_schema h \<and> fst (pg_restore_with_guard L S cf h s3) \<noteq> Inl (SchemaMismatch x y)) \<and>
    (\<forall>e d2. pg_apply_reverse down steps d1 = (Inl e, d2) \<longrightarrow> pg_migs d2 = pg_migs d \<and> pg_tables d2 = pg_tables d)"
proof (intro conjI allI impI)
  have tables: "calm e e' \<Longrightarrow> pg_tables e' = pg_tables e" for e e' :: pga
    by (cases e; cases e') (simp add: calm_def)
  show "\<exists>d'. pg_restore_with_guard L S cf h (w, d) = (Inl (SchemaMismatch (pg_schema d) (sh_schema h)), (w, d')) \<and> pg_tables d' = pg_tables d"
    if "pg_schema d \<noteq> sh_schema h"
  proof -
    obtain d' where "schema_version d = (Inr (pg_schema d), d')" "calm d d'"
      using version_answers [of d] assms(1) by (auto simp: pg_ok_def)
    with that tables show ?thesis by (auto simp: pg_restore_with_guard_def bindA_def on_pg_def)
  qed
  fix d2 s3 x y
  assume r: "pg_apply_reverse down steps d1 = (Inr (), d2) \<and> pg_begin_restore (w, d2) = (Inr (), s3)"
  then show "pg_schema d2 = sh_schema h" using reverse_reaches_target [OF assms] by blast
  show "fst (pg_restore_with_guard L S cf h s3) \<noteq> Inl (SchemaMismatch x y)"
    using pg.no_mismatch_after_reverse [of "(w, d)" L S down cf h ns "(w, d1)" steps "(w, d2)" s3 x y] assms r
    by (simp add: pg_ops_def on_pg_def)
next
  have tables: "calm e e' \<Longrightarrow> pg_tables e' = pg_tables e" for e e' :: pga
    by (cases e; cases e') (simp add: calm_def)
  fix e d2 assume "pg_apply_reverse down steps d1 = (Inl e, d2)"
  then have "calm d1 d2" using reverse_result by blast
  moreover have "calm d d1" by (rule keepsD [OF after_calm assms(2)])
  ultimately have "calm d d2" using transpD [OF calm_trans] by blast
  then show "pg_migs d2 = pg_migs d" "pg_tables d2 = pg_tables d" using tables by (simp_all add: calm_def)
qed

theorem pg_rollback_gate_witness:
  "\<exists>d2. pg_apply_reverse (\<lambda>_ t. Inr t) [\<lparr>ms_name = ''002'', ms_sql = []\<rparr>] (sample_pga [(1, ''001''), (2, ''002'')]) = (Inr (), d2) \<and>
     pg_schema d2 = ''001''"
proof -
  let ?d = "sample_pga [(1, ''001''), (2, ''002'')]"
  have after: "pg_migrations_after ''001'' ?d = (Inr [''002''], ?d)"
    by (simp add: pg_migrations_after_def db_read_def sample_calls bindA_def) (simp add: sample_pga_def names_desc_def)
  have ok: "pg_ok ?d" by (simp add: pg_ok_def sample_pga_def no_faults_def)
  let ?h = "\<lparr>sh_manifest = manifest_new ''001'', sh_schema = ''001''\<rparr>" and ?steps = "[\<lparr>ms_name = ''002'', ms_sql = []\<rparr>]"
  have "pg_migrations_after (sh_schema ?h) ?d = (Inr [''002''], ?d)" "map ms_name ?steps = [''002'']" using after by simp_all
  note gate = pg_rollback_gate [where L = sample_lib and S = "shelf sample_lib" and cf = "pg_config_new []" and w = "[]" and
      down = "\<lambda>_ t. Inr t", OF ok this]
  have "\<exists>d2. pg_apply_reverse (\<lambda>_ t. Inr t) ?steps ?d = (Inr (), d2) \<and> ad_poller d2 \<noteq> None"
    by (simp add: pg_apply_reverse_def map_errA_def db_write_def sample_calls bindA_def in_transaction_def
          apply_down_migration_tx_def Let_def db_call_def) (simp add: sample_pga_def map_err_def in_transaction_def bindA_def)
  then obtain d2 where d2: "pg_apply_reverse (\<lambda>_ t. Inr t) ?steps ?d = (Inr (), d2)" "ad_poller d2 \<noteq> None" by blast
  then obtain s3 where "pg_begin_restore ([] :: (hash \<times> bytes) list, d2) = (Inr (), s3)"
    by (auto simp: pg_begin_restore_def on_pg_def)
  with gate d2(1) have "pg_schema d2 = sh_schema ?h" by blast
  with d2(1) show ?thesis by auto
qed

end
