(* ===== verification/Startup.thy ===== *)
theory Startup
  imports Recovery Gcs_Store
begin

text \<open>
  How the daemon comes up (\<open>main.rs\<close> and \<open>objstore.rs\<close> of \<open>agenticd\<close>): the flags and their checks, the
  choice of the object store, the order in which the repository is opened, reconciled and put on
  the socket, the accept loop, and the wrappers that run the store on the blocking pool
  (\<open>store_async.rs\<close>). The flags arrive parsed and split. What the process finds around it (its file system, the
  network, the environment, the parsers of other crates) is a record \<open>host\<close>.
\<close>

section \<open>Flags\<close>

record args =
  ar_repo :: path
  ar_socket :: "path option"
  ar_postgres :: "string option"
  ar_tables :: "string list"
  ar_mcp :: "string list"
  ar_object_store :: string
  ar_allowed_uids :: "u32 list"
  ar_insecure :: bool
  ar_allowlist :: "path option"
  ar_exempt :: "string list"
  ar_key_file :: "path option"
  ar_max_connections :: nat
  ar_max_per_uid :: nat
  ar_rate :: u32
  ar_queue_depth :: nat
  ar_read_idle :: nat
  ar_write_idle :: nat

text \<open>No flag given, in a repository.\<close>

definition default_args :: "path \<Rightarrow> args" where
  "default_args repo =
     \<lparr>ar_repo = repo, ar_socket = None, ar_postgres = None, ar_tables = [], ar_mcp = [], ar_object_store = ''fs'',
      ar_allowed_uids = [], ar_insecure = False, ar_allowlist = None, ar_exempt = [''__langgraph__/''],
      ar_key_file = None, ar_max_connections = 64, ar_max_per_uid = 16, ar_rate = 200, ar_queue_depth = 8,
      ar_read_idle = 30, ar_write_idle = 30\<rparr>"

definition parse_tracked_table :: "string \<Rightarrow> anyhow + tracked_table" where
  "parse_tracked_table s =
     res_bind (ok_or [Ctx ''--tables expects table:pk''] (split_once (CHR '':'') s)) (\<lambda>(name, pk).
     Inr \<lparr>tt_name = str_trim name, tt_pk = str_trim pk\<rparr>)"

definition parse_tracked_tables :: "string list \<Rightarrow> anyhow + tracked_table list" where
  "parse_tracked_tables spec = try_map parse_tracked_table spec"

definition validate_exempt_prefix :: "string \<Rightarrow> anyhow + unit" where
  "validate_exempt_prefix p =
     res_bind (ensure (p \<noteq> []) [Ctx ''--scanner-exempt-entropy-prefix must not be empty'']) (\<lambda>_.
     res_bind (ensure (str_trim p = p) [Ctx ''--scanner-exempt-entropy-prefix must not contain leading/trailing whitespace'']) (\<lambda>_.
     res_bind (ensure (\<not> starts_with ''/'' p) [Ctx ''--scanner-exempt-entropy-prefix must be a relative prompt-tree prefix'']) (\<lambda>_.
     ensure (ends_with ''/'' p) [Ctx ''--scanner-exempt-entropy-prefix must end with a slash''])))"

fun validate_exempt_prefixes :: "string list \<Rightarrow> anyhow + unit" where
  "validate_exempt_prefixes [] = Inr ()"
| "validate_exempt_prefixes (p # ps) = res_bind (validate_exempt_prefix p) (\<lambda>_. validate_exempt_prefixes ps)"

definition peer_policy :: "u32 list \<Rightarrow> bool \<Rightarrow> anyhow + peer_auth_policy" where
  "peer_policy uids insecure =
     (case (uids = [], insecure) of
        (True, False) \<Rightarrow> Inl [Ctx ''agenticd refuses to start without peer-UID enforcement'']
      | (False, True) \<Rightarrow> Inl [Ctx ''--allowed-uid and --insecure-allow-any-uid are mutually exclusive'']
      | (True, True) \<Rightarrow> Inr InsecureAllowAny
      | (False, False) \<Rightarrow> Inr (Allowlist (remdups uids)))"

definition limits_of :: "args \<Rightarrow> limits_config" where
  "limits_of a =
     \<lparr>max_connections = ar_max_connections a, max_connections_per_uid = ar_max_per_uid a, rate_per_uid = ar_rate a,
      commit_queue_depth = ar_queue_depth a, read_idle = ar_read_idle a, write_idle = ar_write_idle a\<rparr>"

definition agentic_dir :: "args \<Rightarrow> path" where
  "agentic_dir a = ar_repo a @ [''.agentic'']"

definition allowlist_path :: "args \<Rightarrow> path" where
  "allowlist_path a =
     (case ar_allowlist a of Some p \<Rightarrow> p | None \<Rightarrow> agentic_dir a @ [''scanner-allowlist.toml''])"

definition socket_of :: "args \<Rightarrow> path" where
  "socket_of a = (case ar_socket a of Some p \<Rightarrow> p | None \<Rightarrow> agentic_dir a @ [''agenticd.sock''])"

text \<open>An unreadable or empty key file disables destructive rollback; one of another length is
  an error.\<close>

definition load_approval_key :: "path option \<Rightarrow> (fs, anyhow, approval_key option) act" where
  "load_approval_key p s =
     (case p of
        None \<Rightarrow> (Inr None, s)
      | Some p \<Rightarrow>
          (case fs_read p s of
             (Inl e, t) \<Rightarrow> (Inr None, t)
           | (Inr bs, t) \<Rightarrow>
               if bs = [] then (Inr None, t)
               else case approval_key_from_bytes bs of
                 Inl e \<Rightarrow> (Inl [Ctx ''approval key file is malformed; refusing to start''], t)
               | Inr k \<Rightarrow> (Inr (Some k), t)))"

section \<open>The object store\<close>

datatype object_store_spec = FsSpec path | GcsSpec string string path

definition spec_parse :: "string \<Rightarrow> path \<Rightarrow> anyhow + object_store_spec" where
  "spec_parse arg dir =
     (let spec = str_trim arg in
      if spec = [] \<or> spec = ''fs'' then Inr (FsSpec (dir @ [''objects'']))
      else case strip_prefix ''fs://'' spec of
        Some rest \<Rightarrow>
          if \<not> starts_with ''/'' rest then Inl [Ctx ''fs:// requires an absolute path'']
          else Inr (FsSpec (path_join [] rest))
      | None \<Rightarrow>
          (case strip_prefix ''gcs://'' spec of
             Some rest \<Rightarrow>
               (case (case split_once (CHR ''/'') rest of Some bp \<Rightarrow> bp | None \<Rightarrow> (rest, [])) of
                  (bucket, prefix) \<Rightarrow>
                    if bucket = [] then Inl [Ctx ''gcs:// requires a bucket name'']
                    else Inr (GcsSpec bucket (trim_matches (CHR ''/'') prefix) (dir @ [''gcs-cache''])))
           | None \<Rightarrow> Inl [Ctx ''unrecognised --object-store'']))"

record ('w, 'n) host =
  ho_view :: "'w fs_view"
  ho_net_get :: "'w \<Rightarrow> 'n"
  ho_net_put :: "'n \<Rightarrow> 'w \<Rightarrow> 'w"
  ho_http :: "'n http"
  ho_client :: "string + unit"
  ho_env :: "string \<Rightarrow> string option"
  ho_toml :: "string \<Rightarrow> string + string list"
  ho_url :: url_parser
  ho_mcp_net :: network
  ho_connect :: "string \<Rightarrow> tracked_table list \<Rightarrow> ('w, mem_error, 'w mem_ops) act"
  ho_init :: "'w mem_ops \<Rightarrow> ('w, mem_error, 'w mem_ops) act"

text \<open>An action on a part of the world, and a store that lives there.\<close>

definition via :: "('w \<Rightarrow> 's) \<Rightarrow> ('s \<Rightarrow> 'w \<Rightarrow> 'w) \<Rightarrow> ('s, 'e, 'a) act \<Rightarrow> ('w, 'e, 'a) act" where
  "via get upd m w = (case m (get w) of (r, s) \<Rightarrow> (r, upd s w))"

definition store_via :: "('w \<Rightarrow> 's) \<Rightarrow> ('s \<Rightarrow> 'w \<Rightarrow> 'w) \<Rightarrow> 's store_ops \<Rightarrow> 'w store_ops" where
  "store_via get upd S =
     \<lparr>st_put = (\<lambda>x p. via get upd (st_put S x p)), st_put_raw = (\<lambda>k bs. via get upd (st_put_raw S k bs)),
      st_get = (\<lambda>h. via get upd (st_get S h)), st_get_raw = (\<lambda>h. via get upd (st_get_raw S h)),
      st_has = (\<lambda>h w. case st_has S h (get w) of (b, s) \<Rightarrow> (b, upd s w))\<rparr>"

definition disk_store :: "('w, 'n) host \<Rightarrow> fs store_ops \<Rightarrow> 'w store_ops" where
  "disk_store H = store_via (view_get (ho_view H)) (view_put (ho_view H))"

definition remote_store :: "('w, 'n) host \<Rightarrow> (fs \<times> 'n) store_ops \<Rightarrow> 'w store_ops" where
  "remote_store H = store_via (\<lambda>w. (view_get (ho_view H) w, ho_net_get H w))
     (\<lambda>(f, n) w. ho_net_put H n (view_put (ho_view H) f w))"

definition endpoint_env :: string where "endpoint_env = ''AGENTIC_GCS_ENDPOINT''"
definition token_env :: string where "token_env = ''AGENTIC_GCS_TOKEN''"

fun spec_open :: "lib \<Rightarrow> ('w, 'n) host \<Rightarrow> object_store_spec \<Rightarrow> allowlist \<Rightarrow> ('w, anyhow, 'w store_ops) act" where
  "spec_open L H (FsSpec dir) al =
     bindA (with_context ''opening fs object store'' (on_fs (ho_view H) (core_any (store_open dir)))) (\<lambda>st.
     ret (disk_store H (fs_store_ops L (with_allowlist al st))))"
| "spec_open L H (GcsSpec bucket prefix cache_dir) al =
     bindA (with_context (''opening gcs object store '' @ bucket) (on_fs (ho_view H) (core_any
              (gcs_new (ho_client H) bucket prefix cache_dir (ho_env H endpoint_env) (ho_env H token_env))))) (\<lambda>g.
     ret (remote_store H (gcs_ops L (ho_http H) (gcs_with_allowlist al g))))"

section \<open>The socket\<close>

text \<open>A stale socket, or whatever else is there, is removed; binding makes the socket file and needs
  the path to be free.\<close>

definition claim_socket :: "path \<Rightarrow> (fs, anyhow, unit) act" where
  "claim_socket sock =
     bindA (if sock = [] then ret ()
            else with_context ''creating socket parent directory'' (io_any (fs_create_dir_all (butlast sock)))) (\<lambda>_ s.
     if path_exists s sock then with_context ''removing stale socket'' (io_any (fs_remove_file sock)) s
     else (Inr (), s))"

fun bind_e :: "path \<Rightarrow> ents \<Rightarrow> (io_error + unit) \<times> ents" where
  "bind_e p es =
     (if lookup es p \<noteq> None then (Inl (IoError IoOther ''address in use''), es)
      else case writable es p of
        Some e \<Rightarrow> (Inl e, es)
      | None \<Rightarrow> (Inr (), put_entry p FSpecial es))"

definition fs_bind :: "path \<Rightarrow> unit fsact" where
  "fs_bind p = prim whole (bind_e p)"

section \<open>Coming up\<close>

text \<open>The flags that are checked before anything is read or written.\<close>

definition check_flags :: "('w, 'n) host \<Rightarrow> args \<Rightarrow> anyhow + peer_auth_policy \<times> tracked_table list \<times> mcp_server_spec list" where
  "check_flags H a =
     res_bind (peer_policy (ar_allowed_uids a) (ar_insecure a)) (\<lambda>auth.
     res_bind (map_err (\<lambda>m. [Ctx ''validating socket limit flags'', Ctx m]) (validate_limits (limits_of a))) (\<lambda>_.
     res_bind (parse_tracked_tables (ar_tables a)) (\<lambda>tables.
     res_bind (parse_mcp_spec (ho_url H) (ar_mcp a)) (\<lambda>mcps.
     Inr (auth, tables, mcps)))))"

text \<open>What the store needs: the allowlist, the exempt prefixes and the store's own flag.\<close>

definition open_store :: "lib \<Rightarrow> ('w, 'n) host \<Rightarrow> args \<Rightarrow> ('w, anyhow, 'w store_ops) act" where
  "open_store L H a =
     bindA (with_context ''loading scanner allowlist'' (on_fs (ho_view H)
              (map_errA (\<lambda>_. [Ctx ''scanner allowlist'']) (allowlist_load L (ho_toml H) (allowlist_path a))))) (\<lambda>al.
     bindA (lift_res (validate_exempt_prefixes (ar_exempt a))) (\<lambda>_.
     bindA (with_context ''parsing --object-store'' (lift_res (spec_parse (ar_object_store a) (agentic_dir a)))) (\<lambda>spec.
     with_context ''opening object store'' (spec_open L H spec al))))"

text \<open>The refs are reconciled before the socket is bound.\<close>

definition reconcile :: "lib \<Rightarrow> ('w, 'n) host \<Rightarrow> args \<Rightarrow> 'w store_ops \<Rightarrow> ('w, anyhow, unit) act" where
  "reconcile L H a S =
     bindA (with_context ''opening refs at startup'' (on_fs (ho_view H) (core_any (refs_open (agentic_dir a))))) (\<lambda>R.
     with_context ''startup ref reconciliation'' (reconcile_refs_on_startup L S (ho_view H) R))"

definition startup :: "lib \<Rightarrow> ('w, 'n) host \<Rightarrow> args \<Rightarrow> ('w, anyhow, 'w daemon) act" where
  "startup L H a =
     bindA (lift_res (check_flags H a)) (\<lambda>(auth, tables, mcps).
     bindA (open_store L H a) (\<lambda>S.
     bindA (on_fs (ho_view H) (claim_socket (socket_of a))) (\<lambda>_.
     bindA (reconcile L H a S) (\<lambda>_.
     bindA (on_fs (ho_view H) (load_approval_key (ar_key_file a))) (\<lambda>key.
     bindA (daemon_open (ho_view H) (ho_connect H) (ho_init H) (ar_repo a) (agentic_dir a) S (ar_postgres a)
              tables mcps (ho_mcp_net H) auth) (\<lambda>D.
     bindA (with_context ''binding'' (on_fs (ho_view H) (io_any (fs_bind (socket_of a))))) (\<lambda>_.
     ret (with_exempt_entropy_prefixes (ar_exempt a) (with_limits (limits_of a) (with_approval_key key D))))))))))"

section \<open>Accepting connections\<close>

text \<open>What the accept loop finds next: a connection that could not be accepted or whose peer is
  unknown, the peer's user, the end of the task of an open connection, or the shutdown signal.
  Of several things that are ready the loop takes any.\<close>

datatype accept_event = AcceptFails | CredFails | Peer u32 | Closes nat | Cancelled

datatype accept_log = LAcceptFailed | LCredFailed | LNotAllowed u32 | LRejected conn_rejection

record acceptor =
  ac_gate :: conn_gate
  ac_open :: "(u32 \<times> u32 option) list"
  ac_log :: "accept_log list"

definition acceptor_new :: "limits_config \<Rightarrow> acceptor" where
  "acceptor_new c = \<lparr>ac_gate = gate_new c, ac_open = [], ac_log = []\<rparr>"

definition warn :: "accept_log \<Rightarrow> acceptor \<Rightarrow> acceptor" where
  "warn l x = x\<lparr>ac_log := ac_log x @ [l]\<rparr>"

fun accept_turn :: "peer_auth_policy \<Rightarrow> accept_event \<Rightarrow> acceptor \<Rightarrow> acceptor" where
  "accept_turn auth AcceptFails x = warn LAcceptFailed x"
| "accept_turn auth CredFails x = warn LCredFailed x"
| "accept_turn auth (Peer uid) x =
     (if \<not> is_allowed auth uid then warn (LNotAllowed uid) x
      else case try_admit uid (ac_gate x) of
        (Inl r, g) \<Rightarrow> warn (LRejected r) (x\<lparr>ac_gate := g\<rparr>)
      | (Inr u, g) \<Rightarrow> x\<lparr>ac_gate := g, ac_open := ac_open x @ [(uid, attestation_for auth uid)]\<rparr>)"
| "accept_turn auth (Closes i) x =
     (if i < length (ac_open x)
      then x\<lparr>ac_gate := drop_guard (fst (ac_open x ! i)) (ac_gate x),
             ac_open := take i (ac_open x) @ drop (Suc i) (ac_open x)\<rparr>
      else x)"
| "accept_turn auth Cancelled x = x"

text \<open>The loop, and whether it has been left.\<close>

fun accept_loop :: "peer_auth_policy \<Rightarrow> accept_event list \<Rightarrow> acceptor \<Rightarrow> bool \<times> acceptor" where
  "accept_loop auth [] x = (False, x)"
| "accept_loop auth (e # es) x =
     (if e = Cancelled then (True, x) else accept_loop auth es (accept_turn auth e x))"

section \<open>The store on the blocking pool\<close>

datatype panic_payload = PayloadStr string | PayloadString string | PayloadOther

datatype join_error = JoinPanic panic_payload | JoinError string

fun panic_text :: "panic_payload \<Rightarrow> string" where
  "panic_text (PayloadStr s) = s"
| "panic_text (PayloadString s) = s"
| "panic_text PayloadOther = ''(non-string payload)''"

fun join_text :: "string \<Rightarrow> join_error \<Rightarrow> string" where
  "join_text label (JoinPanic p) = ''spawn_blocking task for '' @ label @ '' panicked: '' @ panic_text p"
| "join_text label (JoinError m) = ''spawn_blocking join error in '' @ label @ '': '' @ m"

text \<open>A task of the pool ends with the closure's result, or with an error of its own.\<close>

definition run_blocking :: "string \<Rightarrow> ('w \<Rightarrow> (join_error + (core_error + 'a)) \<times> 'w) \<Rightarrow> ('w, anyhow, 'a) act" where
  "run_blocking label f w =
     (case f w of
        (Inl je, w') \<Rightarrow> (Inl [Ctx (join_text label je)], w')
      | (Inr r, w') \<Rightarrow> (map_err (\<lambda>e. [LCore e]) r, w'))"

definition spawned :: "('w, core_error, 'a) act \<Rightarrow> 'w \<Rightarrow> (join_error + (core_error + 'a)) \<times> 'w" where
  "spawned m w = (case m w of (r, w') \<Rightarrow> (Inr r, w'))"

definition async_get :: "'w store_ops \<Rightarrow> hash \<Rightarrow> ('w, anyhow, obj) act" where
  "async_get S h = run_blocking ''ObjectStore::get'' (spawned (st_get S h))"

definition async_get_raw :: "'w store_ops \<Rightarrow> hash \<Rightarrow> ('w, anyhow, bytes) act" where
  "async_get_raw S h = run_blocking ''ObjectStore::get_raw'' (spawned (st_get_raw S h))"

definition async_put_raw :: "'w store_ops \<Rightarrow> object_kind \<Rightarrow> bytes \<Rightarrow> ('w, anyhow, hash) act" where
  "async_put_raw S k bs = run_blocking ''ObjectStore::put_raw'' (spawned (st_put_raw S k bs))"

text \<open>Off the reactor the store does what it does on it: this is how the loaders call it.\<close>

lemma async_same:
  "async_get S h = core_any (st_get S h)" "async_get_raw S h = core_any (st_get_raw S h)"
  "async_put_raw S k bs = core_any (st_put_raw S k bs)"
  by (simp_all add: fun_eq_iff async_get_def async_get_raw_def async_put_raw_def run_blocking_def spawned_def
      core_any_def map_errA_def split: prod.splits)

section \<open>What the reconciliation establishes\<close>

lemma mapA_reaches:
  assumes "reflp Q" "transp Q" "\<And>x. keeps Q (f x)"
  shows "mapA f xs s = (Inr ys, t) \<Longrightarrow> x \<in> set xs \<Longrightarrow> \<exists>y u v. y \<in> set ys \<and> Q s u \<and> f x u = (Inr y, v)"
proof (induction xs arbitrary: s ys)
  case (Cons z xs)
  obtain y zs u where st: "f z s = (Inr y, u)" "mapA f xs u = (Inr zs, t)" "ys = y # zs"
    using Cons.prems(1) by (auto simp: bindA_ok_iff)
  show ?case
  proof (cases "x = z")
    case True
    with st reflpD [OF assms(1), of s] show ?thesis by auto
  next
    case False
    with Cons.prems(2) have "x \<in> set xs" by simp
    then obtain y' u' v where "y' \<in> set zs" "Q u u'" "f x u' = (Inr y', v)"
      using Cons.IH [OF st(2)] by blast
    with st(3) keepsD [OF assms(3) st(1)] assms(2) show ?thesis by (auto dest: transpD)
  qed
qed simp

lemma read_dir_content: "fs_read_dir p s = (Inr kids, u) \<Longrightarrow> kids = children (entries s) p"
  unfolding fs_read_dir_def
  by (cases rule: prim_cases [of whole "read_dir_e p" s]) (auto split: option.splits if_splits)

lemma collect_covers:
  "es_ok (entries s) \<Longrightarrow> collect_branch_files n base dir s = (Inr ns, t) \<Longrightarrow> listed (entries s) dir q \<Longrightarrow>
     rel_name base q \<in> set ns"
proof (induction n arbitrary: dir s ns t)
  case (Suc n)
  let ?f = "\<lambda>(name, e). case e of
           FDir \<Rightarrow> collect_branch_files n base (dir @ [name])
         | FFile _ \<Rightarrow>
             ret (if utf8_ok (str_bytes name) \<and> \<not> ends_with ''.tmp'' name
                  then [rel_name base (dir @ [name])] else [])
         | _ \<Rightarrow> ret []"
  obtain u nss where r: "fs_read_dir dir s = (Inr (children (entries s) dir), u)"
    "mapA ?f (children (entries s) dir) u = (Inr nss, t)" "ns = concat nss"
    using Suc.prems(2) by (auto simp: bindA_ok_iff dest: read_dir_content)
  have u: "entries u = entries s" using keepsD [OF read_dir_entries r(1)] by (simp add: same_entries_def)
  have keep: "keeps same_entries (?f k)" for k
    using collect_entries same_entries_rel(1) by (auto intro!: keeps_basic split: entry.splits prod.splits)
  obtain x e where x: "map_of (entries s) (dir @ [x]) = Some e"
    "case e of FDir \<Rightarrow> listed (entries s) (dir @ [x]) q
       | FFile _ \<Rightarrow> q = dir @ [x] \<and> utf8_ok (str_bytes x) \<and> \<not> ends_with ''.tmp'' x | _ \<Rightarrow> False"
    using listed_child [OF Suc.prems(1), THEN iffD1, OF Suc.prems(3)] by blast
  have "(x, e) \<in> set (children (entries s) dir)"
    using x(1) Suc.prems(1) by (simp add: es_ok_iff set_children)
  then obtain ys v w where y: "ys \<in> set nss" "same_entries u v" "?f (x, e) v = (Inr ys, w)"
    using mapA_reaches [OF same_entries_rel keep r(2)] by blast
  have v: "entries v = entries s" using y(2) u by (simp add: same_entries_def)
  have "rel_name base q \<in> set ys"
  proof (cases e)
    case FDir
    with x(2) y(3) v Suc.prems(1) show ?thesis by (intro Suc.IH [of v "dir @ [x]" ys w]) auto
  qed (use x(2) y(3) in auto)
  with y(1) r(3) show ?case by auto
qed simp

lemma somes_empty: "somes xs = [] \<Longrightarrow> x \<in> set xs \<Longrightarrow> x = None"
  by (induction xs rule: somes.induct) auto

text \<open>Names of Rust are UTF-8; so are the names of the ref files, unless someone else put them there.\<close>

definition utf8_refs :: "refs \<Rightarrow> fs \<Rightarrow> bool" where
  "utf8_refs R f \<longleftrightarrow>
     (\<forall>q c. map_of (entries f) (heads_dir R @ q) = Some (FFile c) \<longrightarrow> utf8_ok (str_bytes (join_with ''/'' q)))"

lemma read_branch_reads:
  assumes "branch_path R b = Inr p" "map_of (entries u) p = Some (FFile c)" "line_hash L c = Some h"
    and "read_branch L R b u = (Inr x, v)"
  shows "x = Some h"
proof -
  have "p \<noteq> []" using branch_path_last(1) [OF assms(1)] .
  then have p: "path_exists u p" "lookup (entries u) p = Some (FFile c)"
    using assms(2) by (simp_all add: path_exists_def lookup_map_of)
  obtain bs where bs: "fs_read p u = (Inr bs, v)" "map_option Some (line_hash L bs) = Some x"
    using assms(1, 4) p(1)
    by (auto simp: read_branch_def read_ref_file_def bindA_ok_iff fs_read_to_string_def line_hash_def parse_hash_def
        map_err_Inr_iff split: if_splits)
  from fs_read_content [OF bs(1)] p(2) bs(2) assms(3) show ?thesis by simp
qed

lemma local_has: "st_has (im_store (fs_store_ops L (beside R al))) h (f, m) = (path_exists f (path_for L (beside R al) h), (f, m))"
  by (simp add: im_store_def fs_store_ops_def Object_Store.store_has_def)

lemma broken_tip_reads:
  "keeps (first_rel same_entries) (broken_tip L (im_store (fs_store_ops L (beside R al))) im_view R b)"
proof -
  have has: "keeps (first_rel same_entries) (has_object (im_store (fs_store_ops L (beside R al))) h)" for h
    using reflpD [OF same_entries_rel(1)]
    by (auto simp: keeps_def has_object_def local_has first_rel_def split: prod.splits)
  show ?thesis
    unfolding broken_tip_def on_fs_im
    by (intro keeps_rules first_rel_rel same_entries_rel keeps_any keeps_on_first refs_entries)
      (auto intro!: keeps_rules first_rel_rel same_entries_rel has split: option.split)
qed

lemma unbroken_tip:
  assumes "branch_path R b = Inr p" "map_of (entries f) p = Some (FFile c)" "line_hash L c = Some h"
    and "broken_tip L (im_store (fs_store_ops L (beside R al))) im_view R b (f, m) = (Inr None, y)"
  shows "present L R al f h"
proof -
  obtain x g where x: "read_branch L R b f = (Inr x, g)"
    "(case x of None \<Rightarrow> ret None | Some tip \<Rightarrow>
        bindA (has_object (im_store (fs_store_ops L (beside R al))) tip) (\<lambda>ok. ret (if ok then None else Some (b, to_hex L tip)))) (g, m) = (Inr None, y)"
    using assms(4) by (auto simp: broken_tip_def bindA_ok_iff on_fs_im)
  have "x = Some h" using read_branch_reads [OF assms(1-3) x(1)] .
  moreover have "entries g = entries f" using keepsD [OF refs_entries(2) x(1)] by (simp add: same_entries_def)
  ultimately show ?thesis
    using x(2) by (auto simp: bindA_ok_iff has_object_def local_has present_def path_exists_def split: if_splits)
qed

lemma list_covers:
  assumes "fs_ok f" "list_branches R f = (Inr ns, g)" "listed (entries f) (heads_dir R) q"
  shows "rel_name (heads_dir R) q \<in> set ns"
proof -
  have es: "es_ok (entries f)" using assms(1) by (simp add: fs_ok_def)
  obtain c cs b where "q = heads_dir R @ c # cs" "map_of (entries f) q = Some (FFile b)"
    using assms(3) by (auto simp: listed_def)
  then have "lookup (entries f) (heads_dir R) = Some FDir"
    using es_ok_prefix_dir [OF es, of "R @ [''refs'']" "''heads''" "c # cs"]
    by (auto simp: lookup_def heads_dir_def)
  then have "path_exists f (heads_dir R)" by (simp add: path_exists_def)
  with assms(2) collect_covers [OF es _ assms(3)] show ?thesis
    by (simp add: list_branches_def del: collect_branch_files.simps)
qed

lemma reconcile_sound:
  assumes "fs_ok f" "utf8_refs R f"
    and "reconcile_refs_on_startup L (im_store (fs_store_ops L (beside R al))) im_view R (f, m) = (Inr (), y)"
  shows "tips_ok L R al f"
  unfolding tips_ok_def
proof (intro allI impI, elim conjE)
  fix b p c h assume b: "branch_path R b = Inr p" "map_of (entries f) p = Some (FFile c)" "line_hash L c = Some h"
  let ?S = "im_store (fs_store_ops L (beside R al))"
  have valid: "validate_branch_name b = Inr ()" using b(1) by (auto simp: branch_path_def res_bind_Inr_iff)
  have p: "p = heads_dir R @ split_on (CHR ''/'') b" using branch_path_ok(1) [OF b(1)] .
  have utf8: "utf8_ok (str_bytes b)"
    using assms(2) b(2) unfolding p utf8_refs_def by (metis join_split_on)
  have listed: "listed (entries f) (heads_dir R) p"
    using branch_file_listed [OF valid utf8] b(2) by (simp add: p)
  obtain ns u xs v where r: "on_first (list_branches R) (f, m) = (Inr ns, u)"
    "mapA (broken_tip L ?S im_view R) ns u = (Inr xs, v)" "somes xs = []"
    using assms(3)
    by (auto simp: reconcile_refs_on_startup_def broken_tips_def bindA_ok_iff on_fs_im split: if_splits)
  obtain g where g: "list_branches R f = (Inr ns, g)" "u = (g, m)" using r(1) by auto
  have "entries g = entries f" using keepsD [OF list_entries(1) g(1)] by (simp add: same_entries_def)
  have "b \<in> set ns"
    using list_covers [OF assms(1) g(1) listed] rel_name_branch [OF valid utf8] by (simp add: p)
  from mapA_reaches [OF first_rel_rel(1) [OF same_entries_rel(1)] first_rel_rel(2) [OF same_entries_rel(2)]
      broken_tip_reads r(2) this]
  obtain o' z w where o: "o' \<in> set xs" "first_rel same_entries u z"
    "broken_tip L ?S im_view R b z = (Inr o', w)" by blast
  have same: "entries (fst z) = entries f"
    using o(2) g(2) \<open>entries g = entries f\<close> by (simp add: first_rel_def same_entries_def)
  have "o' = None" using somes_empty [OF r(3) o(1)] .
  with unbroken_tip [OF b(1) _ b(3), of "fst z" al "snd z" w] b(2) same o(3)
  have "present L R al (fst z) h" by simp
  then show "present L R al f h" using same by (simp add: present_def path_exists_def)
qed

section \<open>What a startup does on the way\<close>

lemma on_fs_any:
  "on_fs V (io_any m) s = (Inr x, t) \<longleftrightarrow> on_fs V m s = (Inr x, t)"
  "on_fs V (core_any n) s = (Inr y, t) \<longleftrightarrow> on_fs V n s = (Inr y, t)"
  by (auto simp: on_fs_def io_any_def core_any_def map_errA_def split: prod.splits)

lemma startup_steps:
  assumes "startup L H a w = (Inr D, w')"
  obtains auth tables mcps S w1 w2 w3 key w4 E w5 where
    "check_flags H a = Inr (auth, tables, mcps)" "open_store L H a w = (Inr S, w1)"
    "on_fs (ho_view H) (claim_socket (socket_of a)) w1 = (Inr (), w2)" "reconcile L H a S w2 = (Inr (), w3)"
    "on_fs (ho_view H) (load_approval_key (ar_key_file a)) w3 = (Inr key, w4)"
    "daemon_open (ho_view H) (ho_connect H) (ho_init H) (ar_repo a) (agentic_dir a) S (ar_postgres a) tables mcps
       (ho_mcp_net H) auth w4 = (Inr E, w5)"
    "on_fs (ho_view H) (fs_bind (socket_of a)) w5 = (Inr (), w')"
    "D = with_exempt_entropy_prefixes (ar_exempt a) (with_limits (limits_of a) (with_approval_key key E))"
  using assms unfolding startup_def by (auto simp: bindA_ok_iff on_fs_any split: prod.splits)

lemma daemon_open_ok:
  assumes "daemon_open V connect init repo dir S url tables mcps net auth w = (Inr E, w')"
  shows "d_repo E = repo" "d_store E = S" "d_view E = V" "d_refs E = dir" "d_mcp E = mcps" "d_auth E = auth"
    "distinct (map mcp_name mcps)" "d_memory E = None \<longleftrightarrow> url = None" "url \<noteq> None \<Longrightarrow> tables \<noteq> []"
proof -
  have names: "check_server_names ms seen = Inr u \<Longrightarrow> distinct (map mcp_name ms) \<and> set (map mcp_name ms) \<inter> set seen = {}"
    for ms seen u
    by (induction ms seen rule: check_server_names.induct) (auto split: if_splits)
  have open_none: "backend_open connect init b s = (Inr M, t) \<Longrightarrow> M = None \<longleftrightarrow> b = NoBackend" for b s M t
    by (cases b) (auto simp: bindA_ok_iff)
  obtain b M u v x where r: "backend_from_flags url tables = Inr b" "backend_open connect init b u = (Inr M, v)"
    "check_server_names mcps [] = Inr x" "d_memory E = M"
    and flat: "d_repo E = repo" "d_store E = S" "d_view E = V" "d_refs E = dir" "d_mcp E = mcps" "d_auth E = auth"
    using assms
    by (auto simp: daemon_open_def bindA_ok_iff on_fs_def core_any_def map_errA_def refs_open_def split: prod.splits sum.splits)
  show "d_repo E = repo" "d_store E = S" "d_view E = V" "d_refs E = dir" "d_mcp E = mcps" "d_auth E = auth" by (fact flat)+
  show "distinct (map mcp_name mcps)" using names [OF r(3)] by simp
  show "d_memory E = None \<longleftrightarrow> url = None" "url \<noteq> None \<Longrightarrow> tables \<noteq> []"
    using open_none [OF r(2)] r(1, 4) by (auto simp: backend_from_flags_def split: option.splits if_splits)
qed

text \<open>No file appears, and the file system stays well formed.\<close>

definition tidy :: "fs \<Rightarrow> fs \<Rightarrow> bool" where
  "tidy f g \<longleftrightarrow> (fs_ok f \<longrightarrow> fs_ok g) \<and>
     (\<forall>p c. map_of (entries g) p = Some (FFile c) \<longrightarrow> map_of (entries f) p = Some (FFile c))"

lemma tidy_rel: "reflp tidy" "transp tidy"
  by (auto simp: tidy_def reflp_def transp_def)

lemma tidy_frame: "keeps (frame (\<lambda>_. False)) m \<Longrightarrow> preserves fs_ok m \<Longrightarrow> keeps tidy m"
  unfolding keeps_def preserves_def tidy_def using frame_new by blast

lemma tidy_io:
  "keeps tidy (fs_create_dir_all p)" "keeps tidy (fs_read p)" "keeps tidy (fs_read_to_string p)" "keeps tidy (fs_remove_file p)"
proof -
  show "keeps tidy (fs_create_dir_all p)" "keeps tidy (fs_read p)" "keeps tidy (fs_read_to_string p)"
    by (rule tidy_frame, (rule keeps_fs_create_dir_all keeps_fs_read keeps_fs_read_to_string), intro pres_intros)+
  have "map_of (entries s) q = Some (FFile c)"
    if "map_of (entries (snd (fs_remove_file p s))) q = Some (FFile c)" for s q c
    using that unfolding fs_remove_file_def
    by (cases rule: prim_cases [of whole "remove_file_e p" s])
      (auto simp: whole_def split: option.splits if_splits)
  with preserves_fs_remove_file show "keeps tidy (fs_remove_file p)"
    unfolding keeps_def tidy_def preserves_def by blast
qed

lemma tidy_claim: "keeps tidy (claim_socket p)"
  unfolding claim_socket_def
proof (rule keeps_bindA [OF tidy_rel(2)])
  show "keeps tidy (if p = [] then ret () else with_context c (io_any (fs_create_dir_all (butlast p))))" for c
    by (simp add: keeps_basic(1) [OF tidy_rel(1)] keeps_any tidy_io)
  show "keeps tidy (\<lambda>s. if path_exists s p then with_context c (io_any (fs_remove_file p)) s else (Inr (), s))" for c
    using keeps_any(4) [OF keeps_any(3) [OF tidy_io(4)], of c p] reflpD [OF tidy_rel(1)] by (simp add: keeps_def)
qed

lemma tidy_opens: "keeps tidy (refs_open dir)" "keeps tidy (store_open dir)" "keeps tidy (allowlist_load L toml p)"
proof -
  show "keeps tidy (refs_open dir)" "keeps tidy (store_open dir)"
    unfolding refs_open_def store_open_def by (intro keeps_rules tidy_io tidy_rel)+
  show "keeps tidy (allowlist_load L toml p)"
    using keepsD [OF tidy_io(3)] unfolding keeps_def allowlist_load_def by (auto split: prod.splits sum.splits)
qed

lemma via_im: "via (view_get im_view) (view_put im_view) m = on_first m"
  by (auto simp: fun_eq_iff via_def im_view_def on_first_def split: prod.splits)

lemma disk_store_im: "ho_view H = im_view \<Longrightarrow> disk_store H S = im_store S"
  unfolding disk_store_def store_via_def im_store_def
  by (auto simp: via_im fun_eq_iff) (auto simp: im_view_def split: prod.splits)

text \<open>The default store, beside the refs.\<close>

definition local_args :: "args \<Rightarrow> bool" where
  "local_args a \<longleftrightarrow> ar_postgres a = None \<and>
     spec_parse (ar_object_store a) (agentic_dir a) = Inr (FsSpec (agentic_dir a @ [''objects'']))"

lemma open_store_local:
  assumes "ho_view H = im_view" "local_args a" "open_store L H a (f, m) = (Inr S, w)"
  shows "\<exists>al g. S = im_store (fs_store_ops L (beside (agentic_dir a) al)) \<and> w = (g, m) \<and> tidy f g"
proof -
  let ?load = "map_errA (\<lambda>_. [Ctx ''scanner allowlist'']) (allowlist_load L (ho_toml H) (allowlist_path a))"
  obtain al u where l: "on_first ?load (f, m) = (Inr al, u)"
    "spec_open L H (FsSpec (agentic_dir a @ [''objects''])) al u = (Inr S, w)"
    using assms unfolding open_store_def local_args_def by (auto simp: bindA_ok_iff on_fs_im)
  obtain g st h where st: "u = (g, m)" "store_open (agentic_dir a @ [''objects'']) g = (Inr st, h)" "w = (h, m)"
    "S = disk_store H (fs_store_ops L (with_allowlist al st))"
    using l assms(1) by (auto simp: bindA_ok_iff on_fs_im core_any_def)
  have "with_allowlist al st = beside (agentic_dir a) al"
    using st(2) by (auto simp: store_open_def bindA_ok_iff with_allowlist_def beside_def)
  moreover have "?load f = (Inr al, g)" using l(1) st(1) by simp
  then have "tidy f g" by (rule keepsD [OF keeps_map_errA [OF tidy_opens(3)]])
  moreover have "tidy g h" using keepsD [OF tidy_opens(2) st(2)] .
  ultimately show ?thesis using st(3, 4) tidy_rel(2) disk_store_im [OF assms(1)] by (auto dest: transpD)
qed

text \<open>After the reconciliation nothing changes the refs or takes an object out.\<close>

lemma steady_io:
  "keeps (steady L R al) (fs_create_dir_all p)" "keeps (steady L R al) (load_approval_key k)"
  "keeps (steady L R al) (refs_open dir)" "keeps (steady L R al) (fs_bind p)"
proof -
  note quiet_frame = frame_steady [where P = "\<lambda>_. False"]
  show dir: "keeps (steady L R al) (fs_create_dir_all p)" for p
    by (rule quiet_frame) (simp_all add: keeps_fs_create_dir_all)
  then show "keeps (steady L R al) (refs_open dir)"
    unfolding refs_open_def by (intro keeps_rules steady_rel)
  have read: "keeps (steady L R al) (fs_read q)" for q by (rule quiet_frame) (simp_all add: keeps_fs_read)
  show "keeps (steady L R al) (load_approval_key k)"
    using keepsD [OF read] reflpD [OF steady_rel(1)]
    unfolding keeps_def load_approval_key_def by (auto split: option.split prod.split sum.split)
  have bind: "map_of (entries t) q = map_of (entries s) q \<or>
      (map_of (entries s) q = None \<and> map_of (entries t) q = Some FSpecial)"
    if "fs_bind p s = (r, t)" for s t r q
    using that unfolding fs_bind_def
    by (cases rule: prim_cases [of whole "bind_e p" s])
      (auto simp: whole_def lookup_def split: option.splits if_splits)
  have "ref_same R s t \<and> grows L R al s t" if b: "fs_bind p s = (r, t)" for s t r
  proof
    show "ref_same R s t"
      using bind [OF b] unfolding ref_same_def ref_moved_def by (metis entry.distinct(5) option.inject option.distinct(1))
    have "path_exists t q" if "path_exists s q" for q
      using that bind [OF b, of q] by (auto simp: path_exists_def lookup_def)
    then show "grows L R al s t" by (simp add: grows_def present_def)
  qed
  then show "keeps (steady L R al) (fs_bind p)"
    unfolding keeps_def steady_def by (metis prod.collapse)
qed

lemma reconcile_reads:
  "keeps (first_rel same_entries) (reconcile_refs_on_startup L (im_store (fs_store_ops L (beside R al))) im_view R)"
  unfolding reconcile_refs_on_startup_def broken_tips_def on_fs_im
  by (intro keeps_rules keeps_any first_rel_rel same_entries_rel keeps_on_first list_entries broken_tip_reads)
    (auto intro!: keeps_rules keeps_any first_rel_rel same_entries_rel)

lemma tidy_refs: "tidy f g \<Longrightarrow> utf8_refs R f \<Longrightarrow> utf8_refs R g"
  unfolding tidy_def utf8_refs_def by blast

lemma reconcile_local:
  assumes "ho_view H = im_view" "S = im_store (fs_store_ops L (beside (agentic_dir a) al))"
    and "fs_ok f" "utf8_refs (agentic_dir a) f" "reconcile L H a S (f, m) = (Inr (), w)"
  shows "tips_ok L (agentic_dir a) al (fst w)"
proof -
  obtain g R where g: "refs_open (agentic_dir a) f = (Inr R, g)"
    "reconcile_refs_on_startup L S im_view R (g, m) = (Inr (), w)"
    using assms(1, 5) by (auto simp: reconcile_def bindA_ok_iff on_fs_im core_any_def)
  have R: "R = agentic_dir a" using g(1) by (auto simp: refs_open_def bindA_ok_iff)
  have t: "tidy f g" using keepsD [OF tidy_opens(1) g(1)] .
  then have "fs_ok g" using assms(3) by (simp add: tidy_def)
  from reconcile_sound [OF this tidy_refs [OF t assms(4)]] g(2) have "tips_ok L (agentic_dir a) al g"
    by (simp add: R assms(2))
  moreover have "entries (fst w) = entries g"
    using keepsD [OF reconcile_reads] g(2) by (fastforce simp: R assms(2) first_rel_def same_entries_def)
  ultimately show ?thesis by (simp add: tips_ok_def present_def path_exists_def)
qed

lemma open_daemon_steady:
  assumes "daemon_open im_view connect init repo dir S None tables mcps net auth x = (Inr E, y)"
  shows "steady L R al (fst x) (fst y)"
proof -
  let ?Q = "first_rel (steady L R al)"
  have none: "bindA (lift_res (Inr b)) g = g b" for b :: 'x and g :: "'x \<Rightarrow> (fs im, anyhow, 'y) act"
    by (simp add: bindA_def fun_eq_iff)
  have "keeps ?Q (daemon_open im_view connect init repo dir S None tables mcps net auth)"
    unfolding daemon_open_def on_fs_im backend_from_flags_def option.case none backend_open.simps
    by (intro keeps_rules keeps_any first_rel_rel steady_rel keeps_on_first steady_io)
  then show ?thesis using assms by (fastforce dest: keepsD simp: first_rel_def)
qed

section \<open>The flags of a daemon that came up\<close>

lemma split_on_cut: "split_on c (d @ c # x) = split_on c d @ split_on c x"
  by (induction d) (auto split: list.split)

lemma join_append: "xs \<noteq> [] \<Longrightarrow> ys \<noteq> [] \<Longrightarrow> join_with c (xs @ ys) = join_with c xs @ c @ join_with c ys"
  by (induction c xs rule: join_with.induct) (auto simp: neq_Nil_conv)

text \<open>A checked prefix names whole directories.\<close>

lemma exempt_prefix_directory:
  assumes "validate_exempt_prefix p = Inr ()"
  shows "\<exists>ds. split_on (CHR ''/'') p = ds @ [[]] \<and> ds \<noteq> [] \<and> hd ds \<noteq> [] \<and>
    (\<forall>name. starts_with p name \<longleftrightarrow> (\<exists>r. r \<noteq> [] \<and> split_on (CHR ''/'') name = ds @ r))"
proof -
  have "p \<noteq> []" "\<not> starts_with ''/'' p" "ends_with ''/'' p"
    using assms by (auto simp: validate_exempt_prefix_def res_bind_Inr_iff)
  then obtain d where d: "p = d @ ''/''" "d \<noteq> []" "hd d \<noteq> CHR ''/''"
    unfolding ends_with_iff starts_with_iff by (metis append_Cons append_Nil list.collapse)
  let ?ds = "split_on (CHR ''/'') d"
  have p: "split_on (CHR ''/'') p = ?ds @ [[]]" using split_on_cut [of "CHR ''/''" d "[]"] d(1) by simp
  have hd: "hd ?ds \<noteq> []" using d(2, 3) by (cases d) (auto split: list.split)
  have "starts_with p name \<longleftrightarrow> (\<exists>r. r \<noteq> [] \<and> split_on (CHR ''/'') name = ?ds @ r)" for name
  proof
    assume "starts_with p name"
    then obtain x where "name = d @ CHR ''/'' # x" using d(1) by (auto simp: starts_with_iff)
    then show "\<exists>r. r \<noteq> [] \<and> split_on (CHR ''/'') name = ?ds @ r"
      by (intro exI [of _ "split_on (CHR ''/'') x"]) (simp add: split_on_cut)
  next
    assume "\<exists>r. r \<noteq> [] \<and> split_on (CHR ''/'') name = ?ds @ r"
    then obtain r where r: "r \<noteq> []" "split_on (CHR ''/'') name = ?ds @ r" by blast
    have "name = join_with ''/'' (?ds @ r)" using r(2) join_split_on by metis
    also have "\<dots> = d @ ''/'' @ join_with ''/'' r" using r(1) by (simp add: join_append join_split_on)
    finally show "starts_with p name" using d(1) by (simp add: starts_with_iff)
  qed
  with p hd show ?thesis by (intro exI [of _ ?ds]) simp
qed

lemma exempt_prefixes_each: "validate_exempt_prefixes ps = Inr () \<longleftrightarrow> (\<forall>p\<in>set ps. validate_exempt_prefix p = Inr ())"
  by (induction ps) (auto simp: res_bind_Inr_iff)

text \<open>A blob escapes the entropy heuristic only inside a directory that a flag names.\<close>

definition exempt_inside :: "string list \<Rightarrow> bool" where
  "exempt_inside ps \<longleftrightarrow> (\<forall>name. skip_entropy (entry_policy ps name) \<longrightarrow>
     (\<exists>p\<in>set ps. \<exists>ds r. split_on (CHR ''/'') p = ds @ [[]] \<and> ds \<noteq> [] \<and> hd ds \<noteq> [] \<and> r \<noteq> [] \<and>
        split_on (CHR ''/'') name = ds @ r))"

lemma exempt_ok: "validate_exempt_prefixes ps = Inr () \<Longrightarrow> exempt_inside ps"
  unfolding exempt_inside_def
proof (intro allI impI)
  fix name assume ps: "validate_exempt_prefixes ps = Inr ()" and "skip_entropy (entry_policy ps name)"
  then obtain p where p: "p \<in> set ps" "starts_with p name"
    by (auto simp: entry_policy_def default_policy_def list_ex_iff split: if_splits)
  then have "validate_exempt_prefix p = Inr ()" using ps by (simp add: exempt_prefixes_each)
  from exempt_prefix_directory [OF this] p
  show "\<exists>p\<in>set ps. \<exists>ds r. split_on (CHR ''/'') p = ds @ [[]] \<and> ds \<noteq> [] \<and> hd ds \<noteq> [] \<and> r \<noteq> [] \<and>
        split_on (CHR ''/'') name = ds @ r" by blast
qed

text \<open>A daemon as every other part of the program takes it to be.\<close>

definition daemon_wf :: "'w daemon \<Rightarrow> bool" where
  "daemon_wf D \<longleftrightarrow>
     validate_limits (d_limits D) = Inr () \<and> d_rate D = rate_new (rate_per_uid (d_limits D)) \<and>
     d_slots D = slots_new (d_limits D) \<and> (\<forall>k. d_key D = Some k \<longrightarrow> length k = approval_key_len) \<and>
     (\<forall>us. d_auth D = Allowlist us \<longrightarrow> us \<noteq> [] \<and> distinct us) \<and> distinct (map mcp_name (d_mcp D)) \<and>
     exempt_inside (d_exempt D) \<and> agentic_layout D"

lemma key_length: "load_approval_key p s = (Inr (Some k), t) \<Longrightarrow> length k = approval_key_len"
  by (auto simp: load_approval_key_def approval_key_from_bytes_def split: option.splits prod.splits sum.splits if_splits)

lemma bound: "fs_bind p s = (Inr (), t) \<Longrightarrow> lookup (entries t) p = Some FSpecial"
  unfolding fs_bind_def
  by (cases rule: prim_cases [of whole "bind_e p" s]) (auto simp: lookup_def split: option.splits if_splits)

lemma startup_checks:
  assumes "startup L H a w = (Inr D, w')"
  shows "daemon_wf D \<and> d_repo D = ar_repo a \<and> d_limits D = limits_of a \<and> d_exempt D = ar_exempt a \<and>
     (case d_auth D of Allowlist us \<Rightarrow> \<not> ar_insecure a \<and> set us = set (ar_allowed_uids a) | InsecureAllowAny \<Rightarrow> ar_insecure a)"
proof -
  obtain auth tables mcps S w1 w2 w3 key w4 E w5 where st:
    "check_flags H a = Inr (auth, tables, mcps)" "open_store L H a w = (Inr S, w1)"
    "on_fs (ho_view H) (load_approval_key (ar_key_file a)) w3 = (Inr key, w4)"
    "daemon_open (ho_view H) (ho_connect H) (ho_init H) (ar_repo a) (agentic_dir a) S (ar_postgres a) tables mcps
       (ho_mcp_net H) auth w4 = (Inr E, w5)"
    "D = with_exempt_entropy_prefixes (ar_exempt a) (with_limits (limits_of a) (with_approval_key key E))"
    using startup_steps [OF assms] by metis
  note E = daemon_open_ok [OF st(4)]
  have D: "d_auth D = auth" "d_mcp D = mcps" "d_key D = key" "d_limits D = limits_of a" "d_exempt D = ar_exempt a"
    "d_repo D = ar_repo a" "d_refs D = agentic_dir a"
    "d_rate D = rate_new (rate_per_uid (limits_of a))" "d_slots D = slots_new (limits_of a)"
    by (simp_all add: st(5) with_exempt_entropy_prefixes_def with_limits_def with_approval_key_def E)
  have flags: "validate_limits (limits_of a) = Inr ()" "peer_policy (ar_allowed_uids a) (ar_insecure a) = Inr auth"
    using st(1) by (auto simp: check_flags_def res_bind_Inr_iff)
  have "validate_exempt_prefixes (ar_exempt a) = Inr ()"
    using st(2) by (auto simp: open_store_def bindA_ok_iff)
  then have "exempt_inside (ar_exempt a)" by (rule exempt_ok)
  moreover have "length k = approval_key_len" if "key = Some k" for k
    using st(3) key_length that by (auto simp: on_fs_def split: prod.splits)
  moreover have "case auth of Allowlist us \<Rightarrow> \<not> ar_insecure a \<and> us \<noteq> [] \<and> distinct us \<and> set us = set (ar_allowed_uids a)
      | InsecureAllowAny \<Rightarrow> ar_insecure a"
    using flags(2) by (auto simp: peer_policy_def split: bool.splits)
  ultimately show ?thesis
    using flags(1) E(7) by (auto simp: daemon_wf_def D agentic_layout_def agentic_dir_def split: peer_auth_policy.splits)
qed

section \<open>A first start\<close>

definition sample_host :: "(fs im, unit) host" where
  "sample_host =
     \<lparr>ho_view = im_view, ho_net_get = (\<lambda>_. ()), ho_net_put = (\<lambda>_ w. w), ho_http = undefined, ho_client = Inr (),
      ho_env = (\<lambda>_. None), ho_toml = (\<lambda>_. Inr []), ho_url = (\<lambda>_. None), ho_mcp_net = one_tool,
      ho_connect = (\<lambda>_ _. fail (MemOther [])), ho_init = (\<lambda>M. ret M)\<rparr>"

definition sample_args :: args where
  "sample_args = (default_args [])\<lparr>ar_allowed_uids := [1000, 1000, 0]\<rparr>"

lemma trim_plain: "c \<notin> set white_ends \<Longrightarrow> d \<notin> set white_ends \<Longrightarrow> str_trim (c # s @ [d]) = c # s @ [d]"
proof -
  assume "c \<notin> set white_ends" "d \<notin> set white_ends"
  then have "trim_end (c # s @ [d]) = c # s @ [d]" "trim_start (c # s @ [d]) = c # s @ [d]"
    using trim_end_last [of d "c # s"] trim_start_hd [of c "s @ [d]"] by simp_all
  then show ?thesis by (simp add: str_trim_def)
qed

lemma sample_flags:
  "check_flags sample_host sample_args = Inr (Allowlist [1000, 0], [], [])"
  "validate_exempt_prefixes (ar_exempt sample_args) = Inr ()" "local_args sample_args"
proof -
  have w: "CHR ''_'' \<notin> set white_ends" "CHR ''/'' \<notin> set white_ends" "CHR ''f'' \<notin> set white_ends" "CHR ''s'' \<notin> set white_ends"
    using white_ends_ascii by fastforce+
  show "check_flags sample_host sample_args = Inr (Allowlist [1000, 0], [], [])"
    by (simp add: check_flags_def peer_policy_def sample_args_def default_args_def limits_of_def validate_limits_def
        parse_tracked_tables_def)
  have "str_trim ''__langgraph__/'' = ''__langgraph__/''"
    using trim_plain [of "CHR ''_''" "CHR ''/''" "''_langgraph__''"] w by simp
  then show "validate_exempt_prefixes (ar_exempt sample_args) = Inr ()"
    by (simp add: sample_args_def default_args_def validate_exempt_prefix_def starts_with_def ends_with_def)
  have "str_trim ''fs'' = ''fs''" using trim_plain [of "CHR ''f''" "CHR ''s''" "[]"] w by simp
  then show "local_args sample_args"
    by (simp add: local_args_def sample_args_def default_args_def spec_parse_def)
qed

lemma sample_startup:
  "\<exists>D w. startup sample_lib sample_host sample_args (empty_fs, im_new) = (Inr D, w)"
proof -
  let ?d = "[''.agentic'']"
  let ?e1 = "[(?d @ [''objects''], FDir), (?d, FDir)]"
  let ?e2 = "(?d @ [''refs'', ''heads''], FDir) # (?d @ [''refs''], FDir) # ?e1"
  have V: "ho_view sample_host = im_view" by (simp add: sample_host_def)
  have dir: "agentic_dir sample_args = ?d" "allowlist_path sample_args = ?d @ [''scanner-allowlist.toml'']"
    "socket_of sample_args = ?d @ [''agenticd.sock'']" "ar_key_file sample_args = None" "ar_postgres sample_args = None"
    by (simp_all add: agentic_dir_def allowlist_path_def socket_of_def sample_args_def default_args_def)
  have fs: "fs_read_to_string (?d @ [''scanner-allowlist.toml'']) empty_fs = (Inl (IoError IoNotFound []), empty_fs)"
    "fs_create_dir_all (?d @ [''objects'']) empty_fs = (Inr (), \<lparr>entries = ?e1, faults = []\<rparr>)"
    "claim_socket (?d @ [''agenticd.sock'']) \<lparr>entries = ?e1, faults = []\<rparr> = (Inr (), \<lparr>entries = ?e1, faults = []\<rparr>)"
    "fs_create_dir_all (?d @ [''refs'', ''heads'']) \<lparr>entries = ?e1, faults = []\<rparr> = (Inr (), \<lparr>entries = ?e2, faults = []\<rparr>)"
    "list_branches ?d \<lparr>entries = ?e2, faults = []\<rparr> = (Inr [], \<lparr>entries = ?e2, faults = []\<rparr>)"
    "fs_create_dir_all ?d \<lparr>entries = ?e2, faults = []\<rparr> = (Inr (), \<lparr>entries = ?e2, faults = []\<rparr>)"
    "fs_create_dir_all (?d @ [''refs'', ''heads'']) \<lparr>entries = ?e2, faults = []\<rparr> = (Inr (), \<lparr>entries = ?e2, faults = []\<rparr>)"
    "fs_bind (?d @ [''agenticd.sock'']) \<lparr>entries = ?e2, faults = []\<rparr> =
       (Inr (), \<lparr>entries = (?d @ [''agenticd.sock''], FSpecial) # ?e2, faults = []\<rparr>)"
    by code_simp+
  have S: "open_store sample_lib sample_host sample_args (empty_fs, im_new) =
      (Inr (im_store (fs_store_ops sample_lib (beside ?d []))), (\<lparr>entries = ?e1, faults = []\<rparr>, im_new))"
    using sample_flags(2, 3) fs(1, 2)
    by (simp add: open_store_def bindA_def any_defs map_errA_def V on_fs_im on_first_def allowlist_load_def dir
        local_args_def store_open_def disk_store_im with_allowlist_def beside_def)
  have R: "refs_open ?d \<lparr>entries = ?e1, faults = []\<rparr> = (Inr ?d, \<lparr>entries = ?e2, faults = []\<rparr>)"
    "refs_open ?d \<lparr>entries = ?e2, faults = []\<rparr> = (Inr ?d, \<lparr>entries = ?e2, faults = []\<rparr>)"
    using fs(4, 7) by (simp_all add: refs_open_def bindA_def map_errA_def)
  show ?thesis
    using S R fs(3, 5, 6, 8)
    by (simp add: startup_def bindA_def sample_flags(1) V on_fs_im on_first_def dir reconcile_def any_defs map_errA_def
        reconcile_refs_on_startup_def broken_tips_def load_approval_key_def daemon_open_def backend_from_flags_def)
qed

section \<open>The accept loop\<close>

lemma gate_inv_rotate:
  assumes "gate_inv c (g, u # us)"
  shows "gate_inv c (g, us @ [u])"
proof -
  have "count_list (us @ [u]) = count_list (u # us)" "set (us @ [u]) = set (u # us)" "length (us @ [u]) = length (u # us)"
    by auto
  with assms show ?thesis unfolding gate_inv_def prod.case by metis
qed

definition accepted_ok :: "peer_auth_policy \<Rightarrow> limits_config \<Rightarrow> acceptor \<Rightarrow> bool" where
  "accepted_ok auth c x \<longleftrightarrow> gate_inv c (ac_gate x, map fst (ac_open x)) \<and>
     list_all (\<lambda>(u, peer). is_allowed auth u \<and> peer = attestation_for auth u) (ac_open x)"

lemma accepted_turn: "accepted_ok auth c x \<Longrightarrow> accepted_ok auth c (accept_turn auth e x)"
proof (cases e)
  case (Peer u)
  assume ok: "accepted_ok auth c x"
  have refuse: "g = ac_gate x" if "try_admit u (ac_gate x) = (Inl r, g)" for r g
    using that by (auto simp: try_admit_def split: if_splits)
  have admit: "gate_inv c (g, map fst (ac_open x) @ [u])" if "try_admit u (ac_gate x) = (Inr v, g)" for v g
  proof -
    have "v = u" using that by (auto simp: try_admit_def split: if_splits)
    with ok gate_inv_admit [of c "ac_gate x" "map fst (ac_open x)" u u g] that show ?thesis
      by (intro gate_inv_rotate) (simp add: accepted_ok_def)
  qed
  show ?thesis
    using ok refuse admit Peer by (auto simp: accepted_ok_def warn_def split: prod.splits sum.splits)
next
  case (Closes i)
  assume ok: "accepted_ok auth c x"
  show ?thesis
  proof (cases "i < length (ac_open x)")
    case True
    then have cut: "ac_open x = take i (ac_open x) @ ac_open x ! i # drop (Suc i) (ac_open x)"
      by (rule id_take_nth_drop)
    have "gate_inv c (ac_gate x, map fst (take i (ac_open x)) @ fst (ac_open x ! i) # map fst (drop (Suc i) (ac_open x)))"
      using ok arg_cong [OF cut, of "map fst"] by (simp add: accepted_ok_def)
    from gate_inv_release [OF this] have "gate_inv c (drop_guard (fst (ac_open x ! i)) (ac_gate x),
        map fst (take i (ac_open x)) @ map fst (drop (Suc i) (ac_open x)))" .
    moreover have "list_all P (take i (ac_open x) @ drop (Suc i) (ac_open x))" if "list_all P (ac_open x)" for P
      using that arg_cong [OF cut, of "list_all P"] by simp
    ultimately show ?thesis using ok True Closes by (simp add: accepted_ok_def)
  qed (use ok Closes in simp)
qed (simp_all add: accepted_ok_def warn_def)

lemma accepted_start: "accepted_ok auth c (acceptor_new c)"
  by (simp add: accepted_ok_def acceptor_new_def gate_inv_def gate_new_def)

lemma accepted_loop: "accepted_ok auth c x \<Longrightarrow> accept_loop auth es x = (stop, y) \<Longrightarrow> accepted_ok auth c y"
proof (induction es arbitrary: x)
  case (Cons e es)
  with Cons.IH [OF accepted_turn [OF Cons.prems(1), of e]] show ?case by (cases "e = Cancelled") auto
qed simp

lemma accept_peer:
  "accepted_ok auth c x \<Longrightarrow> ac_open (accept_turn auth (Peer u) x) =
     (if is_allowed auth u \<and> length (ac_open x) < max_connections c \<and>
         count_list (map fst (ac_open x)) u < max_connections_per_uid c
      then ac_open x @ [(u, attestation_for auth u)] else ac_open x)"
  using gate_inv_count [of c "ac_gate x" "map fst (ac_open x)" u]
  by (auto simp: accepted_ok_def gate_inv_def try_admit_def warn_def)

section \<open>Properties\<close>



text \<open>
  C7. A daemon that comes up on a well-formed file system, with the local store and no Postgres, serves
  a repository in which every branch names a stored commit: the reconciliation has seen every ref
  file, the rest of the startup takes nothing away, and through every interleaving of any
  requests, whatever operations fail or are torn, it stays so. Nothing is assumed of the tips the last
  daemon left.
\<close>

theorem startup_protects_tips:
  assumes "lib_ok L" "ho_view H = im_view" "local_args a" "fs_ok f" "utf8_refs (agentic_dir a) f"
    and "startup L H a (f, m) = (Inr D, w)" "sched_steps L rfc D (sched_start D w) s"
  shows "tips_ok L (agentic_dir a) [] (fst (fst (data_of s)))"
proof -
  have allow: "tips_ok L R al g = tips_ok L R [] g" for R al g
    by (simp add: tips_ok_def present_def path_for_eq beside_def)
  obtain auth tables mcps S w1 w2 w3 key w4 E w5 where st:
    "open_store L H a (f, m) = (Inr S, w1)"
    "on_fs im_view (claim_socket (socket_of a)) w1 = (Inr (), w2)" "reconcile L H a S w2 = (Inr (), w3)"
    "on_fs im_view (load_approval_key (ar_key_file a)) w3 = (Inr key, w4)"
    "daemon_open im_view (ho_connect H) (ho_init H) (ar_repo a) (agentic_dir a) S None tables mcps (ho_mcp_net H) auth w4 = (Inr E, w5)"
    "on_fs im_view (fs_bind (socket_of a)) w5 = (Inr (), w)"
    "D = with_exempt_entropy_prefixes (ar_exempt a) (with_limits (limits_of a) (with_approval_key key E))"
    using startup_steps [OF assms(6)] assms(2, 3) unfolding local_args_def by metis
  obtain al g where S: "S = im_store (fs_store_ops L (beside (agentic_dir a) al))" "w1 = (g, m)" "tidy f g"
    using open_store_local [OF assms(2, 3) st(1)] by blast
  obtain h where h: "claim_socket (socket_of a) g = (Inr (), h)" "w2 = (h, m)"
    using st(2) S(2) by (auto simp: on_fs_im)
  have t: "tidy f h" using tidy_rel(2) S(3) keepsD [OF tidy_claim h(1)] by (blast dest: transpD)
  have "fs_ok h" using t assms(4) by (simp add: tidy_def)
  from reconcile_local [OF assms(2) S(1) this tidy_refs [OF t assms(5)] st(3) [unfolded h(2)]]
  have "tips_ok L (agentic_dir a) al (fst w3)" .
  moreover have "steady L (agentic_dir a) al (fst w3) (fst w4)" "steady L (agentic_dir a) al (fst w5) (fst w)"
    using keepsD [OF keeps_on_first [OF steady_io(2)]] keepsD [OF keeps_on_first [OF steady_io(4)]] st(4, 6)
    by (fastforce simp: on_fs_im first_rel_def)+
  ultimately have tips: "tips_ok L (agentic_dir a) al (fst w)"
    using tips_steady open_daemon_steady [OF st(5)] by blast
  note E = daemon_open_ok [OF st(5)]
  have D: "d_refs D = agentic_dir a" "local_daemon L al D" "agentic_layout D"
    using E by (simp_all add: st(7) S(1) local_daemon_def agentic_layout_def agentic_dir_def
        with_exempt_entropy_prefixes_def with_limits_def with_approval_key_def)
  from tips_throughout [OF assms(1) D(2, 3) _ assms(7)] tips
  show ?thesis using allow [of "agentic_dir a" al] D(1) by simp
qed

theorem startup_protects_tips_witness:
  "\<exists>D w s. startup sample_lib sample_host sample_args (empty_fs, im_new) = (Inr D, w) \<and>
     sched_steps sample_lib (\<lambda>_. []) D (sched_start D w) s \<and> tips_ok sample_lib [''.agentic''] [] (fst (fst (data_of s)))"
proof -
  obtain D w where s: "startup sample_lib sample_host sample_args (empty_fs, im_new) = (Inr D, w)"
    using sample_startup by blast
  have st: "sched_steps sample_lib (\<lambda>_. []) D (sched_start D w) (sched_start D w)" by (rule stay)
  have h: "ho_view sample_host = im_view" "fs_ok empty_fs" "agentic_dir sample_args = [''.agentic'']"
    "utf8_refs (agentic_dir sample_args) empty_fs"
    by (simp_all add: sample_host_def empty_fs_def fs_ok_def es_ok_def utf8_refs_def agentic_dir_def sample_args_def default_args_def)
  from startup_protects_tips [OF sample_ok h(1) sample_flags(3) h(2, 4) s st] s st h(3) show ?thesis by auto
qed

text \<open>
  C27. After any events the accept loop serves only users the policy allows, each connection carrying the
  user id it attests (none under the open policy); the gate counts exactly the connections that
  are open, under both caps; and the next peer is served exactly when it is allowed and
  there is room under both, whatever was refused, failed or closed before.
\<close>

theorem accept_loop_admits:
  assumes "accept_loop auth es (acceptor_new c) = (stopped, x)"
  shows "list_all (\<lambda>(u, peer). is_allowed auth u \<and> peer = attestation_for auth u) (ac_open x) \<and>
     gc_global (ac_gate x) = length (ac_open x) \<and> length (ac_open x) \<le> max_connections c \<and>
     uid_count (ac_gate x) u = count_list (map fst (ac_open x)) u \<and>
     count_list (map fst (ac_open x)) u \<le> max_connections_per_uid c \<and>
     ac_open (accept_turn auth (Peer u) x) =
       (if is_allowed auth u \<and> length (ac_open x) < max_connections c \<and>
           count_list (map fst (ac_open x)) u < max_connections_per_uid c
        then ac_open x @ [(u, attestation_for auth u)] else ac_open x)"
proof -
  have ok: "accepted_ok auth c x" using accepted_loop [OF accepted_start assms] .
  then have g: "gate_inv c (ac_gate x, map fst (ac_open x))"
    "list_all (\<lambda>(u, peer). is_allowed auth u \<and> peer = attestation_for auth u) (ac_open x)"
    by (simp_all add: accepted_ok_def)
  have "gc_global (ac_gate x) = length (ac_open x)" "length (ac_open x) \<le> max_connections c"
    "count_list (map fst (ac_open x)) u \<le> max_connections_per_uid c"
    using g(1) unfolding gate_inv_def by simp_all
  with g(2) gate_inv_count [OF g(1)] accept_peer [OF ok] show ?thesis by simp
qed

theorem accept_loop_admits_witness:
  "\<exists>x. accept_loop (Allowlist [7, 8]) [Peer 7, CredFails, Peer 9, Peer 7, Peer 8, Closes 0] (acceptor_new (default_limits\<lparr>max_connections_per_uid := 1\<rparr>)) = (False, x) \<and>
     ac_open x = [(8, Some 8)] \<and> uid_count (ac_gate x) 8 = 1"
proof -
  let ?c = "default_limits\<lparr>max_connections_per_uid := 1\<rparr>"
  obtain x where x: "accept_loop (Allowlist [7, 8]) [Peer 7, CredFails, Peer 9, Peer 7, Peer 8, Closes 0] (acceptor_new ?c) = (False, x)"
    "ac_open x = [(8, Some 8)]"
    by (simp add: acceptor_new_def gate_new_def default_limits_def try_admit_def uid_count_def warn_def)
  from accept_loop_admits [OF x(1), of 8] x show ?thesis by simp
qed

end
