(* ===== verification/Cli.thy ===== *)
theory Cli
  imports Startup
begin

text \<open>
  The command line (\<open>main.rs\<close> and \<open>client.rs\<close> of \<open>agentic-cli\<close>): finding the repository, one exchange with
  the daemon on the socket, and what each command sends and prints. The arguments arrive parsed. The process
  has a state (files, what the other end of the socket holds, standard input and output) and
  surroundings (\<open>shell\<close>). Every byte string put on a socket is kept in \<open>cl_sent\<close>. A slice
  beyond the end of a text is a panic, a value of its own. Texts printed are those of the program, one element of
  \<open>cl_out\<close> for each line; paths are printed as the operating system resolves them.
\<close>

section \<open>State\<close>

record 'd cli =
  cl_fs :: fs
  cl_peer :: 'd
  cl_counter :: u64
  cl_stdin :: "(io_error + string) list"
  cl_out :: "string list"
  cl_err :: string
  cl_sent :: "bytes list"

datatype cli_stop = CliError anyhow | Panic

type_synonym ('d, 'a) cli_act = "('d cli, cli_stop, 'a) act"

text \<open>The surroundings: environment variables, the current directory, connecting, what the daemon writes
  back for the bytes it was sent, \<open>git rev-parse HEAD\<close> (whether it succeeded, and its output) and
  the clock, unless it is before the epoch.\<close>

record 'd shell =
  sh_b64 :: base64
  sh_pid :: nat
  sh_env :: "string \<Rightarrow> string option"
  sh_cwd :: path
  sh_cwd_error :: "io_error option"
  sh_connect :: "path \<Rightarrow> 'd \<Rightarrow> (io_error + (nat \<times> io_error) option) \<times> 'd"
  sh_serve :: "bytes \<Rightarrow> 'd \<Rightarrow> reader \<times> 'd"
  sh_git :: "path \<Rightarrow> io_error + bool \<times> bytes"
  sh_clock :: "u64 option"

definition cli_fail :: "anyhow \<Rightarrow> ('d, 'a) cli_act" where
  "cli_fail e = fail (CliError e)"

definition on_files :: "(fs, anyhow, 'a) act \<Rightarrow> ('d, 'a) cli_act" where
  "on_files m s = (case m (cl_fs s) of (r, f) \<Rightarrow> (map_err CliError r, s\<lparr>cl_fs := f\<rparr>))"

definition println :: "string \<Rightarrow> ('d, unit) cli_act" where
  "println l s = (Inr (), s\<lparr>cl_out := cl_out s @ [l]\<rparr>)"

fun print_all :: "string list \<Rightarrow> ('d, unit) cli_act" where
  "print_all [] = ret ()"
| "print_all (l # ls) = bindA (println l) (\<lambda>_. print_all ls)"

definition eprint :: "string \<Rightarrow> ('d, unit) cli_act" where
  "eprint t s = (Inr (), s\<lparr>cl_err := cl_err s @ t\<rparr>)"

text \<open>The end of the input reads as an empty line.\<close>

definition read_line :: "('d, string) cli_act" where
  "read_line s =
     (case cl_stdin s of
        [] \<Rightarrow> (Inr [], s)
      | Inr l # r \<Rightarrow> (Inr l, s\<lparr>cl_stdin := r\<rparr>)
      | Inl e # r \<Rightarrow> (Inl (CliError [LIo e]), s\<lparr>cl_stdin := r\<rparr>))"

text \<open>\<open>&h[..n]\<close>: the cut must be in the text and between two characters.\<close>

definition slice_to :: "nat \<Rightarrow> string \<Rightarrow> ('d, string) cli_act" where
  "slice_to n h =
     (if n = length h \<or> (n < length h \<and> \<not> cont (of_char (h ! n))) then ret (take n h) else fail Panic)"

section \<open>One exchange\<close>

function find_up :: "ents \<Rightarrow> path \<Rightarrow> path option" where
  "find_up es here =
     (if is_dir es (here @ [''.agentic'']) then Some here
      else if here = [] then None
      else find_up es (butlast here))"
  by pat_completeness auto
termination
  by (relation "measure (\<lambda>(es, here). length here)") auto

declare find_up.simps [simp del]

definition resolve_repo :: "'d shell \<Rightarrow> string option \<Rightarrow> ('d, path) cli_act" where
  "resolve_repo E explicit s =
     (case explicit of
        Some p \<Rightarrow> (Inr (path_join (sh_cwd E) p), s)
      | None \<Rightarrow>
          (case sh_cwd_error E of
             Some e \<Rightarrow> (Inl (CliError [Ctx ''getting current dir'', LIo e]), s)
           | None \<Rightarrow>
               (case find_up (entries (cl_fs s)) (sh_cwd E) of
                  Some here \<Rightarrow> (Inr here, s)
                | None \<Rightarrow> (Inr (sh_cwd E), s))))"

definition socket_path :: "'d shell \<Rightarrow> path \<Rightarrow> path" where
  "socket_path E repo =
     (case sh_env E ''AGENTIC_SOCKET'' of
        Some p \<Rightarrow> if p \<noteq> [] then path_join (sh_cwd E) p else repo @ [''.agentic'', ''agenticd.sock'']
      | None \<Rightarrow> repo @ [''.agentic'', ''agenticd.sock''])"

definition new_correlation_id :: "'d shell \<Rightarrow> ('d, string) cli_act" where
  "new_correlation_id E s =
     (Inr (''cli-'' @ show_nat (sh_pid E) @ ''-'' @ show_nat (unat (cl_counter s))), s\<lparr>cl_counter := cl_counter s + 1\<rparr>)"

definition connect :: "'d shell \<Rightarrow> path \<Rightarrow> ('d, (nat \<times> io_error) option) cli_act" where
  "connect E p s =
     (case sh_connect E p (cl_peer s) of
        (r, d) \<Rightarrow> (map_err (\<lambda>e. CliError [Ctx ''connecting to daemon'', LIo e]) r, s\<lparr>cl_peer := d\<rparr>))"

definition frame_context :: "frame_error \<Rightarrow> anyhow" where
  "frame_context e = (case e of FrameIo e \<Rightarrow> [Ctx ''io error'', LIo e] | FrameJson \<Rightarrow> [Ctx ''json error'', LSerde]
     | TooLarge n \<Rightarrow> [Ctx ''frame too large''])"

text \<open>The bytes that were put on the socket reach the daemon, all of them or, if the write failed, some.\<close>

definition send :: "lib \<Rightarrow> 'd shell \<Rightarrow> (nat \<times> io_error) option \<Rightarrow> request envelope \<Rightarrow> ('d, reader) cli_act" where
  "send L E room q s =
     (case write_frame L (envelope_to_json (request_to_json (sh_b64 E)) q) \<lparr>wr_out = [], wr_room = room\<rparr> of
        (r, w) \<Rightarrow>
          (case sh_serve E (wr_out w) (cl_peer s) of
             (rd, d) \<Rightarrow>
               (map_err (\<lambda>e. CliError (frame_context e)) (map_sum id (\<lambda>_. rd) r),
                s\<lparr>cl_sent := cl_sent s @ [wr_out w], cl_peer := d\<rparr>)))"

definition receive :: "lib \<Rightarrow> 'd shell \<Rightarrow> string \<Rightarrow> reader \<Rightarrow> cli_stop + response" where
  "receive L E cid rd =
     (case fst (read_frame L (envelope_of_json (response_of_json (sh_b64 E))) rd) of
        Inl e \<Rightarrow> Inl (CliError (frame_context e))
      | Inr None \<Rightarrow> Inl (CliError [Ctx ''daemon closed connection without reply''])
      | Inr (Some reply) \<Rightarrow>
          if env_id reply \<noteq> cid then Inl (CliError [Ctx ''correlation id mismatch''])
          else Inr (env_payload reply))"

definition round_trip :: "lib \<Rightarrow> 'd shell \<Rightarrow> path \<Rightarrow> request \<Rightarrow> ('d, response) cli_act" where
  "round_trip L E repo req =
     bindA (connect E (socket_path E repo)) (\<lambda>room.
     bindA (new_correlation_id E) (\<lambda>cid.
     bindA (send L E room (envelope_new cid req)) (\<lambda>rd.
     lift_res (receive L E cid rd))))"

section \<open>Printing\<close>

definition daemon_error :: "error_class \<Rightarrow> string \<Rightarrow> string \<Rightarrow> bool \<Rightarrow> anyhow" where
  "daemon_error cls code msg retryable =
     [Ctx (''['' @ class_name cls @ '':'' @ code @ '']'' @ (if retryable then '' (retryable)'' else []) @ '' '' @ msg)]"

text \<open>What every command does with a reply it has no other use for.\<close>

fun unexpected :: "response \<Rightarrow> ('d, 'a) cli_act" where
  "unexpected (PError cls code msg r) = cli_fail (daemon_error cls code msg r)"
| "unexpected _ = cli_fail [Ctx ''unexpected response'']"

definition show_path :: "path \<Rightarrow> string" where
  "show_path p = ''/'' @ join_with ''/'' p"

definition json_line :: "lib \<Rightarrow> json \<Rightarrow> string" where
  "json_line L j = bytes_str (json_print L j)"

definition hex_digit :: "nat \<Rightarrow> char" where
  "hex_digit n = (if n < 10 then char_of (48 + n) else char_of (87 + n))"

definition hex2 :: "byte \<Rightarrow> string" where
  "hex2 b = [hex_digit (unat b div 16), hex_digit (unat b mod 16)]"

fun hex_number :: "nat \<Rightarrow> string" where
  "hex_number n = (if n < 16 then [hex_digit n] else hex_number (n div 16) @ [hex_digit (n mod 16)])"

declare hex_number.simps [simp del]

definition pad_left :: "char \<Rightarrow> nat \<Rightarrow> string \<Rightarrow> string" where
  "pad_left c n s = replicate (n - length s) c @ s"

definition pad_right :: "char \<Rightarrow> nat \<Rightarrow> string \<Rightarrow> string" where
  "pad_right c n s = s @ replicate (n - length s) c"

fun chunks :: "nat \<Rightarrow> 'a list \<Rightarrow> 'a list list" where
  "chunks n [] = []"
| "chunks n (x # xs) = (if n = 0 then [] else take n (x # xs) # chunks n (drop (n - 1) xs))"

definition printable :: "byte \<Rightarrow> char" where
  "printable b = (if 32 \<le> unat b \<and> unat b < 127 then char_byte b else CHR ''.'')"

definition dump_line :: "nat \<times> bytes \<Rightarrow> string" where
  "dump_line ic =
     (case ic of (i, c) \<Rightarrow> pad_left (CHR ''0'') 8 (hex_number (i * 16)) @ ''  '' @
        pad_right (CHR '' '') 48 (join_with '' '' (map hex2 c)) @ ''  |'' @ map printable c @ ''|'')"

definition hex_dump :: "bytes \<Rightarrow> string list" where
  "hex_dump bs = map dump_line (enumerate 0 (chunks 16 bs))"

definition check_mark :: string where "check_mark = bytes_str [0xE2, 0x9C, 0x93]"

definition em_dash :: string where "em_dash = bytes_str [0xE2, 0x80, 0x94]"

section \<open>Commands\<close>

definition cmd_init :: "path \<Rightarrow> string option \<Rightarrow> ('d, unit) cli_act" where
  "cmd_init repo postgres =
     bindA (on_files (with_context ''creating .agentic/'' (io_any (fs_create_dir_all (repo @ [''.agentic'']))))) (\<lambda>_.
     bindA (on_files (with_context ''creating prompts/'' (io_any (fs_create_dir_all (repo @ [''prompts'']))))) (\<lambda>_.
     bindA (println (''initialised agentic repo at '' @ show_path repo @
              (case postgres of Some p \<Rightarrow> '' (postgres='' @ p @ '')'' | None \<Rightarrow> []))) (\<lambda>_.
     println (''next: start the daemon '' @ em_dash @ '' `agenticd --repo '' @ show_path repo @ ''`''))))"

fun show_ping :: "bool \<Rightarrow> response \<Rightarrow> ('d, unit) cli_act" where
  "show_ping json Pong = println (if json then ''{\"pong\":true}'' else ''pong'')"
| "show_ping json r = unexpected r"

definition cmd_ping :: "lib \<Rightarrow> 'd shell \<Rightarrow> path \<Rightarrow> bool \<Rightarrow> ('d, unit) cli_act" where
  "cmd_ping L E repo json = bindA (round_trip L E repo Ping) (show_ping json)"

text \<open>The prompt files: every regular file below the directory, by its path from there. Links are not
  followed.\<close>

fun fold_act :: "('x \<Rightarrow> 'b \<Rightarrow> ('s, 'e, 'b) act) \<Rightarrow> 'x list \<Rightarrow> 'b \<Rightarrow> ('s, 'e, 'b) act" where
  "fold_act f [] b = ret b"
| "fold_act f (x # xs) b = bindA (f x b) (fold_act f xs)"

definition prompt_name :: "path \<Rightarrow> path \<Rightarrow> string" where
  "prompt_name base p = utf8_lossy (join_with ''/'' (drop (length base) p))"

fun walk_prompts :: "nat \<Rightarrow> path \<Rightarrow> path \<Rightarrow> (string \<times> bytes) list \<Rightarrow> (fs, anyhow, (string \<times> bytes) list) act" where
  "walk_prompts 0 base here out = bail ''too deep''"
| "walk_prompts (Suc n) base here out =
     bindA (with_context ''reading'' (io_any (fs_read_dir here))) (\<lambda>kids.
     fold_act (\<lambda>(name, e) out.
       case e of
         FDir \<Rightarrow> walk_prompts n base (here @ [name]) out
       | FFile _ \<Rightarrow>
           bindA (with_context ''reading prompt'' (io_any (fs_read (here @ [name])))) (\<lambda>body.
           ret (bt_insert (prompt_name base (here @ [name])) body out))
       | _ \<Rightarrow> ret out) kids out)"

definition read_prompt_dir :: "path \<Rightarrow> (fs, anyhow, (string \<times> bytes) list) act" where
  "read_prompt_dir dir s =
     (if \<not> path_exists s dir then (Inr [], s)
      else walk_prompts (Suc (max_depth (entries s))) dir dir [] s)"

definition env_or :: "'d shell \<Rightarrow> string \<Rightarrow> string \<Rightarrow> string" where
  "env_or E k d = (case sh_env E k of Some v \<Rightarrow> v | None \<Rightarrow> d)"

definition default_author :: "'d shell \<Rightarrow> string" where
  "default_author E = env_or E ''USER'' ''unknown'' @ ''@'' @ env_or E ''HOSTNAME'' ''localhost''"

definition read_git_head :: "'d shell \<Rightarrow> path \<Rightarrow> anyhow + string" where
  "read_git_head E repo =
     (case sh_git E repo of
        Inl e \<Rightarrow> Inl [LIo e]
      | Inr (fine, out) \<Rightarrow>
          if \<not> fine then Inl [Ctx ''git rev-parse HEAD failed'']
          else if \<not> utf8_ok out then Inl [Ctx ''invalid utf-8'']
          else Inr (str_trim (bytes_str out)))"

fun show_commit :: "bool \<Rightarrow> response \<Rightarrow> ('d, unit) cli_act" where
  "show_commit json (PCommit out) =
     (if json then println (''{\"commit_hash\":\"'' @ co_hash out @ ''\",\"branch\":\"'' @ co_branch out @ ''\"}'')
      else bindA (slice_to 7 (co_hash out)) (\<lambda>h.
           println (''['' @ h @ ''] committed to '' @ co_branch out @ '' as '' @ co_hash out)))"
| "show_commit json r = unexpected r"

definition commit_input_of_files :: "'d shell \<Rightarrow> path \<Rightarrow> string \<Rightarrow> string option \<Rightarrow> bool \<Rightarrow> (string \<times> bytes) list \<Rightarrow> commit_input" where
  "commit_input_of_files E repo message model no_memory prompts =
     \<lparr>ci_message = message, ci_author = Some (default_author E),
      ci_code_sha = (case read_git_head E repo of Inr h \<Rightarrow> Some h | Inl _ \<Rightarrow> None), ci_branch = None,
      ci_prompts = prompts, ci_mcp_servers = [], ci_model = model, ci_no_memory = no_memory\<rparr>"

definition cmd_commit :: "lib \<Rightarrow> 'd shell \<Rightarrow> path \<Rightarrow> string \<Rightarrow> string \<Rightarrow> string option \<Rightarrow> bool \<Rightarrow> bool \<Rightarrow> ('d, unit) cli_act" where
  "cmd_commit L E repo message prompt_dir model no_memory json =
     bindA (on_files (read_prompt_dir (path_join repo prompt_dir))) (\<lambda>prompts.
     bindA (round_trip L E repo (RCommit (commit_input_of_files E repo message model no_memory prompts)))
       (show_commit json))"

fun show_oneline :: "log_entry list \<Rightarrow> ('d, unit) cli_act" where
  "show_oneline [] = ret ()"
| "show_oneline (e # es) =
     bindA (slice_to 7 (le_hash e)) (\<lambda>h.
     bindA (println (h @ '' '' @ le_message e)) (\<lambda>_. show_oneline es))"

definition log_lines :: "log_entry \<Rightarrow> string list" where
  "log_lines e = [''commit '' @ le_hash e, ''Author: '' @ le_author e, ''Date:   '' @ le_timestamp e, [],
     ''    '' @ le_message e, []]"

fun show_log :: "lib \<Rightarrow> bool \<Rightarrow> bool \<Rightarrow> response \<Rightarrow> ('d, unit) cli_act" where
  "show_log L json oneline (PLog es) =
     (if json then println (json_line L (of_vec log_entry_to_json es))
      else if oneline then show_oneline es
      else print_all (concat (map log_lines es)))"
| "show_log L json oneline r = unexpected r"

definition cmd_log :: "lib \<Rightarrow> 'd shell \<Rightarrow> path \<Rightarrow> u64 \<Rightarrow> bool \<Rightarrow> bool \<Rightarrow> ('d, unit) cli_act" where
  "cmd_log L E repo limit oneline json = bindA (round_trip L E repo (RLog limit)) (show_log L json oneline)"

fun show_resolve :: "bool \<Rightarrow> response \<Rightarrow> ('d, unit) cli_act" where
  "show_resolve json (PResolveRef h) = println (if json then ''{\"hash\":\"'' @ h @ ''\"}'' else h)"
| "show_resolve json r = unexpected r"

definition cmd_resolve :: "lib \<Rightarrow> 'd shell \<Rightarrow> path \<Rightarrow> string \<Rightarrow> bool \<Rightarrow> ('d, unit) cli_act" where
  "cmd_resolve L E repo name json = bindA (round_trip L E repo (RResolveRef name)) (show_resolve json)"

fun show_status :: "response \<Rightarrow> ('d, unit) cli_act" where
  "show_status (PResolveRef h) = println (''HEAD'' @ arrow @ h)"
| "show_status (PError cls code msg r) = println (''HEAD'' @ arrow @ ''(no commits yet)'')"
| "show_status r = unexpected r"

definition cmd_status :: "lib \<Rightarrow> 'd shell \<Rightarrow> path \<Rightarrow> ('d, unit) cli_act" where
  "cmd_status L E repo = bindA (round_trip L E repo (RResolveRef ''HEAD'')) show_status"

text \<open>Raw output is written as it is, without a line of its own.\<close>

fun show_object :: "bool \<Rightarrow> response \<Rightarrow> ('d, unit) cli_act" where
  "show_object raw (PObjectData h k d) =
     (if raw then println (bytes_str d)
      else print_all ([''hash: '' @ h, ''kind: '' @ k, ''size: '' @ show_nat (length d) @ '' bytes'', []] @ hex_dump d))"
| "show_object raw r = unexpected r"

definition cmd_cat_object :: "lib \<Rightarrow> 'd shell \<Rightarrow> path \<Rightarrow> string \<Rightarrow> bool \<Rightarrow> ('d, unit) cli_act" where
  "cmd_cat_object L E repo h raw = bindA (round_trip L E repo (RReadObject h)) (show_object raw)"

definition section_lines :: "string \<Rightarrow> string list \<Rightarrow> string list" where
  "section_lines title ls = (if ls = [] then [] else [[], title] @ map (\<lambda>l. ''  '' @ l) ls)"

definition diff_lines :: "diff_output \<Rightarrow> string list" where
  "diff_lines d =
     section_lines ''prompts:'' (do_prompts d) @ section_lines ''tools:'' (do_tools d) @
     (if do_model_changed d then [[], ''model:    changed''] else []) @
     (if do_memory_summary d \<noteq> [] then [[], ''memory:   '' @ do_memory_summary d] else []) @
     (if do_schema_summary d \<noteq> [] then [[], ''schema:   '' @ do_schema_summary d] else []) @
     (if do_prompts d = [] \<and> do_tools d = [] \<and> \<not> do_model_changed d \<and> do_memory_summary d = [] \<and> do_schema_summary d = []
      then [''(no changes)''] else [])"

definition print_diff :: "diff_output \<Rightarrow> ('d, unit) cli_act" where
  "print_diff d =
     bindA (slice_to 7 (do_from d)) (\<lambda>a.
     bindA (slice_to 7 (do_to d)) (\<lambda>b.
     bindA (println (''diff '' @ a @ arrow @ b)) (\<lambda>_. print_all (diff_lines d))))"

fun show_diff :: "lib \<Rightarrow> bool \<Rightarrow> response \<Rightarrow> ('d, unit) cli_act" where
  "show_diff L json (PDiff d) =
     (if json then println (json_line L (JObj (diff_output_fields d))) else print_diff d)"
| "show_diff L json r = unexpected r"

definition cmd_diff :: "lib \<Rightarrow> 'd shell \<Rightarrow> path \<Rightarrow> string \<Rightarrow> string \<Rightarrow> bool \<Rightarrow> ('d, unit) cli_act" where
  "cmd_diff L E repo a b json = bindA (round_trip L E repo (RDiff a b)) (show_diff L json)"

section \<open>Rollback\<close>

text \<open>A token for a commit and a worker, made with the operator's key; the daemon is not asked.\<close>

definition cmd_mint_approval :: "lib \<Rightarrow> 'd shell \<Rightarrow> string \<Rightarrow> u32 option \<Rightarrow> path option \<Rightarrow> ('d, unit) cli_act" where
  "cmd_mint_approval L E commit uid key_file =
     bindA (lift_res (map_err CliError (ok_or [Ctx ''--approval requires --uid''] uid))) (\<lambda>uid.
     bindA (lift_res (map_err CliError (ok_or [Ctx ''--approval requires --key-file''] key_file))) (\<lambda>key_file.
     bindA (on_files (with_context ''reading approval key'' (io_any (fs_read key_file)))) (\<lambda>bs.
     bindA (lift_res (map_err (\<lambda>_. CliError [Ctx ''approval key is malformed'']) (approval_key_from_bytes bs))) (\<lambda>key.
     bindA (lift_res (map_err CliError (ok_or [Ctx ''system clock is before the Unix epoch''] (sh_clock E)))) (\<lambda>now.
     println (generate_token L key commit uid now))))))"

fun plan_of :: "response \<Rightarrow> ('d, rollback_output) cli_act" where
  "plan_of (PRollback p) = ret p"
| "plan_of r = unexpected r"

text \<open>No character beyond ASCII becomes one of \<open>y\<close>, \<open>e\<close>, \<open>s\<close> in lower case.\<close>

definition says_yes :: "string \<Rightarrow> bool" where
  "says_yes line \<longleftrightarrow> to_ascii_lowercase (str_trim line) = ''y'' \<or> to_ascii_lowercase (str_trim line) = ''yes''"

definition ask_user :: "string \<Rightarrow> rollback_output \<Rightarrow> ('d, unit) cli_act" where
  "ask_user target plan =
     bindA (println (''Planned rollback to '' @ target @ '':'')) (\<lambda>_.
     bindA (print_all (map (\<lambda>l. ''  - '' @ l) (ro_planned_steps plan))) (\<lambda>_.
     bindA (eprint ''Proceed? [y/N] '') (\<lambda>_.
     bindA read_line (\<lambda>line.
     if says_yes line then ret () else cli_fail [Ctx ''rollback aborted by user'']))))"

definition confirm :: "lib \<Rightarrow> 'd shell \<Rightarrow> path \<Rightarrow> string \<Rightarrow> bool \<Rightarrow> string option \<Rightarrow> ('d, unit) cli_act" where
  "confirm L E repo target accept token =
     bindA (round_trip L E repo (RRollback target True accept token)) (\<lambda>reply.
     bindA (plan_of reply) (ask_user target))"

definition print_rollback :: "rollback_output \<Rightarrow> ('d, unit) cli_act" where
  "print_rollback out =
     bindA (print_all (map (\<lambda>l. ''  - '' @ l) (ro_planned_steps out))) (\<lambda>_.
     case (ro_executed out, ro_new_head_hash out) of
       (True, Some h) \<Rightarrow> bindA (slice_to 7 h) (\<lambda>h. println (check_mark @ '' rollback complete; HEAD now at '' @ h))
     | (True, None) \<Rightarrow> println (check_mark @ '' rollback executed (no new head)'')
     | (False, _) \<Rightarrow> println ''(dry run; nothing executed)'')"

fun show_rollback :: "lib \<Rightarrow> bool \<Rightarrow> response \<Rightarrow> ('d, unit) cli_act" where
  "show_rollback L json (PRollback out) =
     (if json then println (json_line L (JObj (rollback_output_fields out))) else print_rollback out)"
| "show_rollback L json r = unexpected r"

definition cmd_rollback :: "lib \<Rightarrow> 'd shell \<Rightarrow> path \<Rightarrow> string \<Rightarrow> bool \<Rightarrow> bool \<Rightarrow> bool \<Rightarrow> string option \<Rightarrow> bool \<Rightarrow> ('d, unit) cli_act" where
  "cmd_rollback L E repo target dry yes accept token json =
     bindA (if \<not> dry \<and> \<not> yes then confirm L E repo target accept token else ret ()) (\<lambda>_.
     bindA (round_trip L E repo (RRollback target dry accept token)) (show_rollback L json))"

section \<open>The program\<close>

datatype command =
    CInit "string option"
  | CPing
  | CCommit string string "string option" bool
  | CLog u64 bool
  | CResolve string
  | CStatus
  | CDiff string string
  | CCatObject string bool
  | CRollback "string option" bool bool bool "string option" "string option" "u32 option" "path option"

record cli_args =
  cli_repo :: "string option"
  cli_json :: bool
  cli_command :: command

fun run_command :: "lib \<Rightarrow> 'd shell \<Rightarrow> path \<Rightarrow> bool \<Rightarrow> command \<Rightarrow> ('d, unit) cli_act" where
  "run_command L E repo json (CInit postgres) = cmd_init repo postgres"
| "run_command L E repo json CPing = cmd_ping L E repo json"
| "run_command L E repo json (CCommit message dir model no_memory) = cmd_commit L E repo message dir model no_memory json"
| "run_command L E repo json (CLog limit oneline) = cmd_log L E repo limit oneline json"
| "run_command L E repo json (CResolve name) = cmd_resolve L E repo name json"
| "run_command L E repo json CStatus = cmd_status L E repo"
| "run_command L E repo json (CCatObject h raw) = cmd_cat_object L E repo h raw"
| "run_command L E repo json (CDiff a b) = cmd_diff L E repo a b json"
| "run_command L E repo json (CRollback target dry yes accept token approval uid key_file) =
     (case approval of
        Some commit \<Rightarrow> cmd_mint_approval L E commit uid key_file
      | None \<Rightarrow>
          bindA (lift_res (map_err CliError (ok_or [Ctx ''rollback requires a target ref''] target))) (\<lambda>target.
          cmd_rollback L E repo target dry yes accept token json))"

definition cli_main :: "lib \<Rightarrow> 'd shell \<Rightarrow> cli_args \<Rightarrow> ('d, unit) cli_act" where
  "cli_main L E a = bindA (resolve_repo E (cli_repo a)) (\<lambda>repo. run_command L E repo (cli_json a) (cli_command a))"

section \<open>What is sent\<close>

text \<open>An initial part of the frame of an envelope that the daemon decodes to the request.\<close>

definition asks :: "lib \<Rightarrow> base64 \<Rightarrow> request \<Rightarrow> bytes \<Rightarrow> bool" where
  "asks L B req bs \<longleftrightarrow>
     (\<exists>cid m. parse_envelope_with_v0_shim L B m = Inr (cid, req) \<and> starts_with bs (frame_of m))"

lemma write_all_part: "write_all bs w = (r, w') \<Longrightarrow> \<exists>n. wr_out w' = wr_out w @ take n bs \<and> (isl r \<or> length bs \<le> n)"
proof (cases "wr_room w")
  case None
  then show "write_all bs w = (r, w') \<Longrightarrow> ?thesis" by (intro exI [of _ "length bs"]) (auto simp: write_all_def)
next
  case (Some x)
  obtain n e where "x = (n, e)" by (cases x)
  with Some show "write_all bs w = (r, w') \<Longrightarrow> ?thesis"
    by (intro exI [of _ "if length bs \<le> n then length bs else n"]) (auto simp: write_all_def split: if_splits)
qed

lemma write_frame_part:
  assumes "write_frame L j \<lparr>wr_out = [], wr_room = room\<rparr> = (r, w)"
  shows "starts_with (wr_out w) (frame_of (json_print L j))"
proof -
  let ?bs = "json_print L j" and ?w = "\<lparr>wr_out = [], wr_room = room\<rparr>"
  have part: "starts_with (take n xs) (xs @ ys)" for n and xs ys :: bytes
    by (metis append_assoc append_take_drop_id starts_with_append)
  obtain r1 w1 where 1: "write_all (be_bytes 4 (length ?bs)) ?w = (r1, w1)" by fastforce
  obtain r2 w2 where 2: "write_all ?bs w1 = (r2, w2)" by fastforce
  obtain n where n: "wr_out w1 = take n (be_bytes 4 (length ?bs))" "isl r1 \<or> length (be_bytes 4 (length ?bs)) \<le> n"
    using write_all_part [OF 1] by auto
  obtain k where k: "wr_out w2 = wr_out w1 @ take k ?bs" using write_all_part [OF 2] by blast
  consider "wr_out w = []" | "w = w1" | "w = w2" "\<not> isl r1"
    using assms 1 2
    by (auto simp: write_frame_def Let_def bindA_def map_errA_def simp del: be_bytes.simps split: if_splits sum.splits)
  then show ?thesis
  proof cases
    case 2
    with n(1) part show ?thesis by (simp add: frame_of_def)
  next
    case 3
    with n k have "wr_out w = be_bytes 4 (length ?bs) @ take k ?bs" by simp
    moreover have "frame_of ?bs = (be_bytes 4 (length ?bs) @ take k ?bs) @ drop k ?bs" by (simp add: frame_of_def)
    ultimately show ?thesis by (metis starts_with_append)
  qed (simp add: starts_with_def)
qed

lemma round_trip_sends:
  assumes "json_law L" "b64_law (sh_b64 E)" "request_wf req" "round_trip L E repo req s = (r, t)"
  shows "\<exists>new. cl_sent t = cl_sent s @ new \<and> length new \<le> 1 \<and> list_all (asks L (sh_b64 E) req) new \<and>
     cl_stdin t = cl_stdin s \<and> cl_fs t = cl_fs s \<and> cl_out t = cl_out s \<and> (\<not> isl r \<longrightarrow> length new = 1)"
proof -
  obtain x s1 where c: "connect E (socket_path E repo) s = (x, s1)" by fastforce
  have s1: "cl_sent s1 = cl_sent s" "cl_stdin s1 = cl_stdin s" "cl_fs s1 = cl_fs s" "cl_out s1 = cl_out s"
    using c by (auto simp: connect_def split: prod.splits)
  show ?thesis
  proof (cases x)
    case (Inl e)
    with assms(4) c s1 show ?thesis by (intro exI [of _ "[]"]) (auto simp: round_trip_def bindA_def)
  next
    case (Inr room)
    obtain cid s2 where i: "new_correlation_id E s1 = (Inr cid, s2)" by (simp add: new_correlation_id_def)
    have s2: "cl_sent s2 = cl_sent s" "cl_stdin s2 = cl_stdin s" "cl_fs s2 = cl_fs s" "cl_out s2 = cl_out s"
      using i s1 by (auto simp: new_correlation_id_def)
    let ?j = "envelope_to_json (request_to_json (sh_b64 E)) (envelope_new cid req)"
    obtain q w where w: "write_frame L ?j \<lparr>wr_out = [], wr_room = room\<rparr> = (q, w)" by fastforce
    obtain y s3 where y: "send L E room (envelope_new cid req) s2 = (y, s3)" by fastforce
    have s3: "cl_sent s3 = cl_sent s @ [wr_out w]" "cl_stdin s3 = cl_stdin s" "cl_fs s3 = cl_fs s" "cl_out s3 = cl_out s"
      using y w s2 by (auto simp: send_def split: prod.splits)
    have "asks L (sh_b64 E) req (wr_out w)"
      using write_frame_part [OF w] parse_v1 [OF assms(1-3)] unfolding asks_def by blast
    moreover have "t = s3"
      using assms(4) c i y Inr by (auto simp: round_trip_def bindA_def split: sum.splits)
    ultimately show ?thesis using s3 by (intro exI [of _ "[wr_out w]"]) simp
  qed
qed

lemma print_all_fields:
  "fst (print_all ls s) = Inr ()" "cl_sent (snd (print_all ls s)) = cl_sent s" "cl_peer (snd (print_all ls s)) = cl_peer s" "cl_stdin (snd (print_all ls s)) = cl_stdin s"
  "cl_out (snd (print_all ls s)) = cl_out s @ ls"
  by (induction ls arbitrary: s) (simp_all add: bindA_def println_def)

text \<open>A reply is only printed.\<close>

definition silent :: "('d, 'a) cli_act \<Rightarrow> bool" where
  "silent m \<longleftrightarrow> (\<forall>s. cl_sent (snd (m s)) = cl_sent s \<and> cl_peer (snd (m s)) = cl_peer s)"

lemma silentD: "silent m \<Longrightarrow> m s = (r, t) \<Longrightarrow> cl_sent t = cl_sent s"
  "silent m \<Longrightarrow> m s = (r, t) \<Longrightarrow> cl_peer t = cl_peer s"
  by (auto simp: silent_def dest: spec [of _ s])

lemma silent_intros:
  "silent (ret a)" "silent (fail e)" "silent (cli_fail x)" "silent (println l)" "silent (print_all ls)" "silent (eprint l)"
  "silent (slice_to n h)" "silent read_line" "silent (unexpected p)" "silent (lift_res q)"
  by (auto simp: silent_def cli_fail_def println_def print_all_fields eprint_def slice_to_def read_line_def
      split: list.split sum.split) (cases p; simp add: cli_fail_def)+

lemma silent_bindA: "silent m \<Longrightarrow> (\<And>a. silent (f a)) \<Longrightarrow> silent (bindA m f)"
  by (auto simp: silent_def bindA_def split: prod.splits sum.splits) (metis snd_conv)+

lemma silent_rollback: "silent (show_rollback L json p)" "silent (plan_of p)"
proof -
  have "silent (print_rollback out)" for out
    unfolding print_rollback_def
    by (intro silent_bindA silent_intros) (auto intro!: silent_bindA silent_intros split: option.split bool.split prod.split)
  then show "silent (show_rollback L json p)" by (cases p) (auto intro: silent_intros)
  show "silent (plan_of p)" by (cases p) (auto intro: silent_intros)
qed

lemma ask_user_yes:
  assumes "ask_user target plan s = (Inr a, t)"
  shows "\<exists>line. says_yes line \<and> cl_stdin s = Inr line # cl_stdin t"
proof -
  have "strip_any ps [] = None" for ps :: "string list"
    by (cases "strip_any ps []") (auto dest: strip_any_shorter)
  then have no: "\<not> says_yes []"
    by (simp add: says_yes_def str_trim_def trim_start_def trim_end_def trim_start_of.simps to_ascii_lowercase_def)
  let ?ls = "map (\<lambda>l. ''  - '' @ l) (ro_planned_steps plan)" and ?l = "''Planned rollback to '' @ target @ '':''"
  define u where "u = s\<lparr>cl_out := cl_out s @ [?l]\<rparr>"
  define v where "v = snd (print_all ?ls u)"
  have 1: "println ?l s = (Inr (), u)" by (simp add: println_def u_def)
  have 2: "print_all ?ls u = (Inr (), v)" by (simp add: v_def prod_eq_iff print_all_fields)
  have 3: "eprint ''Proceed? [y/N] '' v = (Inr (), v\<lparr>cl_err := cl_err v @ ''Proceed? [y/N] ''\<rparr>)"
    by (simp add: eprint_def)
  have "cl_stdin v = cl_stdin s" by (simp add: v_def u_def print_all_fields)
  with assms no show ?thesis
    unfolding ask_user_def bindA_Inr [where m = "println ?l" and s = s, OF 1]
      bindA_Inr [where m = "print_all ?ls" and s = u, OF 2] bindA_Inr [where m = "eprint ''Proceed? [y/N] ''" and s = v, OF 3]
    by (auto simp: bindA_ok_iff read_line_def cli_fail_def split: list.splits sum.splits if_splits)
qed

lemma silent_confirm: "silent (bindA (plan_of p) (ask_user target))"
  unfolding ask_user_def
  by (intro silent_bindA silent_intros silent_rollback) (auto intro: silent_intros)

lemma confirm_sends:
  assumes "json_law L" "b64_law (sh_b64 E)" "confirm L E repo target accept token s = (r, t)"
  shows "\<exists>new. cl_sent t = cl_sent s @ new \<and> length new \<le> 1 \<and>
     list_all (asks L (sh_b64 E) (RRollback target True accept token)) new \<and>
     (\<not> isl r \<longrightarrow> length new = 1 \<and> (\<exists>line. says_yes line \<and> cl_stdin s = Inr line # cl_stdin t))"
proof -
  let ?req = "RRollback target True accept token"
  obtain x u where x: "round_trip L E repo ?req s = (x, u)" by fastforce
  obtain new where new: "cl_sent u = cl_sent s @ new" "length new \<le> 1" "list_all (asks L (sh_b64 E) ?req) new"
    "cl_stdin u = cl_stdin s" "\<not> isl x \<longrightarrow> length new = 1"
    using round_trip_sends [OF assms(1, 2) _ x] by auto
  show ?thesis
  proof (cases x)
    case (Inl e)
    with x assms(3) new show ?thesis by (intro exI [of _ new]) (auto simp: confirm_def bindA_def)
  next
    case (Inr p)
    then have rest: "bindA (plan_of p) (ask_user target) u = (r, t)"
      using assms(3) x by (simp add: confirm_def bindA_def)
    have sent: "cl_sent t = cl_sent s @ new" using silentD(1) [OF silent_confirm rest] new(1) by simp
    have "\<exists>line. says_yes line \<and> cl_stdin s = Inr line # cl_stdin t" if "\<not> isl r"
    proof -
      from that obtain a where "bindA (plan_of p) (ask_user target) u = (Inr a, t)" using rest by (cases r) auto
      then obtain plan where "ask_user target plan u = (Inr a, t)"
        by (cases p) (auto simp: bindA_ok_iff cli_fail_def)
      from ask_user_yes [OF this] new(4) show ?thesis by simp
    qed
    with sent new Inr show ?thesis by (intro exI [of _ new]) simp
  qed
qed

lemma rollback_sends:
  assumes "json_law L" "b64_law (sh_b64 E)" "cmd_rollback L E repo target dry yes accept token json s = (r, t)"
  shows "\<exists>plan real. cl_sent t = cl_sent s @ plan @ real \<and> length plan \<le> 1 \<and> length real \<le> 1 \<and>
     list_all (asks L (sh_b64 E) (RRollback target True accept token)) plan \<and>
     list_all (asks L (sh_b64 E) (RRollback target dry accept token)) real \<and>
     (real \<noteq> [] \<longrightarrow> dry \<or> yes \<or> length plan = 1 \<and> (\<exists>line rest. cl_stdin s = Inr line # rest \<and> says_yes line))"
proof -
  let ?ask = "if \<not> dry \<and> \<not> yes then confirm L E repo target accept token else ret ()"
  obtain x u where x: "?ask s = (x, u)" by fastforce
  obtain plan where plan: "cl_sent u = cl_sent s @ plan" "length plan \<le> 1"
    "list_all (asks L (sh_b64 E) (RRollback target True accept token)) plan"
    "\<not> isl x \<longrightarrow> dry \<or> yes \<or> length plan = 1 \<and> (\<exists>line rest. cl_stdin s = Inr line # rest \<and> says_yes line)"
  proof (cases "dry \<or> yes")
    case True
    with x that [of "[]"] show thesis by (auto split: if_splits)
  next
    case False
    with x confirm_sends [OF assms(1, 2), of repo target accept token s x u] that show thesis by auto
  qed
  show ?thesis
  proof (cases x)
    case (Inl e)
    with assms(3) x plan show ?thesis
      by (intro exI [of _ plan] exI [of _ "[]"]) (auto simp: cmd_rollback_def bindA_def)
  next
    case (Inr a)
    obtain y v where y: "round_trip L E repo (RRollback target dry accept token) u = (y, v)" by fastforce
    obtain real where real: "cl_sent v = cl_sent u @ real" "length real \<le> 1"
      "list_all (asks L (sh_b64 E) (RRollback target dry accept token)) real"
      using round_trip_sends [OF assms(1, 2) _ y] by auto
    have "bindA (round_trip L E repo (RRollback target dry accept token)) (show_rollback L json) u = (r, t)"
      using assms(3) x Inr by (simp add: cmd_rollback_def bindA_def)
    then have "cl_sent t = cl_sent v"
      using y silentD(1) [OF silent_rollback(1)] by (auto simp: bindA_def split: sum.splits)
    with plan real Inr show ?thesis by (intro exI [of _ plan] exI [of _ real]) auto
  qed
qed

section \<open>Replies are well typed\<close>

text \<open>Where a reply has a hash it is the sixty-four digits of one.\<close>

definition hash_text :: "string \<Rightarrow> bool" where
  "hash_text h \<longleftrightarrow> length h = 64 \<and> list_all is_lower_hex h"

fun reply_wf :: "response \<Rightarrow> bool" where
  "reply_wf (PCommit c) \<longleftrightarrow> hash_text (co_hash c)"
| "reply_wf (PLog es) \<longleftrightarrow> list_all (\<lambda>e. hash_text (le_hash e)) es"
| "reply_wf (PDiff d) \<longleftrightarrow> hash_text (do_from d) \<and> hash_text (do_to d)"
| "reply_wf (PRollback r) \<longleftrightarrow> (case ro_new_head_hash r of None \<Rightarrow> True | Some h \<Rightarrow> hash_text h)"
| "reply_wf (PResolveRef h) \<longleftrightarrow> hash_text h"
| "reply_wf (PObjectData h k d) \<longleftrightarrow> hash_text h"
| "reply_wf _ \<longleftrightarrow> True"

lemma hash_text_hex [simp]: "hex_law L \<Longrightarrow> hash_text (to_hex L h)"
  by (simp add: hash_text_def length_to_hex to_hex_lower)

lemma beside_ok: "beside_log m x = (Inr a, y) \<longleftrightarrow> (\<exists>w. m (fst x) = (Inr a, w) \<and> y = (w, snd x))"
  by (auto simp: beside_log_def split: prod.splits)

lemma work_typed:
  assumes "hex_law L" "request_work L rfc D peer ck q x = (Inr p, y)"
  shows "reply_wf p"
proof (cases q)
  case (RCommit i)
  with assms show ?thesis
    by (auto simp: locked_commit_def commit_phases commit_post_def bindA_ok_iff beside_ok split: prod.splits)
next
  case (RLog n)
  with assms show ?thesis
    by (auto simp: log_request_def bindA_ok_iff beside_ok list_all_iff split: prod.splits)
next
  case (RDiff a b)
  with assms show ?thesis
    by (auto simp: render_diff_def handle_diff_def bindA_ok_iff beside_ok split: prod.splits)
next
  case (RRollback t d a tok)
  with assms show ?thesis
    by (auto simp: locked_rollback_def rollback_execute_def rollback_approved_def bindA_ok_iff beside_ok Let_def
        split: prod.splits option.splits if_splits)
next
  case (RResolveRef n)
  with assms show ?thesis
    by (auto simp: resolve_ref_def bindA_ok_iff beside_ok resp_defs split: prod.splits option.splits)
next
  case (RReadObject h)
  with assms show ?thesis
    by (auto simp: read_object_def bindA_ok_iff beside_ok resp_defs case_prod_unfold Let_def split: if_splits)
qed (use assms in auto)

lemma dispatch_typed:
  assumes "hex_law L" "dispatch el L rfc D peer ck q s = (Inr p, t)"
  shows "reply_wf p"
proof -
  have on: "reply_wf p" if "on_data (request_work L rfc D peer ck q) u = (Inr p, v)" for u v
    using that by (cases "request_work L rfc D peer ck q (sv_data u)") (auto simp: on_data_def intro: work_typed [OF assms(1)])
  have slot: "reply_wf p" if "with_slot m u = (Inr p, v)" "\<And>u v. m u = (Inr p, v) \<Longrightarrow> reply_wf p" for m u v
    using that by (auto simp: with_slot_def bindA_ok_iff queue_full_def resp_defs split: if_splits prod.splits)
  have "reply_wf p" if "write_path el (request_work L rfc D peer ck q) s = (Inr p, t)"
    using that unfolding write_path_def bindA_ok_iff by (elim exE conjE slot) (auto simp: bindA_ok_iff intro: on)
  moreover have "reply_wf p" if "diff_path el (request_work L rfc D peer ck q) s = (Inr p, t)"
    using that unfolding diff_path_def by (elim slot) (auto intro: on)
  ultimately show ?thesis
    using assms(2) on by (cases q) (auto split: if_splits)
qed

lemma reply_typed: "hex_law L \<Longrightarrow> reply_wf (fst (reply_to L B sh rfc D peer t q s))"
proof -
  assume L: "hex_law L"
  obtain x u where x: "dispatch (tn_elsewhere t) L rfc D peer (tn_clock t) q s = (x, u)" by fastforce
  show ?thesis
  proof (cases x)
    case (Inl e)
    obtain c k r where "map_anyhow_to_response_error sh e = PError c k (render_chain sh e) r"
      using map_anyhow_error by blast
    with x Inl show ?thesis by (simp add: reply_to_def)
  next
    case (Inr p)
    with x dispatch_typed [OF L] show ?thesis by (simp add: reply_to_def)
  qed
qed

section \<open>No panic\<close>

definition calm_cmd :: "('d, 'a) cli_act \<Rightarrow> bool" where
  "calm_cmd m \<longleftrightarrow> (\<forall>s. fst (m s) \<noteq> Inl Panic)"

lemma calm_intros:
  "calm_cmd (ret a)" "calm_cmd (cli_fail e)" "calm_cmd (println l)" "calm_cmd (print_all ls)" "calm_cmd (eprint l)"
  "calm_cmd read_line" "calm_cmd (unexpected p)" "calm_cmd (on_files m)" "calm_cmd (lift_res (map_err CliError q))"
  "calm_cmd (connect E x)" "calm_cmd (new_correlation_id E)" "calm_cmd (send L E room rq)" "calm_cmd (resolve_repo E n)"
  by (auto simp: calm_cmd_def cli_fail_def println_def print_all_fields eprint_def read_line_def on_files_def connect_def
      new_correlation_id_def send_def resolve_repo_def map_err_def
      split: list.split sum.split prod.split option.split) (cases p; simp add: cli_fail_def)+

lemma calm_bindA: "calm_cmd m \<Longrightarrow> (\<And>a. calm_cmd (f a)) \<Longrightarrow> calm_cmd (bindA m f)"
  by (auto simp: calm_cmd_def bindA_def split: prod.splits sum.splits) (metis fst_conv)+

text \<open>The only cuts are of hashes.\<close>

lemma calm_slice: "hash_text h \<Longrightarrow> calm_cmd (slice_to 7 h)"
proof -
  assume h: "hash_text h"
  then have "is_lower_hex (h ! 7)" by (auto simp: hash_text_def list_all_length)
  then have "\<not> cont (of_char (h ! 7))"
    by (auto simp: is_lower_hex_def is_digit_def cont_def)
  with h show ?thesis by (simp add: slice_to_def hash_text_def calm_cmd_def)
qed

lemma calm_show:
  assumes "reply_wf p"
  shows "calm_cmd (show_ping j p)" "calm_cmd (show_commit j p)" "calm_cmd (show_log L j o1 p)" "calm_cmd (show_resolve j p)"
    "calm_cmd (show_status p)" "calm_cmd (show_object j p)" "calm_cmd (show_diff L j p)" "calm_cmd (show_rollback L j p)"
    "calm_cmd (plan_of p)"
proof -
  have one: "list_all (\<lambda>e. hash_text (le_hash e)) es \<Longrightarrow> calm_cmd (show_oneline es)" for es
    by (induction es) (auto intro!: calm_intros calm_bindA calm_slice)
  show "calm_cmd (show_ping j p)" "calm_cmd (show_resolve j p)" "calm_cmd (show_status p)" "calm_cmd (show_object j p)"
    "calm_cmd (plan_of p)"
    by (cases p; simp add: calm_intros del: print_all.simps unexpected.simps)+
  show "calm_cmd (show_commit j p)" "calm_cmd (show_log L j o1 p)"
    using assms by (cases p; simp add: calm_intros calm_bindA calm_slice one del: print_all.simps unexpected.simps)+
  show "calm_cmd (show_diff L j p)"
    using assms by (cases p) (simp_all add: print_diff_def calm_intros calm_bindA calm_slice del: print_all.simps unexpected.simps)
  have roll: "calm_cmd (print_rollback out)" if "reply_wf (PRollback out)" for out
    using that unfolding print_rollback_def
    by (cases "ro_executed out"; cases "ro_new_head_hash out") (simp_all add: calm_bindA calm_intros calm_slice)
  with assms show "calm_cmd (show_rollback L j p)"
    by (cases p) (auto simp del: unexpected.simps intro: calm_intros roll)
qed

text \<open>The replies a process can be given are typed.\<close>

definition typed_peer :: "lib \<Rightarrow> 'd shell \<Rightarrow> bool" where
  "typed_peer L E \<longleftrightarrow> (\<forall>cid bs d p. receive L E cid (fst (sh_serve E bs d)) = Inr p \<longrightarrow> reply_wf p)"

lemma round_trip_reply:
  assumes "typed_peer L E" "round_trip L E repo req s = (r, t)"
  shows "r \<noteq> Inl Panic" "r = Inr p \<Longrightarrow> reply_wf p"
proof -
  have "receive L E cid rd \<noteq> Inl Panic" for cid rd
    by (auto simp: receive_def split: sum.split option.split)
  then have "calm_cmd (round_trip L E repo req)"
    unfolding round_trip_def by (intro calm_bindA calm_intros) (simp add: calm_cmd_def)
  with assms(2) show "r \<noteq> Inl Panic" unfolding calm_cmd_def by (metis fst_conv)
  assume "r = Inr p"
  then obtain cid rd q u v where "send L E q u v = (Inr rd, t)" "receive L E cid rd = Inr p"
    using assms(2) by (auto simp: round_trip_def bindA_ok_iff)
  moreover from this(1) have "\<exists>bs d. rd = fst (sh_serve E bs d)"
    by (auto simp: send_def map_sum_def map_err_def split: prod.splits sum.splits) (metis fst_conv)
  ultimately show "reply_wf p" using assms(1) unfolding typed_peer_def by blast
qed

lemma calm_exchange:
  assumes "typed_peer L E" "\<And>p. reply_wf p \<Longrightarrow> calm_cmd (f p)"
  shows "calm_cmd (bindA (round_trip L E repo req) f)"
  unfolding calm_cmd_def
proof
  fix s
  obtain r t where r: "round_trip L E repo req s = (r, t)" by fastforce
  show "fst (bindA (round_trip L E repo req) f s) \<noteq> Inl Panic"
    using round_trip_reply [OF assms(1) r] assms(2) r by (cases r) (auto simp: bindA_def calm_cmd_def)
qed

lemma calm_run:
  assumes "typed_peer L E"
  shows "calm_cmd (run_command L E repo json c)"
proof -
  note printed = calm_show and ex = calm_exchange [OF assms]
  have mint: "calm_cmd (cmd_mint_approval L E h uid kf)" for h uid kf
  proof -
    have "calm_cmd (lift_res (map_err (\<lambda>_. CliError x) q))" for x and q :: "'x + 'y"
      by (cases q) (simp_all add: calm_cmd_def)
    then show ?thesis unfolding cmd_mint_approval_def by (intro calm_bindA calm_intros)
  qed
  have ask: "calm_cmd (ask_user target plan)" for target plan
    unfolding ask_user_def by (intro calm_bindA calm_intros) (simp add: calm_intros)
  have roll: "calm_cmd (cmd_rollback L E repo t d y a tok json)" for t d y a tok
    unfolding cmd_rollback_def confirm_def
    by (intro calm_bindA ex printed) (auto intro!: ex calm_bindA calm_intros printed ask)
  show ?thesis
  proof (cases c)
    case (CInit x)
    then show ?thesis by (simp add: cmd_init_def) (intro calm_bindA calm_intros)
  next
    case (CCommit m d mo nm)
    then show ?thesis by (simp add: cmd_commit_def) (intro calm_bindA calm_intros ex printed)
  next
    case (CRollback t d y a tok ap uid kf)
    then show ?thesis using mint roll by (auto intro!: calm_bindA calm_intros split: option.split)
  qed (simp_all add: cmd_ping_def cmd_log_def cmd_resolve_def cmd_status_def cmd_diff_def cmd_cat_object_def ex printed)
qed

section \<open>Reading the prompt files\<close>

text \<open>The names an operating system gives: no empty component, no dots, no slash inside; and below the directory
  they are UTF-8.\<close>

definition plain_component :: "string \<Rightarrow> bool" where
  "plain_component c \<longleftrightarrow> c \<noteq> [] \<and> c \<noteq> ''.'' \<and> c \<noteq> ''..'' \<and> CHR ''/'' \<notin> set c"

definition plain_names :: "path \<Rightarrow> ents \<Rightarrow> bool" where
  "plain_names dir es \<longleftrightarrow>
     (\<forall>q c cs. map_of es q \<noteq> None \<and> q = dir @ c # cs \<longrightarrow>
        list_all plain_component (c # cs) \<and> utf8_ok (str_bytes (join_with ''/'' (c # cs))))"

definition prompt_at :: "ents \<Rightarrow> path \<Rightarrow> string \<Rightarrow> bytes option" where
  "prompt_at es dir name =
     (case map_of es (dir @ split_on (CHR ''/'') name) of Some (FFile bs) \<Rightarrow> Some bs | _ \<Rightarrow> None)"

definition under :: "path \<Rightarrow> path \<Rightarrow> string list \<Rightarrow> string \<Rightarrow> bool" where
  "under dir here xs name \<longleftrightarrow> (\<exists>x\<in>set xs. \<exists>cs. dir @ split_on (CHR ''/'') name = here @ x # cs)"

definition collected :: "ents \<Rightarrow> path \<Rightarrow> path \<Rightarrow> string list \<Rightarrow> (string \<times> bytes) list \<Rightarrow> (string \<times> bytes) list \<Rightarrow> bool" where
  "collected es dir here xs out m \<longleftrightarrow> (bt_ok out \<longrightarrow> bt_ok m) \<and>
     (\<forall>name. map_of m name =
        (if under dir here xs name \<and> prompt_at es dir name \<noteq> None then prompt_at es dir name else map_of out name))"

lemma collected_empty: "collected es dir here [] out out"
  by (simp add: collected_def under_def)

lemma under_Cons: "under dir here (x # xs) name \<longleftrightarrow> under dir here [x] name \<or> under dir here xs name"
  by (auto simp: under_def)

lemma collected_Cons:
  "collected es dir here [x] out m \<Longrightarrow> collected es dir here xs m m' \<Longrightarrow> collected es dir here (x # xs) out m'"
  unfolding collected_def under_Cons [of dir here x xs] by auto

lemma collected_none:
  "(\<And>name cs. dir @ split_on (CHR ''/'') name = here @ x # cs \<Longrightarrow> prompt_at es dir name = None) \<Longrightarrow>
     collected es dir here [x] out out"
  by (auto simp: collected_def under_def)

lemma collected_below:
  assumes "collected es dir (here @ [x]) xs out m" "map_of es (here @ [x]) = Some FDir"
    and "\<And>name. prompt_at es dir name \<noteq> None \<Longrightarrow> (\<exists>cs. dir @ split_on (CHR ''/'') name = here @ x # cs) \<Longrightarrow>
      under dir (here @ [x]) xs name"
  shows "collected es dir here [x] out m"
proof -
  have "under dir here [x] name" if "under dir (here @ [x]) xs name" for name
    using that by (auto simp: under_def)
  with assms(1, 3) show ?thesis unfolding collected_def by (auto simp: under_def)
qed

lemma collected_file:
  assumes "es_ok es" "map_of es (here @ [x]) = Some (FFile bs)" "plain_names dir es" "here = dir @ pre"
  shows "collected es dir here [x] out (bt_insert (prompt_name dir (here @ [x])) bs out)"
proof -
  let ?q = "pre @ [x]" and ?n = "prompt_name dir (here @ [x])"
  obtain c cs where q: "?q = c # cs" by (cases ?q) auto
  have "map_of es (dir @ c # cs) \<noteq> None" using assms(2, 4) q by (metis append.assoc option.distinct(1))
  then have q': "list_all plain_component ?q" "utf8_ok (str_bytes (join_with ''/'' ?q))"
    using assms(3) unfolding plain_names_def q by blast+
  then have n: "?n = join_with ''/'' ?q"
    using assms(4) by (simp add: prompt_name_def utf8_lossy_valid)
  have split: "split_on (CHR ''/'') ?n = ?q"
    unfolding n using q'(1) by (intro split_on_join) (auto simp: list_all_iff plain_component_def)
  have at: "prompt_at es dir ?n = Some bs" unfolding prompt_at_def split using assms(2, 4) by simp
  have other: "name = ?n" if p: "prompt_at es dir name \<noteq> None" and d: "dir @ split_on (CHR ''/'') name = here @ x # cs" for name cs
  proof -
    obtain b where b: "map_of es (here @ x # cs) = Some (FFile b)"
      using p unfolding prompt_at_def d by (auto split: option.splits entry.splits)
    with es_ok_prefix_dir [OF assms(1), of here x cs] assms(2) have "cs = []" by (auto split: if_splits)
    with d assms(4) have "split_on (CHR ''/'') name = ?q" by simp
    then show ?thesis using split join_split_on by metis
  qed
  have "under dir here [x] ?n" unfolding under_def split using assms(4) by simp
  then show ?thesis
    unfolding collected_def using at other bt_insert_ok by (auto simp: under_def)
qed

lemma under_children:
  assumes "es_ok es" "prompt_at es dir name \<noteq> None" "dir @ split_on (CHR ''/'') name = here @ y # ys"
  shows "under dir here (map fst (children es here)) name"
proof -
  obtain b where "map_of es (here @ y # ys) = Some (FFile b)"
    using assms(2) unfolding prompt_at_def assms(3) by (auto split: option.splits entry.splits)
  from es_ok_prefix_dir [OF assms(1) this] obtain e where "map_of es (here @ [y]) = Some e" by (auto split: if_splits)
  then have "(y, e) \<in> set (children es here)" using assms(1) by (simp add: set_children es_ok_iff)
  with assms(3) show ?thesis by (force simp: under_def)
qed

lemma fold_act_Cons: "f x b s = (Inr c, t) \<Longrightarrow> fold_act f (x # xs) b s = fold_act f xs c t"
  by simp

lemma walk_exact:
  assumes "quiet f" "es_ok (entries f)" "plain_names dir (entries f)"
  shows "lookup (entries f) here = Some FDir \<Longrightarrow> here = dir @ pre \<Longrightarrow>
     (\<And>q e. map_of (entries f) q = Some e \<Longrightarrow> length q < length here + n) \<Longrightarrow> 0 < n \<Longrightarrow>
     \<exists>m. walk_prompts n dir here out f = (Inr m, f) \<and>
       collected (entries f) dir here (map fst (children (entries f) here)) out m"
proof (induction n arbitrary: here pre out)
  case (Suc n)
  let ?es = "entries f"
  let ?step = "\<lambda>(name, e) out. case e of
         FDir \<Rightarrow> walk_prompts n dir (here @ [name]) out
       | FFile _ \<Rightarrow>
           bindA (with_context ''reading prompt'' (io_any (fs_read (here @ [name])))) (\<lambda>body.
           ret (bt_insert (prompt_name dir (here @ [name])) body out))
       | _ \<Rightarrow> ret out"
  have faults: "faults f = []" using assms(1) by (simp add: quiet_def)
  have dist: "distinct (map fst ?es)" using assms(2) by (simp add: es_ok_iff)
  have kid: "\<exists>m. ?step (x, e) out f = (Inr m, f) \<and> collected ?es dir here [x] out m"
    if "map_of ?es (here @ [x]) = Some e" for x e out
  proof (cases e)
    case (FFile bs)
    have "fs_read (here @ [x]) f = (Inr bs, f)"
      using that FFile faults by (simp add: fs_read_def prim_quiet lookup_def)
    with collected_file [OF assms(2) _ assms(3) Suc.prems(2)] that FFile show ?thesis by (simp add: bindA_def any_defs map_errA_def)
  next
    case FDir
    have look: "lookup ?es (here @ [x]) = Some FDir" using that FDir by (simp add: lookup_def)
    have len: "length q < length (here @ [x]) + n" if "map_of ?es q = Some e" for q e
      using Suc.prems(3) [OF that] by simp
    have "0 < n" using Suc.prems(3) [OF that] by simp
    then have "\<exists>m. walk_prompts n dir (here @ [x]) out f = (Inr m, f) \<and>
        collected ?es dir (here @ [x]) (map fst (children ?es (here @ [x]))) out m"
      by (intro Suc.IH [where pre = "pre @ [x]"]) (use look Suc.prems(2) len in auto)
    then obtain m where m: "walk_prompts n dir (here @ [x]) out f = (Inr m, f)"
      "collected ?es dir (here @ [x]) (map fst (children ?es (here @ [x]))) out m" by blast
    have "under dir (here @ [x]) (map fst (children ?es (here @ [x]))) name"
      if p: "prompt_at ?es dir name \<noteq> None" and d: "\<exists>cs. dir @ split_on (CHR ''/'') name = here @ x # cs" for name
    proof -
      obtain cs where cs: "dir @ split_on (CHR ''/'') name = here @ x # cs" using d by blast
      have "cs \<noteq> []" using p \<open>map_of ?es (here @ [x]) = Some e\<close> FDir unfolding prompt_at_def cs by (cases cs) auto
      then obtain y ys where "dir @ split_on (CHR ''/'') name = (here @ [x]) @ y # ys" using cs by (cases cs) auto
      with under_children [OF assms(2) p] show ?thesis by blast
    qed
    from collected_below [OF m(2) _ this] m(1) that FDir show ?thesis by auto
  next
    case FLink
    have "collected ?es dir here [x] out out"
    proof (rule collected_none)
      fix name cs assume d: "dir @ split_on (CHR ''/'') name = here @ x # cs"
      show "prompt_at ?es dir name = None"
        using es_ok_prefix_dir [OF assms(2), of here x cs] that FLink unfolding prompt_at_def d
        by (auto split: option.split entry.split if_splits)
    qed
    with FLink show ?thesis by simp
  next
    case FSpecial
    have "collected ?es dir here [x] out out"
    proof (rule collected_none)
      fix name cs assume d: "dir @ split_on (CHR ''/'') name = here @ x # cs"
      show "prompt_at ?es dir name = None"
        using es_ok_prefix_dir [OF assms(2), of here x cs] that FSpecial unfolding prompt_at_def d
        by (auto split: option.split entry.split if_splits)
    qed
    with FSpecial show ?thesis by simp
  qed
  have fold: "\<exists>m. fold_act ?step ks out f = (Inr m, f) \<and> collected ?es dir here (map fst ks) out m"
    if "set ks \<subseteq> set (children ?es here)" for ks out
    using that
  proof (induction ks arbitrary: out)
    case (Cons k ks)
    obtain x e where k: "k = (x, e)" by (cases k)
    with Cons.prems have "map_of ?es (here @ [x]) = Some e" using set_children [OF dist] by auto
    from kid [OF this, of out] obtain m where m: "?step k out f = (Inr m, f)" "collected ?es dir here [x] out m"
      using k by blast
    from Cons.prems have "set ks \<subseteq> set (children ?es here)" by simp
    from Cons.IH [OF this, of m] obtain m' where m': "fold_act ?step ks m f = (Inr m', f)"
      "collected ?es dir here (map fst ks) m m'" by blast
    have "fold_act ?step (k # ks) out f = (Inr m', f)"
      using fold_act_Cons [where f = ?step, OF m(1)] m'(1) by (rule trans)
    with collected_Cons [OF m(2) m'(2)] k show ?case by auto
  qed (simp add: collected_empty)
  have "fs_read_dir here f = (Inr (children ?es here), f)"
    using faults Suc.prems(1) by (simp add: fs_read_dir_def prim_quiet)
  then have dir: "with_context ''reading'' (io_any (fs_read_dir here)) f = (Inr (children ?es here), f)" by simp
  show ?case
    unfolding walk_prompts.simps bindA_Inr [where m = "with_context ''reading'' (io_any (fs_read_dir here))" and s = f, OF dir]
    by (rule fold [OF subset_refl])
qed simp

lemma read_prompts_exact:
  assumes "quiet f" "fs_ok f" "plain_names dir (entries f)" "lookup (entries f) dir = Some FDir"
  obtains m where "read_prompt_dir dir f = (Inr m, f)" "bt_ok m" "map_of m = prompt_at (entries f) dir"
proof -
  have es: "es_ok (entries f)" using assms(2) by (simp add: fs_ok_def)
  have len: "length q < length dir + Suc (max_depth (entries f))" if "map_of (entries f) q = Some e" for q e
    using length_le_max_depth [OF that] by simp
  obtain m where m: "walk_prompts (Suc (max_depth (entries f))) dir dir [] f = (Inr m, f)"
    "collected (entries f) dir dir (map fst (children (entries f) dir)) [] m"
    using walk_exact [OF assms(1) es assms(3, 4), of "[]"] len by fastforce
  have "under dir dir (map fst (children (entries f) dir)) name" if "prompt_at (entries f) dir name \<noteq> None" for name
    using under_children [OF es that] by (metis list.exhaust split_on_not_Nil)
  moreover have "map_of m name = (if under dir dir (map fst (children (entries f) dir)) name \<and> prompt_at (entries f) dir name \<noteq> None
      then prompt_at (entries f) dir name else None)" for name
    using m(2) by (simp add: collected_def)
  ultimately have "map_of m name = prompt_at (entries f) dir name" for name
    by (cases "prompt_at (entries f) dir name = None") simp_all
  moreover have "path_exists f dir" using assms(4) by (simp add: path_exists_def)
  ultimately show thesis
    using that [of m] m unfolding collected_def by (simp add: read_prompt_dir_def fun_eq_iff del: walk_prompts.simps)
qed

text \<open>What is read can be written back under the same names.\<close>

lemma plain_path:
  assumes "list_all plain_component (split_on (CHR ''/'') name)"
  shows "validate_tree_entry_name name = Inr () \<and> path_join p name = p @ split_on (CHR ''/'') name"
proof -
  have c: "path_components name = map Normal (split_on (CHR ''/'') name)"
    using assms by (intro path_components_normal) (auto simp: list_all_iff plain_component_def)
  have "name \<noteq> []" using assms by (auto simp: plain_component_def)
  with c show ?thesis
    by (auto simp: validate_tree_entry_name_def path_join_def list_ex_iff is_normal_def foldl_walk_normal)
qed

lemma prompt_restorable:
  assumes "plain_names dir es" "prompt_at es dir name = Some bs"
  shows "validate_tree_entry_name name = Inr () \<and> path_join p name = p @ split_on (CHR ''/'') name"
proof (rule plain_path)
  obtain c cs where c: "split_on (CHR ''/'') name = c # cs" by (cases "split_on (CHR ''/'') name") auto
  have "map_of es (dir @ c # cs) \<noteq> None" using assms(2) by (auto simp: prompt_at_def c split: option.splits)
  then show "list_all plain_component (split_on (CHR ''/'') name)"
    using assms(1) unfolding plain_names_def c by blast
qed

section \<open>Properties\<close>

text \<open>A process that has nothing, and one whose peer answers every ping.\<close>

definition sample_shell :: "unit shell" where
  "sample_shell =
     \<lparr>sh_b64 = sample_b64, sh_pid = 7, sh_env = (\<lambda>_. None), sh_cwd = [''r''], sh_cwd_error = None,
      sh_connect = (\<lambda>_ d. (Inr None, d)),
      sh_serve = (\<lambda>_ d. (\<lparr>rd_data = frame_of (json_print sample_lib
        (envelope_to_json (response_to_json sample_b64) (envelope_new ''cli-7-1'' Pong))), rd_fault = None\<rparr>, d)),
      sh_git = (\<lambda>_. Inl (IoError IoNotFound ''git'')), sh_clock = Some 5000\<rparr>"

definition sample_cli :: "ents \<Rightarrow> (io_error + string) list \<Rightarrow> unit cli" where
  "sample_cli es input =
     \<lparr>cl_fs = \<lparr>entries = es, faults = []\<rparr>, cl_peer = (), cl_counter = 1, cl_stdin = input, cl_out = [], cl_err = [],
      cl_sent = []\<rparr>"

lemma says_no: "\<not> says_yes ''no''"
proof -
  have "CHR ''n'' \<notin> set white_ends" "CHR ''o'' \<notin> set white_ends" using white_ends_ascii by fastforce+
  then have "str_trim ''no'' = ''no''" using trim_plain [of "CHR ''n''" "CHR ''o''" "[]"] by simp
  then show ?thesis
    by (simp add: says_yes_def to_ascii_lowercase_def ascii_lower_def is_upper_def)
qed

text \<open>
  C13. A rollback command puts at most two frames on the socket, first one that the daemon takes for the same
  rollback as a dry run, then one that it takes for what was asked; and unless a dry run or no question was
  asked for, the second is sent only after the plan was requested and the user has answered it with yes.
\<close>

theorem rollback_confirmed:
  assumes "json_law L" "b64_law (sh_b64 E)" "cmd_rollback L E repo target dry yes accept token json s = (r, t)"
  shows "\<exists>plan real. cl_sent t = cl_sent s @ plan @ real \<and> length plan \<le> 1 \<and> length real \<le> 1 \<and>
     list_all (asks L (sh_b64 E) (RRollback target True accept token)) plan \<and>
     list_all (asks L (sh_b64 E) (RRollback target dry accept token)) real \<and>
     (real = [] \<or> dry \<or> yes \<or> length plan = 1 \<and> (\<exists>line rest. cl_stdin s = Inr line # rest \<and> says_yes line))"
  using rollback_sends [OF assms] by blast

text \<open>The hash of a commit as an operator types it.\<close>

lemma ascii_lower_idem: "to_ascii_lowercase (to_ascii_lowercase s) = to_ascii_lowercase s"
proof -
  have "ascii_lower (ascii_lower c) = ascii_lower c" for c
    by (cases c) (auto simp: ascii_lower_def is_upper_def)
  then show ?thesis by (simp add: to_ascii_lowercase_def)
qed

lemma mint_steps:
  assumes "cmd_mint_approval L E c (Some uid) (Some kf) s = (Inr (), t)"
  shows "\<exists>bs key now. lookup (entries (cl_fs s)) kf = Some (FFile bs) \<and> approval_key_from_bytes bs = Inr key \<and>
     sh_clock E = Some now \<and> cl_out t = cl_out s @ [generate_token L key c uid now]"
  using assms
  by (auto simp: cmd_mint_approval_def bindA_ok_iff on_files_def println_def with_context_def map_errA_def io_any_def
      ok_or_def dest!: fs_read_content split: prod.splits sum.splits option.splits)

lemma loaded_key:
  assumes "load_approval_key (Some kf) f = (Inr (Some k), g)"
  shows "\<exists>bs. lookup (entries f) kf = Some (FFile bs) \<and> approval_key_from_bytes bs = Inr k"
  using assms by (auto simp: load_approval_key_def dest!: fs_read_content split: prod.splits sum.splits if_splits)

theorem rollback_confirmed_witness:
  "\<exists>plan. cl_sent (snd (cmd_rollback sample_lib sample_shell [''r''] ''main'' False False False None False
       (sample_cli [] [Inr ''no'']))) = plan \<and> length plan \<le> 1 \<and>
     list_all (asks sample_lib sample_b64 (RRollback ''main'' True False None)) plan"
proof -
  let ?s = "sample_cli [] [Inr ''no'']"
  obtain r t where r: "cmd_rollback sample_lib sample_shell [''r''] ''main'' False False False None False ?s = (r, t)"
    by fastforce
  have "b64_law (sh_b64 sample_shell)" by (simp add: sample_shell_def sample_b64_law)
  from rollback_confirmed [OF sample_json this r] says_no show ?thesis
    unfolding r by (auto simp: sample_cli_def sample_shell_def)
qed


lemma sample_receive:
  assumes "receive sample_lib sample_shell cid (fst (sh_serve sample_shell bs d)) = Inr p"
  shows "p = Pong"
proof -
  let ?j = "envelope_to_json (response_to_json sample_b64) (envelope_new ''cli-7-1'' Pong)"
  have len: "length (json_print sample_lib ?j) \<le> 16777216"
    by (simp add: sample_lib_def envelope_to_json_def envelope_new_def tagged_def of_u16_def)
  have exact: "json_exact ?j"
    by (rule envelope_exact flat_response)+
  have of: "envelope_of_json (response_of_json sample_b64) ?j = Some (envelope_new ''cli-7-1'' Pong)"
    by (rule envelope_read) (rule response_read [OF sample_b64_law])
  have "fst (read_frame sample_lib (envelope_of_json (response_of_json sample_b64)) (fst (sh_serve sample_shell bs d)))
      = Inr (Some (envelope_new ''cli-7-1'' Pong))"
    using read_frame_exact [where f = "envelope_of_json (response_of_json sample_b64)" and rest = "[]" and e = None,
      OF sample_json exact len of]
    by (simp add: sample_shell_def)
  with assms show ?thesis
    by (auto simp: receive_def sample_shell_def envelope_new_def split: if_splits)
qed


text \<open>
  C28. A token that the program mints with the key file the daemon was started with opens the daemon's gate for the
  commit, however its hash was typed, and the worker it was minted for, exactly within five minutes of the clock at
  which it was minted.
\<close>

theorem minted_token_opens_gate:
  assumes "hex_law L" "hmac_law L" "cmd_mint_approval L E commit (Some uid) (Some kf) s = (Inr (), t)"
    and "load_approval_key (Some kf) f = (Inr (Some k), g)" "lookup (entries f) kf = lookup (entries (cl_fs s)) kf"
    and "to_ascii_lowercase commit = to_ascii_lowercase (to_hex L h)"
  shows "\<exists>now token. sh_clock E = Some now \<and> cl_out t = cl_out s @ [token] \<and>
     (gate_check L (Some k) (to_hex L h) (Some uid) (Some token) later = Inr () \<longleftrightarrow>
       unat later \<le> unat now + 300 \<and> unat now \<le> unat later + 300)"
proof -
  obtain bs key now where m: "lookup (entries (cl_fs s)) kf = Some (FFile bs)" "approval_key_from_bytes bs = Inr key"
    "sh_clock E = Some now" "cl_out t = cl_out s @ [generate_token L key commit uid now]"
    using mint_steps [OF assms(3)] by blast
  have "k = key" using loaded_key [OF assms(4)] assms(5) m(1, 2) by auto
  then have "gate_check L (Some k) (to_hex L h) (Some uid) (Some (generate_token L key commit uid now)) later = Inr () \<longleftrightarrow>
      unat later \<le> unat now + 300 \<and> unat now \<le> unat later + 300"
    using assms(6) by (auto simp: gate_check_def verify_generate [OF assms(1, 2)] approval_token_ttl_seconds_def map_err_def)
  with m(3, 4) show ?thesis by blast
qed

theorem minted_token_opens_gate_witness:
  "\<exists>token. cl_out (snd (cmd_mint_approval sample_lib sample_shell (to_hex sample_lib 0) (Some 1000) (Some [''k''])
      (sample_cli [([''k''], FFile (replicate 32 0))] []))) = [token] \<and>
     gate_check sample_lib (Some (replicate 32 0)) (to_hex sample_lib 0) (Some 1000) (Some token) 5300 = Inr () \<and>
     gate_check sample_lib (Some (replicate 32 0)) (to_hex sample_lib 0) (Some 1000) (Some token) 5301 \<noteq> Inr ()"
proof -
  let ?s = "sample_cli [([''k''], FFile (replicate 32 0))] []"
  let ?mint = "cmd_mint_approval sample_lib sample_shell (to_hex sample_lib 0) (Some 1000) (Some [''k''])"
  obtain t where t: "?mint ?s = (Inr (), t)"
    by (simp add: cmd_mint_approval_def bindA_def on_files_def println_def any_defs map_errA_def ok_or_def sample_cli_def
        sample_shell_def fs_read_def prim_quiet lookup_def approval_key_from_bytes_def approval_key_len_def map_err_def)
  have k: "load_approval_key (Some [''k'']) (cl_fs ?s) = (Inr (Some (replicate 32 0)), cl_fs ?s)"
    by (simp add: load_approval_key_def sample_cli_def fs_read_def prim_quiet lookup_def approval_key_from_bytes_def approval_key_len_def)
  have c: "sh_clock sample_shell = Some 5000" by (simp add: sample_shell_def)
  have "\<exists>token. cl_out t = [token] \<and>
     (gate_check sample_lib (Some (replicate 32 0)) (to_hex sample_lib 0) (Some 1000) (Some token) later = Inr () \<longleftrightarrow>
       unat later \<le> 5300 \<and> 5000 \<le> unat later + 300)" for later
    using minted_token_opens_gate [OF sample_hex sample_hmac t k refl refl, of later] c by (auto simp: sample_cli_def)
  from this [of 5300] this [of 5301] show ?thesis unfolding t by auto
qed

lemma silent_commit: "silent (show_commit j p)"
  by (cases p) (auto intro!: silent_bindA silent_intros)



end
