(* ===== verification/End_To_End.thy ===== *)
theory End_To_End
  imports Cli
begin

text \<open>
  The command line program and the daemon put together: the peer of an exchange is the connection loop of the daemon,
  which reads from the bytes the program has written and whose replies are the bytes the program reads. An exchange
  is then the call of the request on the daemon, and a rollback that the user does not confirm leaves the repository
  and the memory backend as they were, whatever fails on the way.
\<close>

section \<open>The daemon as a peer\<close>

text \<open>One connection: a frame is read from what has arrived, then the stream ends.\<close>

definition daemon_serve :: "lib \<Rightarrow> base64 \<Rightarrow> (layer \<Rightarrow> string) \<Rightarrow> (timestamp \<Rightarrow> string) \<Rightarrow> 'w daemon \<Rightarrow> u32 \<Rightarrow> u32 option \<Rightarrow>
    'w turn \<Rightarrow> bytes \<Rightarrow> 'w server \<Rightarrow> reader \<times> 'w server" where
  "daemon_serve L B sh rfc D uid peer t bs w =
     (case handle_connection L B sh rfc D uid peer
             [t\<lparr>tn_read := ReadFrame (fst (read_frame_bytes \<lparr>rd_data = bs, rd_fault = None\<rparr>))\<rparr>] w of
        (_, es, w') \<Rightarrow>
          (\<lparr>rd_data = concat (map (\<lambda>e. frame_of (json_print L (envelope_to_json (response_to_json B) e))) es), rd_fault = None\<rparr>,
           w'))"

text \<open>What the daemon answers to a request that reached it: the reply to it, or that its user's budget is
  exhausted.\<close>

definition answers :: "lib \<Rightarrow> base64 \<Rightarrow> (layer \<Rightarrow> string) \<Rightarrow> (timestamp \<Rightarrow> string) \<Rightarrow> 'w daemon \<Rightarrow> u32 \<Rightarrow> u32 option \<Rightarrow>
    'w turn \<Rightarrow> request \<Rightarrow> 'w server \<Rightarrow> response \<times> 'w server" where
  "answers L B sh rfc D uid peer t req w =
     (case consume uid (tn_instant t) w of (ok, w1) \<Rightarrow>
        if ok then reply_to L B sh rfc D peer t req w1 else (rate_exhausted, w1))"

lemma reply_to_read [simp]: "reply_to L B sh rfc D peer (t\<lparr>tn_read := x\<rparr>) q s = reply_to L B sh rfc D peer t q s"
  by (simp add: reply_to_def)

lemma frame_prefix:
  assumes "length m \<le> 16777216" "starts_with bs (frame_of m)"
    and "fst (read_frame_bytes \<lparr>rd_data = bs, rd_fault = None\<rparr>) = Inr (Some m')"
  shows "m' = m \<and> bs = frame_of m"
proof -
  obtain r where "read_frame_bytes \<lparr>rd_data = bs, rd_fault = None\<rparr> = (Inr (Some m'), r)"
    using assms(3) by (metis prod.collapse)
  from read_frame_bytes_sound [OF this] have m': "length m' \<le> 16777216" "bs = frame_of m' @ rd_data r" by simp_all
  obtain x where x: "frame_of m = bs @ x" using assms(2) by (rule starts_withE)
  have "read_frame_bytes \<lparr>rd_data = frame_of m @ [], rd_fault = None\<rparr> = (Inr (Some m), \<lparr>rd_data = [], rd_fault = None\<rparr>)"
    using read_frame_bytes_frame [OF assms(1), of "[]" None] by simp
  moreover have "read_frame_bytes \<lparr>rd_data = frame_of m' @ (rd_data r @ x), rd_fault = None\<rparr> =
      (Inr (Some m'), \<lparr>rd_data = rd_data r @ x, rd_fault = None\<rparr>)"
    using read_frame_bytes_frame [OF m'(1)] .
  moreover have eq: "frame_of m @ [] = frame_of m' @ (rd_data r @ x)" using x m'(2) by simp
  ultimately have "m = m'" "[] = rd_data r @ x" unfolding eq by simp_all
  with m'(2) show ?thesis by simp
qed

lemma serve_nothing:
  assumes "\<And>m. fst (read_frame_bytes \<lparr>rd_data = bs, rd_fault = None\<rparr>) \<noteq> Inr (Some m)"
  shows "daemon_serve L B sh rfc D uid peer t bs w = (\<lparr>rd_data = [], rd_fault = None\<rparr>, w)"
  using assms
  by (auto simp: daemon_serve_def connection_turn_def split: sum.split option.split frame_error.split)

lemma serve_request:
  assumes "parse_envelope_with_v0_shim L B m = Inr (cid, req)" "length m \<le> 16777216"
    and "answers L B sh rfc D uid peer t req w = (p, w')"
  shows "daemon_serve L B sh rfc D uid peer t (frame_of m) w =
     (\<lparr>rd_data = if isl (write_reply L B t (envelope_new cid p)) then []
         else frame_of (json_print L (envelope_to_json (response_to_json B) (envelope_new cid p))), rd_fault = None\<rparr>, w')"
proof -
  let ?t = "t\<lparr>tn_read := ReadFrame (Inr (Some m))\<rparr>"
  have "read_frame_bytes \<lparr>rd_data = frame_of m @ [], rd_fault = None\<rparr> = (Inr (Some m), \<lparr>rd_data = [], rd_fault = None\<rparr>)"
    by (rule read_frame_bytes_frame [OF assms(2)])
  then have read: "fst (read_frame_bytes \<lparr>rd_data = frame_of m, rd_fault = None\<rparr>) = Inr (Some m)" by simp
  have "connection_turn L B sh rfc D uid peer ?t w = (Inr (envelope_new cid p), w')"
    using assms(1, 3) by (auto simp: connection_turn_def answers_def split: prod.splits if_splits)
  moreover have "write_reply L B ?t e = write_reply L B t e" for e by (simp add: write_reply_def)
  ultimately show ?thesis
    unfolding daemon_serve_def read by (simp split: sum.split)
qed

lemma receive_nothing: "isl (receive L E cid \<lparr>rd_data = [], rd_fault = None\<rparr>)"
  by (simp add: receive_def read_frame_def read_frame_bytes_def read_exact_def bindA_def)

lemma receive_reply:
  assumes "json_law L" "b64_law (sh_b64 E)" "reply_fits L (sh_b64 E) (envelope_new cid p)"
  shows "receive L E cid \<lparr>rd_data = frame_of (json_print L (envelope_to_json (response_to_json (sh_b64 E)) (envelope_new cid p))),
     rd_fault = None\<rparr> = Inr p"
proof -
  let ?j = "envelope_to_json (response_to_json (sh_b64 E)) (envelope_new cid p)"
  have "length (json_print L ?j) \<le> 16777216" using assms(3) by (simp add: reply_fits_def max_frame_bytes_def)
  moreover have "json_exact ?j" by (rule envelope_exact flat_response)+
  moreover have "envelope_of_json (response_of_json (sh_b64 E)) ?j = Some (envelope_new cid p)"
    by (rule envelope_read) (rule response_read [OF assms(2)])
  ultimately have "fst (read_frame L (envelope_of_json (response_of_json (sh_b64 E)))
      \<lparr>rd_data = frame_of (json_print L ?j) @ [], rd_fault = None\<rparr>) = Inr (Some (envelope_new cid p))"
    using read_frame_exact [where f = "envelope_of_json (response_of_json (sh_b64 E))" and rest = "[]" and e = None, OF assms(1)]
    by simp
  then show ?thesis by (simp add: receive_def envelope_new_def)
qed


section \<open>An exchange is a call\<close>

lemma write_frame_fits:
  assumes "write_frame L j \<lparr>wr_out = [], wr_room = room\<rparr> = (r, w)" "\<not> length (json_print L j) \<le> 16777216"
  shows "wr_out w = []"
  using assms of_nat_max_frame [of "length (json_print L j)"]
  by (auto simp: write_frame_def Let_def split: if_splits)

text \<open>Whatever fails, the daemon at the other end has not been reached, or it has answered the request, and the
  program has its answer or an error.\<close>

lemma send_effect:
  assumes "json_law L" "b64_law (sh_b64 E)" "request_wf req" "sh_serve E = daemon_serve L (sh_b64 E) sh rfc D uid peer t"
    and "send L E room (envelope_new cid req) s = (r, s')"
  shows "(cl_peer s' = cl_peer s \<and> (\<forall>rd. r = Inr rd \<longrightarrow> isl (receive L E cid rd))) \<or>
     (\<exists>p. answers L (sh_b64 E) sh rfc D uid peer t req (cl_peer s) = (p, cl_peer s') \<and>
        (\<forall>rd. r = Inr rd \<longrightarrow> receive L E cid rd = Inr p \<or> isl (receive L E cid rd)))"
proof -
  let ?B = "sh_b64 E"
  let ?j = "envelope_to_json (request_to_json ?B) (envelope_new cid req)"
  let ?m = "json_print L ?j"
  obtain q w where w: "write_frame L ?j \<lparr>wr_out = [], wr_room = room\<rparr> = (q, w)" by fastforce
  obtain rd d where rd: "daemon_serve L ?B sh rfc D uid peer t (wr_out w) (cl_peer s) = (rd, d)" by fastforce
  have r: "cl_peer s' = d" "r = map_err (\<lambda>e. CliError (frame_context e)) (map_sum id (\<lambda>_. rd) q)"
    using assms(5) w rd unfolding send_def assms(4) by auto
  have s': "cl_peer s' = d" "\<And>x. r = Inr x \<Longrightarrow> x = rd"
    using r by (simp, cases q) (auto simp: map_err_def)
  show ?thesis
  proof (cases "\<exists>m. fst (read_frame_bytes \<lparr>rd_data = wr_out w, rd_fault = None\<rparr>) = Inr (Some m)")
    case False
    then have "rd = \<lparr>rd_data = [], rd_fault = None\<rparr>" "d = cl_peer s"
      using serve_nothing [of "wr_out w" L ?B sh rfc D uid peer t "cl_peer s"] rd by auto
    with s' show ?thesis by (auto simp: receive_nothing)
  next
    case True
    then obtain m where m: "fst (read_frame_bytes \<lparr>rd_data = wr_out w, rd_fault = None\<rparr>) = Inr (Some m)" ..
    have "fst (read_frame_bytes \<lparr>rd_data = [], rd_fault = None\<rparr>) = Inr None"
      by (simp add: read_frame_bytes_def read_exact_def)
    with m have "wr_out w \<noteq> []" by auto
    then have len: "length ?m \<le> 16777216" using write_frame_fits [OF w] by blast
    from frame_prefix [OF len write_frame_part [OF w] m] have bs: "wr_out w = frame_of ?m" by simp
    obtain p v where p: "answers L ?B sh rfc D uid peer t req (cl_peer s) = (p, v)" by fastforce
    from serve_request [OF parse_v1 [OF assms(1-3)] len p] rd bs
    have d: "d = v" "rd = \<lparr>rd_data = if isl (write_reply L ?B t (envelope_new cid p)) then []
         else frame_of (json_print L (envelope_to_json (response_to_json ?B) (envelope_new cid p))), rd_fault = None\<rparr>"
      by simp_all
    have "receive L E cid rd = Inr p \<or> isl (receive L E cid rd)"
    proof (cases "isl (write_reply L ?B t (envelope_new cid p))")
      case True
      with d(2) show ?thesis by (simp add: receive_nothing)
    next
      case False
      then have "reply_fits L ?B (envelope_new cid p)" by (auto simp: write_reply_def split: if_splits)
      from receive_reply [OF assms(1, 2) this] d(2) False show ?thesis by simp
    qed
    with p d(1) s' show ?thesis by auto
  qed
qed

lemma exchange_effect:
  assumes "json_law L" "b64_law (sh_b64 E)" "request_wf req" "sh_serve E = daemon_serve L (sh_b64 E) sh rfc D uid peer t"
    and "round_trip L E repo req s = (r, s')" "snd (sh_connect E (socket_path E repo) (cl_peer s)) = w"
  shows "(cl_peer s' = w \<and> isl r) \<or>
     (\<exists>p. answers L (sh_b64 E) sh rfc D uid peer t req w = (p, cl_peer s') \<and> (r = Inr p \<or> isl r))"
proof -
  obtain x s1 where c: "connect E (socket_path E repo) s = (x, s1)" by fastforce
  have s1: "cl_peer s1 = w" using c assms(6) by (auto simp: connect_def split: prod.splits)
  show ?thesis
  proof (cases x)
    case (Inl e)
    with assms(5) c s1 show ?thesis by (auto simp: round_trip_def bindA_def)
  next
    case (Inr room)
    obtain cid s2 where i: "new_correlation_id E s1 = (Inr cid, s2)" by (simp add: new_correlation_id_def)
    have s2: "cl_peer s2 = w" using i s1 by (auto simp: new_correlation_id_def)
    obtain y s3 where y: "send L E room (envelope_new cid req) s2 = (y, s3)" by fastforce
    have "s' = s3" "r = (case y of Inl e \<Rightarrow> Inl e | Inr rd \<Rightarrow> receive L E cid rd)"
      using assms(5) c i y Inr by (auto simp: round_trip_def bindA_def split: sum.splits)
    with send_effect [OF assms(1-4) y] s2 show ?thesis by (cases y) auto
  qed
qed


lemma exchange_runs:
  assumes "json_law L" "b64_law (sh_b64 E)" "request_wf req" "sh_serve E = daemon_serve L (sh_b64 E) sh rfc D uid peer t"
    and "sh_connect E (socket_path E repo) (cl_peer s) = (Inr None, w)" "fst (new_correlation_id E s) = Inr cid"
    and "length (json_print L (envelope_to_json (request_to_json (sh_b64 E)) (envelope_new cid req))) \<le> 16777216"
    and "answers L (sh_b64 E) sh rfc D uid peer t req w = (p, w')"
    and "tn_write t = Inr ()" "reply_fits L (sh_b64 E) (envelope_new cid p)"
  shows "\<exists>s'. round_trip L E repo req s = (Inr p, s') \<and> cl_peer s' = w' \<and> cl_fs s' = cl_fs s \<and> cl_out s' = cl_out s"
proof -
  let ?B = "sh_b64 E"
  let ?j = "envelope_to_json (request_to_json ?B) (envelope_new cid req)"
  let ?m = "json_print L ?j"
  have c: "connect E (socket_path E repo) s = (Inr None, s\<lparr>cl_peer := w\<rparr>)"
    using assms(5) by (simp add: connect_def map_err_def)
  define s2 where "s2 = (s\<lparr>cl_peer := w, cl_counter := cl_counter s + 1\<rparr>)"
  have i: "new_correlation_id E (s\<lparr>cl_peer := w\<rparr>) = (Inr cid, s2)"
    using assms(6) by (simp add: new_correlation_id_def s2_def)
  have wf: "write_frame L ?j \<lparr>wr_out = [], wr_room = None\<rparr> = (Inr (), \<lparr>wr_out = frame_of ?m, wr_room = None\<rparr>)"
    using assms(7) of_nat_max_frame [of "length ?m"]
    by (simp add: write_frame_def Let_def bindA_def map_errA_def write_all_quiet frame_of_def del: be_bytes.simps)
  have "write_reply L ?B t (envelope_new cid p) = Inr ()" using assms(9, 10) by (simp add: write_reply_def)
  then have serve: "sh_serve E (frame_of ?m) w =
      (\<lparr>rd_data = frame_of (json_print L (envelope_to_json (response_to_json ?B) (envelope_new cid p))), rd_fault = None\<rparr>, w')"
    unfolding assms(4) using serve_request [OF parse_v1 [OF assms(1-3)] assms(7, 8)] by simp
  let ?rd = "\<lparr>rd_data = frame_of (json_print L (envelope_to_json (response_to_json ?B) (envelope_new cid p))), rd_fault = None\<rparr>"
  have "send L E None (envelope_new cid req) s2 = (Inr ?rd, s2\<lparr>cl_sent := cl_sent s2 @ [frame_of ?m], cl_peer := w'\<rparr>)"
    using serve wf by (simp add: send_def s2_def map_err_def)
  moreover have "receive L E cid ?rd = Inr p" by (rule receive_reply [OF assms(1, 2, 10)])
  ultimately show ?thesis
    using c i by (simp add: round_trip_def bindA_def s2_def)
qed

section \<open>A rollback that is not confirmed\<close>

definition world_same :: "(fs \<times> 'm) server \<Rightarrow> (fs \<times> 'm) server \<Rightarrow> bool" where
  "world_same s t \<longleftrightarrow> entries (fst (fst (sv_data t))) = entries (fst (fst (sv_data s))) \<and>
     snd (fst (sv_data t)) = snd (fst (sv_data s))"

lemma world_same_refl [simp]: "world_same s s"
  by (simp add: world_same_def)

lemma world_same_trans: "world_same s t \<Longrightarrow> world_same t u \<Longrightarrow> world_same s u"
  by (simp add: world_same_def)

lemma world_same_data: "sv_data t = sv_data s \<Longrightarrow> world_same s t"
  by (simp add: world_same_def)

lemma dry_work:
  assumes "lib_ok L" "local_daemon L al D" "on_data (locked_rollback L D peer ck target True accept token) s = (r, t)"
  shows "world_same s t"
proof -
  obtain w lg where d: "sv_data s = (w, lg)" by (cases "sv_data s")
  let ?a = "\<lparr>ra_target = target, ra_dry_run = True, ra_accept = accept, ra_token = token, ra_repo = d_repo D\<rparr>"
  obtain q w' lg' where q: "rollback_execute L D ?a peer (ck_secs ck) (ck_now ck) (w, lg) = (q, (w', lg'))"
    by (metis prod.exhaust)
  have "sv_data t = (w', lg')"
    using assms(3) q d by (auto simp: on_data_def locked_rollback_def bindA_def split: sum.splits)
  with dry_run_reads [OF assms(1, 2) _ q] d show ?thesis by (simp add: world_same_def)
qed

lemma dry_reply:
  assumes "lib_ok L" "local_daemon L al D" "tn_elsewhere t = id"
  shows "world_same s (snd (reply_to L B sh rfc D peer t (RRollback target True accept token) s))"
proof -
  let ?work = "locked_rollback L D peer (tn_clock t) target True accept token"
  have work: "world_same u (snd (on_data ?work u))" for u
    using dry_work [OF assms(1, 2)] by (metis prod.collapse)
  have locked: "world_same u (snd (bindA not_shutting_down (\<lambda>_. on_data ?work) u))" for u
    using work by (auto simp: bindA_def not_shutting_down_def split: sum.split)
  have "world_same u (snd (with_slot (\<lambda>s. bindA not_shutting_down (\<lambda>_. on_data ?work) (id s)) u))" for u
  proof (cases "try_commit_slot (sv_slots u)")
    case (Some sl)
    let ?u = "u\<lparr>sv_slots := sl\<rparr>"
    obtain r v where v: "bindA not_shutting_down (\<lambda>_. on_data ?work) ?u = (r, v)" by fastforce
    have "world_same ?u v" using locked [of ?u] v by simp
    then have "world_same u (release_slot v)" by (simp add: world_same_def release_slot_def)
    with Some v show ?thesis by (simp add: with_slot_def bindA_def take_slot_def)
  qed (simp add: with_slot_def bindA_def take_slot_def)
  then have "world_same s (snd (write_path id (request_work L rfc D peer (tn_clock t) (RRollback target True accept token)) s))"
    by (auto simp: write_path_def bindA_def not_shutting_down_def split: sum.split)
  then show ?thesis
    using assms(3) by (auto simp: reply_to_def split: prod.splits sum.splits)
qed

lemma dry_exchange:
  assumes "json_law L" "lib_ok L" "b64_law (sh_b64 E)" "local_daemon L al D" "tn_elsewhere t = id"
    and "sh_serve E = daemon_serve L (sh_b64 E) sh rfc D uid peer t"
    and "\<And>p d. sv_data (snd (sh_connect E p d)) = sv_data d"
    and "round_trip L E repo (RRollback target True accept token) s = (r, s')"
  shows "world_same (cl_peer s) (cl_peer s')"
proof -
  let ?req = "RRollback target True accept token" and ?w = "snd (sh_connect E (socket_path E repo) (cl_peer s))"
  have w: "world_same (cl_peer s) ?w" using assms(7) by (rule world_same_data)
  have "world_same ?w v" if a: "answers L (sh_b64 E) sh rfc D uid peer t ?req ?w = (p, v)" for p v
  proof -
    obtain ok w1 where c: "consume uid (tn_instant t) ?w = (ok, w1)" by fastforce
    then have "world_same ?w w1" by (auto simp: consume_def intro!: world_same_data split: prod.splits)
    moreover have "world_same w1 v"
      using a c dry_reply [OF assms(2, 4, 5), of w1 "sh_b64 E" sh rfc peer target accept token]
      by (auto simp: answers_def split: if_splits)
    ultimately show ?thesis by (rule world_same_trans)
  qed
  with exchange_effect [OF assms(1, 3) _ assms(6, 8) refl] w show ?thesis
    by (auto intro: world_same_trans)
qed


section \<open>Properties\<close>

text \<open>
  C11. An exchange is a call. When the connection stands and both messages fit into a frame, the command line
  program gets for a request exactly what the daemon answers to it, the reply to that request or that its user's
  budget is exhausted, and the daemon is left as the request leaves it: printing, framing, the shims of the protocol
  versions, decoding and the correlation of the reply add nothing and lose nothing.
\<close>

theorem exchange_is_call:
  assumes "json_law L" "b64_law (sh_b64 E)" "request_wf req" "sh_serve E = daemon_serve L (sh_b64 E) sh rfc D uid peer t"
    and "sh_connect E (socket_path E repo) (cl_peer s) = (Inr None, w)" "fst (new_correlation_id E s) = Inr cid"
    and "length (json_print L (envelope_to_json (request_to_json (sh_b64 E)) (envelope_new cid req))) \<le> 16777216"
    and "(if fst (consume uid (tn_instant t) w) then reply_to L (sh_b64 E) sh rfc D peer t req (snd (consume uid (tn_instant t) w))
          else (rate_exhausted, snd (consume uid (tn_instant t) w))) = (p, w')"
    and "tn_write t = Inr ()" "reply_fits L (sh_b64 E) (envelope_new cid p)"
  shows "\<exists>s'. round_trip L E repo req s = (Inr p, s') \<and> cl_peer s' = w' \<and> cl_fs s' = cl_fs s \<and> cl_out s' = cl_out s"
proof -
  have "answers L (sh_b64 E) sh rfc D uid peer t req w = (p, w')"
    using assms(8) by (simp add: answers_def case_prod_unfold)
  from exchange_runs [OF assms(1-7) this assms(9, 10)] show ?thesis .
qed

text \<open>The daemon of an empty repository, or of one commit, at the other end of the socket.\<close>

definition served_shell :: "fs im server shell" where
  "served_shell =
     \<lparr>sh_b64 = sample_b64, sh_pid = 7, sh_env = (\<lambda>_. None), sh_cwd = [''r''], sh_cwd_error = None,
      sh_connect = (\<lambda>_ d. (Inr None, d)),
      sh_serve = daemon_serve sample_lib sample_b64 (\<lambda>_. []) (\<lambda>_. []) sample_daemon 7 None
        \<lparr>tn_read = ReadElapsed, tn_instant = 0, tn_clock = \<lparr>ck_secs = 0, ck_now = 0\<rparr>, tn_elsewhere = id, tn_write = Inr ()\<rparr>,
      sh_git = (\<lambda>_. Inl (IoError IoNotFound ''git'')), sh_clock = Some 5000\<rparr>"

definition served_cli :: "fs \<Rightarrow> (io_error + string) list \<Rightarrow> fs im server cli" where
  "served_cli f input =
     \<lparr>cl_fs = empty_fs, cl_peer = server_start sample_daemon (f, im_new), cl_counter = 1, cl_stdin = input, cl_out = [],
      cl_err = [], cl_sent = []\<rparr>"

theorem exchange_is_call_witness:
  "\<exists>s'. round_trip sample_lib served_shell [''r''] Ping (served_cli empty_fs []) = (Inr Pong, s')"
proof -
  let ?t = "\<lparr>tn_read = ReadElapsed, tn_instant = 0, tn_clock = \<lparr>ck_secs = 0, ck_now = 0\<rparr>, tn_elsewhere = id, tn_write = Inr ()\<rparr> :: fs im turn"
  let ?s = "served_cli empty_fs []" and ?w = "server_start sample_daemon (empty_fs, im_new)"
  have b: "sh_b64 served_shell = sample_b64" "b64_law (sh_b64 served_shell)" by (simp_all add: served_shell_def sample_b64_law)
  have serve: "sh_serve served_shell = daemon_serve sample_lib (sh_b64 served_shell) (\<lambda>_. []) (\<lambda>_. []) sample_daemon 7 None ?t"
    by (simp add: served_shell_def)
  have c: "sh_connect served_shell (socket_path served_shell [''r'']) (cl_peer ?s) = (Inr None, ?w)"
    by (simp add: served_shell_def served_cli_def)
  have "show_nat 7 = ''7''" "show_nat 1 = ''1''" by code_simp+
  then have i: "fst (new_correlation_id served_shell ?s) = Inr ''cli-7-1''"
    by (simp add: new_correlation_id_def served_shell_def served_cli_def)
  have q: "length (json_print sample_lib (envelope_to_json (request_to_json (sh_b64 served_shell)) (envelope_new ''cli-7-1'' Ping))) \<le> 16777216"
    by (simp add: sample_lib_def envelope_to_json_def envelope_new_def tagged_def of_u16_def)
  have p: "reply_fits sample_lib (sh_b64 served_shell) (envelope_new ''cli-7-1'' Pong)"
    by (simp add: reply_fits_def max_frame_bytes_def sample_lib_def envelope_to_json_def envelope_new_def tagged_def of_u16_def)
  obtain w1 where w1: "consume 7 0 ?w = (True, w1)"
    by (simp add: consume_def try_consume_def server_start_def sample_daemon_def rate_new_def)
  have r: "(if fst (consume 7 (tn_instant ?t) ?w) then reply_to sample_lib (sh_b64 served_shell) (\<lambda>_. []) (\<lambda>_. []) sample_daemon
        None ?t Ping (snd (consume 7 (tn_instant ?t) ?w)) else (rate_exhausted, snd (consume 7 (tn_instant ?t) ?w))) = (Pong, w1)"
    by (simp add: w1 reply_to_def on_data_def ret_def)
  have "request_wf Ping" "tn_write ?t = Inr ()" by simp_all
  from exchange_is_call [OF sample_json b(2) this(1) serve c i q r this(2) p] show ?thesis by blast
qed

text \<open>
  C12. A rollback that is a dry run, or that the user does not confirm with a yes, changes nothing at the other end:
  whatever the daemon replies, wherever the connection or the daemon's file system fails, no file of the repository
  and nothing of the memory backend differs afterwards; and without a yes the command fails.
\<close>

theorem declined_rollback_harmless:
  assumes "lib_ok L" "json_law L" "b64_law (sh_b64 E)" "local_daemon L al D" "tn_elsewhere t = id"
    and "sh_serve E = daemon_serve L (sh_b64 E) sh rfc D uid peer t"
    and "\<And>p d. sv_data (snd (sh_connect E p d)) = sv_data d"
    and "cmd_rollback L E repo target dry yes accept token json s = (r, s')"
    and "dry \<or> \<not> yes \<and> (\<forall>line rest. cl_stdin s = Inr line # rest \<longrightarrow> \<not> says_yes line)"
  shows "entries (fst (fst (sv_data (cl_peer s')))) = entries (fst (fst (sv_data (cl_peer s)))) \<and>
     snd (fst (sv_data (cl_peer s'))) = snd (fst (sv_data (cl_peer s))) \<and> (dry \<or> isl r)"
proof -
  let ?req = "RRollback target True accept token"
  obtain x u where x: "round_trip L E repo ?req s = (x, u)" by fastforce
  have u: "world_same (cl_peer s) (cl_peer u)"
    using dry_exchange [OF assms(2, 1, 3-7) x] .
  have "world_same (cl_peer s) (cl_peer s') \<and> (dry \<or> isl r)"
  proof (cases dry)
    case True
    with assms(8) x have "s' = u \<or> (\<exists>p. show_rollback L json p u = (r, s'))"
      by (auto simp: cmd_rollback_def bindA_def split: sum.splits)
    then have "cl_peer s' = cl_peer u" using silentD(2) [OF silent_rollback(1)] by auto
    with u True show ?thesis by simp
  next
    case False
    with assms(9) have ask: "\<not> yes" "\<forall>line rest. cl_stdin s = Inr line # rest \<longrightarrow> \<not> says_yes line" by auto
    obtain y v where y: "confirm L E repo target accept token s = (y, v)" by fastforce
    have "isl y" using confirm_sends [OF assms(2, 3) y] ask(2) by auto
    then have "s' = v" "isl r"
      using assms(8) y ask(1) False by (auto simp: cmd_rollback_def bindA_def isl_def)
    moreover have "v = u \<or> (\<exists>p. bindA (plan_of p) (ask_user target) u = (y, v))"
      using y x by (auto simp: confirm_def bindA_def split: sum.splits)
    then have "cl_peer v = cl_peer u" using silentD(2) [OF silent_confirm] by auto
    ultimately show ?thesis using u by simp
  qed
  then show ?thesis by (simp add: world_same_def)
qed

theorem declined_rollback_harmless_witness:
  "\<exists>r s'. cmd_rollback sample_lib served_shell [''r''] ''main'' False False False None False (served_cli one_commit [Inr ''no'']) =
     (r, s') \<and> entries (fst (fst (sv_data (cl_peer s')))) = entries one_commit \<and> isl r"
proof -
  let ?s = "served_cli one_commit [Inr ''no'']"
  obtain r s' where r: "cmd_rollback sample_lib served_shell [''r''] ''main'' False False False None False ?s = (r, s')" by fastforce
  have b: "b64_law (sh_b64 served_shell)" by (simp add: served_shell_def sample_b64_law)
  have "\<not> says_yes line" if "cl_stdin ?s = Inr line # rest" for line rest
    using that says_no by (auto simp: served_cli_def)
  then have no: "False \<or> \<not> False \<and> (\<forall>line rest. cl_stdin ?s = Inr line # rest \<longrightarrow> \<not> says_yes line)" by blast
  have "entries (fst (fst (sv_data (cl_peer s')))) = entries (fst (fst (sv_data (cl_peer ?s)))) \<and>
     snd (fst (sv_data (cl_peer s'))) = snd (fst (sv_data (cl_peer ?s))) \<and> (False \<or> isl r)"
    by (rule declined_rollback_harmless [OF sample_ok sample_json b sample_daemon_local _ _ _ r no])
      (simp_all add: served_shell_def)
  with r show ?thesis by (simp add: served_cli_def server_start_def)
qed

end
