(* ===== verification/Spec2Isabelle.thy ===== *)
theory Spec2Isabelle
  imports Commit_Diff Approval Memory_Adapter Wire_Error Admission Recovery Gcs_Store Postgres End_To_End
begin

text \<open>
  A model of git.agentic: version control for the state of an agent. A commit names, by content hash, the
  prompts, the fingerprints of the tools, the model text and a manifest of the memory of an agent. The
  repository is a workspace of five crates, which the theories follow.

  \<^item> \<open>agentic-core\<close> keeps objects and refs: \<open>Objects\<close> (\<open>hash.rs\<close>, \<open>object.rs\<close>), \<open>Secret_Scanner\<close> (\<open>scanner.rs\<close>,
    \<open>scanner_patterns.rs\<close>), \<open>Object_Store\<close> (\<open>store.rs\<close>), \<open>Gcs_Store\<close> (\<open>gcs_store.rs\<close>), \<open>Refs\<close> (\<open>refs.rs\<close>),
    \<open>Commit_Staging\<close> (\<open>commit.rs\<close>), \<open>Commit_Diff\<close> (\<open>diff.rs\<close>), \<open>Approval\<close> (\<open>approval.rs\<close>).
  \<^item> \<open>agentic-memory\<close> snapshots and restores a database: \<open>Segments\<close> (\<open>segment.rs\<close>, the errors of \<open>lib.rs\<close>),
    \<open>Memory_Adapter\<close> (\<open>adapter.rs\<close>, \<open>in_memory.rs\<close>), \<open>Streamer\<close> (\<open>streamer.rs\<close>), \<open>Restore\<close> (\<open>restore.rs\<close>), \<open>Triggers\<close>
    (\<open>triggers.rs\<close>), \<open>Bootstrap\<close> and \<open>Postgres\<close> (\<open>postgres.rs\<close>).
  \<^item> \<open>agentic-proto\<close> is the protocol of the socket: \<open>Wire\<close> (\<open>lib.rs\<close>, \<open>framing.rs\<close>).
  \<^item> \<open>agenticd\<close> is the daemon: \<open>Wire_Error\<close> (\<open>wire_error.rs\<close>), \<open>Admission\<close> (\<open>limits.rs\<close>, \<open>peer_auth.rs\<close>), \<open>Migrate\<close>
    (\<open>migrate.rs\<close>), \<open>Writeback\<close> (\<open>rollback/writeback.rs\<close>, \<open>rollback/loaders.rs\<close>), \<open>Mcp\<close> (\<open>mcp.rs\<close>), \<open>Daemon\<close>
    (\<open>commit.rs\<close>, \<open>membackend.rs\<close>, the state of \<open>server.rs\<close>), \<open>Rollback\<close> (\<open>rollback/mod.rs\<close>), \<open>Server\<close> (\<open>server.rs\<close>),
    \<open>Lifecycle\<close> (\<open>lifecycle.rs\<close> and the locks of \<open>server.rs\<close>), \<open>Startup\<close> (\<open>main.rs\<close>, \<open>objstore.rs\<close>,
    \<open>store_async.rs\<close>).
  \<^item> \<open>agentic-cli\<close> is the command line: \<open>Cli\<close> (\<open>main.rs\<close>, \<open>client.rs\<close>).
\<close>

text \<open>
  How the parts interact. The command line writes one frame on the socket and reads one reply. The accept
  loop admits the connection by its user; a connection decodes each frame at either protocol version, spends the
  budget of the user and dispatches. Reads run at once; a commit or a rollback takes a slot of a bounded queue, waits
  for the commit lock, and runs under it. A commit takes the memory snapshot and the fingerprints, puts the blobs, the
  trees and the commit into the store and moves the branch last. A rollback passes the approval gate, reverses
  migrations, restores the memory, writes the prompts back and records itself as a new commit. Every error becomes a
  classified reply. A start reconciles the refs with the store before it listens.

  The theories that model no file hold what the others share: \<open>Prelude\<close> (results as sums, actions on a state,
  how an action preserves or relates states, sorted maps), \<open>Rust_Std\<close> (strings, numbers, UTF-8), \<open>Json\<close> (documents
  and what serde derives), \<open>File_System\<close> (a file system with a script of faults), \<open>Sample_Lib\<close> (a concrete instance of
  the third-party code, which shows that its laws can hold and on which the witnesses run). Two theories compose:
  \<open>Recovery\<close> puts the schedule of requests, commit staging and the reconciliation together, \<open>End_To_End\<close> the
  command line and the daemon.
\<close>

text \<open>
  How the model corresponds to the code. A Rust \<open>String\<close> is the list of its UTF-8 bytes as characters, a byte a
  word of 8 bits, a hash a word of 256, integers keep their width; \<open>usize\<close> counts of memory are natural numbers. A
  \<open>Result\<close> is a sum, \<open>Inl\<close> the error; an \<open>anyhow\<close> chain is the list of its layers. Texts of errors and of log messages
  are abbreviated; what a command prints is not. \<open>HashMap\<close> and \<open>BTreeMap\<close> are association lists sorted by key. A
  function with effects is an action: a function from a state to a result and a state. The trait \<open>ObjectStore\<close> is the record
  \<open>store_ops\<close>, the trait \<open>MemoryAdapter\<close> the record \<open>mem_ops\<close>.

  Code that is not in the repository is a parameter with named laws: the crates for hashing, compression, JSON,
  hexadecimal digits, HMAC and time stamps are the record \<open>lib\<close> (\<open>hex_law\<close>, \<open>json_law\<close>, \<open>zstd_law\<close>, \<open>hmac_law\<close> and
  \<open>ts_law\<close>; no law says that a hash or a MAC has no collisions); base64, the parser of URLs, the HTTP clients,
  the network of the tool servers, the database's execution of a statement (\<open>pg_law\<close>), what is around the daemon
  (\<open>host\<close>) and around a command (\<open>shell\<close>).

  The file system is a flat map from paths to entries. Each primitive takes one element of a script of
  faults: it runs, or it fails, for a write after some of the bytes. A crash is a script in which all later calls
  fail, so what holds for every script holds at every crash point. The database is a record with a script of its own:
  before each statement the connection may fail or other sessions may commit rows. A transaction that does not
  commit changes nothing. Work under the commit lock is one step of the schedule (\<open>sched_step\<close>); requests that do not take the lock
  run between such steps. The accept loop takes events in any order; the turns of a connection carry what
  surrounds them. A panic of the command line is a value.
\<close>

text \<open>
  Interfaces. \<open>object_store\<close> states the contract of a store (what a get returns after a put, that nothing
  stored is lost, which calls only read); the local store satisfies it (\<open>local_store\<close>), and \<open>stable_store\<close>, \<open>refs_store\<close> and
  \<open>fresh_store\<close> extend it by what diffs, commits and snapshots need. \<open>verified_store\<close> is the weaker contract that a
  remote store with a cache keeps: no read returns bytes that do not hash to the address (\<open>gcs\<close>).
  \<open>memory_adapter\<close> is the contract of a memory backend: a snapshot names the schema, a restore of another schema is
  refused, a plan of reverse migrations reaches the schema of the target; the in-memory adapter (\<open>im\<close>) and the
  Postgres adapter (\<open>pg\<close>) satisfy it. \<open>daemon_world\<close> and \<open>local_instance\<close> are what a daemon needs of its store, refs and
  backend. \<open>lib_laws\<close> bundles the laws of the crates.
\<close>

text \<open>
  What the lemmas show, in groups.

  \<^item> Storage. What is put is got back; a write that fails leaves every other object, and an object is complete or
    absent, at every crash point; no read returns an object that does not hash to its address, from the disk or the bucket; an object in which
    the scanner finds a credential is refused by every path but an exempt one.
  \<^item> Refs and commits. A branch name stays inside its directory; the branch moves only after everything the
    commit names is stored, and only to a stored commit; a diff reports exactly what differs.
  \<^item> Memory. A snapshot followed by a restore gives the rows back; the streamer keeps every event it is given; a
    drain comes back for every log and accounts for every row; the batches of a restore replay the
    events one by one and stay within the limits of the protocol; a scan captures every row.
  \<^item> Requests. Frames, envelopes and messages read back; errors are classified; the interleaved requests behave as some
    sequence of them; a shutdown comes to rest after the work that was begun.
  \<^item> Rollback. No loss of data without a token for that commit and worker; the new commit restores the
    target and the prompts on disk are those of the target.
  \<^item> The whole. Under every interleaving, failure and crash no branch names a missing commit, so the next start is
    not refused; an exchange on the socket is the call of the request; a rollback that is not confirmed
    changes nothing; a token that was minted opens the gate it was minted for; the prompt files that are sent are those
    that are there; the command line does not panic.
\<close>

text \<open>
  Bounds and fuel. Walks of a directory tree carry the depth of the deepest entry as fuel, which suffices
  because a level is one component longer (\<open>walk_exact\<close>, \<open>collect_covers\<close>, the sweep of the write-back). A log walk is bounded by the
  limit of its caller. A drain is a \<open>partial_function\<close>; that it returns for every finite script
  is a theorem (\<open>drain_terminates\<close>). Frames hold at most 16 MiB, objects sent inline 10 MiB, batched statements 60000 parameters; these
  are the constants of the code.

  Not modelled. The handlers of signals and the cancellation token (\<open>lifecycle.rs\<close>, lines 54 to 147) are calls of
  the runtime whose effect, a shutdown at any moment, is a step of \<open>sched_step\<close>. Parsing of the command
  lines is generated by \<open>clap\<close> from the fields that are modelled. Tracing writes logs nobody reads back, except the audit
  events of the approval gate, which are modelled. Crate roots hold declarations only. Tests, benches, examples, the
  Python SDK, the website and the documents are not part of the daemon or the command line. The text of the
  SQL that creates functions and triggers is not interpreted; its effect, that a committed change adds a row to the change
  log, is. Time-outs appear as outcomes of the turn they end. Logical decoding is only configured by the code, nothing reads
  from the slot.
\<close>

end
